(* ===== verification/Prelude.thy ===== *)
theory Prelude
  imports Main "HOL-Library.Word"
begin

text \<open>
  Shared vocabulary of the development: the machine integer types of the C sources, the result
  type of fallible kernel code, the arithmetic macros of \<^verbatim>\<open>include/math.h\<close>, the constants of
  \<^verbatim>\<open>include/page.h\<close> and \<^verbatim>\<open>include/addr.h\<close>, and the generic lemmas on words, lists and results
  that the component theories share.
\<close>

unbundle bit_operations_syntax

section \<open>Machine integers and results\<close>

type_synonym u8 = "8 word"
type_synonym u16 = "16 word"
type_synonym u32 = "32 word"
type_synonym u64 = "64 word"

text \<open>
  A call of \<^verbatim>\<open>panic\<close> never returns, an access outside an object is undefined behaviour: both are
  error values, so that ``does not panic'' and ``stays in bounds'' are provable statements.
  \<open>Undefined\<close> is other undefined behaviour: a shift by the width of the type or more, a division by zero.
\<close>

datatype kerr = Panic string | OutOfBounds | NullDeref | Undefined

datatype 'a kres = Ok 'a | Err kerr

primrec rbind :: "'a kres \<Rightarrow> ('a \<Rightarrow> 'b kres) \<Rightarrow> 'b kres" where
  "rbind (Ok x) f = f x"
| "rbind (Err e) f = Err e"

text \<open>A loop over a list of indices whose body threads a state and may fail.\<close>

fun rfold :: "('a \<Rightarrow> 's \<Rightarrow> 's kres) \<Rightarrow> 'a list \<Rightarrow> 's \<Rightarrow> 's kres" where
  "rfold f [] s = Ok s"
| "rfold f (x # xs) s = rbind (f x s) (rfold f xs)"

text \<open>A computation that may also run for ever: \<open>None\<close> is a computation that does not end.\<close>

definition tbind :: "'a kres option \<Rightarrow> ('a \<Rightarrow> 'b kres option) \<Rightarrow> 'b kres option" where
  "tbind m f = (case m of None \<Rightarrow> None | Some (Err e) \<Rightarrow> Some (Err e) | Some (Ok x) \<Rightarrow> f x)"

primrec is_Ok :: "'a kres \<Rightarrow> bool" where
  "is_Ok (Ok x) = True"
| "is_Ok (Err e) = False"

named_theorems unat_simps \<open>transfer of 64-bit arithmetic to the natural numbers\<close>

section \<open>Arithmetic macros (include/math.h)\<close>

definition ROUND_DOWN :: "u64 \<Rightarrow> u64 \<Rightarrow> u64" where
  "ROUND_DOWN a b = (a div b) * b"

definition ROUND_UP :: "u64 \<Rightarrow> u64 \<Rightarrow> u64" where
  "ROUND_UP a b = ((a + b - 1) div b) * b"

definition DIV_UP :: "u64 \<Rightarrow> u64 \<Rightarrow> u64" where
  "DIV_UP a b = (a + b - 1) div b"

section \<open>Pages and addresses (include/page.h, include/addr.h)\<close>

definition PAGE_SIZE :: u64 where
  "PAGE_SIZE = 4096"

definition PAGE_MAX_ORDER :: nat where
  "PAGE_MAX_ORDER = 10"

definition HHDM_BASE :: u64 where
  "HHDM_BASE = 0xFFFF888000000000"

definition hhdm_to_phys :: "u64 \<Rightarrow> u64" where
  "hhdm_to_phys hhdm = hhdm - HHDM_BASE"

definition phys_to_hhdm :: "u64 \<Rightarrow> u64" where
  "phys_to_hhdm phys = phys + HHDM_BASE"

section \<open>Results\<close>

lemma rbind_eq_Ok [simp]: "rbind m f = Ok y \<longleftrightarrow> (\<exists>x. m = Ok x \<and> f x = Ok y)"
  by (cases m) auto

lemma rbind_OkE [elim!]:
  assumes "rbind m f = Ok y"
  obtains x where "m = Ok x" and "f x = Ok y"
  using assms by auto

lemma rfold_append: "rfold f (xs @ ys) s = rbind (rfold f xs s) (rfold f ys)"
proof (induction xs arbitrary: s)
  case (Cons x xs)
  then show ?case by (cases "f x s") simp_all
qed simp

lemma rfold_snoc: "rfold f (xs @ [x]) s = rbind (rfold f xs s) (f x)"
proof -
  have "rbind (f x y) (rfold f []) = f x y" for y by (cases "f x y") simp_all
  then show ?thesis by (simp add: rfold_append) (cases "rfold f xs s"; simp)
qed

lemma rbind_assoc: "rbind (rbind m f) g = rbind m (\<lambda>x. rbind (f x) g)"
  by (cases m) auto

text \<open>
  Evaluation of concrete programs by the simplifier: with this congruence rule it normalises the
  first computation and enters the continuation only once that has become a value.
\<close>

lemma tbind_simps [simp]:
  "tbind None f = None" "tbind (Some (Err e)) f = Some (Err e)" "tbind (Some (Ok x)) f = f x"
  by (simp_all add: tbind_def)

lemma rbind_weak_cong: "m = m' \<Longrightarrow> rbind m f = rbind m' f"
  by simp

lemma is_Ok_iff: "is_Ok m \<longleftrightarrow> (\<exists>x. m = Ok x)"
  by (cases m) auto

section \<open>Words\<close>

lemma unat_add_lt [unat_simps]:
  fixes a b :: "'a::len word"
  assumes "unat a + unat b < 2 ^ LENGTH('a)"
  shows "unat (a + b) = unat a + unat b"
  using assms by (simp add: unat_word_ariths)

lemma unat_sub_le [unat_simps]:
  fixes a b :: "'a::len word"
  assumes "b \<le> a"
  shows "unat (a - b) = unat a - unat b"
  using assms by (simp add: unat_sub)

lemma unat_mult_lt [unat_simps]:
  fixes a b :: "'a::len word"
  assumes "unat a * unat b < 2 ^ LENGTH('a)"
  shows "unat (a * b) = unat a * unat b"
  using assms by (simp add: unat_word_ariths)

lemma unat_div_eq [unat_simps]:
  fixes a b :: "'a::len word"
  shows "unat (a div b) = unat a div unat b"
  by (simp add: unat_div)

text \<open>The range check \<open>addr + size < addr\<close> of the sources detects exactly the wrap-around.\<close>

lemma no_wrap_iff:
  fixes a b :: "'a::len word"
  shows "\<not> a + b < a \<longleftrightarrow> unat a + unat b < 2 ^ LENGTH('a)"
proof -
  have "a \<le> a + b \<longleftrightarrow> unat a + unat b < 2 ^ LENGTH('a)"
    by (rule no_olen_add_nat)
  then show ?thesis by (simp add: not_less)
qed

lemma unat_PAGE_SIZE [simp]: "unat PAGE_SIZE = 4096"
  by (simp add: PAGE_SIZE_def)

lemma unat_lt_u64 [simp]: "unat (a :: u64) < 18446744073709551616"
  using unsigned_less [of a, where ?'a = nat] by simp

lemma unat_ROUND_DOWN: "unat (ROUND_DOWN a b) = unat a div unat b * unat b"
proof -
  have "unat a div unat b * unat b \<le> unat a"
    by simp
  also have "unat a < 2 ^ LENGTH(64)"
    by simp
  finally show ?thesis
    by (simp only: ROUND_DOWN_def unat_mult_lt unat_div_eq)
qed

lemma unat_add_sub1:
  assumes "b \<noteq> 0" and "unat a + unat b \<le> 2 ^ 64"
  shows "unat (a + b - 1 :: u64) = unat a + unat b - 1"
proof -
  have b1: "unat (b - 1) = unat b - 1"
    using assms(1) by (simp add: unat_minus_one)
  have pos: "0 < unat b"
    using assms(1) by (simp add: unat_gt_0)
  have "unat (a + (b - 1)) = unat a + unat (b - 1)"
    using assms(2) pos by (intro unat_add_lt) (simp add: b1)
  then show ?thesis
    using b1 pos by (simp add: algebra_simps)
qed

lemma unat_ROUND_UP:
  assumes "b \<noteq> 0" and "unat a + unat b \<le> 2 ^ 64"
  shows "unat (ROUND_UP a b) = (unat a + unat b - 1) div unat b * unat b"
proof -
  have "(unat a + unat b - 1) div unat b * unat b \<le> unat a + unat b - 1"
    by (rule div_times_less_eq_dividend)
  also have "\<dots> < 2 ^ LENGTH(64)"
    using assms by (simp add: unat_gt_0)
  finally have lt: "(unat a + unat b - 1) div unat b * unat b < 2 ^ LENGTH(64)" .
  have q: "unat ((a + b - 1) div b) = (unat a + unat b - 1) div unat b"
    unfolding unat_div_eq unat_add_sub1 [OF assms] ..
  from lt show ?thesis
    unfolding ROUND_UP_def by (subst unat_mult_lt) (simp_all only: q)
qed

lemma unat_DIV_UP:
  assumes "b \<noteq> 0" and "unat a + unat b \<le> 2 ^ 64"
  shows "unat (DIV_UP a b) = (unat a + unat b - 1) div unat b"
  using assms by (simp add: DIV_UP_def unat_div_eq unat_add_sub1)

lemma hhdm_phys_inverse [simp]:
  "hhdm_to_phys (phys_to_hhdm p) = p" "phys_to_hhdm (hhdm_to_phys h) = h"
  by (simp_all add: hhdm_to_phys_def phys_to_hhdm_def)

section \<open>Lists\<close>

lemma nth_upd_if: "xs[i := v] ! j = (if i = j \<and> i < length xs then v else xs ! j)"
  by (cases "i < length xs") (auto simp: list_update_beyond)

end
