(* ===== verification/E820.thy ===== *)
theory E820
  imports Prelude "HOL-Library.Multiset"
begin

text \<open>
  The memory map of \<^verbatim>\<open>arch/x86/e820.c\<close>: \<^verbatim>\<open>e820_sanitize\<close> turns the overlapping, unsorted entries of the
  firmware into a sorted table of disjoint entries by sorting the start and end points and sweeping
  over them, \<^verbatim>\<open>e820_init\<close> stores it and finds the end of the last RAM entry. The input table is
  the list of its entries (\<^verbatim>\<open>entries_count\<close> is its length); the kernel's own table is the static array of
  256 entries with its counter. A pointer to an entry is its index. The \<^verbatim>\<open>enum\<close> type of an entry is an
  unsigned 32-bit value that comes from the boot loader, so it is compared unsigned. The
  alignment warnings, which only print, are left out.
\<close>

section \<open>Data\<close>

definition E820_TYPE_RAM :: u32 where "E820_TYPE_RAM = 1"
definition E820_TYPE_RESERVED :: u32 where "E820_TYPE_RESERVED = 2"
definition E820_TYPE_ACPI :: u32 where "E820_TYPE_ACPI = 3"
definition E820_TYPE_NVS :: u32 where "E820_TYPE_NVS = 4"
definition E820_TYPE_UNUSABLE :: u32 where "E820_TYPE_UNUSABLE = 5"

definition E820_MAX_ENTRIES :: nat where
  "E820_MAX_ENTRIES = 256"

record e820_entry =
  e_addr :: u64
  e_size :: u64
  e_type :: u32

record e820_table =
  tbl_entries :: "e820_entry list"
  tbl_count :: nat

record change_point =
  cp_addr :: u64
  cp_entry :: nat

definition empty_entry :: e820_entry where
  "empty_entry = \<lparr>e_addr = 0, e_size = 0, e_type = 0\<rparr>"

definition e820_table_init :: e820_table where
  "e820_table_init = \<lparr>tbl_entries = replicate E820_MAX_ENTRIES empty_entry, tbl_count = 0\<rparr>"

definition table_write :: "nat \<Rightarrow> (e820_entry \<Rightarrow> e820_entry) \<Rightarrow> e820_table \<Rightarrow> e820_table kres" where
  "table_write i f t =
     (if i < length (tbl_entries t)
      then Ok (t\<lparr>tbl_entries := (tbl_entries t)[i := f (tbl_entries t ! i)]\<rparr>)
      else Err OutOfBounds)"

section \<open>Change points\<close>

definition change_point_cmp :: "e820_entry list \<Rightarrow> change_point \<Rightarrow> change_point \<Rightarrow> int" where
  "change_point_cmp es a b =
     (if cp_addr a \<noteq> cp_addr b then (if cp_addr a > cp_addr b then 1 else -1)
      else of_bool (cp_addr a \<noteq> e_addr (es ! cp_entry a)) - of_bool (cp_addr b \<noteq> e_addr (es ! cp_entry b)))"

text \<open>
  The first loop fills the static array \<^verbatim>\<open>change_points\<close> of \<open>2 * E820_MAX_ENTRIES\<close> elements: the list holds
  its first \<^verbatim>\<open>change_count\<close> elements, and storing one more behind the last is \<^const>\<open>OutOfBounds\<close>.
  \<open>None\<close> is the early \<^verbatim>\<open>return -1\<close> on an entry that wraps around.
\<close>

definition add_point :: "change_point \<Rightarrow> change_point list \<Rightarrow> change_point list kres" where
  "add_point p cps = (if length cps < 2 * E820_MAX_ENTRIES then Ok (cps @ [p]) else Err OutOfBounds)"

fun collect_points :: "nat \<Rightarrow> e820_entry list \<Rightarrow> change_point list \<Rightarrow> change_point list option kres" where
  "collect_points i [] cps = Ok (Some cps)"
| "collect_points i (e # es) cps =
     (if e_addr e + e_size e < e_addr e then Ok None
      else rbind (if e_size e > 0
                  then rbind (add_point \<lparr>cp_addr = e_addr e, cp_entry = i\<rparr> cps)
                         (add_point \<lparr>cp_addr = e_addr e + e_size e, cp_entry = i\<rparr>)
                  else Ok cps)
             (collect_points (Suc i) es))"

text \<open>The insertion sort. The inner loop runs with \<open>j = k - 1\<close>.\<close>

fun sort_inner :: "e820_entry list \<Rightarrow> change_point list \<Rightarrow> change_point \<Rightarrow> nat \<Rightarrow> change_point list" where
  "sort_inner es cps temp 0 = cps[0 := temp]"
| "sort_inner es cps temp (Suc j) =
     (if change_point_cmp es (cps ! j) temp < 0 then cps[Suc j := temp]
      else sort_inner es (cps[Suc j := cps ! j]) temp j)"

definition sort_points :: "e820_entry list \<Rightarrow> change_point list \<Rightarrow> change_point list" where
  "sort_points es cps = foldl (\<lambda>ps i. sort_inner es ps (ps ! i) i) cps [1 ..< length cps]"

section \<open>The sweep\<close>

record sweep =
  sw_ov :: "nat list"
  sw_last_type :: u32
  sw_last_addr :: u64
  sw_tab :: e820_table

definition overlap_add :: "nat \<Rightarrow> nat list \<Rightarrow> nat list kres" where
  "overlap_add e ov = (if length ov < E820_MAX_ENTRIES then Ok (ov @ [e]) else Err OutOfBounds)"

text \<open>Removal swaps with the last element; the counter must not become negative.\<close>

definition overlap_remove :: "nat \<Rightarrow> nat list \<Rightarrow> nat list kres" where
  "overlap_remove e ov =
     (if ov = [] then Err OutOfBounds
      else Ok (butlast (foldl (\<lambda>l idx. if l ! idx = e then l[idx := l ! (length ov - 1)] else l)
                          ov [0 ..< length ov])))"

definition overlap_type :: "e820_entry list \<Rightarrow> nat list \<Rightarrow> u32" where
  "overlap_type es ov = foldl (\<lambda>ct i. if e_type (es ! i) > ct then e_type (es ! i) else ct) 0 ov"

text \<open>Closing the pending entry: the flag is the \<^verbatim>\<open>break\<close> taken when the table is full.\<close>

definition close_entry :: "u64 \<Rightarrow> u64 \<Rightarrow> e820_table \<Rightarrow> (bool \<times> e820_table) kres" where
  "close_entry a last_addr t =
     rbind (table_write (tbl_count t) (\<lambda>e. e\<lparr>e_size := a - last_addr\<rparr>) t) (\<lambda>t1.
       if a - last_addr \<noteq> 0 then
         let t2 = t1\<lparr>tbl_count := tbl_count t1 + 1\<rparr>
         in Ok (tbl_count t2 \<ge> E820_MAX_ENTRIES, t2)
       else Ok (False, t1))"

definition sweep_step :: "e820_entry list \<Rightarrow> sweep \<Rightarrow> change_point \<Rightarrow> (bool \<times> sweep) kres" where
  "sweep_step es sw cp =
     rbind (if cp_addr cp = e_addr (es ! cp_entry cp) then overlap_add (cp_entry cp) (sw_ov sw)
            else overlap_remove (cp_entry cp) (sw_ov sw)) (\<lambda>ov.
       let sw1 = sw\<lparr>sw_ov := ov\<rparr>;
           current_type = overlap_type es ov
       in if current_type \<noteq> sw_last_type sw then
            rbind (if sw_last_type sw \<noteq> 0 then close_entry (cp_addr cp) (sw_last_addr sw) (sw_tab sw)
                   else Ok (False, sw_tab sw)) (\<lambda>(full, t1).
              if full then Ok (True, sw1\<lparr>sw_tab := t1\<rparr>)
              else if current_type \<noteq> 0 then
                rbind (table_write (tbl_count t1) (\<lambda>e. e\<lparr>e_addr := cp_addr cp, e_type := current_type\<rparr>) t1) (\<lambda>t2.
                  Ok (False, sw1\<lparr>sw_tab := t2, sw_last_addr := cp_addr cp, sw_last_type := current_type\<rparr>))
              else Ok (False, sw1\<lparr>sw_tab := t1, sw_last_type := current_type\<rparr>))
          else Ok (False, sw1))"

fun sweep_points :: "e820_entry list \<Rightarrow> sweep \<Rightarrow> change_point list \<Rightarrow> sweep kres" where
  "sweep_points es sw [] = Ok sw"
| "sweep_points es sw (cp # cps) =
     rbind (sweep_step es sw cp) (\<lambda>(brk, sw'). if brk then Ok sw' else sweep_points es sw' cps)"

definition e820_sanitize :: "e820_entry list \<Rightarrow> e820_table \<Rightarrow> (int \<times> e820_table) kres" where
  "e820_sanitize es new_table =
     (if length es < 2 then Ok (0, new_table)
      else if length es > E820_MAX_ENTRIES then Ok (-1, new_table)
      else rbind (collect_points 0 es []) (\<lambda>r.
        case r of None \<Rightarrow> Ok (-1, new_table)
        | Some cps \<Rightarrow>
            rbind (sweep_points es \<lparr>sw_ov = [], sw_last_type = 0, sw_last_addr = 0, sw_tab = new_table\<rparr>
                     (sort_points es cps)) (\<lambda>sw. Ok (0, sw_tab sw))))"

section \<open>Initialisation\<close>

fun find_last_ram :: "e820_entry list \<Rightarrow> nat \<Rightarrow> u64" where
  "find_last_ram es 0 = 0"
| "find_last_ram es (Suc i) =
     (if e_type (es ! i) = E820_TYPE_RAM then e_addr (es ! i) + e_size (es ! i) else find_last_ram es i)"

definition e820_init :: "e820_entry list \<Rightarrow> e820_table \<Rightarrow> (e820_table \<times> u64) kres" where
  "e820_init es tab =
     rbind (e820_sanitize es tab) (\<lambda>(rc, t).
       if rc \<noteq> 0 then Err (Panic ''Failed to sanitize E820 memory map!'')
       else let last_ram_addr = find_last_ram (tbl_entries t) (tbl_count t)
            in if last_ram_addr = 0 then Err (Panic ''Failed to find last ram address'')
               else Ok (t, last_ram_addr))"

abbreviation table_list :: "e820_table \<Rightarrow> e820_entry list" where
  "table_list t \<equiv> List.take (tbl_count t) (tbl_entries t)"

section \<open>The sort\<close>

definition cp_key :: "e820_entry list \<Rightarrow> change_point \<Rightarrow> nat" where
  "cp_key es p = 2 * unat (cp_addr p) + of_bool (cp_addr p \<noteq> e_addr (es ! cp_entry p))"

lemma change_point_cmp_key: "change_point_cmp es a b < 0 \<longleftrightarrow> cp_key es a < cp_key es b"
proof (cases "cp_addr a = cp_addr b")
  case True
  then show ?thesis by (simp add: change_point_cmp_def cp_key_def)
next
  case False
  then have "unat (cp_addr a) \<noteq> unat (cp_addr b)" by (simp add: word_unat_eq_iff)
  then show ?thesis
    using False by (auto simp: change_point_cmp_def cp_key_def word_less_nat_alt of_bool_def)
qed

lemma cp_key_addr: "cp_key es a \<le> cp_key es b \<Longrightarrow> unat (cp_addr a) \<le> unat (cp_addr b)"
  by (auto simp: cp_key_def of_bool_def split: if_splits)

lemma sort_inner_props:
  assumes "k < length cps" and "sorted (map (cp_key es) (List.take k cps))"
  shows "length (sort_inner es cps temp k) = length cps \<and>
         mset (List.take (Suc k) (sort_inner es cps temp k)) = add_mset temp (mset (List.take k cps)) \<and>
         drop (Suc k) (sort_inner es cps temp k) = drop (Suc k) cps \<and>
         sorted (map (cp_key es) (List.take (Suc k) (sort_inner es cps temp k)))"
  using assms
proof (induction k arbitrary: cps)
  case 0
  then show ?case by (cases cps) auto
next
  case (Suc j)
  have tk: "List.take (Suc j) cps = List.take j cps @ [cps ! j]"
    using Suc.prems(1) by (simp add: take_Suc_conv_app_nth)
  have srt: "sorted (map (cp_key es) (List.take j cps))" and le: "\<forall>x \<in> set (List.take j cps). cp_key es x \<le> cp_key es (cps ! j)"
    using Suc.prems(2) unfolding tk by (auto simp: sorted_append)
  show ?case
  proof (cases "change_point_cmp es (cps ! j) temp < 0")
    case True
    then have lt: "cp_key es (cps ! j) < cp_key es temp" by (simp add: change_point_cmp_key)
    have "List.take (Suc (Suc j)) (cps[Suc j := temp]) = List.take j cps @ [cps ! j, temp]"
      using Suc.prems(1) tk by (simp add: take_Suc_conv_app_nth [of "Suc j"] take_update_cancel)
    then show ?thesis
      using True lt le srt Suc.prems tk by (auto simp: sorted_append)
  next
    case False
    then have ge: "cp_key es temp \<le> cp_key es (cps ! j)" by (simp add: change_point_cmp_key)
    define cps1 where "cps1 = cps[Suc j := cps ! j]"
    define r where "r = sort_inner es cps1 temp j"
    have t1: "List.take j cps1 = List.take j cps" by (simp add: cps1_def)
    have IH: "length r = length cps1" "mset (List.take (Suc j) r) = add_mset temp (mset (List.take j cps))"
      "drop (Suc j) r = drop (Suc j) cps1" "sorted (map (cp_key es) (List.take (Suc j) r))"
      using Suc.IH [of cps1] Suc.prems(1) srt t1 by (auto simp: cps1_def r_def)
    have d1: "drop (Suc j) cps1 = cps ! j # drop (Suc (Suc j)) cps"
      using Suc.prems(1) by (simp add: cps1_def Cons_nth_drop_Suc [symmetric])
    have "drop (Suc (Suc j)) r = drop 1 (drop (Suc j) r)" by simp
    then have dr: "drop (Suc (Suc j)) r = drop (Suc (Suc j)) cps" by (simp only: IH(3) d1) simp
    have rj: "r ! Suc j = cps ! j"
      using IH(1,3) d1 Suc.prems(1) by (metis cps1_def hd_drop_conv_nth length_list_update list.sel(1))
    have tr: "List.take (Suc (Suc j)) r = List.take (Suc j) r @ [cps ! j]"
      using IH(1) Suc.prems(1) rj by (simp add: take_Suc_conv_app_nth cps1_def)
    have "set (List.take (Suc j) r) = insert temp (set (List.take j cps))"
      using IH(2) by (metis set_mset_add_mset_insert set_mset_mset)
    then have "\<forall>x \<in> set (List.take (Suc j) r). cp_key es x \<le> cp_key es (cps ! j)"
      using le ge by auto
    then have "sorted (map (cp_key es) (List.take (Suc (Suc j)) r))"
      using IH(4) unfolding tr by (auto simp: sorted_append)
    then show ?thesis
      using False IH(1,2) dr tr tk by (simp add: r_def cps1_def)
  qed
qed

lemma sort_points_props:
  "mset (sort_points es cps) = mset cps" "sorted (map (cp_key es) (sort_points es cps))"
proof -
  have "length ps = length cps \<and> mset ps = mset cps \<and> sorted (map (cp_key es) (List.take (Suc n) ps))"
    if "ps = foldl (\<lambda>ps i. sort_inner es ps (ps ! i) i) cps [1 ..< Suc n]" "n < length cps \<or> n = 0" for n ps
    using that
  proof (induction n arbitrary: ps)
    case 0
    then show ?case by (cases cps) auto
  next
    case (Suc n)
    define qs where "qs = foldl (\<lambda>ps i. sort_inner es ps (ps ! i) i) cps [1 ..< Suc n]"
    have IH: "length qs = length cps" "mset qs = mset cps" "sorted (map (cp_key es) (List.take (Suc n) qs))"
      using Suc.IH [OF qs_def] Suc.prems by auto
    have ps: "ps = sort_inner es qs (qs ! Suc n) (Suc n)"
      using Suc.prems by (simp add: qs_def)
    have n: "Suc n < length qs" using Suc.prems IH(1) by simp
    note S = sort_inner_props [OF n IH(3), of "qs ! Suc n"]
    have "mset ps = mset (List.take (Suc (Suc n)) ps) + mset (drop (Suc (Suc n)) ps)"
      by (metis append_take_drop_id mset_append)
    also have "\<dots> = add_mset (qs ! Suc n) (mset (List.take (Suc n) qs)) + mset (drop (Suc (Suc n)) qs)"
      using S ps by simp
    also have "\<dots> = mset (List.take (Suc n) qs @ qs ! Suc n # drop (Suc (Suc n)) qs)" by simp
    also have "\<dots> = mset qs" using n by (simp add: id_take_nth_drop [symmetric])
    finally show ?case using S ps IH by simp
  qed
  from this [OF refl, of "length cps - 1"]
  show "mset (sort_points es cps) = mset cps" "sorted (map (cp_key es) (sort_points es cps))"
    by (cases cps; simp add: sort_points_def)+
qed

end
