(* ===== verification/E820_Correct.thy ===== *)
theory E820_Correct
  imports E820
begin

text \<open>
  Correctness of the memory map sanitizer. The specification is address-wise: at every address the
  result has the largest type among the input entries that cover it, and no entry where no input
  entry does (or only entries of type 0). The sweep is verified by an invariant over the processed prefix
  of the sorted change points.
\<close>

section \<open>Specification\<close>

definition e_lo :: "e820_entry \<Rightarrow> nat" where "e_lo e = unat (e_addr e)"
definition e_hi :: "e820_entry \<Rightarrow> nat" where "e_hi e = unat (e_addr e) + unat (e_size e)"

definition covers :: "e820_entry \<Rightarrow> nat \<Rightarrow> bool" where
  "covers e a \<longleftrightarrow> e_lo e \<le> a \<and> a < e_hi e"

definition no_wrap :: "e820_entry list \<Rightarrow> bool" where
  "no_wrap es \<longleftrightarrow> (\<forall>e \<in> set es. e_hi e < 2 ^ 64)"

definition type_spec :: "e820_entry list \<Rightarrow> nat \<Rightarrow> u32" where
  "type_spec es a = Max (insert 0 (e_type ` {e \<in> set es. covers e a}))"

definition types_at :: "e820_entry list \<Rightarrow> nat \<Rightarrow> u32 set" where
  "types_at D a = e_type ` {e \<in> set D. covers e a}"

text \<open>The shape of a sanitized table: sorted, disjoint, no empty entry, no entry of type 0.\<close>

definition table_sorted :: "e820_entry list \<Rightarrow> bool" where
  "table_sorted D \<longleftrightarrow> sorted_wrt (\<lambda>e f. e_hi e \<le> e_lo f) D \<and>
     (\<forall>e \<in> set D. e_size e \<noteq> 0 \<and> e_type e \<noteq> 0 \<and> e_hi e < 2 ^ 64)"

text \<open>The addresses at which an entry begins or ends.\<close>

definition bounds :: "e820_entry list \<Rightarrow> nat set" where
  "bounds es = e_lo ` set es \<union> e_hi ` set es"

section \<open>Change points of an entry list\<close>

definition start_pt :: "e820_entry list \<Rightarrow> nat \<Rightarrow> change_point" where
  "start_pt es j = \<lparr>cp_addr = e_addr (es ! j), cp_entry = j\<rparr>"

definition end_pt :: "e820_entry list \<Rightarrow> nat \<Rightarrow> change_point" where
  "end_pt es j = \<lparr>cp_addr = e_addr (es ! j) + e_size (es ! j), cp_entry = j\<rparr>"

definition points :: "e820_entry list \<Rightarrow> change_point set" where
  "points es = (\<Union>j \<in> {j. j < length es \<and> e_size (es ! j) \<noteq> 0}. {start_pt es j, end_pt es j})"

lemma wrap_iff: "e_addr e + e_size e < e_addr e \<longleftrightarrow> \<not> e_hi e < 2 ^ 64"
  using no_wrap_iff [of "e_addr e" "e_size e"] by (auto simp: e_hi_def)

lemma unat_end: "e_hi e < 2 ^ 64 \<Longrightarrow> unat (e_addr e + e_size e) = e_hi e"
  by (simp add: e_hi_def unat_add_lt)

text \<open>The change points in the order of the entries, \<open>None\<close> if an entry wraps around.\<close>

fun points_of :: "nat \<Rightarrow> e820_entry list \<Rightarrow> change_point list option" where
  "points_of i [] = Some []"
| "points_of i (e # es) =
     (if e_addr e + e_size e < e_addr e then None
      else case points_of (Suc i) es of
        None \<Rightarrow> None
      | Some cps \<Rightarrow>
          Some (if e_size e > 0
                then \<lparr>cp_addr = e_addr e, cp_entry = i\<rparr> # \<lparr>cp_addr = e_addr e + e_size e, cp_entry = i\<rparr> # cps
                else cps))"

text \<open>The array \<^verbatim>\<open>change_points\<close> has room for the two points of every entry that is left.\<close>

lemma collect_points_room:
  assumes "length cps + 2 * length es \<le> 2 * E820_MAX_ENTRIES"
  shows "collect_points i es cps = Ok (map_option (append cps) (points_of i es))"
  using assms
proof (induction es arbitrary: i cps)
  case (Cons e es)
  then show ?case
    by (cases "points_of (Suc i) es") (auto simp: add_point_def)
qed simp

lemma collect_points_fits:
  "length es \<le> E820_MAX_ENTRIES \<Longrightarrow> collect_points 0 es [] = Ok (points_of 0 es)"
  by (cases "points_of 0 es") (simp_all add: collect_points_room)

lemma points_of_None: "points_of i es = None \<longleftrightarrow> \<not> no_wrap es"
proof (induction es arbitrary: i)
  case (Cons e es)
  show ?case
    using Cons.IH [of "Suc i"]
    by (cases "points_of (Suc i) es") (auto simp: no_wrap_def wrap_iff)
qed (simp add: no_wrap_def)

definition pts :: "nat \<Rightarrow> e820_entry list \<Rightarrow> nat \<Rightarrow> change_point set" where
  "pts i es j = {\<lparr>cp_addr = e_addr (es ! j), cp_entry = i + j\<rparr>,
                 \<lparr>cp_addr = e_addr (es ! j) + e_size (es ! j), cp_entry = i + j\<rparr>}"

lemma points_of_Some:
  assumes "points_of i es = Some cps"
  shows "set cps = (\<Union>j \<in> {j. j < length es \<and> e_size (es ! j) \<noteq> 0}. pts i es j)
         \<and> distinct cps \<and> length cps \<le> 2 * length es"
  using assms
proof (induction es arbitrary: i cps)
  case (Cons e es)
  then obtain cps' where c: "points_of (Suc i) es = Some cps'" by (auto split: if_splits option.splits)
  define hd_pts where "hd_pts = (if e_size e \<noteq> 0 then
    [\<lparr>cp_addr = e_addr e, cp_entry = i\<rparr>, \<lparr>cp_addr = e_addr e + e_size e, cp_entry = i\<rparr>] else [])"
  have cps: "cps = hd_pts @ cps'"
    using Cons.prems c by (auto simp: hd_pts_def word_neq_0_conv split: if_splits)
  have IH: "set cps' = (\<Union>j \<in> {j. j < length es \<and> e_size (es ! j) \<noteq> 0}. pts (Suc i) es j)"
    "distinct cps'" "length cps' \<le> 2 * length es"
    using Cons.IH [OF c] by auto
  have J: "{j. j < length (e # es) \<and> e_size ((e # es) ! j) \<noteq> 0} =
        (if e_size e \<noteq> 0 then {0} else {}) \<union> Suc ` {j. j < length es \<and> e_size (es ! j) \<noteq> 0}"
    by (auto simp: image_iff less_Suc_eq_0_disj)
  have sh: "pts i (e # es) (Suc j) = pts (Suc i) es j" for j by (simp add: pts_def)
  have "set hd_pts = (\<Union>j \<in> (if e_size e \<noteq> 0 then {0} else {}). pts i (e # es) j)"
    by (auto simp: hd_pts_def pts_def)
  then have "set cps = (\<Union>j \<in> {j. j < length (e # es) \<and> e_size ((e # es) ! j) \<noteq> 0}. pts i (e # es) j)"
    unfolding J cps set_append IH(1) UN_Un by (simp add: sh)
  moreover have "i < cp_entry p" if p: "p \<in> set cps'" for p
  proof -
    obtain j where "p \<in> pts (Suc i) es j" using p IH(1) by blast
    then show ?thesis by (auto simp: pts_def)
  qed
  then have "set hd_pts \<inter> set cps' = {}" by (fastforce simp: hd_pts_def)
  then have "distinct cps" using IH(2) by (auto simp: cps hd_pts_def)
  ultimately show ?case using IH(3) by (simp add: cps hd_pts_def)
qed auto

lemma points_of_0:
  assumes "points_of 0 es = Some cps"
  shows "set cps = points es" "distinct cps" "length cps \<le> 2 * length es"
  using points_of_Some [OF assms] by (simp_all add: points_def start_pt_def end_pt_def pts_def)

section \<open>The overlap list\<close>

lemma overlap_type_Max: "overlap_type es ov = Max (insert 0 ((\<lambda>j. e_type (es ! j)) ` set ov))"
proof -
  have "foldl (\<lambda>ct i. if e_type (es ! i) > ct then e_type (es ! i) else ct) m ov =
        Max (insert m ((\<lambda>j. e_type (es ! j)) ` set ov))" for m
  proof (induction ov arbitrary: m)
    case (Cons x ov)
    have "Max (insert (max m (e_type (es ! x))) ((\<lambda>j. e_type (es ! j)) ` set ov)) =
          Max (insert m ((\<lambda>j. e_type (es ! j)) ` set (x # ov)))"
      by (cases "set ov = {}") (auto simp: max.assoc)
    moreover have "(if e_type (es ! x) > m then e_type (es ! x) else m) = max m (e_type (es ! x))"
      by (auto simp: max_def)
    ultimately show ?case using Cons.IH by simp
  qed simp
  then show ?thesis by (simp add: overlap_type_def)
qed

lemma overlap_loop:
  assumes "distinct ov" and "m < length ov" and "i \<le> length ov"
  shows "foldl (\<lambda>l idx. if l ! idx = ov ! m then l[idx := l ! (length ov - 1)] else l) ov [0 ..< i] =
         (if m < i then ov[m := ov ! (length ov - 1)] else ov)"
  using assms(3)
proof (induction i)
  case (Suc i)
  have "ov[m := ov ! (length ov - 1)] ! i = ov ! m \<Longrightarrow> m < i \<Longrightarrow> i = length ov - 1 \<and> False"
    using assms Suc.prems by (auto simp: nth_upd_if nth_eq_iff_index_eq)
  then show ?case
    using Suc assms by (auto simp: nth_eq_iff_index_eq less_Suc_eq)
qed simp

lemma overlap_remove_ok:
  assumes "distinct ov" and "e \<in> set ov"
  obtains ov' where "overlap_remove e ov = Ok ov'" "distinct ov'" "set ov' = set ov - {e}"
proof -
  obtain m where m: "m < length ov" "ov ! m = e" using assms(2) by (auto simp: in_set_conv_nth)
  have r: "overlap_remove e ov = Ok (butlast (ov[m := ov ! (length ov - 1)]))"
    using overlap_loop [OF assms(1) m(1) order_refl] m assms(2) by (auto simp: overlap_remove_def)
  obtain xs z where ov: "ov = xs @ [z]" using m by (cases ov rule: rev_cases) auto
  show ?thesis
  proof (cases "m = length xs")
    case True
    then have "butlast (ov[m := ov ! (length ov - 1)]) = xs" "e = z" using ov m by auto
    then show ?thesis using that r ov assms(1) by auto
  next
    case False
    then have mx: "m < length xs" using m ov by simp
    then have b: "butlast (ov[m := ov ! (length ov - 1)]) = xs[m := z]" and e: "xs ! m = e"
      using ov m by (simp_all add: list_update_append nth_append)
    have d: "distinct xs" "z \<notin> set xs" using assms(1) ov by auto
    have "distinct (xs[m := z])" using d by (simp add: distinct_list_update)
    moreover have "set (xs[m := z]) = set ov - {e}"
      using d mx e ov by (simp add: set_update_distinct) (use nth_mem in fastforce)
    ultimately show ?thesis using that r b by simp
  qed
qed

section \<open>The table\<close>

lemma table_write_in:
  "i < length (tbl_entries t) \<Longrightarrow>
   table_write i f t = Ok (t\<lparr>tbl_entries := (tbl_entries t)[i := f (tbl_entries t ! i)]\<rparr>)"
  by (simp add: table_write_def)

lemma types_at_append [simp]: "types_at (D @ E) a = types_at D a \<union> types_at E a"
  by (auto simp: types_at_def)

lemma types_at_single: "types_at [e] a = (if covers e a then {e_type e} else {})"
  by (auto simp: types_at_def)

section \<open>The sweep\<close>

text \<open>The entries that have started and not ended within the processed points.\<close>

definition live :: "e820_entry list \<Rightarrow> change_point list \<Rightarrow> nat set" where
  "live es ps = {j. j < length es \<and> e_size (es ! j) \<noteq> 0 \<and> start_pt es j \<in> set ps \<and> end_pt es j \<notin> set ps}"

definition pos :: "change_point list \<Rightarrow> nat" where
  "pos ps = (if ps = [] then 0 else unat (cp_addr (last ps)))"

definition pending :: "u32 \<Rightarrow> u64 \<Rightarrow> nat \<Rightarrow> u32 set" where
  "pending lt la a = (if lt \<noteq> 0 \<and> unat la \<le> a then {lt} else {})"

definition table_inv :: "e820_entry list \<Rightarrow> nat \<Rightarrow> u32 \<Rightarrow> u64 \<Rightarrow> e820_table \<Rightarrow> bool" where
  "table_inv es x lt la t \<longleftrightarrow>
     length (tbl_entries t) = E820_MAX_ENTRIES \<and> tbl_count t < E820_MAX_ENTRIES \<and>
     table_sorted (table_list t) \<and> (\<forall>e \<in> set (table_list t). e_hi e \<le> x) \<and>
     (lt \<noteq> 0 \<longrightarrow> e_addr (tbl_entries t ! tbl_count t) = la \<and> e_type (tbl_entries t ! tbl_count t) = lt \<and>
        unat la \<le> x \<and> (\<forall>e \<in> set (table_list t). e_hi e \<le> unat la) \<and> unat la \<in> bounds es) \<and>
     bounds (table_list t) \<subseteq> bounds es \<and>
     (\<forall>a < x. types_at (table_list t) a \<union> pending lt la a = {type_spec es a} - {0})"

definition sweep_inv :: "e820_entry list \<Rightarrow> change_point list \<Rightarrow> sweep \<Rightarrow> bool" where
  "sweep_inv es ps sw \<longleftrightarrow>
     distinct (sw_ov sw) \<and> set (sw_ov sw) = live es ps \<and>
     sw_last_type sw = overlap_type es (sw_ov sw) \<and>
     table_inv es (pos ps) (sw_last_type sw) (sw_last_addr sw) (sw_tab sw) \<and>
     tbl_count (sw_tab sw) \<le> length ps - 1"

lemma point_bounds: "no_wrap es \<Longrightarrow> p \<in> points es \<Longrightarrow> unat (cp_addr p) \<in> bounds es"
  by (auto simp: points_def start_pt_def end_pt_def bounds_def no_wrap_def unat_end e_lo_def)

text \<open>Between two change points the live entries are the ones that cover the address.\<close>

lemma live_covers:
  assumes nw: "no_wrap es" and all: "set ps \<union> set qs = points es"
    and lo: "\<forall>p \<in> set ps. unat (cp_addr p) \<le> a" and hi: "\<forall>q \<in> set qs. a < unat (cp_addr q)"
    and j: "j < length es"
  shows "covers (es ! j) a \<longleftrightarrow> j \<in> live es ps"
proof -
  have e: "e_hi (es ! j) < 2 ^ 64" using nw j by (simp add: no_wrap_def)
  have S: "unat (cp_addr (start_pt es j)) = e_lo (es ! j)" by (simp add: start_pt_def e_lo_def)
  have E: "unat (cp_addr (end_pt es j)) = e_hi (es ! j)" using unat_end [OF e] by (simp add: end_pt_def)
  show ?thesis
  proof
    assume c: "covers (es ! j) a"
    then have "e_size (es ! j) \<noteq> 0" by (auto simp: covers_def e_lo_def e_hi_def)
    then have "start_pt es j \<in> set ps \<union> set qs" using all j by (auto simp: points_def)
    then show "j \<in> live es ps"
      using c j \<open>e_size (es ! j) \<noteq> 0\<close> S E lo hi by (fastforce simp: live_def covers_def)
  next
    assume l: "j \<in> live es ps"
    then have "start_pt es j \<in> set ps" "end_pt es j \<in> set qs"
      using all by (auto simp: live_def points_def)
    then show "covers (es ! j) a" using S E lo hi by (fastforce simp: covers_def)
  qed
qed

lemma type_spec_live:
  assumes "no_wrap es" and "set ps \<union> set qs = points es"
    and "\<forall>p \<in> set ps. unat (cp_addr p) \<le> a" and "\<forall>q \<in> set qs. a < unat (cp_addr q)"
    and "set ov = live es ps"
  shows "type_spec es a = overlap_type es ov"
proof -
  have "{e \<in> set es. covers e a} = (!) es ` live es ps"
    using live_covers [OF assms(1-4)] by (auto simp: in_set_conv_nth live_def)
  then show ?thesis by (simp add: type_spec_def overlap_type_Max assms(5) image_image)
qed

text \<open>The table stays correct up to the next change point.\<close>

lemma table_inv_extend:
  assumes inv: "table_inv es x lt la t" and xy: "x \<le> y"
    and spec: "\<And>a. x \<le> a \<Longrightarrow> a < y \<Longrightarrow> type_spec es a = lt"
  shows "table_inv es y lt la t"
proof -
  have "types_at (table_list t) a \<union> pending lt la a = {type_spec es a} - {0}" if "a < y" for a
  proof (cases "a < x")
    case True
    then show ?thesis using inv by (simp add: table_inv_def)
  next
    case False
    then have "types_at (table_list t) a = {}"
      using inv by (fastforce simp: types_at_def covers_def table_inv_def)
    moreover have "pending lt la a = {lt} - {0}"
      using False inv by (auto simp: pending_def table_inv_def)
    ultimately show ?thesis using spec [of a] False that by simp
  qed
  then show ?thesis using inv xy by (fastforce simp: table_inv_def)
qed

text \<open>Closing the pending entry at the current position.\<close>

lemma close_entry_inv:
  assumes inv: "table_inv es x lt la t" and x: "x = unat a" "x \<in> bounds es" and lt: "lt \<noteq> 0"
  obtains full t' where "close_entry a la t = Ok (full, t')" and "tbl_count t' \<le> tbl_count t + 1"
    and "full \<longleftrightarrow> tbl_count t' = E820_MAX_ENTRIES"
    and "\<not> full \<Longrightarrow> table_inv es x 0 la t'"
proof -
  define i where "i = tbl_count t"
  define t1 where "t1 = t\<lparr>tbl_entries := (tbl_entries t)[i := (tbl_entries t ! i)\<lparr>e_size := a - la\<rparr>]\<rparr>"
  have i: "i < length (tbl_entries t)" and len: "length (tbl_entries t) = E820_MAX_ENTRIES"
    and la: "unat la \<le> unat a" and ent: "e_addr (tbl_entries t ! i) = la" "e_type (tbl_entries t ! i) = lt"
    and srt: "table_sorted (table_list t)" and hi: "\<forall>e \<in> set (table_list t). e_hi e \<le> unat la"
    and sp: "\<forall>b < x. types_at (table_list t) b \<union> pending lt la b = {type_spec es b} - {0}"
    and bd: "bounds (table_list t) \<subseteq> bounds es" "unat la \<in> bounds es"
    using inv lt x by (auto simp: table_inv_def i_def)
  have w: "table_write i (\<lambda>e. e\<lparr>e_size := a - la\<rparr>) t = Ok t1"
    using i by (simp add: table_write_in t1_def)
  have tl1: "table_list t1 = table_list t" by (simp add: t1_def i_def)
  show ?thesis
  proof (cases "a = la")
    case True
    have "close_entry a la t = Ok (False, t1)"
      using w True by (simp add: close_entry_def i_def)
    moreover have "pending lt la b = {}" if "b < x" for b using that x True by (simp add: pending_def)
    then have "table_inv es x 0 la t1"
      using inv tl1 sp by (simp add: table_inv_def t1_def pending_def)
    ultimately show ?thesis using that [of False t1] inv by (simp add: t1_def table_inv_def)
  next
    case False
    define t2 where "t2 = t1\<lparr>tbl_count := Suc i\<rparr>"
    define e where "e = tbl_entries t1 ! i"
    have al: "la \<le> a" using la by (simp add: word_le_nat_alt)
    have e: "e_lo e = unat la" "e_hi e = unat a" "e_type e = lt" "e_size e \<noteq> 0"
      using i ent False la unat_sub_le [OF al] by (simp_all add: e_def t1_def e_lo_def e_hi_def)
    have close: "close_entry a la t = Ok (E820_MAX_ENTRIES \<le> Suc i, t2)"
      using w False by (simp add: close_entry_def i_def [symmetric] t2_def t1_def Let_def)
    have tl2: "table_list t2 = table_list t @ [e]"
      using i tl1 by (simp add: t2_def e_def take_Suc_conv_app_nth t1_def i_def)
    have "table_sorted (table_list t2)"
      using srt hi e lt unat_lt_u64 [of a] by (auto simp: tl2 table_sorted_def sorted_wrt_append)
    moreover have "types_at [e] b = pending lt la b" if "b < x" for b
      using that e x lt by (auto simp: types_at_single covers_def pending_def)
    then have "types_at (table_list t2) b = {type_spec es b} - {0}" if "b < x" for b
      using sp that by (simp add: tl2)
    moreover have "bounds (table_list t2) \<subseteq> bounds es" using bd e x by (auto simp: tl2 bounds_def)
    moreover have "\<forall>f \<in> set (table_list t2). e_hi f \<le> x" using hi la e x by (auto simp: tl2)
    ultimately have "table_inv es x 0 la t2" if "Suc i < E820_MAX_ENTRIES"
      using that len by (simp add: table_inv_def t2_def t1_def pending_def)
    moreover have "E820_MAX_ENTRIES \<le> Suc i \<longleftrightarrow> tbl_count t2 = E820_MAX_ENTRIES"
      using i len by (auto simp: t2_def)
    ultimately show ?thesis
      using that [of "E820_MAX_ENTRIES \<le> Suc i" t2] close by (auto simp: t2_def i_def not_le)
  qed
qed

lemma table_inv_open:
  assumes inv: "table_inv es x 0 la t" and x: "x = unat a" "x \<in> bounds es" and ct: "ct \<noteq> 0"
  obtains t' where "table_write (tbl_count t) (\<lambda>e. e\<lparr>e_addr := a, e_type := ct\<rparr>) t = Ok t'"
    and "table_inv es x ct a t'" and "tbl_count t' = tbl_count t"
proof -
  define t' where "t' = t\<lparr>tbl_entries := (tbl_entries t)[tbl_count t := (tbl_entries t ! tbl_count t)\<lparr>e_addr := a, e_type := ct\<rparr>]\<rparr>"
  have "table_write (tbl_count t) (\<lambda>e. e\<lparr>e_addr := a, e_type := ct\<rparr>) t = Ok t'"
    using inv by (simp add: table_write_in t'_def table_inv_def)
  moreover have "table_inv es x ct a t'"
    using inv x by (auto simp: table_inv_def t'_def pending_def)
  ultimately show ?thesis using that by (simp add: t'_def)
qed

lemma start_end_neq: "e_size (es ! j) \<noteq> 0 \<Longrightarrow> start_pt es j \<noteq> end_pt es k"
  by (auto simp: start_pt_def end_pt_def)

lemma start_pt_eq [simp]: "start_pt es j = start_pt es k \<longleftrightarrow> j = k"
  and end_pt_eq [simp]: "end_pt es j = end_pt es k \<longleftrightarrow> j = k"
  by (auto simp: start_pt_def end_pt_def)

lemma live_start:
  assumes "j < length es" "e_size (es ! j) \<noteq> 0" "start_pt es j \<notin> set ps" "end_pt es j \<notin> set ps"
  shows "live es (ps @ [start_pt es j]) = insert j (live es ps)" and "j \<notin> live es ps"
  using assms start_end_neq [of es j, symmetric] by (auto simp: live_def)

lemma live_end:
  assumes "j < length es" "e_size (es ! j) \<noteq> 0" "start_pt es j \<in> set ps" "end_pt es j \<notin> set ps"
  shows "live es (ps @ [end_pt es j]) = live es ps - {j}" and "j \<in> live es ps"
  using assms start_end_neq [of es _ j] by (auto simp: live_def)

text \<open>One change point updates the overlap list to the entries that are now live.\<close>

lemma overlap_update:
  assumes nw: "no_wrap es" and n: "length es \<le> E820_MAX_ENTRIES"
    and all: "set (ps @ cp # qs) = points es" and d: "distinct (ps @ cp # qs)"
    and lo: "\<forall>p \<in> set ps. unat (cp_addr p) \<le> unat (cp_addr cp)"
    and hi: "\<forall>q \<in> set qs. unat (cp_addr cp) \<le> unat (cp_addr q)"
    and ov: "distinct ov" "set ov = live es ps"
  obtains ov' where "(if cp_addr cp = e_addr (es ! cp_entry cp) then overlap_add (cp_entry cp) ov
      else overlap_remove (cp_entry cp) ov) = Ok ov'" and "distinct ov'" and "set ov' = live es (ps @ [cp])"
proof -
  have "cp \<in> points es" using all by auto
  then obtain j where j: "j < length es" "e_size (es ! j) \<noteq> 0" and cp: "cp = start_pt es j \<or> cp = end_pt es j"
    by (auto simp: points_def)
  have e: "e_hi (es ! j) < 2 ^ 64" using nw j by (simp add: no_wrap_def)
  have S: "unat (cp_addr (start_pt es j)) = e_lo (es ! j)" by (simp add: start_pt_def e_lo_def)
  have E: "unat (cp_addr (end_pt es j)) = e_hi (es ! j)" using unat_end [OF e] by (simp add: end_pt_def)
  have lt: "e_lo (es ! j) < e_hi (es ! j)" using j by (simp add: e_lo_def e_hi_def unat_gt_0)
  have mem: "start_pt es j \<in> set (ps @ cp # qs)" "end_pt es j \<in> set (ps @ cp # qs)"
    unfolding all using j by (auto simp: points_def)
  from cp show ?thesis
  proof
    assume c: "cp = start_pt es j"
    have "end_pt es j \<notin> set ps" using lo S E lt c by fastforce
    moreover have "start_pt es j \<notin> set ps" using d c by auto
    ultimately have l: "live es (ps @ [cp]) = insert j (live es ps)" "j \<notin> live es ps"
      using live_start j c by auto
    have "length ov = card (live es ps)" using ov distinct_card by metis
    also have "\<dots> \<le> card ({..<length es} - {j})"
      using l(2) by (intro card_mono) (auto simp: live_def)
    also have "\<dots> < length es" using j by simp
    finally have "length ov < E820_MAX_ENTRIES" using n by simp
    then show ?thesis
      using that [of "ov @ [j]"] c l ov by (auto simp: overlap_add_def start_pt_def)
  next
    assume c: "cp = end_pt es j"
    have "start_pt es j \<noteq> cp" using c start_end_neq j by simp
    moreover have "start_pt es j \<notin> set qs" using hi S E lt c by fastforce
    ultimately have "start_pt es j \<in> set ps" using mem by auto
    moreover have "end_pt es j \<notin> set ps" using d c by auto
    ultimately have l: "live es (ps @ [cp]) = live es ps - {j}" "j \<in> live es ps"
      using live_end j c by auto
    obtain ov' where "overlap_remove j ov = Ok ov'" "distinct ov'" "set ov' = set ov - {j}"
      using overlap_remove_ok [OF ov(1)] l(2) ov(2) by metis
    then show ?thesis using that [of ov'] c l ov j by (simp add: end_pt_def)
  qed
qed

lemma overlap_type_empty: "set ov = {} \<Longrightarrow> overlap_type es ov = 0"
  by (simp add: overlap_type_Max)

lemma live_Nil [simp]: "live es [] = {}"
  by (simp add: live_def)

lemma sweep_step_inv:
  assumes nw: "no_wrap es" and n: "length es \<le> E820_MAX_ENTRIES"
    and all: "set (ps @ cp # qs) = points es" and d: "distinct (ps @ cp # qs)"
    and srt: "sorted (map (\<lambda>p. unat (cp_addr p)) (ps @ cp # qs))" and inv: "sweep_inv es ps sw"
  obtains brk sw' where "sweep_step es sw cp = Ok (brk, sw')"
    and "\<not> brk \<Longrightarrow> sweep_inv es (ps @ [cp]) sw'" and "brk \<Longrightarrow> E820_MAX_ENTRIES \<le> length ps"
proof -
  define x where "x = unat (cp_addr cp)"
  define lt where "lt = sw_last_type sw"
  define la where "la = sw_last_addr sw"
  note I = inv [unfolded sweep_inv_def, folded lt_def la_def]
  have lo: "\<forall>p \<in> set ps. unat (cp_addr p) \<le> x" and hi: "\<forall>q \<in> set (cp # qs). x \<le> unat (cp_addr q)"
    using srt by (auto simp: sorted_append x_def)
  have pp: "\<forall>p \<in> set ps. unat (cp_addr p) \<le> pos ps"
    using srt by (cases ps rule: rev_cases) (auto simp: pos_def sorted_append)
  have posx: "pos ps \<le> x" using lo by (auto simp: pos_def)
  have xb: "x \<in> bounds es" using point_bounds [OF nw] all by (auto simp: x_def)
  obtain ov where ov: "(if cp_addr cp = e_addr (es ! cp_entry cp) then overlap_add (cp_entry cp) (sw_ov sw)
      else overlap_remove (cp_entry cp) (sw_ov sw)) = Ok ov" "distinct ov" "set ov = live es (ps @ [cp])"
    using overlap_update [OF nw n all d, of "sw_ov sw"] lo hi I by (auto simp: x_def)
  define ct where "ct = overlap_type es ov"
  have ext: "table_inv es x lt la (sw_tab sw)"
  proof (rule table_inv_extend [OF _ posx])
    show "type_spec es a = lt" if "pos ps \<le> a" "a < x" for a
      using that pp hi all I by (subst type_spec_live [OF nw, of ps "cp # qs" a "sw_ov sw"]) (auto intro: le_trans less_le_trans)
  qed (use I in blast)
  have px: "pos (ps @ [cp]) = x" by (simp add: pos_def x_def)
  have lt0: "lt = 0" if "ps = []" using that I overlap_type_empty by simp
  obtain full t1 where t1: "(if lt \<noteq> 0 then close_entry (cp_addr cp) la (sw_tab sw) else Ok (False, sw_tab sw)) = Ok (full, t1)"
    "tbl_count t1 \<le> length ps" "full \<Longrightarrow> tbl_count t1 = E820_MAX_ENTRIES" "\<not> full \<Longrightarrow> table_inv es x 0 la t1"
  proof (cases "lt = 0")
    case True
    then show ?thesis using that [of False "sw_tab sw"] ext I by auto
  next
    case False
    obtain full t1 where c: "close_entry (cp_addr cp) la (sw_tab sw) = Ok (full, t1)" "tbl_count t1 \<le> tbl_count (sw_tab sw) + 1"
      "full \<longleftrightarrow> tbl_count t1 = E820_MAX_ENTRIES" "\<not> full \<Longrightarrow> table_inv es x 0 la t1"
      using close_entry_inv [OF ext x_def xb False] by metis
    have "0 < length ps" using False lt0 by auto
    then have "tbl_count t1 \<le> length ps" using c(2) I by linarith
    then show ?thesis using that [of full t1] c False by simp
  qed
  note step = sweep_step_def [of es sw cp, folded lt_def la_def, unfolded ov(1)]
  consider "ct = lt" | "ct \<noteq> lt" full | "ct \<noteq> lt" "\<not> full" "ct = 0" | "ct \<noteq> lt" "\<not> full" "ct \<noteq> 0" by blast
  then show ?thesis
  proof cases
    case 1
    then show ?thesis
      using that [of False "sw\<lparr>sw_ov := ov\<rparr>"] step ov ext I px
      by (auto simp: ct_def sweep_inv_def lt_def la_def)
  next
    case 2
    then show ?thesis using that [of True] step t1 by (auto simp: ct_def)
  next
    case 3
    then show ?thesis
      using that [of False "sw\<lparr>sw_ov := ov, sw_tab := t1, sw_last_type := ct\<rparr>"] step t1 ov px
      by (auto simp: ct_def sweep_inv_def la_def)
  next
    case 4
    obtain t2 where t2: "table_write (tbl_count t1) (\<lambda>e. e\<lparr>e_addr := cp_addr cp, e_type := ct\<rparr>) t1 = Ok t2"
      "table_inv es x ct (cp_addr cp) t2" "tbl_count t2 = tbl_count t1"
      using table_inv_open [OF t1(4) x_def xb 4(3)] 4 by metis
    then show ?thesis
      using that [of False "sw\<lparr>sw_ov := ov, sw_tab := t2, sw_last_addr := cp_addr cp, sw_last_type := ct\<rparr>"] 4 step t1 ov px
      by (auto simp: ct_def sweep_inv_def)
  qed
qed

lemma sweep_points_inv:
  assumes nw: "no_wrap es" and n: "length es \<le> E820_MAX_ENTRIES"
    and "set (ps @ qs) = points es" and "distinct (ps @ qs)"
    and "sorted (map (\<lambda>p. unat (cp_addr p)) (ps @ qs))" and "sweep_inv es ps sw"
  shows "\<exists>sw'. sweep_points es sw qs = Ok sw' \<and>
           (length (ps @ qs) \<le> E820_MAX_ENTRIES \<longrightarrow> sweep_inv es (ps @ qs) sw')"
  using assms(3-6)
proof (induction qs arbitrary: ps sw)
  case Nil
  then show ?case by simp
next
  case (Cons cp qs)
  obtain brk sw' where step: "sweep_step es sw cp = Ok (brk, sw')"
    "\<not> brk \<Longrightarrow> sweep_inv es (ps @ [cp]) sw'" "brk \<Longrightarrow> E820_MAX_ENTRIES \<le> length ps"
    using sweep_step_inv [OF nw n Cons.prems] by metis
  show ?case
  proof (cases brk)
    case True
    then show ?thesis using step by simp
  next
    case False
    then show ?thesis
      using Cons.IH [of "ps @ [cp]" sw'] Cons.prems step by simp
  qed
qed

lemma sweep_init_inv:
  "sweep_inv es [] \<lparr>sw_ov = [], sw_last_type = 0, sw_last_addr = 0, sw_tab = e820_table_init\<rparr>"
  by (simp add: sweep_inv_def overlap_type_def table_inv_def e820_table_init_def pos_def
      E820_MAX_ENTRIES_def table_sorted_def bounds_def)

lemma live_all: "set ps = points es \<Longrightarrow> live es ps = {}"
  by (auto simp: live_def points_def)

text \<open>When every change point has been processed, the table is the specified map.\<close>

lemma sweep_inv_final:
  assumes nw: "no_wrap es" and all: "set ps = points es"
    and srt: "sorted (map (\<lambda>p. unat (cp_addr p)) ps)" and inv: "sweep_inv es ps sw"
  shows "table_sorted (table_list (sw_tab sw))"
    and "types_at (table_list (sw_tab sw)) a = {type_spec es a} - {0}"
    and "bounds (table_list (sw_tab sw)) \<subseteq> bounds es"
proof -
  have lt: "sw_last_type sw = 0" and ov: "set (sw_ov sw) = {}"
    using inv live_all [OF all] by (auto simp: sweep_inv_def overlap_type_def)
  have I: "table_inv es (pos ps) 0 (sw_last_addr sw) (sw_tab sw)"
    using inv by (simp add: sweep_inv_def lt)
  show "table_sorted (table_list (sw_tab sw))" "bounds (table_list (sw_tab sw)) \<subseteq> bounds es" using I by (simp_all add: table_inv_def)
  show "types_at (table_list (sw_tab sw)) a = {type_spec es a} - {0}"
  proof (cases "a < pos ps")
    case True
    then show ?thesis using I by (simp add: table_inv_def pending_def)
  next
    case False
    then have "\<forall>p \<in> set ps. unat (cp_addr p) \<le> a"
      using srt by (cases ps rule: rev_cases) (auto simp: pos_def sorted_append intro: le_trans)
    then have "type_spec es a = overlap_type es (sw_ov sw)"
      using type_spec_live [OF nw, of ps "[]" a "sw_ov sw"] all ov live_all [OF all] by simp
    then have "type_spec es a = 0" using overlap_type_empty [OF ov] by simp
    moreover have "types_at (table_list (sw_tab sw)) a = {}"
      using I False by (fastforce simp: types_at_def covers_def table_inv_def)
    ultimately show ?thesis by simp
  qed
qed

lemma sorted_points:
  assumes "points_of 0 es = Some cps"
  defines "qs \<equiv> sort_points es cps"
  shows "set qs = points es" "distinct qs" "length qs \<le> 2 * length es"
    and "sorted (map (\<lambda>p. unat (cp_addr p)) qs)"
proof -
  have m: "mset qs = mset cps" unfolding qs_def by (rule sort_points_props)
  note C = points_of_0 [OF assms(1)]
  show "set qs = points es" using m C(1) by (metis set_mset_mset)
  show "distinct qs" using m C(2) by (metis mset_eq_imp_distinct_iff)
  show "length qs \<le> 2 * length es" using m C(3) by (metis size_mset)
  show "sorted (map (\<lambda>p. unat (cp_addr p)) qs)"
    using sort_points_props(2) [of es cps] cp_key_addr
    by (auto simp: qs_def sorted_wrt_map elim!: sorted_wrt_mono_rel [rotated])
qed

lemma e820_sanitize_sweep:
  assumes "2 \<le> length es" "length es \<le> E820_MAX_ENTRIES" "no_wrap es"
  obtains t where "e820_sanitize es e820_table_init = Ok (0, t)"
    and "2 * length es \<le> E820_MAX_ENTRIES \<Longrightarrow> table_sorted (table_list t)"
    and "\<And>a. 2 * length es \<le> E820_MAX_ENTRIES \<Longrightarrow> types_at (table_list t) a = {type_spec es a} - {0}"
    and "2 * length es \<le> E820_MAX_ENTRIES \<Longrightarrow> tbl_count t < E820_MAX_ENTRIES \<and> length (tbl_entries t) = E820_MAX_ENTRIES"
    and "2 * length es \<le> E820_MAX_ENTRIES \<Longrightarrow> bounds (table_list t) \<subseteq> bounds es"
proof -
  obtain cps where c: "points_of 0 es = Some cps"
    using points_of_None [of 0 es] assms(3) by (cases "points_of 0 es") auto
  define qs where "qs = sort_points es cps"
  note Q = sorted_points [OF c, folded qs_def]
  obtain sw where sw: "sweep_points es \<lparr>sw_ov = [], sw_last_type = 0, sw_last_addr = 0, sw_tab = e820_table_init\<rparr> qs = Ok sw"
    "length qs \<le> E820_MAX_ENTRIES \<longrightarrow> sweep_inv es qs sw"
    using sweep_points_inv [OF assms(3,2), of "[]" qs, OF _ _ _ sweep_init_inv] Q by auto
  have res: "e820_sanitize es e820_table_init = Ok (0, sw_tab sw)"
    using assms c sw(1) by (simp add: e820_sanitize_def collect_points_fits qs_def)
  have inv: "sweep_inv es qs sw" if "2 * length es \<le> E820_MAX_ENTRIES"
    using that sw(2) Q(3) by simp
  show ?thesis
  proof (rule that [OF res])
    assume l: "2 * length es \<le> E820_MAX_ENTRIES"
    note F = sweep_inv_final [OF assms(3) Q(1,4) inv [OF l]]
    show "table_sorted (table_list (sw_tab sw))" "bounds (table_list (sw_tab sw)) \<subseteq> bounds es" by (rule F)+
    show "types_at (table_list (sw_tab sw)) a = {type_spec es a} - {0}" for a by (rule F)
    show "tbl_count (sw_tab sw) < E820_MAX_ENTRIES \<and> length (tbl_entries (sw_tab sw)) = E820_MAX_ENTRIES"
      using inv [OF l] by (simp add: sweep_inv_def table_inv_def)
  qed
qed

section \<open>The end of RAM\<close>

lemma find_last_ram_spec:
  "find_last_ram es k = 0 \<and> (\<forall>i < k. e_type (es ! i) \<noteq> E820_TYPE_RAM) \<or>
   (\<exists>i < k. e_type (es ! i) = E820_TYPE_RAM \<and> (\<forall>j. i < j \<and> j < k \<longrightarrow> e_type (es ! j) \<noteq> E820_TYPE_RAM) \<and>
      find_last_ram es k = e_addr (es ! i) + e_size (es ! i))"
proof (induction k)
  case (Suc k)
  then show ?case
  proof (cases "e_type (es ! k) = E820_TYPE_RAM")
    case True
    then show ?thesis by (intro disjI2 exI [of _ k]) auto
  next
    case False
    then show ?thesis using Suc by (fastforce simp: less_Suc_eq)
  qed
qed simp

lemma last_ram_table:
  assumes srt: "table_sorted (table_list t)" and cnt: "tbl_count t \<le> length (tbl_entries t)"
    and ram: "E820_TYPE_RAM \<in> types_at (table_list t) a"
  defines "r \<equiv> find_last_ram (tbl_entries t) (tbl_count t)"
  shows "r \<noteq> 0" and "a < unat r" and "E820_TYPE_RAM \<in> types_at (table_list t) (unat r - 1)"
proof -
  define D where "D = table_list t"
  have nth: "D ! i = tbl_entries t ! i" if "i < tbl_count t" for i using that by (simp add: D_def)
  have len: "length D = tbl_count t" using cnt by (simp add: D_def)
  obtain i where i: "i < length D" "e_type (D ! i) = E820_TYPE_RAM" "covers (D ! i) a"
    using ram by (auto simp: types_at_def D_def in_set_conv_nth)
  obtain m where m: "m < length D" "e_type (D ! m) = E820_TYPE_RAM"
    "\<forall>j. m < j \<and> j < length D \<longrightarrow> e_type (D ! j) \<noteq> E820_TYPE_RAM" "r = e_addr (D ! m) + e_size (D ! m)"
    using find_last_ram_spec [of "tbl_entries t" "tbl_count t"] i(1,2) len nth by (auto simp: r_def)
  have em: "e_size (D ! m) \<noteq> 0" "e_hi (D ! m) < 2 ^ 64"
    using srt nth_mem [OF m(1)] unfolding D_def [symmetric] by (simp_all add: table_sorted_def)
  have r: "unat r = e_hi (D ! m)" using unat_end [OF em(2)] m(4) by simp
  have lt: "e_lo (D ! m) < e_hi (D ! m)" using em(1) by (simp add: e_lo_def e_hi_def unat_gt_0)
  have "i \<le> m" using i m(3) by (meson not_le)
  then have "e_hi (D ! i) \<le> e_hi (D ! m)"
  proof (cases "i = m")
    case False
    then have "e_hi (D ! i) \<le> e_lo (D ! m)"
      using srt \<open>i \<le> m\<close> m(1) by (auto simp: table_sorted_def D_def sorted_wrt_iff_nth_less)
    then show ?thesis using lt by simp
  qed simp
  then show "a < unat r" using i(3) r by (simp add: covers_def)
  then show "r \<noteq> 0" by auto
  have "covers (D ! m) (unat r - 1)" using lt r by (auto simp: covers_def)
  then show "E820_TYPE_RAM \<in> types_at (table_list t) (unat r - 1)"
    using m(1,2) unfolding D_def [symmetric] types_at_def by (metis (mono_tags, lifting) imageI mem_Collect_eq nth_mem)
qed

lemma e820_init_spec:
  assumes "2 \<le> length es" and "length es \<le> 128" and "no_wrap es" and "type_spec es b = E820_TYPE_RAM"
  shows "\<exists>t r. e820_init es e820_table_init = Ok (t, r) \<and> table_sorted (table_list t) \<and>
           type_spec es (unat r - 1) = E820_TYPE_RAM \<and> (\<forall>a. type_spec es a = E820_TYPE_RAM \<longrightarrow> a < unat r) \<and>
           (\<forall>a. types_at (table_list t) a = {type_spec es a} - {0}) \<and> bounds (table_list t) \<subseteq> bounds es"
proof -
  have l: "length es \<le> E820_MAX_ENTRIES" "2 * length es \<le> E820_MAX_ENTRIES"
    using assms(2) by (simp_all add: E820_MAX_ENTRIES_def)
  obtain t where t: "e820_sanitize es e820_table_init = Ok (0, t)" "table_sorted (table_list t)"
    "\<And>a. types_at (table_list t) a = {type_spec es a} - {0}" "tbl_count t \<le> length (tbl_entries t)"
    "bounds (table_list t) \<subseteq> bounds es"
    by (rule e820_sanitize_sweep [OF assms(1) l(1) assms(3)]) (use l(2) in auto)
  have ram: "type_spec es a = E820_TYPE_RAM \<longleftrightarrow> E820_TYPE_RAM \<in> types_at (table_list t) a" for a
    by (auto simp: t(3) E820_TYPE_RAM_def)
  note R = last_ram_table [OF t(2,4)]
  have "find_last_ram (tbl_entries t) (tbl_count t) \<noteq> 0" using R(1) assms(4) ram by simp
  then have "e820_init es e820_table_init = Ok (t, find_last_ram (tbl_entries t) (tbl_count t))"
    using t(1) by (simp add: e820_init_def Let_def)
  then show ?thesis using t(2,3,5) R(2,3) assms(4) ram by metis
qed

section \<open>Properties\<close>

text \<open>A memory map in which a reserved range overlaps the end of RAM.\<close>

definition example_map :: "e820_entry list" where
  "example_map =
     [\<lparr>e_addr = 0x100000, e_size = 0x700000, e_type = E820_TYPE_RAM\<rparr>,
      \<lparr>e_addr = 0x600000, e_size = 0x300000, e_type = E820_TYPE_RESERVED\<rparr>,
      \<lparr>e_addr = 0, e_size = 0x9F000, e_type = E820_TYPE_RAM\<rparr>]"

lemma example_map_ok: "2 \<le> length example_map" "length example_map \<le> 128" "no_wrap example_map"
  by (simp_all add: example_map_def no_wrap_def e_hi_def)

lemma example_map_ram: "type_spec example_map 0x100000 = E820_TYPE_RAM"
proof -
  have "{e \<in> set example_map. covers e 0x100000} =
        {\<lparr>e_addr = 0x100000, e_size = 0x700000, e_type = E820_TYPE_RAM\<rparr>}"
    by (auto simp: example_map_def covers_def e_lo_def e_hi_def)
  then show ?thesis by (simp add: type_spec_def E820_TYPE_RAM_def)
qed

text \<open>
  Claim C6. For a firmware map of 2 to 128 entries none of which wraps around, \<^verbatim>\<open>e820_sanitize\<close> succeeds and
  the resulting table is sorted and free of overlaps, has no empty entry, fits into the static array,
  and at every address has exactly the largest type among the firmware entries covering that address
  (no entry where none does, or only type 0 does). Its entries begin and end only where firmware entries do.
\<close>

theorem e820_sanitize_correct:
  assumes "2 \<le> length es" and "length es \<le> 128" and "no_wrap es"
  shows "\<exists>t. e820_sanitize es e820_table_init = Ok (0, t) \<and> table_sorted (table_list t) \<and>
           tbl_count t < E820_MAX_ENTRIES \<and> (\<forall>a. types_at (table_list t) a = {type_spec es a} - {0}) \<and> bounds (table_list t) \<subseteq> bounds es"
proof -
  have l: "length es \<le> E820_MAX_ENTRIES" "2 * length es \<le> E820_MAX_ENTRIES"
    using assms(2) by (simp_all add: E820_MAX_ENTRIES_def)
  show ?thesis by (rule e820_sanitize_sweep [OF assms(1) l(1) assms(3)]) (use l(2) in blast)
qed

theorem e820_sanitize_correct_witness:
  "\<exists>t. e820_sanitize example_map e820_table_init = Ok (0, t) \<and> table_sorted (table_list t) \<and>
     types_at (table_list t) 0x100000 = {E820_TYPE_RAM}"
  using e820_sanitize_correct [OF example_map_ok] example_map_ram by (auto simp: E820_TYPE_RAM_def)

text \<open>
  Claim C7. \<^verbatim>\<open>e820_sanitize\<close> never writes outside its static arrays (the table, the change points, the overlap
  list), for every input; it reports -1 and leaves the table alone exactly for a map of more than 256 entries or,
  with at least 2 entries, a map with an entry that wraps around the address space.
\<close>

theorem e820_sanitize_safe:
  "\<exists>rc t. e820_sanitize es e820_table_init = Ok (rc, t) \<and> (rc = 0 \<or> rc = -1 \<and> t = e820_table_init) \<and>
     (rc = -1 \<longleftrightarrow> E820_MAX_ENTRIES < length es \<or> 2 \<le> length es \<and> \<not> no_wrap es)"
proof -
  consider "length es < 2" | "E820_MAX_ENTRIES < length es" "2 \<le> length es"
    | "2 \<le> length es" "length es \<le> E820_MAX_ENTRIES" "\<not> no_wrap es"
    | "2 \<le> length es" "length es \<le> E820_MAX_ENTRIES" "no_wrap es" by linarith
  then show ?thesis
  proof cases
    case 4
    then show ?thesis by (rule e820_sanitize_sweep) (use 4 in auto)
  next
    case 3
    then have "points_of 0 es = None" by (simp add: points_of_None)
    then show ?thesis using 3 by (simp add: e820_sanitize_def collect_points_fits)
  qed (auto simp: e820_sanitize_def E820_MAX_ENTRIES_def)
qed

text \<open>
  If moreover some address is RAM, \<^verbatim>\<open>e820_init\<close> does not panic and the recorded last RAM address is
  the end of the highest RAM byte of the map.
\<close>

theorem e820_init_correct:
  assumes "2 \<le> length es" and "length es \<le> 128" and "no_wrap es" and "type_spec es b = E820_TYPE_RAM"
  shows "\<exists>t r. e820_init es e820_table_init = Ok (t, r) \<and> table_sorted (table_list t) \<and>
           type_spec es (unat r - 1) = E820_TYPE_RAM \<and> (\<forall>a. type_spec es a = E820_TYPE_RAM \<longrightarrow> a < unat r)"
  using e820_init_spec [OF assms] by metis

theorem e820_init_correct_witness:
  "\<exists>t r. e820_init example_map e820_table_init = Ok (t, r) \<and> 0x100000 < unat r"
  using e820_init_correct [OF example_map_ok example_map_ram] example_map_ram by blast

text \<open>
  Claim C8. A firmware map with fewer than two entries is accepted by the sanitizer without being copied, so
  \<^verbatim>\<open>e820_init\<close> panics on it even when its only entry is RAM.
\<close>

theorem e820_init_short_map:
  assumes "length es < 2"
  shows "e820_init es e820_table_init = Err (Panic ''Failed to find last ram address'')"
  using assms by (simp add: e820_init_def e820_sanitize_def e820_table_init_def)

theorem e820_init_short_map_witness:
  "e820_init [\<lparr>e_addr = 0, e_size = 0x8000000, e_type = E820_TYPE_RAM\<rparr>] e820_table_init =
   Err (Panic ''Failed to find last ram address'')"
  by (rule e820_init_short_map) simp

end
