(* ===== verification/Frame_Source.thy ===== *)
theory Frame_Source
  imports Prelude
begin

text \<open>
  What the rest of the kernel relies on when it asks an allocator for physical memory. A block source
  hands out aligned runs of page frames, a frame source single frames; the laws are that what is
  handed out was not owned before and is owned afterwards. Every block source is a frame source. The
  buddy allocator (\<^verbatim>\<open>mm/buddy.c\<close>) and the boot-time allocator (\<^verbatim>\<open>arch/x86/bootmem.c\<close>) provide these
  interfaces; the page-table code and the scheduler are their clients.
\<close>

definition block :: "nat \<Rightarrow> nat \<Rightarrow> nat set" where
  "block x k = {x ..< x + 2 ^ k}"

lemma block_0 [simp]: "block x 0 = {x}"
  by (auto simp: block_def)

lemma in_block [simp]: "y \<in> block x k \<longleftrightarrow> x \<le> y \<and> y < x + 2 ^ k"
  by (auto simp: block_def)

text \<open>A client that asks for several blocks in a row, stopping when the source is exhausted.\<close>

fun run_gives :: "(nat \<Rightarrow> 's \<Rightarrow> (nat \<times> 's) option) \<Rightarrow> nat list \<Rightarrow> 's \<Rightarrow> (nat \<times> nat) list \<times> 's" where
  "run_gives give [] s = ([], s)"
| "run_gives give (k # ks) s =
     (case give k s of
        None \<Rightarrow> ([], s)
      | Some (p, s') \<Rightarrow> (let (bs, s'') = run_gives give ks s' in ((p, k) # bs, s'')))"

fun run_grabs :: "('s \<Rightarrow> (nat \<times> 's) option) \<Rightarrow> nat \<Rightarrow> 's \<Rightarrow> nat list \<times> 's" where
  "run_grabs grab 0 s = ([], s)"
| "run_grabs grab (Suc n) s =
     (case grab s of
        None \<Rightarrow> ([], s)
      | Some (f, s') \<Rightarrow> (let (fs, s'') = run_grabs grab n s' in (f # fs, s'')))"

definition frames_of :: "(nat \<times> nat) list \<Rightarrow> nat set" where
  "frames_of bs = (\<Union>(p, k) \<in> set bs. block p k)"

definition disjoint_blocks :: "(nat \<times> nat) list \<Rightarrow> bool" where
  "disjoint_blocks bs = sorted_wrt (\<lambda>(p, j) (q, k). block p j \<inter> block q k = {}) bs"

locale frame_source =
  fixes inv :: "'s \<Rightarrow> bool"
    and owned :: "'s \<Rightarrow> nat set"
    and grab :: "'s \<Rightarrow> (nat \<times> 's) option"
  assumes grab_inv: "inv s \<Longrightarrow> grab s = Some (f, s') \<Longrightarrow> inv s'"
    and grab_fresh: "inv s \<Longrightarrow> grab s = Some (f, s') \<Longrightarrow> f \<notin> owned s"
    and grab_owned: "inv s \<Longrightarrow> grab s = Some (f, s') \<Longrightarrow> owned s' = insert f (owned s)"
begin

lemma run_grabs_distinct:
  assumes "inv s" and "run_grabs grab n s = (fs, s')"
  shows "inv s' \<and> distinct fs \<and> set fs \<inter> owned s = {} \<and> owned s' = owned s \<union> set fs"
  using assms
proof (induction n arbitrary: s fs)
  case (Suc n)
  show ?case
  proof (cases "grab s")
    case (Some r)
    then obtain f s1 fs1 where g: "grab s = Some (f, s1)" and r: "run_grabs grab n s1 = (fs1, s')" and fs: "fs = f # fs1"
      using Suc.prems(2) by (cases r) (auto split: prod.splits)
    show ?thesis
      using Suc.IH [OF grab_inv [OF Suc.prems(1) g] r] grab_fresh [OF Suc.prems(1) g] grab_owned [OF Suc.prems(1) g] fs
      by auto
  qed (use Suc.prems in simp)
qed simp

end

locale block_source =
  fixes inv :: "'s \<Rightarrow> bool"
    and owned :: "'s \<Rightarrow> nat set"
    and give :: "nat \<Rightarrow> 's \<Rightarrow> (nat \<times> 's) option"
  assumes give_inv: "inv s \<Longrightarrow> give k s = Some (p, s') \<Longrightarrow> inv s'"
    and give_fresh: "inv s \<Longrightarrow> give k s = Some (p, s') \<Longrightarrow> block p k \<inter> owned s = {}"
    and give_owned: "inv s \<Longrightarrow> give k s = Some (p, s') \<Longrightarrow> owned s' = owned s \<union> block p k"
begin

lemma run_gives_disjoint:
  assumes "inv s" and "run_gives give ks s = (bs, s')"
  shows "inv s' \<and> disjoint_blocks bs \<and> frames_of bs \<inter> owned s = {} \<and> owned s' = owned s \<union> frames_of bs"
  using assms
proof (induction ks arbitrary: s bs)
  case Nil
  then show ?case by (simp add: disjoint_blocks_def frames_of_def)
next
  case (Cons k ks)
  show ?case
  proof (cases "give k s")
    case None
    then show ?thesis using Cons.prems by (simp add: disjoint_blocks_def frames_of_def)
  next
    case (Some r)
    then obtain p s1 bs1 where t: "give k s = Some (p, s1)" and r: "run_gives give ks s1 = (bs1, s')"
      and bs: "bs = (p, k) # bs1"
      using Cons.prems(2) by (cases r) (auto split: prod.splits)
    note IH = Cons.IH [OF give_inv [OF Cons.prems(1) t] r]
    note O = give_owned [OF Cons.prems(1) t] give_fresh [OF Cons.prems(1) t]
    have "block p k \<inter> block q j = {}" if "(q, j) \<in> set bs1" for q j
      using IH O(1) that by (auto simp: frames_of_def)
    then show ?thesis
      using IH O bs by (auto simp: disjoint_blocks_def frames_of_def)
  qed
qed

end

sublocale block_source \<subseteq> frame_source inv owned "give 0"
proof unfold_locales
  fix s f s' assume a: "inv s" "give 0 s = Some (f, s')"
  show "inv s'" using a by (rule give_inv)
  show "f \<notin> owned s" using give_fresh [OF a] by simp
  show "owned s' = insert f (owned s)" using give_owned [OF a] by simp
qed

end
