(* ===== verification/Bootmem.thy ===== *)
theory Bootmem
  imports E820_Correct Frame_Source
begin

text \<open>
  The boot-time allocator of \<^verbatim>\<open>arch/x86/bootmem.c\<close>: a bump allocator over the RAM entries of the
  sanitized memory map, above the kernel image. The static variables of the file are the record
  \<open>bootmem\<close>; the table of \<^verbatim>\<open>e820_get_table\<close> is passed as the list of its entries, the linker symbol
  \<^verbatim>\<open>KERNEL_END\<close> and the end of the low identity map of \<^verbatim>\<open>vmm_get_low_map_end\<close> as words. The list of segments
  that \<^verbatim>\<open>__alloc\<close> threads through the allocated memory is the list of its (physical address, size)
  pairs. Log messages are left out.
\<close>

section \<open>State\<close>

datatype bootmem_state = DISABLED | ENABLED | LOCKED

record bootmem =
  pool_start :: u64
  pool_end :: u64
  current_e820_entry :: nat
  pool_bytes :: u64
  bm_state :: bootmem_state

definition bootmem_boot :: bootmem where
  "bootmem_boot = \<lparr>pool_start = 0, pool_end = 0, current_e820_entry = 0, pool_bytes = 0, bm_state = DISABLED\<rparr>"

section \<open>Operations\<close>

fun find_pool :: "u64 \<Rightarrow> nat \<Rightarrow> e820_entry list \<Rightarrow> (nat \<times> u64) option" where
  "find_pool kend i [] = None"
| "find_pool kend i (e # es) =
     (if e_type e \<noteq> E820_TYPE_RAM then find_pool kend (i + 1) es
      else if e_addr e + e_size e \<le> kend then find_pool kend (i + 1) es
      else Some (i, if e_addr e < kend then kend else e_addr e))"

definition bootmem_init :: "u64 \<Rightarrow> u64 \<Rightarrow> e820_entry list \<Rightarrow> bootmem \<Rightarrow> (int \<times> bootmem) kres" where
  "bootmem_init kend low_map_end es st =
     (if bm_state st \<noteq> DISABLED then Ok (-1, st)
      else
        let st0 = st\<lparr>pool_start := 0, pool_end := 0, pool_bytes := 0\<rparr>;
            st1 = (case find_pool kend 0 es of None \<Rightarrow> st0
                   | Some (i, a) \<Rightarrow> st0\<lparr>pool_start := a, current_e820_entry := i\<rparr>)
        in if pool_start st1 = 0 then Err (Panic ''Bootmem failed to create pool'')
           else if pool_start st1 > low_map_end then Err (Panic ''Bootmem failed to create pool'')
           else let a = ROUND_UP (pool_start st1) PAGE_SIZE
                in Ok (0, st1\<lparr>pool_start := a, pool_end := a, bm_state := ENABLED\<rparr>))"

fun page_search :: "u64 \<Rightarrow> nat \<Rightarrow> e820_entry list \<Rightarrow> (u64 \<times> nat) option" where
  "page_search a i [] = None"
| "page_search a i (e # es) =
     (if e_type e \<noteq> E820_TYPE_RAM then page_search a (i + 1) es
      else
        let a' = (if a < e_addr e then ROUND_UP (e_addr e) PAGE_SIZE else a)
        in if a' + PAGE_SIZE > e_addr e + e_size e then page_search a' (i + 1) es
           else Some (a', i))"

definition bootmem_alloc_page_phys :: "e820_entry list \<Rightarrow> bootmem \<Rightarrow> (u64 \<times> bootmem) kres" where
  "bootmem_alloc_page_phys es st =
     (if bm_state st \<noteq> ENABLED then Ok (0, st)
      else if current_e820_entry st \<ge> length es then Err (Panic ''Bootmem state corrupted'')
      else if e_addr (es ! current_e820_entry st) > pool_end st then Err (Panic ''Bootmem state corrupted'')
      else
        case page_search (ROUND_UP (pool_end st) PAGE_SIZE) (current_e820_entry st)
               (drop (current_e820_entry st) es) of
          None \<Rightarrow> Ok (0, st)
        | Some (a, i) \<Rightarrow>
            Ok (a, st\<lparr>pool_end := a + PAGE_SIZE, current_e820_entry := i, pool_bytes := pool_bytes st + PAGE_SIZE\<rparr>))"

definition bootmem_alloc_page :: "e820_entry list \<Rightarrow> bootmem \<Rightarrow> (u64 \<times> bootmem) kres" where
  "bootmem_alloc_page es st =
     rbind (bootmem_alloc_page_phys es st) (\<lambda>(phys, st').
       Ok (if phys = 0 then 0 else HHDM_BASE + phys, st'))"

definition bootmem_get_pool_start :: "bootmem \<Rightarrow> u64" where
  "bootmem_get_pool_start st = pool_start st"

definition bootmem_get_pool_end :: "bootmem \<Rightarrow> u64" where
  "bootmem_get_pool_end st = pool_end st"

definition bootmem_get_pool_bytes :: "bootmem \<Rightarrow> u64" where
  "bootmem_get_pool_bytes st = pool_bytes st"

text \<open>
  The loop of \<^verbatim>\<open>__alloc\<close>: \<open>segs\<close> are the segments linked so far. It yields the segments with the end of the
  last one and the entry it lies in; \<open>None\<close> when the table is exhausted first.
\<close>

fun alloc_segments :: "u64 \<Rightarrow> u64 \<Rightarrow> u64 \<Rightarrow> (u64 \<times> u64) list \<Rightarrow> nat \<Rightarrow> e820_entry list \<Rightarrow>
    ((u64 \<times> u64) list \<times> u64 \<times> nat) option" where
  "alloc_segments pe bytes allocated segs i [] = None"
| "alloc_segments pe bytes allocated segs i (e # es) =
     (if e_type e \<noteq> E820_TYPE_RAM then alloc_segments pe bytes allocated segs (i + 1) es
      else
        let end0 = ROUND_DOWN (e_addr e + e_size e) PAGE_SIZE;
            start = ROUND_UP (if pe > e_addr e then pe else e_addr e) PAGE_SIZE
        in if start \<ge> end0 then alloc_segments pe bytes allocated segs (i + 1) es
           else
             let remaining = bytes - allocated;
                 end1 = (if start + remaining < end0 then start + remaining else end0);
                 size = end1 - start;
                 segs' = segs @ [(start, size)];
                 allocated' = allocated + size
             in if allocated' < bytes then alloc_segments pe bytes allocated' segs' (i + 1) es
                else Some (segs', end1, i))"

definition bootmem_alloc_segs :: "e820_entry list \<Rightarrow> u64 \<Rightarrow> bootmem \<Rightarrow> (u64 \<times> u64) list \<times> bootmem" where
  "bootmem_alloc_segs es bytes st =
     (if bm_state st \<noteq> ENABLED then ([], st)
      else if bytes = 0 then ([], st)
      else
        case alloc_segments (pool_end st) bytes 0 [] (current_e820_entry st) (drop (current_e820_entry st) es) of
          None \<Rightarrow> ([], st)
        | Some (segs, e, i) \<Rightarrow>
            (segs, st\<lparr>pool_end := e, pool_bytes := pool_bytes st + bytes, current_e820_entry := i\<rparr>))"

definition bootmem_lock :: "bootmem \<Rightarrow> bootmem" where
  "bootmem_lock st = st\<lparr>bm_state := LOCKED\<rparr>"

end
