(* ===== verification/Bootmem_Correct.thy ===== *)
theory Bootmem_Correct
  imports Bootmem
begin

text \<open>
  Correctness of the boot-time allocator. A usable frame is a page-aligned frame that lies inside one
  RAM entry. The single-page path hands out the lowest usable frame above the pool, the segment
  path exactly the lowest usable frames that make up the request, so what lies inside the pool
  is what was handed out: the allocator is a frame source. RAM is bounded by \<open>2 ^ 46\<close> (64 TiB), what
  the direct map between \<^verbatim>\<open>HHDM_BASE\<close> and \<^verbatim>\<open>MEM_MAP_ADDR\<close> can hold, so that neither a rounding nor an HHDM address
  wraps around.
\<close>

section \<open>Specification\<close>

definition PHYS_LIMIT :: nat where
  "PHYS_LIMIT = 2 ^ 46"

definition map_ok :: "e820_entry list \<Rightarrow> bool" where
  "map_ok es \<longleftrightarrow> table_sorted es \<and> (\<forall>e \<in> set es. e_type e = E820_TYPE_RAM \<longrightarrow> e_hi e \<le> PHYS_LIMIT)"

definition entry_frames :: "e820_entry \<Rightarrow> nat set" where
  "entry_frames e = {f. e_type e = E820_TYPE_RAM \<and> e_lo e \<le> 4096 * f \<and> 4096 * f + 4096 \<le> e_hi e}"

definition usable :: "e820_entry list \<Rightarrow> nat \<Rightarrow> nat set" where
  "usable es lo = {f. lo \<le> 4096 * f \<and> (\<exists>e \<in> set es. f \<in> entry_frames e)}"

definition bm_inv :: "e820_entry list \<Rightarrow> bootmem \<Rightarrow> bool" where
  "bm_inv es st \<longleftrightarrow> map_ok es \<and> bm_state st = ENABLED \<and> current_e820_entry st < length es \<and>
     e_addr (es ! current_e820_entry st) \<le> pool_end st \<and> 4096 dvd unat (pool_start st) \<and>
     4096 dvd unat (pool_end st) \<and> 0 < pool_start st \<and> pool_start st \<le> pool_end st \<and>
     unat (pool_end st) \<le> PHYS_LIMIT \<and> unat (pool_bytes st) + unat (pool_start st) \<le> unat (pool_end st)"

definition bm_owned :: "e820_entry list \<Rightarrow> bootmem \<Rightarrow> nat set" where
  "bm_owned es st = {f \<in> usable es (unat (pool_start st)). 4096 * f < unat (pool_end st)}"

definition seg_frames :: "(u64 \<times> u64) list \<Rightarrow> nat set" where
  "seg_frames segs = (\<Union>(p, s) \<in> set segs. {f. unat p \<le> 4096 * f \<and> 4096 * f < unat p + unat s})"

section \<open>Page arithmetic\<close>

lemma PAGE_SIZE_nz [simp]: "PAGE_SIZE \<noteq> 0"
  by (simp add: PAGE_SIZE_def)

lemma page_up:
  assumes "unat a \<le> PHYS_LIMIT"
  shows "unat (ROUND_UP a PAGE_SIZE) = (unat a + 4095) div 4096 * 4096"
    and "unat a \<le> unat (ROUND_UP a PAGE_SIZE)" and "unat (ROUND_UP a PAGE_SIZE) \<le> PHYS_LIMIT"
    and "4096 dvd unat (ROUND_UP a PAGE_SIZE)"
    and "unat a \<le> 4096 * f \<Longrightarrow> unat (ROUND_UP a PAGE_SIZE) \<le> 4096 * f"
proof -
  show *: "unat (ROUND_UP a PAGE_SIZE) = (unat a + 4095) div 4096 * 4096"
    using assms by (subst unat_ROUND_UP) (simp_all add: PHYS_LIMIT_def)
  show "unat a \<le> unat (ROUND_UP a PAGE_SIZE)" "unat (ROUND_UP a PAGE_SIZE) \<le> PHYS_LIMIT"
    "4096 dvd unat (ROUND_UP a PAGE_SIZE)" using assms unfolding * PHYS_LIMIT_def by simp_all
  show "unat (ROUND_UP a PAGE_SIZE) \<le> 4096 * f" if "unat a \<le> 4096 * f"
  proof -
    have "(unat a + 4095) div 4096 < f + 1" using that by (subst div_less_iff_less_mult) simp_all
    then show ?thesis unfolding * by simp
  qed
qed

lemma page_up_aligned:
  assumes "unat a \<le> PHYS_LIMIT" and "4096 dvd unat a"
  shows "ROUND_UP a PAGE_SIZE = a"
proof -
  obtain k where k: "unat a = 4096 * k" using assms(2) by blast
  have "unat (ROUND_UP a PAGE_SIZE) = unat a" unfolding page_up(1) [OF assms(1)] k by simp
  then show ?thesis by (simp add: word_unat_eq_iff)
qed

lemma page_down: "unat (ROUND_DOWN a PAGE_SIZE) = unat a div 4096 * 4096"
  by (simp add: unat_ROUND_DOWN)

lemma unat_add_page:
  assumes "unat a \<le> PHYS_LIMIT"
  shows "unat (a + PAGE_SIZE) = unat a + 4096"
  using assms by (subst unat_add_lt) (simp_all add: PHYS_LIMIT_def)

section \<open>Memory maps\<close>

lemma map_ok_Cons:
  assumes "map_ok (e # es)"
  shows "map_ok es" and "e_type e = E820_TYPE_RAM \<Longrightarrow> e_hi e \<le> PHYS_LIMIT" and "e_lo e < e_hi e"
    and "unat (e_addr e + e_size e) = e_hi e" and "f \<in> set es \<Longrightarrow> e_hi e \<le> e_lo f"
proof -
  have "e_hi e < 2 ^ 64" "e_size e \<noteq> 0" using assms by (auto simp: map_ok_def table_sorted_def)
  then show "unat (e_addr e + e_size e) = e_hi e" "e_lo e < e_hi e"
    by (simp_all add: unat_add_lt e_hi_def e_lo_def unat_gt_0)
qed (use assms in \<open>auto simp: map_ok_def table_sorted_def\<close>)

lemma map_ok_drop: "map_ok es \<Longrightarrow> map_ok (drop i es)"
  by (auto simp: map_ok_def table_sorted_def sorted_wrt_drop dest: in_set_dropD)

lemma usable_Nil [simp]: "usable [] lo = {}"
  by (simp add: usable_def)

lemma usable_Cons: "usable (e # es) lo = {f \<in> entry_frames e. lo \<le> 4096 * f} \<union> usable es lo"
  by (auto simp: usable_def)

lemma usable_bound: "map_ok es \<Longrightarrow> f \<in> usable es lo \<Longrightarrow> 4096 * f + 4096 \<le> PHYS_LIMIT"
  by (fastforce simp: usable_def entry_frames_def map_ok_def)

lemma finite_usable: "map_ok es \<Longrightarrow> finite (usable es lo)"
  by (rule finite_subset [of _ "{..PHYS_LIMIT}"]) (auto dest: usable_bound)

text \<open>Entries in front of the current one end below the pool, so they have no usable frame left.\<close>

lemma usable_drop:
  assumes "map_ok es" and "i < length es" and "e_lo (es ! i) \<le> lo"
  shows "usable (drop i es) lo = usable es lo"
proof -
  have "e_hi e \<le> lo" if m: "e \<in> set (take i es)" for e
  proof -
    obtain j where "j < i" "e = es ! j" using m assms(2) by (auto simp: in_set_conv_nth)
    then have "e_hi e \<le> e_lo (es ! i)"
      using assms(1,2) by (auto simp: map_ok_def table_sorted_def sorted_wrt_iff_nth_less)
    then show ?thesis using assms(3) by linarith
  qed
  moreover have "set es = set (take i es) \<union> set (drop i es)"
    by (metis append_take_drop_id set_append)
  ultimately show ?thesis by (fastforce simp: usable_def entry_frames_def)
qed

section \<open>Single pages\<close>

lemma page_search_spec:
  assumes "map_ok es" and "4096 dvd unat a" and "unat a \<le> PHYS_LIMIT"
  shows "case page_search a i es of
      None \<Rightarrow> usable es (unat a) = {}
    | Some (b, j) \<Rightarrow> i \<le> j \<and> j < i + length es \<and> e_addr (es ! (j - i)) \<le> b \<and>
        (\<exists>f \<in> usable es (unat a). unat b = 4096 * f \<and> (\<forall>g \<in> usable es (unat a). f \<le> g))"
  using assms
proof (induction a i es rule: page_search.induct)
  case (2 a i e es)
  note E = map_ok_Cons [OF 2(3)]
  show ?case
  proof (cases "e_type e = E820_TYPE_RAM")
    case False
    then have "usable (e # es) (unat a) = usable es (unat a)" by (auto simp: usable_Cons entry_frames_def)
    then show ?thesis using 2(1) [OF False E(1) 2(4,5)] False
      by (auto split: option.splits simp: Suc_diff_le nth_Cons')
  next
    case ram: True
    define b where "b = (if a < e_addr e then ROUND_UP (e_addr e) PAGE_SIZE else a)"
    have lo: "unat (e_addr e) \<le> PHYS_LIMIT" using E(2,3) ram by (simp add: e_lo_def)
    note up = page_up [OF lo]
    have b: "4096 dvd unat b" "unat b \<le> PHYS_LIMIT" "e_addr e \<le> b" "unat a \<le> unat b"
      using 2(4,5) up(2,3,4) by (auto simp: b_def word_less_nat_alt word_le_nat_alt)
    have least: "unat b \<le> 4096 * f" if "unat a \<le> 4096 * f" "e_lo e \<le> 4096 * f" for f
      using that up(5) by (auto simp: b_def e_lo_def)
    note pg = unat_add_page [OF b(2)]
    show ?thesis
    proof (cases "b + PAGE_SIZE > e_addr e + e_size e")
      case True
      then have full: "e_hi e < unat b + 4096" using pg E(4) by (simp add: word_less_nat_alt)
      have "usable (e # es) (unat a) = usable es (unat b)"
        using full least E(3,5) b(4) by (fastforce simp: usable_def entry_frames_def)
      then show ?thesis using 2(2) [OF _ b_def True E(1) b(1,2)] ram True
        by (auto simp: b_def [symmetric] Let_def split: option.splits simp: Suc_diff_le nth_Cons')
    next
      case False
      then have fits: "unat b + 4096 \<le> e_hi e" using pg E(4) by (simp add: word_less_nat_alt)
      obtain f where f: "unat b = 4096 * f" using b(1) by blast
      have "f \<in> usable (e # es) (unat a)"
        using fits f b(3,4) ram by (simp add: usable_Cons entry_frames_def word_le_nat_alt e_lo_def)
      moreover have "f \<le> g" if g: "g \<in> usable (e # es) (unat a)" for g
      proof -
        have "e_lo e \<le> 4096 * g" "unat a \<le> 4096 * g"
          using g E(3,5) by (fastforce simp: usable_def entry_frames_def)+
        then show ?thesis using least [of g] f by simp
      qed
      ultimately show ?thesis using False ram b(3) f by (auto simp: b_def [symmetric] Let_def)
    qed
  qed
qed simp


lemma bm_inv_pool:
  assumes "bm_inv es st"
  shows "usable (drop (current_e820_entry st) es) (unat (pool_end st)) = usable es (unat (pool_end st))"
    and "map_ok (drop (current_e820_entry st) es)"
    and "ROUND_UP (pool_end st) PAGE_SIZE = pool_end st"
  using assms by (simp_all add: bm_inv_def e_lo_def word_le_nat_alt page_up_aligned usable_drop map_ok_drop)

lemma bootmem_alloc_page_phys_spec:
  assumes inv: "bm_inv es st"
  shows "\<exists>a st'. bootmem_alloc_page_phys es st = Ok (a, st') \<and> bm_inv es st' \<and>
    (if usable es (unat (pool_end st)) = {} then a = 0 \<and> st' = st
     else \<exists>f \<in> usable es (unat (pool_end st)). unat a = 4096 * f \<and> (\<forall>g \<in> usable es (unat (pool_end st)). f \<le> g) \<and>
       pool_end st' = a + PAGE_SIZE \<and> pool_start st' = pool_start st \<and> pool_bytes st' = pool_bytes st + PAGE_SIZE)"
proof -
  let ?i = "current_e820_entry st" and ?e = "pool_end st"
  note I = inv [unfolded bm_inv_def] and P = bm_inv_pool [OF inv]
  have guards: "\<not> length es \<le> ?i" "\<not> ?e < e_addr (es ! ?i)" "bm_state st = ENABLED" using I by auto
  have S: "case page_search ?e ?i (drop ?i es) of
      None \<Rightarrow> usable es (unat ?e) = {}
    | Some (b, j) \<Rightarrow> ?i \<le> j \<and> j < ?i + length (drop ?i es) \<and> e_addr (drop ?i es ! (j - ?i)) \<le> b \<and>
        (\<exists>f \<in> usable es (unat ?e). unat b = 4096 * f \<and> (\<forall>g \<in> usable es (unat ?e). f \<le> g))"
    using page_search_spec [OF P(2), of ?e ?i] I unfolding P(1) by blast
  show ?thesis
  proof (cases "page_search ?e ?i (drop ?i es)")
    case None
    then show ?thesis using S guards inv P(3) by (simp add: bootmem_alloc_page_phys_def)
  next
    case (Some r)
    obtain b j where r: "r = (b, j)" by force
    from S Some r obtain f where f: "f \<in> usable es (unat ?e)" "unat b = 4096 * f"
      "\<forall>g \<in> usable es (unat ?e). f \<le> g" and j: "?i \<le> j" "j < length es" "e_addr (es ! j) \<le> b"
      by auto
    let ?st = "st\<lparr>pool_end := b + PAGE_SIZE, current_e820_entry := j, pool_bytes := pool_bytes st + PAGE_SIZE\<rparr>"
    have bnd: "unat b + 4096 \<le> PHYS_LIMIT" using usable_bound [OF _ f(1)] I f(2) by simp
    have lo: "unat ?e \<le> unat b" using f(1,2) by (simp add: usable_def)
    have u: "unat (b + PAGE_SIZE) = unat b + 4096" using bnd by (intro unat_add_page) simp
    have "unat (pool_bytes st) + 4096 < 2 ^ 64"
      using I lo bnd unfolding PHYS_LIMIT_def word_le_nat_alt by simp
    then have v: "unat (pool_bytes st + PAGE_SIZE) = unat (pool_bytes st) + 4096"
      by (subst unat_add_lt) simp_all
    have "bm_inv es ?st"
      using I j bnd lo f(2) by (simp add: bm_inv_def word_le_nat_alt u v)
    moreover have "bootmem_alloc_page_phys es st = Ok (b, ?st)"
      using Some r guards P(3) by (simp add: bootmem_alloc_page_phys_def)
    ultimately show ?thesis using f by auto
  qed
qed

text \<open>The allocator as a provider of the frame interface.\<close>

definition bm_grab :: "e820_entry list \<Rightarrow> bootmem \<Rightarrow> (nat \<times> bootmem) option" where
  "bm_grab es st =
     (case bootmem_alloc_page_phys es st of
        Ok (a, st') \<Rightarrow> if a = 0 then None else Some (unat a div 4096, st')
      | Err e \<Rightarrow> None)"

lemma bm_grab_cases:
  assumes inv: "bm_inv es st" and g: "bm_grab es st = Some (f, st')"
  shows "bm_inv es st'" and "f \<in> usable es (unat (pool_end st))"
    and "\<And>g. g \<in> usable es (unat (pool_end st)) \<Longrightarrow> f \<le> g"
    and "unat (pool_end st') = 4096 * f + 4096" and "pool_start st' = pool_start st"
proof -
  obtain a where a: "bootmem_alloc_page_phys es st = Ok (a, st')" "a \<noteq> 0" "f = unat a div 4096"
    using g by (auto simp: bm_grab_def split: kres.splits if_splits)
  have nz: "\<not> (usable es (unat (pool_end st)) = {} \<and> a = 0 \<and> st' = st)" using a(2) by simp
  obtain h where h: "h \<in> usable es (unat (pool_end st))" "unat a = 4096 * h"
    "\<forall>g \<in> usable es (unat (pool_end st)). h \<le> g" and st': "bm_inv es st'" "pool_end st' = a + PAGE_SIZE"
    "pool_start st' = pool_start st"
    using bootmem_alloc_page_phys_spec [OF inv] a(1,2) by (auto split: if_splits)
  have "unat a \<le> PHYS_LIMIT" using usable_bound [OF _ h(1)] inv h(2) by (simp add: bm_inv_def)
  then show "bm_inv es st'" "f \<in> usable es (unat (pool_end st))"
    "\<And>g. g \<in> usable es (unat (pool_end st)) \<Longrightarrow> f \<le> g"
    "unat (pool_end st') = 4096 * f + 4096" "pool_start st' = pool_start st"
    using h st' a(3) by (simp_all add: unat_add_page)
qed

lemma bootmem_page_total:
  assumes inv: "bm_inv es st"
  obtains a st' where "bootmem_alloc_page_phys es st = Ok (a, st')" and "bm_inv es st'" and "a = 0 \<Longrightarrow> st' = st"
    and "a \<noteq> 0 \<Longrightarrow> bm_grab es st = Some (unat a div 4096, st')" and "unat a = 4096 * (unat a div 4096)"
proof -
  obtain a st' where r: "bootmem_alloc_page_phys es st = Ok (a, st')" "bm_inv es st'"
    and S: "if usable es (unat (pool_end st)) = {} then a = 0 \<and> st' = st
     else \<exists>f \<in> usable es (unat (pool_end st)). unat a = 4096 * f"
    using bootmem_alloc_page_phys_spec [OF inv] by (fastforce split: if_splits)
  have pos: "0 < unat (pool_end st)" using inv by (auto simp: bm_inv_def word_le_nat_alt word_less_nat_alt)
  have "unat a = 4096 * (unat a div 4096)" using S by (auto split: if_splits)
  moreover have "a = 0 \<Longrightarrow> st' = st" using S pos by (auto simp: usable_def split: if_splits)
  ultimately show thesis using r by (intro that [of a st']) (auto simp: bm_grab_def)
qed

interpretation bootmem_src: frame_source "bm_inv es" "bm_owned es" "bm_grab es" for es
proof unfold_locales
  fix st f st' assume inv: "bm_inv es st" and g: "bm_grab es st = Some (f, st')"
  note G = bm_grab_cases [OF inv g]
  show "bm_inv es st'" by (rule G(1))
  show "f \<notin> bm_owned es st" using G(2) by (auto simp: bm_owned_def usable_def)
  have le: "pool_start st \<le> pool_end st" using inv by (simp add: bm_inv_def)
  show "bm_owned es st' = insert f (bm_owned es st)"
  proof (intro set_eqI iffI)
    fix g assume "g \<in> bm_owned es st'"
    then have g: "g \<in> usable es (unat (pool_start st))" "g \<le> f"
      by (auto simp: bm_owned_def G(4,5))
    then show "g \<in> insert f (bm_owned es st)"
      using G(3) [of g] by (auto simp: bm_owned_def usable_def not_less)
  next
    fix g assume "g \<in> insert f (bm_owned es st)"
    then show "g \<in> bm_owned es st'"
      using G(2) le by (auto simp: bm_owned_def usable_def G(4,5) word_le_nat_alt)
  qed
qed

section \<open>Segments\<close>

definition segs_ok :: "e820_entry list \<Rightarrow> nat \<Rightarrow> (u64 \<times> u64) list \<Rightarrow> bool" where
  "segs_ok es lo segs \<longleftrightarrow> sorted_wrt (\<lambda>(p, s) (q, t). unat p + unat s \<le> unat q) segs \<and>
     (\<forall>(p, s) \<in> set segs. 4096 dvd unat p \<and> 4096 dvd unat s \<and> 0 < s \<and> lo \<le> unat p \<and>
        (\<exists>e \<in> set es. e_type e = E820_TYPE_RAM \<and> e_lo e \<le> unat p \<and> unat p + unat s \<le> e_hi e))"

definition seg_bytes :: "(u64 \<times> u64) list \<Rightarrow> nat" where
  "seg_bytes segs = (\<Sum>(p, s) \<leftarrow> segs. unat s)"

lemma segs_ok_Nil [simp]: "segs_ok es lo []" and seg_bytes_simps [simp]: "seg_bytes [] = 0"
    "seg_bytes ((p, s) # segs) = unat s + seg_bytes segs" and seg_frames_Nil [simp]: "seg_frames [] = {}"
    and seg_frames_Cons: "seg_frames ((p, s) # segs) =
      {f. unat p \<le> 4096 * f \<and> 4096 * f < unat p + unat s} \<union> seg_frames segs"
  by (auto simp: segs_ok_def seg_bytes_def seg_frames_def)


text \<open>The part of an entry that lies above the pool, as the loop computes it.\<close>

definition seg_lo :: "u64 \<Rightarrow> e820_entry \<Rightarrow> u64" where
  "seg_lo pe e = ROUND_UP (if pe > e_addr e then pe else e_addr e) PAGE_SIZE"

definition seg_hi :: "e820_entry \<Rightarrow> u64" where
  "seg_hi e = ROUND_DOWN (e_addr e + e_size e) PAGE_SIZE"

lemma segment_bounds:
  assumes "map_ok (e # es)" and "e_type e = E820_TYPE_RAM" and "unat pe \<le> PHYS_LIMIT"
  shows "4096 dvd unat (seg_lo pe e)" "4096 dvd unat (seg_hi e)" "unat (seg_hi e) \<le> e_hi e"
    "e_hi e \<le> PHYS_LIMIT" "unat pe \<le> unat (seg_lo pe e)" "e_lo e \<le> unat (seg_lo pe e)"
    "unat (seg_lo pe e) \<le> PHYS_LIMIT"
    "f \<in> entry_frames e \<and> unat pe \<le> 4096 * f \<longleftrightarrow> unat (seg_lo pe e) \<le> 4096 * f \<and> 4096 * f < unat (seg_hi e)"
proof -
  note E = map_ok_Cons [OF assms(1)]
  define m where "m = (if pe > e_addr e then pe else e_addr e)"
  have m: "unat m = max (unat pe) (e_lo e)" by (auto simp: m_def e_lo_def word_less_nat_alt)
  have lim: "unat m \<le> PHYS_LIMIT" using E(2,3) assms(2,3) m by simp
  note up = page_up [OF lim]
  show S: "4096 dvd unat (seg_lo pe e)" "unat pe \<le> unat (seg_lo pe e)" "e_lo e \<le> unat (seg_lo pe e)"
    "unat (seg_lo pe e) \<le> PHYS_LIMIT" using up(2,3,4) m by (simp_all add: seg_lo_def m_def [symmetric])
  have H: "unat (seg_hi e) = e_hi e div 4096 * 4096" by (simp add: seg_hi_def page_down E(4))
  show H': "4096 dvd unat (seg_hi e)" "unat (seg_hi e) \<le> e_hi e" unfolding H by simp_all
  show "e_hi e \<le> PHYS_LIMIT" by (rule E(2) [OF assms(2)])
  have "4096 * f + 4096 \<le> e_hi e \<longleftrightarrow> 4096 * f < unat (seg_hi e)"
  proof -
    have "f < e_hi e div 4096 \<longleftrightarrow> (f + 1) * 4096 \<le> e_hi e"
      using less_eq_div_iff_mult_less_eq [of 4096 "f + 1" "e_hi e"] by auto
    then show ?thesis unfolding H by auto
  qed
  moreover have "unat pe \<le> 4096 * f \<and> e_lo e \<le> 4096 * f \<longleftrightarrow> unat (seg_lo pe e) \<le> 4096 * f"
    using up(5) [of f] S(2,3) m by (auto simp: seg_lo_def m_def [symmetric])
  ultimately show "f \<in> entry_frames e \<and> unat pe \<le> 4096 * f \<longleftrightarrow>
      unat (seg_lo pe e) \<le> 4096 * f \<and> 4096 * f < unat (seg_hi e)"
    using assms(2) by (auto simp: entry_frames_def)
qed

lemma card_frames:
  assumes "4096 dvd a" and "4096 dvd b"
  shows "4096 * card {f. a \<le> 4096 * f \<and> 4096 * f < b} = b - (a :: nat)"
proof -
  obtain i j where ij: "a = 4096 * i" "b = 4096 * j" using assms by (auto elim!: dvdE)
  have "{f. a \<le> 4096 * f \<and> 4096 * f < b} = {i..<j}" by (auto simp: ij)
  then show ?thesis by (simp add: ij diff_mult_distrib2)
qed

lemma seg_frames_card: "segs_ok es lo segs \<Longrightarrow> seg_bytes segs = 4096 * card (seg_frames segs)"
proof (induction segs)
  case (Cons a segs)
  obtain p s where a: "a = (p, s)" by force
  let ?X = "{f. unat p \<le> 4096 * f \<and> 4096 * f < unat p + unat s}"
  have ok: "segs_ok es lo segs" "4096 dvd unat p" "4096 dvd unat s"
    and below: "\<And>q t. (q, t) \<in> set segs \<Longrightarrow> unat p + unat s \<le> unat q"
    using Cons.prems by (auto simp: segs_ok_def a)
  have fin: "finite {f. a \<le> 4096 * f \<and> 4096 * f < (b :: nat)}" for a b
    by (rule finite_subset [of _ "{..b}"]) auto
  have "?X \<inter> seg_frames segs = {}" using below by (fastforce simp: seg_frames_def)
  moreover have "finite (seg_frames segs)" by (auto simp: seg_frames_def fin)
  moreover have "4096 * card ?X = unat s" using card_frames [of "unat p" "unat p + unat s"] ok by simp
  ultimately show ?case using Cons.IH [OF ok(1)] fin by (simp add: a seg_frames_Cons card_Un_disjoint)
qed simp

lemma card_usable_Cons:
  assumes "map_ok (e # es)" and "e_type e = E820_TYPE_RAM" and "unat pe \<le> PHYS_LIMIT"
  shows "4096 * card (usable (e # es) (unat pe)) =
     (unat (seg_hi e) - unat (seg_lo pe e)) + 4096 * card (usable es (unat pe))"
proof -
  let ?X = "{f. unat (seg_lo pe e) \<le> 4096 * f \<and> 4096 * f < unat (seg_hi e)}"
  note B = segment_bounds [OF assms] and E = map_ok_Cons [OF assms(1)]
  have U: "usable (e # es) (unat pe) = ?X \<union> usable es (unat pe)"
    unfolding usable_Cons using B(8) by blast
  have X: "4096 * card ?X = unat (seg_hi e) - unat (seg_lo pe e)" by (rule card_frames [OF B(1,2)])
  have "finite ?X" by (rule finite_subset [of _ "{..unat (seg_hi e)}"]) auto
  moreover have "?X \<inter> usable es (unat pe) = {}"
    using B(3) E(5) by (fastforce simp: usable_def entry_frames_def)
  ultimately show ?thesis
    unfolding U using X finite_usable [OF E(1)] by (simp add: card_Un_disjoint)
qed

text \<open>What a successful run of the loop yields, for a request of \<open>n\<close> remaining bytes.\<close>

definition seg_result :: "e820_entry list \<Rightarrow> nat \<Rightarrow> nat \<Rightarrow> (u64 \<times> u64) list \<Rightarrow> nat \<Rightarrow> bool" where
  "seg_result es pe n new e1 \<longleftrightarrow> new \<noteq> [] \<and> segs_ok es pe new \<and> seg_bytes new = n \<and>
     seg_frames new = {f \<in> usable es pe. 4096 * f < e1} \<and> 4096 dvd e1 \<and> e1 \<le> PHYS_LIMIT \<and>
     (\<forall>x. x \<le> pe \<or> (\<forall>e \<in> set es. x \<le> e_lo e) \<longrightarrow> n + x \<le> e1)"

lemma seg_result_skip:
  assumes "seg_result es pe n new e1" and "{f \<in> entry_frames e. pe \<le> 4096 * f} = {}"
  shows "seg_result (e # es) pe n new e1"
  using assms unfolding seg_result_def usable_Cons segs_ok_def by (simp add: case_prod_beta) blast

lemma seg_result_drop:
  assumes R: "seg_result (drop i es) pe n segs e1" and U: "usable (drop i es) pe = usable es pe"
  shows "seg_result es pe n segs e1"
  unfolding seg_result_def
proof (intro conjI allI impI)
  show "segs_ok es pe segs" using R by (fastforce simp: seg_result_def segs_ok_def dest: in_set_dropD)
  fix x assume "x \<le> pe \<or> (\<forall>e \<in> set es. x \<le> e_lo e)"
  then have "x \<le> pe \<or> (\<forall>e \<in> set (drop i es). x \<le> e_lo e)" by (auto dest: in_set_dropD)
  then show "n + x \<le> e1" using R unfolding seg_result_def by blast
qed (use R U in \<open>auto simp: seg_result_def\<close>)

lemma seg_result_last:
  assumes ok: "map_ok (e # es)" "e_type e = E820_TYPE_RAM" "unat pe \<le> PHYS_LIMIT"
    and s: "4096 dvd unat s" "0 < s" "unat (seg_lo pe e) + unat s \<le> unat (seg_hi e)"
  shows "seg_result (e # es) (unat pe) (unat s) [(seg_lo pe e, s)] (unat (seg_lo pe e) + unat s)"
proof -
  note B = segment_bounds [OF ok] and E = map_ok_Cons [OF ok(1)]
  have "{f. unat (seg_lo pe e) \<le> 4096 * f \<and> 4096 * f < unat (seg_lo pe e) + unat s} =
    {f \<in> usable (e # es) (unat pe). 4096 * f < unat (seg_lo pe e) + unat s}"
  proof (intro set_eqI iffI)
    fix f assume "f \<in> {f \<in> usable (e # es) (unat pe). 4096 * f < unat (seg_lo pe e) + unat s}"
    then have f: "4096 * f < unat (seg_lo pe e) + unat s" "f \<in> usable (e # es) (unat pe)" by auto
    have "f \<notin> usable es (unat pe)"
    proof
      assume "f \<in> usable es (unat pe)"
      then obtain e' where "e' \<in> set es" "e_lo e' \<le> 4096 * f" by (auto simp: usable_def entry_frames_def)
      then show False using E(5) [of e'] B(3) s(3) f(1) by linarith
    qed
    then show "f \<in> {f. unat (seg_lo pe e) \<le> 4096 * f \<and> 4096 * f < unat (seg_lo pe e) + unat s}"
      using f B(8) [of f] unfolding usable_Cons by blast
  next
    fix f assume "f \<in> {f. unat (seg_lo pe e) \<le> 4096 * f \<and> 4096 * f < unat (seg_lo pe e) + unat s}"
    then show "f \<in> {f \<in> usable (e # es) (unat pe). 4096 * f < unat (seg_lo pe e) + unat s}"
      using B(8) [of f] s(3) unfolding usable_Cons by auto
  qed
  then show ?thesis
    using B(1,3,4,5,6) s ok(2) by (auto simp: seg_result_def seg_frames_Cons segs_ok_def)
qed

lemma seg_result_more:
  assumes ok: "map_ok (e # es)" "e_type e = E820_TYPE_RAM" "unat pe \<le> PHYS_LIMIT"
    and s: "unat (seg_lo pe e) + unat s = unat (seg_hi e)" "0 < s" and r: "seg_result es (unat pe) n new e1"
  shows "seg_result (e # es) (unat pe) (unat s + n) ((seg_lo pe e, s) # new) e1"
proof -
  note B = segment_bounds [OF ok] and E = map_ok_Cons [OF ok(1)]
  note R = r [unfolded seg_result_def]
  have x: "n + e_hi e \<le> e1" using R E(5) by blast
  have d: "4096 dvd unat s" using B(1,2) s(1) by (metis dvd_add_right_iff)
  have "segs_ok (e # es) (unat pe) ((seg_lo pe e, s) # new)"
    using R B(1,3,5,6) s d ok(2) E(5) by (fastforce simp: segs_ok_def)
  moreover have "seg_frames ((seg_lo pe e, s) # new) = {f \<in> usable (e # es) (unat pe). 4096 * f < e1}"
    using R B(3,8) s(1) x unfolding usable_Cons seg_frames_Cons by auto
  moreover have "unat s + n + y \<le> e1" if "y \<le> unat pe \<or> (\<forall>e \<in> set (e # es). y \<le> e_lo e)" for y
    using that x B(3,5,6) s(1) by fastforce
  ultimately show ?thesis using R by (auto simp: seg_result_def)
qed


text \<open>The two kinds of iteration, and the size of the segment an iteration takes.\<close>

definition seg_take :: "u64 \<Rightarrow> e820_entry \<Rightarrow> u64 \<Rightarrow> u64" where
  "seg_take pe e rem = (if seg_lo pe e + rem < seg_hi e then seg_lo pe e + rem else seg_hi e)"

lemma alloc_segments_skip:
  assumes "\<not> (e_type e = E820_TYPE_RAM \<and> seg_lo pe e < seg_hi e)"
  shows "alloc_segments pe bytes allocated segs i (e # es) = alloc_segments pe bytes allocated segs (i + 1) es"
  using assms by (auto simp: seg_lo_def seg_hi_def Let_def)

lemma alloc_segments_take:
  assumes "e_type e = E820_TYPE_RAM" and "seg_lo pe e < seg_hi e"
    and "e1 = seg_take pe e (bytes - allocated)" and "s = e1 - seg_lo pe e"
  shows "alloc_segments pe bytes allocated segs i (e # es) =
    (if allocated + s < bytes then alloc_segments pe bytes (allocated + s) (segs @ [(seg_lo pe e, s)]) (i + 1) es
     else Some (segs @ [(seg_lo pe e, s)], e1, i))"
  using assms by (auto simp: seg_take_def seg_lo_def seg_hi_def Let_def not_le)

lemma seg_take_size:
  assumes ok: "map_ok (e # es)" "e_type e = E820_TYPE_RAM" "unat pe \<le> PHYS_LIMIT" "seg_lo pe e < seg_hi e"
    and a: "4096 dvd unat bytes" "unat bytes \<le> 2 ^ 62" "allocated < bytes" "4096 dvd unat allocated"
    and e1: "e1 = seg_take pe e (bytes - allocated)" and s: "s = e1 - seg_lo pe e"
  shows "unat s = min (unat bytes - unat allocated) (unat (seg_hi e) - unat (seg_lo pe e))"
    and "unat e1 = unat (seg_lo pe e) + unat s" and "unat (allocated + s) = unat allocated + unat s"
    and "4096 dvd unat s" and "0 < s"
proof -
  note B = segment_bounds [OF ok(1-3)]
  have rem: "unat (bytes - allocated) = unat bytes - unat allocated"
    using a(3) by (simp add: unat_sub_le order_less_imp_le)
  have sum: "unat (seg_lo pe e + (bytes - allocated)) = unat (seg_lo pe e) + (unat bytes - unat allocated)"
    using a(2) B(7) rem by (subst unat_add_lt) (simp_all add: PHYS_LIMIT_def)
  have e1': "unat e1 = min (unat (seg_lo pe e) + (unat bytes - unat allocated)) (unat (seg_hi e))"
    by (auto simp: e1 seg_take_def word_less_nat_alt sum)
  have lt: "unat (seg_lo pe e) < unat (seg_hi e)" "unat allocated < unat bytes"
    using ok(4) a(3) by (simp_all add: word_less_nat_alt)
  show s': "unat s = min (unat bytes - unat allocated) (unat (seg_hi e) - unat (seg_lo pe e))"
    using e1' lt by (subst s, subst unat_sub_le) (auto simp: word_le_nat_alt)
  show "unat e1 = unat (seg_lo pe e) + unat s" using e1' s' lt by linarith
  show "unat (allocated + s) = unat allocated + unat s"
    using a(2,3) s' lt by (intro unat_add_lt) simp
  show "4096 dvd unat s" using a B(1,2) s' by (auto simp: min_def dvd_diff_nat)
  show "0 < s" using s' lt by (simp add: word_less_nat_alt)
qed

text \<open>The specification of a run that starts with \<open>allocated\<close> bytes and the segments \<open>segs\<close>.\<close>

definition segments_spec :: "u64 \<Rightarrow> u64 \<Rightarrow> u64 \<Rightarrow> (u64 \<times> u64) list \<Rightarrow> nat \<Rightarrow> e820_entry list \<Rightarrow>
    ((u64 \<times> u64) list \<times> u64 \<times> nat) option \<Rightarrow> bool" where
  "segments_spec pe bytes allocated segs i es res \<longleftrightarrow>
     (case res of
        None \<Rightarrow> unat allocated + 4096 * card (usable es (unat pe)) < unat bytes
      | Some (r, e1, j) \<Rightarrow> i \<le> j \<and> j < i + length es \<and> e_addr (es ! (j - i)) \<le> e1 \<and>
          (\<exists>new. r = segs @ new \<and> seg_result es (unat pe) (unat bytes - unat allocated) new (unat e1)))"

lemma segments_spec_skip:
  assumes r: "segments_spec pe bytes allocated segs (i + 1) es r"
    and no: "{f \<in> entry_frames e. unat pe \<le> 4096 * f} = {}"
  shows "segments_spec pe bytes allocated segs i (e # es) r"
proof -
  have "usable (e # es) (unat pe) = usable es (unat pe)" unfolding usable_Cons no by simp
  then show ?thesis using r
    by (auto simp: segments_spec_def Suc_diff_le nth_Cons' dest: seg_result_skip [OF _ no] split: option.splits)
qed

lemma segments_spec_more:
  assumes ok: "map_ok (e # es)" "e_type e = E820_TYPE_RAM" "unat pe \<le> PHYS_LIMIT"
    and s: "unat (seg_lo pe e) + unat s = unat (seg_hi e)" "0 < s"
    and b: "unat (allocated + s) = unat allocated + unat s" "unat allocated + unat s < unat bytes"
    and r: "segments_spec pe bytes (allocated + s) (segs @ [(seg_lo pe e, s)]) (i + 1) es r"
  shows "segments_spec pe bytes allocated segs i (e # es) r"
proof (cases r)
  case None
  then show ?thesis using r b s card_usable_Cons [OF ok] by (simp add: segments_spec_def)
next
  case (Some q)
  then obtain e2 j new where q: "q = (segs @ (seg_lo pe e, s) # new, e2, j)" "i + 1 \<le> j" "j < i + 1 + length es"
    "e_addr (es ! (j - (i + 1))) \<le> e2" and n: "seg_result es (unat pe) (unat bytes - unat (allocated + s)) new (unat e2)"
    using r by (cases q) (auto simp: segments_spec_def)
  have eq: "unat bytes - unat allocated = unat s + (unat bytes - unat (allocated + s))" using b by simp
  have "seg_result (e # es) (unat pe) (unat bytes - unat allocated) ((seg_lo pe e, s) # new) (unat e2)"
    using seg_result_more [OF ok s n] unfolding eq .
  then show ?thesis using q Some by (auto simp: segments_spec_def nth_Cons' Suc_diff_le)
qed

lemma alloc_segments_spec:
  assumes "map_ok es" and pe: "unat pe \<le> PHYS_LIMIT" and b: "4096 dvd unat bytes" "unat bytes \<le> 2 ^ 62"
    and "allocated < bytes" and "4096 dvd unat allocated"
  shows "segments_spec pe bytes allocated segs i es (alloc_segments pe bytes allocated segs i es)"
  using assms(1,5,6)
proof (induction es arbitrary: allocated segs i)
  case Nil
  then show ?case by (simp add: segments_spec_def word_less_nat_alt)
next
  case (Cons e es)
  note ok = Cons.prems(1) and al = Cons.prems(2,3) and tl = map_ok_Cons(1) [OF Cons.prems(1)]
  show ?case
  proof (cases "e_type e = E820_TYPE_RAM \<and> seg_lo pe e < seg_hi e")
    case False
    have no: "{f \<in> entry_frames e. unat pe \<le> 4096 * f} = {}"
    proof (cases "e_type e = E820_TYPE_RAM")
      case ram: True
      then show ?thesis using False segment_bounds(8) [OF ok ram pe] by (auto simp: word_less_nat_alt)
    qed (auto simp: entry_frames_def)
    show ?thesis unfolding alloc_segments_skip [OF False]
      by (rule segments_spec_skip [OF Cons.IH [OF tl al] no])
  next
    case True
    define e1 where e1: "e1 = seg_take pe e (bytes - allocated)"
    define s where s: "s = e1 - seg_lo pe e"
    note ram = conjunct1 [OF True] and lt = conjunct2 [OF True]
    note S = seg_take_size [OF ok ram pe lt b al e1 s] and B = segment_bounds [OF ok ram pe]
    note step = alloc_segments_take [OF ram lt e1 s]
    show ?thesis
    proof (cases "allocated + s < bytes")
      case more: True
      then have f: "unat allocated + unat s < unat bytes" using S(3) by (simp add: word_less_nat_alt)
      then have hi: "unat (seg_lo pe e) + unat s = unat (seg_hi e)"
        using S(1) lt by (auto simp: word_less_nat_alt min_def split: if_splits)
      have d: "4096 dvd unat (allocated + s)" using S(3,4) al(2) by simp
      show ?thesis unfolding step if_P [OF more]
        by (rule segments_spec_more [OF ok ram pe hi S(5,3) f Cons.IH [OF tl more d]])
    next
      case False
      then have sz: "unat s = unat bytes - unat allocated" "unat (seg_lo pe e) + unat s \<le> unat (seg_hi e)"
        using S(1,3) lt by (auto simp: word_less_nat_alt min_def split: if_splits)
      show ?thesis unfolding step if_not_P [OF False]
        using seg_result_last [OF ok ram pe S(4,5) sz(2)] sz(1) S(2) B(6)
        by (auto simp: segments_spec_def word_le_nat_alt e_lo_def)
    qed
  qed
qed


lemma bootmem_alloc_segs_spec:
  assumes inv: "bm_inv es st" and b: "4096 dvd unat bytes" "unat bytes \<le> 2 ^ 62" "bytes \<noteq> 0"
    and r: "bootmem_alloc_segs es bytes st = (segs, st')"
  shows "bm_inv es st'"
    and "unat bytes \<le> 4096 * card (usable es (unat (pool_end st))) \<Longrightarrow>
      seg_result es (unat (pool_end st)) (unat bytes) segs (unat (pool_end st')) \<and>
      pool_start st' = pool_start st \<and> pool_bytes st' = pool_bytes st + bytes"
    and "4096 * card (usable es (unat (pool_end st))) < unat bytes \<Longrightarrow> segs = [] \<and> st' = st"
proof -
  let ?i = "current_e820_entry st" and ?e = "pool_end st"
  note I = inv [unfolded bm_inv_def] and P = bm_inv_pool [OF inv]
  let ?r = "alloc_segments ?e bytes 0 [] ?i (drop ?i es)"
  have S: "segments_spec ?e bytes 0 [] ?i (drop ?i es) ?r"
    using I b by (intro alloc_segments_spec P(2)) (auto simp: word_less_nat_alt unat_gt_0)
  have run: "bootmem_alloc_segs es bytes st = (case ?r of None \<Rightarrow> ([], st)
      | Some (segs, e, i) \<Rightarrow> (segs, st\<lparr>pool_end := e, pool_bytes := pool_bytes st + bytes, current_e820_entry := i\<rparr>))"
    using I b(3) by (simp add: bootmem_alloc_segs_def)
  have "bm_inv es st' \<and> (if unat bytes \<le> 4096 * card (usable es (unat ?e)) then
      seg_result es (unat ?e) (unat bytes) segs (unat (pool_end st')) \<and>
      pool_start st' = pool_start st \<and> pool_bytes st' = pool_bytes st + bytes
    else segs = [] \<and> st' = st)"
  proof (cases ?r)
    case None
    then show ?thesis using S P(1) run r inv by (simp add: segments_spec_def)
  next
    case (Some q)
    then obtain e1 j where q: "q = (segs, e1, j)" and st': "st' = st\<lparr>pool_end := e1, pool_bytes := pool_bytes st + bytes, current_e820_entry := j\<rparr>"
      using run r by (cases q) auto
    have j: "?i \<le> j" "j < length es" "e_addr (es ! j) \<le> e1" and R: "seg_result (drop ?i es) (unat ?e) (unat bytes) segs (unat e1)"
      using S Some q by (auto simp: segments_spec_def)
    note R' = seg_result_drop [OF R P(1)]
    have bnd: "unat bytes + unat ?e \<le> unat e1" "unat e1 \<le> PHYS_LIMIT" "4096 dvd unat e1"
      using R by (auto simp: seg_result_def)
    have "unat (pool_bytes st + bytes) = unat (pool_bytes st) + unat bytes"
      using bnd I by (intro unat_add_lt) (simp add: PHYS_LIMIT_def)
    then have "bm_inv es st'"
      using I j bnd by (simp add: st' bm_inv_def word_le_nat_alt)
    moreover have "unat bytes \<le> 4096 * card (usable es (unat ?e))"
    proof -
      have "4096 * card (seg_frames segs) \<le> 4096 * card (usable es (unat ?e))"
        using R' I by (intro mult_le_mono2 card_mono finite_usable) (auto simp: seg_result_def)
      moreover have "unat bytes = 4096 * card (seg_frames segs)"
        using R' seg_frames_card unfolding seg_result_def by metis
      ultimately show ?thesis by simp
    qed
    ultimately show ?thesis using R' st' by simp
  qed
  then show "bm_inv es st'" "unat bytes \<le> 4096 * card (usable es (unat ?e)) \<Longrightarrow>
      seg_result es (unat ?e) (unat bytes) segs (unat (pool_end st')) \<and>
      pool_start st' = pool_start st \<and> pool_bytes st' = pool_bytes st + bytes"
    "4096 * card (usable es (unat ?e)) < unat bytes \<Longrightarrow> segs = [] \<and> st' = st"
    by (auto split: if_splits)
qed


section \<open>Initialisation\<close>

lemma find_pool_spec:
  assumes "map_ok es"
  shows "case find_pool kend i es of
      None \<Rightarrow> \<forall>e \<in> set es. e_type e = E820_TYPE_RAM \<longrightarrow> e_hi e \<le> unat kend
    | Some (j, a) \<Rightarrow> i \<le> j \<and> j < i + length es \<and> e_type (es ! (j - i)) = E820_TYPE_RAM \<and>
        unat a = max (unat kend) (e_lo (es ! (j - i))) \<and> unat a < e_hi (es ! (j - i)) \<and>
        (\<forall>e \<in> set (take (j - i) es). e_type e = E820_TYPE_RAM \<longrightarrow> e_hi e \<le> unat kend)"
  using assms
proof (induction kend i es rule: find_pool.induct)
  case (2 kend i e es)
  note E = map_ok_Cons [OF 2(3)]
  have hi: "e_addr e + e_size e \<le> kend \<longleftrightarrow> e_hi e \<le> unat kend" by (simp add: word_le_nat_alt E(4))
  consider "e_type e \<noteq> E820_TYPE_RAM" | "e_type e = E820_TYPE_RAM" "e_hi e \<le> unat kend"
    | "e_type e = E820_TYPE_RAM" "unat kend < e_hi e" by linarith
  then show ?case
  proof cases
    case 1
    then show ?thesis using 2(1) E(1) by (auto simp: Suc_diff_le nth_Cons' take_Cons' split: option.splits if_splits)
  next
    case c: 2
    then show ?thesis using 2(2) E(1) hi by (auto simp: Suc_diff_le nth_Cons' take_Cons' split: option.splits if_splits)
  next
    case 3
    then show ?thesis using E(3) by (simp add: hi e_lo_def word_less_nat_alt max_def)
  qed
qed simp

lemma bm_owned_empty: "pool_start st = pool_end st \<Longrightarrow> bm_owned es st = {}"
  by (auto simp: bm_owned_def usable_def)

text \<open>The pool starts at the first page boundary behind the kernel image inside or above RAM.\<close>

lemma bootmem_init_spec:
  assumes ok: "map_ok es" and k: "0 < kend" "unat kend \<le> PHYS_LIMIT" and st: "bm_state st = DISABLED"
  shows "if \<exists>e \<in> set es. e_type e = E820_TYPE_RAM \<and> unat kend < e_hi e \<and> max (unat kend) (e_lo e) \<le> unat lim
    then \<exists>st'. bootmem_init kend lim es st = Ok (0, st') \<and> bm_inv es st' \<and> bm_owned es st' = {} \<and> pool_bytes st' = 0 \<and>
      kend \<le> pool_start st' \<and> usable es (unat (pool_end st')) = usable es (unat kend)
    else bootmem_init kend lim es st = Err (Panic ''Bootmem failed to create pool'')"
proof (cases "find_pool kend 0 es")
  case None
  then have "\<forall>e \<in> set es. e_type e = E820_TYPE_RAM \<longrightarrow> e_hi e \<le> unat kend"
    using find_pool_spec [OF ok, of kend 0] by simp
  then show ?thesis using None st by (auto simp: bootmem_init_def not_less)
next
  case (Some q)
  obtain j a where q: "q = (j, a)" by force
  then have F: "j < length es" "e_type (es ! j) = E820_TYPE_RAM" "unat a = max (unat kend) (e_lo (es ! j))"
    "unat a < e_hi (es ! j)" "\<forall>e \<in> set (take j es). e_type e = E820_TYPE_RAM \<longrightarrow> e_hi e \<le> unat kend"
    using find_pool_spec [OF ok, of kend 0] Some by auto
  have after: "e_lo (es ! j) \<le> e_lo e" if e: "e \<in> set (drop j es)" for e
  proof -
    obtain i where i: "j \<le> i" "i < length es" "e = es ! i"
      using e by (auto simp: in_set_conv_nth) (metis le_add1 add.commute less_diff_conv)
    have "e_hi (es ! j) \<le> e_lo (es ! i)" if "j < i"
      using ok that i(2) by (auto simp: map_ok_def table_sorted_def sorted_wrt_iff_nth_less)
    then show ?thesis using i(1,3) F(3,4) by (cases "j = i") auto
  qed
  have split: "e \<in> set (take j es) \<or> e \<in> set (drop j es)" if "e \<in> set es" for e
    using that by (metis Un_iff append_take_drop_id set_append)
  have a0: "a \<noteq> 0" using F(3) k(1) by (auto simp: word_less_nat_alt)
  have hi: "e_hi (es ! j) \<le> PHYS_LIMIT" using ok F(1,2) by (simp add: map_ok_def)
  then have lim: "unat a \<le> PHYS_LIMIT" using F(4) by linarith
  note up = page_up [OF lim]
  let ?a = "ROUND_UP a PAGE_SIZE"
  show ?thesis
  proof (cases "lim < a")
    case True
    then have "bootmem_init kend lim es st = Err (Panic ''Bootmem failed to create pool'')"
      using Some q st a0 by (simp add: bootmem_init_def)
    moreover have "e_hi e \<le> unat kend \<or> unat lim < max (unat kend) (e_lo e)"
      if "e \<in> set es" "e_type e = E820_TYPE_RAM" for e
      using split [OF that(1)] that(2) F(5) after [of e] True F(3) by (fastforce simp: word_less_nat_alt)
    then have "\<not> (\<exists>e \<in> set es. e_type e = E820_TYPE_RAM \<and> unat kend < e_hi e \<and> max (unat kend) (e_lo e) \<le> unat lim)"
      by (meson not_le)
    ultimately show ?thesis by (simp only: if_False)
  next
    case False
    have pos: "0 < ?a" using up(2) a0 unat_gt_0 [of a] by (simp add: word_less_nat_alt)
    have "e_addr (es ! j) \<le> ?a" "kend \<le> ?a" using up(2) F(3) by (simp_all add: word_le_nat_alt e_lo_def)
    moreover have "usable es (unat ?a) = usable es (unat kend)"
    proof (intro set_eqI iffI)
      fix f assume f: "f \<in> usable es (unat kend)"
      then obtain e where e: "e \<in> set es" "f \<in> entry_frames e" "unat kend \<le> 4096 * f" by (auto simp: usable_def)
      have "e \<notin> set (take j es)" using F(5) e(2,3) by (auto simp: entry_frames_def)
      then have "e_lo (es ! j) \<le> 4096 * f" using split [OF e(1)] after [of e] e(2) by (auto simp: entry_frames_def)
      then show "f \<in> usable es (unat ?a)" using up(5) [of f] F(3) e by (auto simp: usable_def)
    qed (use up(2) F(3) in \<open>auto simp: usable_def\<close>)
    moreover have "\<exists>e \<in> set es. e_type e = E820_TYPE_RAM \<and> unat kend < e_hi e \<and> max (unat kend) (e_lo e) \<le> unat lim"
      using F False by (intro bexI [of _ "es ! j"]) (auto simp: word_less_nat_alt)
    moreover have "bootmem_init kend lim es st = Ok (0, st\<lparr>pool_bytes := 0, current_e820_entry := j,
        pool_start := ?a, pool_end := ?a, bm_state := ENABLED\<rparr>)"
      using Some q st a0 False by (simp add: bootmem_init_def Let_def)
    ultimately show ?thesis using F(1) up(3,4) pos ok by (simp add: bm_inv_def bm_owned_empty)
  qed
qed


section \<open>Properties\<close>

definition boot_map :: "e820_entry list" where
  "boot_map = [\<lparr>e_addr = 0, e_size = 0x9FC00, e_type = E820_TYPE_RAM\<rparr>,
    \<lparr>e_addr = 0xF0000, e_size = 0x10000, e_type = E820_TYPE_RESERVED\<rparr>,
    \<lparr>e_addr = 0x100000, e_size = 0x180000, e_type = E820_TYPE_RAM\<rparr>]"

definition boot_pool :: bootmem where
  "boot_pool = \<lparr>pool_start = 0x250000, pool_end = 0x250000, current_e820_entry = 2, pool_bytes = 0, bm_state = ENABLED\<rparr>"

lemma boot_map_ok: "map_ok boot_map"
  by (simp add: map_ok_def boot_map_def table_sorted_def PHYS_LIMIT_def e_hi_def e_lo_def
      E820_TYPE_RAM_def E820_TYPE_RESERVED_def)

lemma boot_pool_inv: "bm_inv boot_map boot_pool"
  using boot_map_ok by (simp add: bm_inv_def boot_pool_def PHYS_LIMIT_def) (simp add: boot_map_def)

lemma boot_pool_usable: "usable boot_map 0x250000 = {0x250..<0x280}"
  by (auto simp: usable_def entry_frames_def boot_map_def e_lo_def e_hi_def E820_TYPE_RAM_def E820_TYPE_RESERVED_def)

text \<open>
  On a sanitized memory map \<^verbatim>\<open>bootmem_init\<close> either sets up an empty pool behind the kernel image that
  loses no usable frame behind it, or, exactly when no RAM behind the kernel starts within the
  low identity map, panics.
\<close>

theorem bootmem_init_correct:
  assumes "map_ok es" and "0 < kend" and "unat kend \<le> PHYS_LIMIT" and "bm_state st = DISABLED"
  shows "if \<exists>e \<in> set es. e_type e = E820_TYPE_RAM \<and> unat kend < e_hi e \<and> max (unat kend) (e_lo e) \<le> unat lim
    then \<exists>st'. bootmem_init kend lim es st = Ok (0, st') \<and> bm_inv es st' \<and> bm_owned es st' = {} \<and> pool_bytes st' = 0 \<and>
      kend \<le> pool_start st' \<and> usable es (unat (pool_end st')) = usable es (unat kend)
    else bootmem_init kend lim es st = Err (Panic ''Bootmem failed to create pool'')"
  using assms by (rule bootmem_init_spec)

theorem bootmem_init_correct_witness:
  "\<exists>st'. bootmem_init 0x24F123 0x40000000 boot_map bootmem_boot = Ok (0, st') \<and> bm_inv boot_map st'"
proof -
  have "\<exists>e \<in> set boot_map. e_type e = E820_TYPE_RAM \<and> unat (0x24F123 :: u64) < e_hi e \<and>
      max (unat (0x24F123 :: u64)) (e_lo e) \<le> unat (0x40000000 :: u64)"
    by (simp add: boot_map_def e_hi_def e_lo_def)
  then show ?thesis
    using bootmem_init_correct [OF boot_map_ok, of "0x24F123" bootmem_boot "0x40000000"]
    by (auto simp: PHYS_LIMIT_def bootmem_boot_def)
qed

text \<open>
  Claim C9. \<^verbatim>\<open>bootmem_alloc_page\<close> never panics on an enabled pool and keeps the pool invariant: it returns the
  HHDM address of the lowest usable frame above the pool and moves the pool end just behind it, or
  NULL, with the state unchanged, exactly when no usable frame is left.
\<close>

theorem bootmem_alloc_page_correct:
  assumes "bm_inv es st"
  shows "\<exists>a st'. bootmem_alloc_page es st = Ok (a, st') \<and> bm_inv es st' \<and>
    (if usable es (unat (pool_end st)) = {} then a = 0 \<and> st' = st
     else \<exists>f \<in> usable es (unat (pool_end st)). unat (hhdm_to_phys a) = 4096 * f \<and> a \<noteq> 0 \<and>
       (\<forall>g \<in> usable es (unat (pool_end st)). f \<le> g) \<and>
       unat (pool_end st') = 4096 * f + 4096 \<and> bm_owned es st' = insert f (bm_owned es st) \<and> f \<notin> bm_owned es st \<and>
       pool_bytes st' = pool_bytes st + PAGE_SIZE)"
proof -
  obtain a st' where P: "bootmem_alloc_page_phys es st = Ok (a, st')" "bm_inv es st'"
    and S: "if usable es (unat (pool_end st)) = {} then a = 0 \<and> st' = st
     else \<exists>f \<in> usable es (unat (pool_end st)). unat a = 4096 * f \<and> (\<forall>g \<in> usable es (unat (pool_end st)). f \<le> g) \<and>
       pool_end st' = a + PAGE_SIZE \<and> pool_start st' = pool_start st \<and> pool_bytes st' = pool_bytes st + PAGE_SIZE"
    using bootmem_alloc_page_phys_spec [OF assms] by blast
  show ?thesis
  proof (cases "usable es (unat (pool_end st)) = {}")
    case True
    then show ?thesis using P S by (simp add: bootmem_alloc_page_def)
  next
    case False
    then obtain f where f: "f \<in> usable es (unat (pool_end st))" "unat a = 4096 * f"
      "\<forall>g \<in> usable es (unat (pool_end st)). f \<le> g" "pool_bytes st' = pool_bytes st + PAGE_SIZE" using S by auto
    have "unat (pool_end st) > 0" using assms by (auto simp: bm_inv_def word_le_nat_alt word_less_nat_alt)
    then have a: "a \<noteq> 0" using f(1,2) by (auto simp: usable_def)
    have lim: "unat a \<le> PHYS_LIMIT" using usable_bound [OF _ f(1)] assms f(2) by (simp add: bm_inv_def)
    have "HHDM_BASE + a \<noteq> 0"
    proof
      assume "HHDM_BASE + a = 0"
      then have "a = - HHDM_BASE" by (simp add: eq_neg_iff_add_eq_0 add.commute)
      then have "unat a = 0x0000778000000000" by (simp add: HHDM_BASE_def)
      then show False using lim f(2) by (simp add: PHYS_LIMIT_def)
    qed
    moreover have "bm_grab es st = Some (f, st')" using P(1) a f(2) by (simp add: bm_grab_def)
    ultimately show ?thesis
      using P a f bm_grab_cases [OF assms, of f st'] bootmem_src.grab_owned [OF assms, of f st']
        bootmem_src.grab_fresh [OF assms, of f st'] False
      by (simp add: bootmem_alloc_page_def hhdm_to_phys_def)
  qed
qed

theorem bootmem_alloc_page_correct_witness:
  "\<exists>a st'. bootmem_alloc_page boot_map boot_pool = Ok (a, st') \<and> bm_inv boot_map st' \<and> 0x250000 \<le> unat (hhdm_to_phys a)"
proof -
  have p: "unat (pool_end boot_pool) = 0x250000" by (simp add: boot_pool_def)
  have "\<not> usable boot_map 0x250000 = {}" by (simp add: boot_pool_usable)
  then obtain a st' f where "bootmem_alloc_page boot_map boot_pool = Ok (a, st')" "bm_inv boot_map st'"
    "f \<in> usable boot_map 0x250000" "unat (hhdm_to_phys a) = 4096 * f"
    using bootmem_alloc_page_correct [OF boot_pool_inv] unfolding p by auto
  then show ?thesis by (auto simp: usable_def)
qed

lemma bootmem_segs_owned:
  assumes inv: "bm_inv es st" and b: "4096 dvd unat bytes" "unat bytes \<le> 2 ^ 62" "bytes \<noteq> 0"
    and r: "bootmem_alloc_segs es bytes st = (segs, st')" and c: "unat bytes \<le> 4096 * card (usable es (unat (pool_end st)))"
  shows "bm_owned es st' = bm_owned es st \<union> seg_frames segs \<and> bm_owned es st \<inter> seg_frames segs = {}"
proof -
  note R = bootmem_alloc_segs_spec(2) [OF inv b r c, unfolded seg_result_def]
  have up: "unat (pool_end st) \<le> unat (pool_end st')" using R by (metis add_leD2 order_refl)
  have fr: "seg_frames segs = {f \<in> usable es (unat (pool_end st)). 4096 * f < unat (pool_end st')}"
    and ps: "pool_start st' = pool_start st" "pool_start st \<le> pool_end st" using R inv by (auto simp: bm_inv_def)
  show ?thesis unfolding fr using up ps by (auto simp: bm_owned_def usable_def word_le_nat_alt)
qed

text \<open>
  Claim C10. \<^verbatim>\<open>__alloc\<close> succeeds exactly when enough usable frames are left. The segments it links together are then page
  aligned, ordered, disjoint and inside RAM, add up to the request, are exactly the lowest usable frames above the pool, and were
  not handed out before; otherwise nothing changes.
\<close>

theorem bootmem_alloc_segs_correct:
  assumes inv: "bm_inv es st" and b: "4096 dvd unat bytes" "unat bytes \<le> 2 ^ 62" "bytes \<noteq> 0"
  shows "\<exists>segs st'. bootmem_alloc_segs es bytes st = (segs, st') \<and> bm_inv es st' \<and>
    (if unat bytes \<le> 4096 * card (usable es (unat (pool_end st))) then
       segs_ok es (unat (pool_end st)) segs \<and> seg_bytes segs = unat bytes \<and>
       seg_frames segs = {f \<in> usable es (unat (pool_end st)). 4096 * f < unat (pool_end st')} \<and>
       bm_owned es st' = bm_owned es st \<union> seg_frames segs \<and> bm_owned es st \<inter> seg_frames segs = {} \<and>
       pool_bytes st' = pool_bytes st + bytes
     else segs = [] \<and> st' = st)"
proof -
  obtain segs st' where r: "bootmem_alloc_segs es bytes st = (segs, st')" by force
  note S = bootmem_alloc_segs_spec [OF inv b r]
  show ?thesis using r S bootmem_segs_owned [OF inv b r]
    by (cases "unat bytes \<le> 4096 * card (usable es (unat (pool_end st)))") (auto simp: seg_result_def)
qed

theorem bootmem_alloc_segs_correct_witness:
  "\<exists>segs st'. bootmem_alloc_segs boot_map 0x3000 boot_pool = (segs, st') \<and> bm_inv boot_map st' \<and> seg_bytes segs = 0x3000"
proof -
  have p: "unat (pool_end boot_pool) = 0x250000" by (simp add: boot_pool_def)
  show ?thesis
    using bootmem_alloc_segs_correct [OF boot_pool_inv, of "0x3000"] unfolding p boot_pool_usable by auto
qed

text \<open>
  However many pages are requested from the boot allocator one after the other, no frame is handed out twice,
  none was owned before, and all of them are afterwards.
\<close>

theorem bootmem_pages_distinct:
  assumes "bm_inv es st" and "run_grabs (bm_grab es) n st = (fs, st')"
  shows "bm_inv es st' \<and> distinct fs \<and> set fs \<inter> bm_owned es st = {} \<and> bm_owned es st' = bm_owned es st \<union> set fs"
  using assms by (rule bootmem_src.run_grabs_distinct)

theorem bootmem_pages_distinct_witness:
  "\<exists>fs st'. run_grabs (bm_grab boot_map) 5 boot_pool = (fs, st') \<and> distinct fs \<and> bm_inv boot_map st'"
proof -
  obtain fs st' where r: "run_grabs (bm_grab boot_map) 5 boot_pool = (fs, st')" by force
  then show ?thesis using bootmem_pages_distinct [OF boot_pool_inv r] by blast
qed

end
