(* ===== verification/Buddy.thy ===== *)
theory Buddy
  imports Prelude
begin

text \<open>
  The buddy page allocator of \<^verbatim>\<open>mm/buddy.c\<close>: the page array \<^verbatim>\<open>mem_map\<close>, the eleven doubly linked free
  lists of \<^verbatim>\<open>free_matrix\<close>, and the operations \<^verbatim>\<open>insert_free\<close>, \<^verbatim>\<open>pop_free\<close>, \<^verbatim>\<open>remove_free\<close>,
  \<^verbatim>\<open>alloc_pages\<close> and \<^verbatim>\<open>free_pages\<close>. A \<^verbatim>\<open>struct page*\<close> is the index of the page in \<^verbatim>\<open>mem_map\<close> (its page
  frame number), \<^verbatim>\<open>NULL\<close> is \<open>None\<close>. Dereferencing an index outside the array is the error
  \<^const>\<open>OutOfBounds\<close>, a \<^verbatim>\<open>panic\<close> is the error \<^const>\<open>Panic\<close>. Orders are \<^verbatim>\<open>unsigned char\<close> in the source;
  every operation rejects an order above 10 before using it and the increments and decrements
  are guarded, so natural numbers do not hide a wrap-around.
\<close>

section \<open>State\<close>

datatype page_state = PG_RESERVED | PG_BUDDY | PG_ALLOCATED | PG_TAIL

record page =
  pg_state :: page_state
  pg_order :: nat
  pg_prev :: "nat option"
  pg_next :: "nat option"

record buddy =
  mem_map :: "page list"
  free_matrix :: "nat option list"
  managed_mem :: u64

abbreviation mem_nr_pages :: "buddy \<Rightarrow> nat" where
  "mem_nr_pages st \<equiv> length (mem_map st)"

definition deref :: "buddy \<Rightarrow> nat \<Rightarrow> page kres" where
  "deref st p = (if p < mem_nr_pages st then Ok (mem_map st ! p) else Err OutOfBounds)"

definition page_upd :: "nat \<Rightarrow> (page \<Rightarrow> page) \<Rightarrow> buddy \<Rightarrow> buddy" where
  "page_upd p f st = st\<lparr>mem_map := (mem_map st)[p := f (mem_map st ! p)]\<rparr>"

definition page_write :: "nat \<Rightarrow> (page \<Rightarrow> page) \<Rightarrow> buddy \<Rightarrow> buddy kres" where
  "page_write p f st = rbind (deref st p) (\<lambda>_. Ok (page_upd p f st))"

definition matrix_set :: "nat \<Rightarrow> nat option \<Rightarrow> buddy \<Rightarrow> buddy" where
  "matrix_set ord v st = st\<lparr>free_matrix := (free_matrix st)[ord := v]\<rparr>"

section \<open>Free lists\<close>

definition insert_free :: "buddy \<Rightarrow> nat \<Rightarrow> buddy kres" where
  "insert_free st p =
     rbind (deref st p) (\<lambda>pg.
       let ord = pg_order pg in
       if ord > PAGE_MAX_ORDER then Err (Panic ''Order is more than or equal as limit'')
       else
         let nxt = free_matrix st ! ord;
             st1 = page_upd p (\<lambda>q. q\<lparr>pg_next := nxt, pg_prev := None\<rparr>) st
         in rbind (case nxt of None \<Rightarrow> Ok st1
                   | Some n \<Rightarrow> page_write n (\<lambda>q. q\<lparr>pg_prev := Some p\<rparr>) st1) (\<lambda>st2.
              Ok (page_upd p (\<lambda>q. q\<lparr>pg_state := PG_BUDDY\<rparr>) (matrix_set ord (Some p) st2))))"

definition pop_free :: "buddy \<Rightarrow> nat \<Rightarrow> (nat option \<times> buddy) kres" where
  "pop_free st ord =
     (if ord > PAGE_MAX_ORDER then Err (Panic ''Order is more than or equal as limit'')
      else case free_matrix st ! ord of
        None \<Rightarrow> Ok (None, st)
      | Some p \<Rightarrow>
          rbind (deref st p) (\<lambda>pg.
            let st1 = matrix_set ord (pg_next pg) st
            in rbind (case pg_next pg of None \<Rightarrow> Ok st1
                      | Some n \<Rightarrow> page_write n (\<lambda>q. q\<lparr>pg_prev := None\<rparr>) st1) (\<lambda>st2.
                 Ok (Some p, page_upd p (\<lambda>q. q\<lparr>pg_next := None, pg_prev := None\<rparr>) st2))))"

definition remove_free :: "buddy \<Rightarrow> nat \<Rightarrow> buddy kres" where
  "remove_free st p =
     rbind (deref st p) (\<lambda>pg.
       let ord = pg_order pg in
       if ord > PAGE_MAX_ORDER then Err (Panic ''Order is more than or equal as limit'')
       else if pg_state pg \<noteq> PG_BUDDY then Ok st
       else if pg_prev pg = None \<and> pg_next pg = None \<and> free_matrix st ! ord \<noteq> Some p then Ok st
       else
         rbind (case pg_prev pg of
                  Some v \<Rightarrow> page_write v (\<lambda>q. q\<lparr>pg_next := pg_next pg\<rparr>) st
                | None \<Rightarrow> Ok (matrix_set ord (pg_next pg) st)) (\<lambda>st1.
         rbind (case pg_next pg of
                  Some n \<Rightarrow> page_write n (\<lambda>q. q\<lparr>pg_prev := pg_prev pg\<rparr>) st1
                | None \<Rightarrow> Ok st1) (\<lambda>st2.
         Ok (page_upd p (\<lambda>q. q\<lparr>pg_next := None, pg_prev := None\<rparr>) st2))))"

section \<open>Orders\<close>

text \<open>The compiler built-ins \<^verbatim>\<open>__builtin_ctzll\<close> (on a non-zero argument) and \<^verbatim>\<open>__builtin_clzll\<close>.\<close>

fun ctzll :: "nat \<Rightarrow> nat" where
  "ctzll n = (if n = 0 \<or> odd n then 0 else Suc (ctzll (n div 2)))"

fun clz_bits :: "nat \<Rightarrow> nat \<Rightarrow> nat" where
  "clz_bits 0 n = 0"
| "clz_bits (Suc k) n = (if n div 2 ^ k mod 2 = 1 then 0 else Suc (clz_bits k n))"

definition clzll :: "nat \<Rightarrow> nat" where
  "clzll n = clz_bits 64 n"

definition alignment_order :: "nat \<Rightarrow> nat" where
  "alignment_order pfn =
     (let a = (if pfn = 0 then 64 else ctzll pfn)
      in if a > PAGE_MAX_ORDER then PAGE_MAX_ORDER else a)"

definition length_order :: "nat \<Rightarrow> int" where
  "length_order len = (if len = 0 then -1 else int (63 - clzll len))"

declare ctzll.simps [simp del]

section \<open>Frame lemmas\<close>

lemma rbind_cong [fundef_cong]:
  assumes "m = m'" and "\<And>x. m' = Ok x \<Longrightarrow> f x = g x"
  shows "rbind m f = rbind m' g"
  using assms by (cases m') auto

lemma deref_Ok [simp]: "deref st p = Ok pg \<longleftrightarrow> p < mem_nr_pages st \<and> pg = mem_map st ! p"
  by (auto simp: deref_def)

lemma deref_in [simp]: "p < mem_nr_pages st \<Longrightarrow> deref st p = Ok (mem_map st ! p)"
  by simp

lemma page_write_Ok [simp]:
  "page_write p f st = Ok st' \<longleftrightarrow> p < mem_nr_pages st \<and> st' = page_upd p f st"
  by (auto simp: page_write_def)

lemma page_write_in [simp]: "p < mem_nr_pages st \<Longrightarrow> page_write p f st = Ok (page_upd p f st)"
  by simp

lemma mem_nr_pages_upd [simp]:
  "mem_nr_pages (page_upd p f st) = mem_nr_pages st"
  "mem_nr_pages (matrix_set ord v st) = mem_nr_pages st"
  by (simp_all add: page_upd_def matrix_set_def)

lemma mem_map_matrix_set [simp]: "mem_map (matrix_set ord v st) = mem_map st"
  by (simp add: matrix_set_def)

lemma free_matrix_upd [simp]:
  "free_matrix (page_upd p f st) = free_matrix st"
  "free_matrix (matrix_set ord v st) = (free_matrix st)[ord := v]"
  by (simp_all add: page_upd_def matrix_set_def)

lemma nth_page_upd:
  "q < mem_nr_pages st \<Longrightarrow>
   mem_map (page_upd p f st) ! q = (if q = p then f (mem_map st ! p) else mem_map st ! q)"
  by (simp add: page_upd_def nth_list_update)

text \<open>
  The state and the order of every page: what the block structure depends on. The free list
  operations touch nothing else of the pages but their links.
\<close>

definition core :: "buddy \<Rightarrow> (page_state \<times> nat) list" where
  "core st = map (\<lambda>pg. (pg_state pg, pg_order pg)) (mem_map st)"

definition orders :: "buddy \<Rightarrow> nat list" where
  "orders st = map pg_order (mem_map st)"

lemma length_core [simp]: "length (core st) = mem_nr_pages st"
  by (simp add: core_def)

lemma core_nth:
  "q < mem_nr_pages st \<Longrightarrow> core st ! q = (pg_state (mem_map st ! q), pg_order (mem_map st ! q))"
  by (simp add: core_def)

lemma core_matrix_set [simp]: "core (matrix_set ord v st) = core st"
  by (simp add: core_def)

lemma core_page_upd:
  "core (page_upd p f st) =
   (core st)[p := (pg_state (f (mem_map st ! p)), pg_order (f (mem_map st ! p)))]"
  by (simp add: core_def page_upd_def map_update)

lemma core_links [simp]:
  "core (page_upd p (\<lambda>q. q\<lparr>pg_next := a\<rparr>) st) = core st"
  "core (page_upd p (\<lambda>q. q\<lparr>pg_prev := b\<rparr>) st) = core st"
  "core (page_upd p (\<lambda>q. q\<lparr>pg_next := a, pg_prev := b\<rparr>) st) = core st"
  by (rule nth_equalityI; simp add: core_nth nth_page_upd)+

lemma orders_of_core: "orders st = map snd (core st)"
  by (simp add: orders_def core_def)

lemma orders_nth: "q < mem_nr_pages st \<Longrightarrow> orders st ! q = pg_order (mem_map st ! q)"
  by (simp add: orders_def)

lemma insert_free_core:
  assumes "insert_free st p = Ok st'"
  shows "core st' = (core st)[p := (PG_BUDDY, pg_order (mem_map st ! p))]"
  using assms
  by (intro nth_equalityI)
    (auto simp: insert_free_def Let_def core_nth nth_page_upd nth_list_update
      split: if_splits option.splits)

lemma pop_free_core:
  assumes "pop_free st ord = Ok (r, st')"
  shows "core st' = core st"
  using assms by (auto simp: pop_free_def Let_def split: if_splits option.splits)

lemma remove_free_core:
  assumes "remove_free st p = Ok st'"
  shows "core st' = core st"
  using assms by (auto simp: remove_free_def Let_def split: if_splits option.splits)

lemma mem_nr_pages_core: "core st' = core st \<Longrightarrow> mem_nr_pages st' = mem_nr_pages st"
  by (metis length_core)

section \<open>Allocation\<close>

function alloc_find :: "buddy \<Rightarrow> nat \<Rightarrow> (nat option \<times> buddy) kres" where
  "alloc_find st i =
     (if i \<le> PAGE_MAX_ORDER then
        rbind (pop_free st i) (\<lambda>(r, st').
          case r of Some p \<Rightarrow> Ok (Some p, st') | None \<Rightarrow> alloc_find st' (Suc i))
      else Ok (None, st))"
  by pat_completeness auto
termination
  by (relation "measure (\<lambda>(st, i). Suc PAGE_MAX_ORDER - i)") auto

text \<open>The splitting loop: the lower half is kept, the upper half becomes a free block.\<close>

function alloc_split :: "buddy \<Rightarrow> nat \<Rightarrow> nat \<Rightarrow> buddy kres" where
  "alloc_split st p ord =
     rbind (deref st p) (\<lambda>pg.
       if pg_order pg > ord then
         let k = pg_order pg - 1;
             st1 = page_upd p (\<lambda>q. q\<lparr>pg_order := k\<rparr>) st;
             b = p + 2 ^ k
         in rbind (deref st1 b) (\<lambda>bpg.
              if pg_state bpg \<noteq> PG_TAIL then Err (Panic ''Unexpected page state'')
              else rbind (insert_free (page_upd b (\<lambda>q. q\<lparr>pg_order := k\<rparr>) st1) b)
                     (\<lambda>st2. alloc_split st2 p ord))
       else Ok st)"
  by pat_completeness auto
termination
proof (relation "measure (\<lambda>(st, p, ord). orders st ! p)", goal_cases)
  case (2 st p ord pg k st1 b bpg st2)
  then have p: "p < mem_nr_pages st" "pg = mem_map st ! p" by auto
  have b: "b \<noteq> p" and b_in: "b < mem_nr_pages st" using 2 by auto
  have "orders st2 ! p = pg_order (mem_map (page_upd b (\<lambda>q. q\<lparr>pg_order := k\<rparr>) st1) ! p)"
    using insert_free_core [OF 2(8)] p b b_in 2(4)
    by (simp add: orders_of_core core_nth nth_list_update)
  also have "\<dots> = k"
    using 2(4) p b by (simp add: nth_page_upd)
  finally show ?case
    using 2(2,3) p by (simp add: orders_nth)
qed simp

declare alloc_find.simps [simp del] alloc_split.simps [simp del]

definition alloc_pages :: "buddy \<Rightarrow> nat \<Rightarrow> (nat option \<times> buddy) kres" where
  "alloc_pages st ord =
     (if ord > PAGE_MAX_ORDER then Err (Panic ''Order is more than maximum'')
      else rbind (alloc_find st ord) (\<lambda>(r, st1).
        case r of None \<Rightarrow> Ok (None, st1)
        | Some p \<Rightarrow> rbind (alloc_split st1 p ord) (\<lambda>st2.
            Ok (Some p, page_upd p (\<lambda>q. q\<lparr>pg_state := PG_ALLOCATED\<rparr>) st2))))"

section \<open>Freeing\<close>

text \<open>
  One iteration of the merging loop: \<open>None\<close> when the loop ends (its condition fails or a
  \<^verbatim>\<open>break\<close> is reached), otherwise the block head and the state it continues with.
\<close>

definition merge_step :: "buddy \<Rightarrow> nat \<Rightarrow> (nat \<times> buddy) option kres" where
  "merge_step st p =
     rbind (deref st p) (\<lambda>pg.
       let k = pg_order pg in
       if k < PAGE_MAX_ORDER then
         if alignment_order p > k then
           let b = p + 2 ^ k in
           if b \<ge> mem_nr_pages st then Ok None
           else if pg_state (mem_map st ! b) = PG_BUDDY \<and> pg_order (mem_map st ! b) = k then
             rbind (remove_free st b) (\<lambda>st1.
               Ok (Some (p, page_upd p (\<lambda>q. q\<lparr>pg_order := pg_order q + 1\<rparr>)
                              (page_upd b (\<lambda>q. q\<lparr>pg_state := PG_TAIL\<rparr>) st1))))
           else Ok None
         else if p < 2 ^ k then Ok None
         else
           let b = p - 2 ^ k in
           if pg_state (mem_map st ! b) = PG_BUDDY \<and> pg_order (mem_map st ! b) = k then
             rbind (remove_free st p) (\<lambda>st1.
               Ok (Some (b, page_upd b (\<lambda>q. q\<lparr>pg_order := pg_order q + 1\<rparr>)
                              (page_upd p (\<lambda>q. q\<lparr>pg_state := PG_TAIL\<rparr>) st1))))
           else Ok None
       else Ok None)"

lemma merge_step_order:
  assumes "merge_step st p = Ok (Some (q, st'))"
  shows "orders st' ! q = Suc (orders st ! p)" and "orders st ! p < PAGE_MAX_ORDER"
proof -
  have *: "mem_nr_pages st1 = mem_nr_pages st \<and>
           (\<forall>i < mem_nr_pages st. pg_order (mem_map st1 ! i) = pg_order (mem_map st ! i))"
    if "remove_free st r = Ok st1" for r st1
  proof -
    have c: "core st1 = core st" using that by (rule remove_free_core)
    then have n: "mem_nr_pages st1 = mem_nr_pages st" by (rule mem_nr_pages_core)
    have "orders st1 = orders st" using c by (simp add: orders_of_core)
    then show ?thesis using n by (metis orders_nth)
  qed
  show "orders st' ! q = Suc (orders st ! p)"
    using assms
    by (auto simp: merge_step_def Let_def orders_nth nth_page_upd dest!: * split: if_splits)
  show "orders st ! p < PAGE_MAX_ORDER"
    using assms by (auto simp: merge_step_def Let_def orders_nth split: if_splits)
qed

function free_merge :: "buddy \<Rightarrow> nat \<Rightarrow> (nat \<times> buddy) kres" where
  "free_merge st p =
     rbind (merge_step st p) (\<lambda>r.
       case r of None \<Rightarrow> Ok (p, st) | Some (q, st') \<Rightarrow> free_merge st' q)"
  by pat_completeness auto
termination
  by (relation "measure (\<lambda>(st, p). PAGE_MAX_ORDER - orders st ! p)")
    (auto simp: merge_step_order(1) intro: diff_less_mono2 dest: merge_step_order(2))

declare free_merge.simps [simp del]

definition free_pages :: "buddy \<Rightarrow> nat \<Rightarrow> buddy kres" where
  "free_pages st p =
     rbind (deref st p) (\<lambda>pg.
       if pg_state pg \<noteq> PG_ALLOCATED then Ok st
       else
         rbind (free_merge (page_upd p (\<lambda>q. q\<lparr>pg_state := PG_BUDDY, pg_prev := None,
                                              pg_next := None\<rparr>) st) p) (\<lambda>(q, st2).
           insert_free st2 q))"

end
