(* ===== verification/Buddy_Inv.thy ===== *)
theory Buddy_Inv
  imports Buddy Frame_Source
begin

text \<open>
  Correctness of the buddy allocator. The invariant has two parts: the block structure (every head
  page starts an aligned block inside \<^verbatim>\<open>mem_map\<close> whose other pages are tails, and every tail lies in
  a block) and the free lists (list \<open>k\<close> of \<^verbatim>\<open>free_matrix\<close> is a well-formed doubly linked list of
  exactly the free heads of order \<open>k\<close>). Between the operations of the source a block may be in
  flight, free but in no list; the invariant carries the set of these pages.
\<close>

section \<open>Doubly linked lists in the page array\<close>

primrec dll :: "page list \<Rightarrow> nat option \<Rightarrow> nat option \<Rightarrow> nat list \<Rightarrow> bool" where
  "dll mm pr h [] \<longleftrightarrow> h = None"
| "dll mm pr h (x # xs) \<longleftrightarrow>
     h = Some x \<and> x < length mm \<and> pg_prev (mm ! x) = pr \<and> dll mm (Some x) (pg_next (mm ! x)) xs"

section \<open>Invariant\<close>

abbreviation st_of :: "buddy \<Rightarrow> nat \<Rightarrow> page_state" where
  "st_of st x \<equiv> pg_state (mem_map st ! x)"

abbreviation ord_of :: "buddy \<Rightarrow> nat \<Rightarrow> nat" where
  "ord_of st x \<equiv> pg_order (mem_map st ! x)"

definition is_head :: "buddy \<Rightarrow> nat \<Rightarrow> bool" where
  "is_head st x \<longleftrightarrow> x < mem_nr_pages st \<and> st_of st x \<in> {PG_BUDDY, PG_ALLOCATED}"

definition block_ok :: "buddy \<Rightarrow> nat \<Rightarrow> bool" where
  "block_ok st x \<longleftrightarrow>
     ord_of st x \<le> PAGE_MAX_ORDER \<and> 2 ^ ord_of st x dvd x \<and>
     x + 2 ^ ord_of st x \<le> mem_nr_pages st \<and>
     (\<forall>y. x < y \<and> y < x + 2 ^ ord_of st x \<longrightarrow> st_of st y = PG_TAIL)"

definition blocks_ok :: "buddy \<Rightarrow> bool" where
  "blocks_ok st \<longleftrightarrow>
     (\<forall>x. is_head st x \<longrightarrow> block_ok st x) \<and>
     (\<forall>y < mem_nr_pages st. st_of st y = PG_TAIL \<longrightarrow>
        (\<exists>x. is_head st x \<and> x < y \<and> y < x + 2 ^ ord_of st x))"

definition free_set :: "buddy \<Rightarrow> nat \<Rightarrow> nat set" where
  "free_set st k = {x. x < mem_nr_pages st \<and> st_of st x = PG_BUDDY \<and> ord_of st x = k}"

definition lists_ok :: "nat set \<Rightarrow> buddy \<Rightarrow> (nat \<Rightarrow> nat list) \<Rightarrow> bool" where
  "lists_ok F st fl \<longleftrightarrow>
     length (free_matrix st) = Suc PAGE_MAX_ORDER \<and>
     (\<forall>k \<le> PAGE_MAX_ORDER. dll (mem_map st) None (free_matrix st ! k) (fl k) \<and> distinct (fl k) \<and>
        set (fl k) = free_set st k - F)"

definition inv_except :: "nat set \<Rightarrow> buddy \<Rightarrow> bool" where
  "inv_except F st \<longleftrightarrow> blocks_ok st \<and> (\<exists>fl. lists_ok F st fl)"

definition buddy_inv :: "buddy \<Rightarrow> bool" where
  "buddy_inv st \<longleftrightarrow> inv_except {} st"

section \<open>Lemmas on doubly linked lists\<close>

lemma dll_bound: "dll mm pr h xs \<Longrightarrow> x \<in> set xs \<Longrightarrow> x < length mm"
  by (induction xs arbitrary: pr h) auto

lemma dll_cong:
  assumes "length mm' = length mm"
    and "\<And>x. x \<in> set xs \<Longrightarrow> pg_prev (mm' ! x) = pg_prev (mm ! x) \<and> pg_next (mm' ! x) = pg_next (mm ! x)"
  shows "dll mm' pr h xs = dll mm pr h xs"
  using assms by (induction xs arbitrary: pr h) auto

lemma dll_upd [simp]: "x \<notin> set xs \<Longrightarrow> dll (mm[x := v]) pr h xs = dll mm pr h xs"
  by (rule dll_cong) (auto simp: nth_upd_if)

lemma dll_head: "dll mm pr (Some x) xs \<Longrightarrow> \<exists>ys. xs = x # ys"
  by (cases xs) auto

lemma dll_None [simp]: "dll mm pr None xs = (xs = [])"
  by (cases xs) auto

lemma dll_relink:
  assumes "dll mm pr (Some n) (n # ys)" and "n \<notin> set ys"
  shows "dll (mm[n := (mm ! n)\<lparr>pg_prev := pr'\<rparr>]) pr' (Some n) (n # ys)"
  using assms by simp

lemma dll_prev_in:
  "dll mm (Some v) h xs \<Longrightarrow> b \<in> set xs \<Longrightarrow> pg_prev (mm ! b) \<in> Some ` insert v (set xs)"
  by (induction xs arbitrary: v h) auto

lemma dll_next_in:
  "dll mm pr h xs \<Longrightarrow> distinct xs \<Longrightarrow> b \<in> set xs \<Longrightarrow>
   pg_next (mm ! b) = None \<or> (\<exists>n \<in> set xs. n \<noteq> b \<and> pg_next (mm ! b) = Some n)"
proof (induction xs arbitrary: pr h)
  case (Cons x xs)
  show ?case
  proof (cases "b = x")
    case True
    with Cons.prems show ?thesis by (cases "pg_next (mm ! x)") (auto dest: dll_head)
  next
    case False
    with Cons show ?thesis by fastforce
  qed
qed simp

lemma dll_prev_head:
  assumes "dll mm pr h xs" and "distinct xs" and "b \<in> set xs" and "\<forall>v. pr = Some v \<longrightarrow> v \<notin> set xs"
  shows "pg_prev (mm ! b) = pr \<longleftrightarrow> h = Some b"
proof (cases xs)
  case (Cons x ys)
  show ?thesis
  proof (cases "b = x")
    case True
    with Cons assms show ?thesis by simp
  next
    case False
    with Cons assms have "pg_prev (mm ! b) \<in> Some ` set xs"
      using dll_prev_in [of mm x "pg_next (mm ! x)" ys b] by simp
    then have "pg_prev (mm ! b) \<noteq> pr"
      using assms(4) by auto
    then show ?thesis using False Cons assms(1) by simp
  qed
qed (use assms in simp)

lemma dll_prev_neq:
  "dll mm (Some x) h xs \<Longrightarrow> distinct (x # xs) \<Longrightarrow> b \<in> set xs \<Longrightarrow> pg_prev (mm ! b) \<noteq> Some b"
proof (induction xs arbitrary: x h)
  case (Cons y ys)
  then show ?case by (cases "b = y") auto
qed simp

lemma dll_prev_None:
  assumes "dll mm None h xs" and "distinct xs" and "b \<in> set xs"
  shows "pg_prev (mm ! b) = None \<longleftrightarrow> h = Some b"
    and "pg_prev (mm ! b) = Some v \<Longrightarrow> v \<in> set xs \<and> v \<noteq> b"
proof -
  show "pg_prev (mm ! b) = None \<longleftrightarrow> h = Some b"
    using assms by (intro dll_prev_head) auto
  show "pg_prev (mm ! b) = Some v \<Longrightarrow> v \<in> set xs \<and> v \<noteq> b"
    using assms
  proof (induction xs arbitrary: h)
    case (Cons x xs)
    then have "b \<in> set xs" and d: "dll mm (Some x) (pg_next (mm ! x)) xs" by auto
    then have "v \<in> insert x (set xs)"
      using Cons.prems dll_prev_in [OF d] by fastforce
    moreover have "v \<noteq> b"
      using dll_prev_neq [OF d _ \<open>b \<in> set xs\<close>] Cons.prems by auto
    ultimately show ?case by simp
  qed simp
qed

text \<open>Unlinking a member, as \<^verbatim>\<open>remove_free\<close> does it.\<close>

definition unlink :: "nat \<Rightarrow> page list \<Rightarrow> page list" where
  "unlink b mm =
     (let v = pg_prev (mm ! b); n = pg_next (mm ! b);
          mm1 = (case v of None \<Rightarrow> mm | Some v' \<Rightarrow> mm[v' := (mm ! v')\<lparr>pg_next := n\<rparr>])
      in case n of None \<Rightarrow> mm1 | Some n' \<Rightarrow> mm1[n' := (mm1 ! n')\<lparr>pg_prev := v\<rparr>])"

lemma length_unlink [simp]: "length (unlink b mm) = length mm"
  by (simp add: unlink_def Let_def split: option.splits)

lemma unlink_other:
  assumes "pg_prev (mm ! b) \<noteq> Some x" and "pg_next (mm ! b) \<noteq> Some x"
  shows "unlink b mm ! x = mm ! x"
  using assms by (auto simp: unlink_def Let_def nth_upd_if split: option.splits)

lemma unlink_prev:
  assumes "x < length mm" and "pg_next (mm ! b) \<noteq> Some x"
  shows "pg_prev (unlink b mm ! x) = pg_prev (mm ! x)"
  using assms by (auto simp: unlink_def Let_def nth_upd_if split: option.splits)

lemma unlink_next:
  assumes "x < length mm"
  shows "pg_next (unlink b mm ! x) = (if pg_prev (mm ! b) = Some x then pg_next (mm ! b) else pg_next (mm ! x))"
  using assms by (auto simp: unlink_def Let_def nth_upd_if split: option.splits)

lemma unlink_next_prev:
  assumes "n < length mm" and "pg_next (mm ! b) = Some n"
  shows "pg_prev (unlink b mm ! n) = pg_prev (mm ! b)"
  using assms by (auto simp: unlink_def Let_def nth_upd_if split: option.splits)

lemma dll_unlink:
  assumes "dll mm pr h xs" and "distinct xs" and "b \<in> set xs" and "\<forall>v. pr = Some v \<longrightarrow> v \<notin> set xs"
  shows "dll (unlink b mm) pr (if h = Some b then pg_next (mm ! b) else h) (remove1 b xs)"
  using assms
proof (induction xs arbitrary: pr h)
  case (Cons x xs)
  show ?case
  proof (cases "b = x")
    case True
    show ?thesis
    proof (cases xs)
      case Nil
      with True Cons.prems show ?thesis by simp
    next
      case (Cons y ys)
      have n: "pg_next (mm ! b) = Some y" and y: "y < length mm" and d: "dll mm (Some y) (pg_next (mm ! y)) ys"
        using True Cons \<open>dll mm pr h (x # xs)\<close> by auto
      have pr: "pg_prev (mm ! b) = pr" using True \<open>dll mm pr h (x # xs)\<close> by simp
      have ny: "pr \<noteq> Some y" using Cons \<open>\<forall>v. pr = Some v \<longrightarrow> v \<notin> set (x # xs)\<close> by auto
      have "dll (unlink b mm) (Some y) (pg_next (mm ! y)) ys"
      proof (subst dll_cong)
        show "pg_prev (unlink b mm ! z) = pg_prev (mm ! z) \<and> pg_next (unlink b mm ! z) = pg_next (mm ! z)"
          if "z \<in> set ys" for z
        proof -
          have "pg_prev (mm ! b) \<noteq> Some z" "pg_next (mm ! b) \<noteq> Some z"
            using that Cons \<open>distinct (x # xs)\<close> n pr
              \<open>\<forall>v. pr = Some v \<longrightarrow> v \<notin> set (x # xs)\<close> by auto
          then show ?thesis by (simp add: unlink_other)
        qed
      qed (use d in simp_all)
      then show ?thesis
        using True Cons n y ny pr \<open>dll mm pr h (x # xs)\<close>
        by (simp add: unlink_next_prev unlink_next)
    qed
  next
    case False
    then have b: "b \<in> set xs" and d: "dll mm (Some x) (pg_next (mm ! x)) xs" and x: "x < length mm"
      using Cons.prems by auto
    have nx: "pg_next (mm ! b) \<noteq> Some x"
      using dll_next_in [OF d _ b] Cons.prems by auto
    have px: "pg_prev (mm ! b) = Some x \<longleftrightarrow> pg_next (mm ! x) = Some b"
      using dll_prev_head [OF d _ b] Cons.prems by auto
    have "dll (unlink b mm) (Some x) (if pg_next (mm ! x) = Some b then pg_next (mm ! b)
                                      else pg_next (mm ! x)) (remove1 b xs)"
      using Cons.prems b d by (intro Cons.IH) auto
    then show ?thesis
      using False Cons.prems x nx px by (simp add: unlink_prev unlink_next)
  qed
qed simp

section \<open>The free lists under the list operations\<close>

lemma free_set_core: "free_set st k = {x. x < length (core st) \<and> core st ! x = (PG_BUDDY, k)}"
  by (auto simp: free_set_def core_nth)

lemma lists_okD:
  assumes "lists_ok F st fl" and "k \<le> PAGE_MAX_ORDER"
  shows "dll (mem_map st) None (free_matrix st ! k) (fl k)" and "distinct (fl k)"
    and "set (fl k) = free_set st k - F" and "length (free_matrix st) = Suc PAGE_MAX_ORDER"
  using assms by (auto simp: lists_ok_def)

lemma lists_ok_member:
  assumes "lists_ok F st fl" and "k \<le> PAGE_MAX_ORDER" and "x \<in> set (fl k)"
  shows "x < mem_nr_pages st" and "st_of st x = PG_BUDDY" and "ord_of st x = k" and "x \<notin> F"
  using lists_okD(3) [OF assms(1,2)] assms(3) by (auto simp: free_set_def)

text \<open>Pages outside the free lists may be changed freely as long as they stay outside.\<close>

lemma lists_ok_frame:
  assumes "lists_ok F st fl" and "free_matrix st' = free_matrix st"
    and "mem_nr_pages st' = mem_nr_pages st"
    and "\<And>k x. k \<le> PAGE_MAX_ORDER \<Longrightarrow> x \<in> set (fl k) \<Longrightarrow> mem_map st' ! x = mem_map st ! x"
    and "\<And>k. k \<le> PAGE_MAX_ORDER \<Longrightarrow> free_set st' k - F' = free_set st k - F"
  shows "lists_ok F' st' fl"
  unfolding lists_ok_def
proof (intro conjI allI impI)
  show "length (free_matrix st') = Suc PAGE_MAX_ORDER"
    using assms(1,2) by (simp add: lists_ok_def)
next
  fix k assume k: "k \<le> PAGE_MAX_ORDER"
  note D = lists_okD [OF assms(1) k]
  show "dll (mem_map st') None (free_matrix st' ! k) (fl k)"
    using D(1) assms(2,3,4) k by (subst dll_cong) auto
  show "distinct (fl k)" by (rule D(2))
  show "set (fl k) = free_set st' k - F'"
    using D(3) assms(5) k by simp
qed

text \<open>An operation on list \<open>k\<close> touches the links of page \<open>p\<close> and of the members of that list only.\<close>

lemma lists_ok_change:
  assumes ok: "lists_ok F st fl" and k: "k \<le> PAGE_MAX_ORDER"
    and fm: "free_matrix st' = (free_matrix st)[k := h]"
    and n: "mem_nr_pages st' = mem_nr_pages st"
    and frame: "\<And>x. x \<noteq> p \<Longrightarrow> x \<notin> set (fl k) \<Longrightarrow> mem_map st' ! x = mem_map st ! x"
    and p: "\<And>j. j \<le> PAGE_MAX_ORDER \<Longrightarrow> j \<noteq> k \<Longrightarrow> p \<notin> set (fl j)"
    and lst: "dll (mem_map st') None h xs" "distinct xs" "set xs = free_set st' k - F'"
    and others: "\<And>j. j \<noteq> k \<Longrightarrow> free_set st' j - F' = free_set st j - F"
  shows "lists_ok F' st' (fl(k := xs))"
  unfolding lists_ok_def
proof (intro conjI allI impI)
  show "length (free_matrix st') = Suc PAGE_MAX_ORDER"
    using lists_okD(4) [OF ok k] fm by simp
next
  fix j assume j: "j \<le> PAGE_MAX_ORDER"
  note D = lists_okD [OF ok j]
  have disj: "x \<notin> set (fl k)" if "x \<in> set (fl j)" "j \<noteq> k" for x
    using that D(3) lists_okD(3) [OF ok k] by (auto simp: free_set_def)
  show "distinct ((fl(k := xs)) j)" using D(2) lst(2) by simp
  show "set ((fl(k := xs)) j) = free_set st' j - F'" using D(3) lst(3) others by simp
  show "dll (mem_map st') None (free_matrix st' ! j) ((fl(k := xs)) j)"
  proof (cases "j = k")
    case True
    then show ?thesis using lst(1) fm k lists_okD(4) [OF ok k] by simp
  next
    case False
    have "mem_map st' ! x = mem_map st ! x" if "x \<in> set (fl j)" for x
      using that disj False p [OF j False] by (intro frame) auto
    then have "dll (mem_map st') None (free_matrix st ! j) (fl j)"
      using D(1) n by (subst dll_cong) auto
    then show ?thesis using False fm by simp
  qed
qed

lemma insert_free_lists:
  assumes ok: "lists_ok F st fl" and p: "p < mem_nr_pages st" and k: "ord_of st p \<le> PAGE_MAX_ORDER"
    and out: "p \<in> F \<or> st_of st p \<noteq> PG_BUDDY"
  shows "\<exists>st'. insert_free st p = Ok st' \<and>
           lists_ok (F - {p}) st' (fl(ord_of st p := p # fl (ord_of st p))) \<and>
           (\<forall>x \<in> F - {p}. mem_map st' ! x = mem_map st ! x)"
proof -
  define k where "k = ord_of st p"
  define nxt where "nxt = free_matrix st ! k"
  define st1 where "st1 = page_upd p (\<lambda>q. q\<lparr>pg_next := nxt, pg_prev := None\<rparr>) st"
  define st2 where "st2 = (case nxt of None \<Rightarrow> st1 | Some n \<Rightarrow> page_upd n (\<lambda>q. q\<lparr>pg_prev := Some p\<rparr>) st1)"
  define st' where "st' = page_upd p (\<lambda>q. q\<lparr>pg_state := PG_BUDDY\<rparr>) (matrix_set k (Some p) st2)"
  note defs = st'_def st2_def st1_def
  have kM: "k \<le> PAGE_MAX_ORDER" using k by (simp add: k_def)
  note D = lists_okD [OF ok kM]
  have nin: "p \<notin> set (fl j)" if "j \<le> PAGE_MAX_ORDER" for j
    using lists_okD(3) [OF ok that] out by (auto simp: free_set_def)
  consider "nxt = None" "fl k = []"
    | n ys where "nxt = Some n" "fl k = n # ys" "n < mem_nr_pages st" "n \<noteq> p" "p \<notin> set ys"
    using D(1) nin [OF kM] by (cases "fl k") (auto simp: nxt_def)
  note nxt = this
  have res: "insert_free st p = Ok st'"
    using nxt p kM
    by (cases, auto simp: insert_free_def defs Let_def nxt_def k_def not_less simp del: page_write_Ok)
  have core': "core st' = (core st)[p := (PG_BUDDY, k)]"
    using insert_free_core [OF res] by (simp add: k_def)
  have "lists_ok (F - {p}) st' (fl(k := p # fl k))"
  proof (rule lists_ok_change [OF ok kM, where p = p and h = "Some p"])
    show "free_matrix st' = (free_matrix st)[k := Some p]" "mem_nr_pages st' = mem_nr_pages st"
      by (simp_all add: defs split: option.splits)
    show "mem_map st' ! x = mem_map st ! x" if "x \<noteq> p" "x \<notin> set (fl k)" for x
      using nxt that by (cases, auto simp: defs page_upd_def nth_upd_if)
    show "dll (mem_map st') None (Some p) (p # fl k)"
      using nxt D(1,2) p by (cases, auto simp: defs page_upd_def nxt_def nth_upd_if)
    show "free_set st' j - (F - {p}) = free_set st j - F" if "j \<noteq> k" for j
      using p that by (auto simp: free_set_core core' nth_upd_if core_nth k_def)
    show "set (p # fl k) = free_set st' k - (F - {p})"
      using D(3) p out by (auto simp: free_set_core core' nth_upd_if core_nth k_def)
  qed (use nin D(2) kM in auto)
  moreover have "\<forall>x \<in> F - {p}. mem_map st' ! x = mem_map st ! x"
    using nxt D(3) by (cases, auto simp: defs page_upd_def nth_upd_if)
  ultimately show ?thesis using res unfolding k_def by blast
qed

lemma remove_free_lists:
  assumes ok: "lists_ok F st fl" and b: "b \<in> free_set st k - F" and k: "k \<le> PAGE_MAX_ORDER"
  shows "\<exists>st'. remove_free st b = Ok st' \<and> lists_ok (insert b F) st' (fl(k := remove1 b (fl k))) \<and>
           (\<forall>x \<in> F. mem_map st' ! x = mem_map st ! x)"
proof -
  define mm where "mm = mem_map st"
  define v where "v = pg_prev (mm ! b)"
  define n where "n = pg_next (mm ! b)"
  define h where "h = (if v = None then n else free_matrix st ! k)"
  define st' where
    "st' = st\<lparr>mem_map := (unlink b mm)[b := (unlink b mm ! b)\<lparr>pg_next := None, pg_prev := None\<rparr>],
             free_matrix := (free_matrix st)[k := h]\<rparr>"
  note D = lists_okD [OF ok k]
  have bl: "b \<in> set (fl k)" and bn: "b < mem_nr_pages st" and bs: "st_of st b = PG_BUDDY" "ord_of st b = k"
    using b D(3) by (auto simp: free_set_def)
  have head: "v = None \<longleftrightarrow> free_matrix st ! k = Some b"
    using dll_prev_None(1) [OF D(1,2) bl] by (simp add: v_def mm_def)
  have vin: "v' \<in> set (fl k) \<and> v' \<noteq> b" if "v = Some v'" for v'
    using dll_prev_None(2) [OF D(1,2) bl] that by (simp add: v_def mm_def)
  have nin: "n' \<in> set (fl k) \<and> n' \<noteq> b" if "n = Some n'" for n'
    using dll_next_in [OF D(1,2) bl] that by (auto simp: n_def mm_def)
  have bound: "x < length mm" if "x \<in> set (fl k)" for x
    using dll_bound [OF D(1) that] by (simp add: mm_def)
  have res: "remove_free st b = Ok st'"
    using bn bs k head vin nin bound
    by (cases v; cases n; simp add: remove_free_def Let_def st'_def unlink_def page_upd_def
        matrix_set_def h_def v_def n_def mm_def page_write_def deref_def rbind_def)
  have core': "core st' = core st" using res by (rule remove_free_core)
  have frame: "mem_map st' ! x = mem_map st ! x" if "x \<noteq> b" "x \<notin> set (fl k)" for x
    using that vin nin by (auto simp: st'_def mm_def v_def n_def nth_upd_if intro!: unlink_other)
  have "lists_ok (insert b F) st' (fl(k := remove1 b (fl k)))"
  proof (rule lists_ok_change [OF ok k, where p = b and h = h])
    show "mem_map st' ! x = mem_map st ! x" if "x \<noteq> b" "x \<notin> set (fl k)" for x
      using that by (rule frame)
    have "dll (unlink b mm) None (if free_matrix st ! k = Some b then n else free_matrix st ! k)
            (remove1 b (fl k))"
      unfolding mm_def n_def using D(1,2) bl by (intro dll_unlink) auto
    then show "dll (mem_map st') None h (remove1 b (fl k))"
      using D(2) head by (simp add: st'_def h_def)
    show "set (remove1 b (fl k)) = free_set st' k - insert b F"
      using D(2,3) by (auto simp: free_set_core core')
    show "b \<notin> set (fl j)" if "j \<le> PAGE_MAX_ORDER" "j \<noteq> k" for j
      using lists_okD(3) [OF ok that(1)] that(2) bs by (auto simp: free_set_def)
    show "free_set st' j - insert b F = free_set st j - F" if "j \<noteq> k" for j
      using that bs bn by (auto simp: free_set_core core' core_nth)
  qed (use D in \<open>auto simp: st'_def mm_def\<close>)
  moreover have "\<forall>x \<in> F. mem_map st' ! x = mem_map st ! x" using b D(3) by (auto intro!: frame)
  ultimately show ?thesis using res by blast
qed

text \<open>Popping the head of a list is removing it.\<close>

lemma pop_free_remove:
  assumes "free_matrix st ! k = Some p" and "p \<in> free_set st k" and "k \<le> PAGE_MAX_ORDER"
    and "pg_prev (mem_map st ! p) = None"
  shows "pop_free st k = rbind (remove_free st p) (\<lambda>st'. Ok (Some p, st'))"
  using assms
  by (auto simp: pop_free_def remove_free_def free_set_def Let_def page_write_def deref_def
      split: option.splits)

lemma pop_free_lists:
  assumes ok: "lists_ok F st fl" and k: "k \<le> PAGE_MAX_ORDER"
  shows "case fl k of [] \<Rightarrow> pop_free st k = Ok (None, st)
         | p # ps \<Rightarrow> p \<in> free_set st k - F \<and>
             (\<exists>st'. pop_free st k = Ok (Some p, st') \<and> lists_ok (insert p F) st' (fl(k := ps)))"
proof (cases "fl k")
  case Nil
  then show ?thesis using lists_okD(1) [OF ok k] k by (simp add: pop_free_def)
next
  case (Cons p ps)
  note D = lists_okD [OF ok k]
  have p: "p \<in> free_set st k - F" using D(3) Cons by auto
  have "pop_free st k = rbind (remove_free st p) (\<lambda>st'. Ok (Some p, st'))"
    using D(1) Cons p k by (intro pop_free_remove) auto
  with remove_free_lists [OF ok p k] Cons p show ?thesis by auto
qed

section \<open>The block structure under splitting and merging\<close>

lemma st_ord_core:
  assumes "x < mem_nr_pages st"
  shows "st_of st x = fst (core st ! x)" and "ord_of st x = snd (core st ! x)"
  using assms by (simp_all add: core_nth)

lemma core_nr: "core st' = (core st)[x := v] \<Longrightarrow> mem_nr_pages st' = mem_nr_pages st"
  "core st' = (core st)[x := v, y := w] \<Longrightarrow> mem_nr_pages st' = mem_nr_pages st"
  by (metis length_core length_list_update)+

lemma blocks_okD:
  assumes "blocks_ok st" and "is_head st x"
  shows "ord_of st x \<le> PAGE_MAX_ORDER" and "2 ^ ord_of st x dvd x"
    and "x + 2 ^ ord_of st x \<le> mem_nr_pages st"
    and "x < y \<Longrightarrow> y < x + 2 ^ ord_of st x \<Longrightarrow> st_of st y = PG_TAIL"
  using assms by (auto simp: blocks_ok_def block_ok_def)

lemma tail_block:
  assumes "blocks_ok st" and "y < mem_nr_pages st" and "st_of st y = PG_TAIL"
  obtains x where "is_head st x" and "x < y" and "y < x + 2 ^ ord_of st x"
  using assms by (auto simp: blocks_ok_def)

lemma blocks_ok_cong:
  assumes "core st' = core st" and "blocks_ok st"
  shows "blocks_ok st'"
proof -
  have n: "mem_nr_pages st' = mem_nr_pages st" using assms(1) by (rule mem_nr_pages_core)
  then have S: "st_of st' x = st_of st x" "ord_of st' x = ord_of st x" if "x < mem_nr_pages st" for x
    using that assms(1) by (simp_all add: st_ord_core)
  then have H: "is_head st' x = is_head st x" for x by (auto simp: is_head_def n)
  have "block_ok st' x" if "is_head st x" for x
    using blocks_okD [OF assms(2) that] that S n by (auto simp: block_ok_def is_head_def)
  moreover have "\<exists>x. is_head st' x \<and> x < y \<and> y < x + 2 ^ ord_of st' x"
    if y: "y < mem_nr_pages st" "st_of st y = PG_TAIL" for y
  proof -
    obtain x where "is_head st x" "x < y" "y < x + 2 ^ ord_of st x" by (rule tail_block [OF assms(2) y])
    then show ?thesis using H S by (intro exI [of _ x]) (auto simp: is_head_def)
  qed
  ultimately show ?thesis using H S n by (auto simp: blocks_ok_def)
qed

text \<open>A page lies in at most one block.\<close>

lemma block_unique:
  assumes "blocks_ok st" and "is_head st x" and "is_head st x'"
    and "x \<le> y" "y < x + 2 ^ ord_of st x" and "x' \<le> y" "y < x' + 2 ^ ord_of st x'"
  shows "x = x'"
proof (rule ccontr)
  assume "x \<noteq> x'"
  then have "st_of st x = PG_TAIL \<or> st_of st x' = PG_TAIL"
    using blocks_okD(4) [OF assms(1,2), of x'] blocks_okD(4) [OF assms(1,3), of x] assms(4-7)
    by linarith
  then show False using assms(2,3) by (auto simp: is_head_def)
qed

lemma blocks_ok_split:
  assumes ok: "blocks_ok st" and p: "is_head st p" and k: "ord_of st p = Suc k"
    and core': "core st' = (core st)[p := (st_of st p, k), p + 2 ^ k := (PG_BUDDY, k)]"
  shows "blocks_ok st'"
proof -
  define b where "b = p + 2 ^ k"
  have pos: "0 < (2::nat) ^ k" by simp
  have n: "mem_nr_pages st' = mem_nr_pages st" using core_nr(2) [OF core'] .
  note P = blocks_okD [OF ok p, unfolded k]
  have bn: "b < mem_nr_pages st" and pb: "p < b"
    using P(3) pos unfolding b_def power_Suc by linarith+
  have bt: "st_of st b = PG_TAIL"
    using P(4) [of b] by (simp add: b_def)
  have pn: "p < mem_nr_pages st" using p by (simp add: is_head_def)
  have S: "st_of st' x = (if x = b then PG_BUDDY else st_of st x)"
    and O: "ord_of st' x = (if x = b \<or> x = p then k else ord_of st x)" if "x < mem_nr_pages st" for x
    using that pn bn by (auto simp: st_ord_core n core' b_def nth_upd_if)
  have H: "is_head st' x \<longleftrightarrow> is_head st x \<or> x = b" for x
    using bn S by (auto simp: is_head_def n split: if_splits)
  have dv: "2 ^ k dvd p"
    by (rule dvd_trans [OF le_imp_power_dvd P(2)]) simp
  have "block_ok st' x" if hx: "is_head st' x" for x
  proof -
    consider "x = p" | "x = b" | "is_head st x" "x \<noteq> p" "x \<noteq> b" using hx H [of x] by blast
    then show ?thesis
    proof cases
      case 1
      then show ?thesis
        using P(1,3) P(4) pn pb dv S O n bn by (auto simp: block_ok_def b_def)
    next
      case 2
      have "st_of st' y = PG_TAIL" if "b < y" "y < b + 2 ^ k" for y
        using that P(3) P(4) [of y] S [of y] by (simp add: b_def)
      then show ?thesis
        using 2 P(1,3) O [OF bn] dv n by (simp add: block_ok_def b_def)
    next
      case 3
      have xn: "x < mem_nr_pages st" using 3 by (simp add: is_head_def)
      note X = blocks_okD [OF ok 3(1)]
      have "y \<noteq> b" if "x < y" "y < x + 2 ^ ord_of st x" for y
        using block_unique [OF ok 3(1) p, of y] that 3(2) k pos by (auto simp: b_def)
      then show ?thesis
        using X xn S O n 3 by (auto simp: block_ok_def)
    qed
  qed
  moreover have "\<exists>x. is_head st' x \<and> x < y \<and> y < x + 2 ^ ord_of st' x"
    if "y < mem_nr_pages st'" "st_of st' y = PG_TAIL" for y
  proof -
    have y: "y < mem_nr_pages st" "st_of st y = PG_TAIL" "y \<noteq> b" using that S n by (auto split: if_splits)
    from y(1,2) obtain x where x: "is_head st x" "x < y" "y < x + 2 ^ ord_of st x" by (rule tail_block [OF ok])
    have xn: "x < mem_nr_pages st" using x by (simp add: is_head_def)
    show ?thesis
    proof (cases "x = p")
      case True
      then have "y < b \<or> b < y \<and> y < b + 2 ^ k" using x y k by (auto simp: b_def)
      then show ?thesis
      proof
        assume "y < b"
        then show ?thesis using True x H p O [OF pn] by (intro exI [of _ p]) (simp add: b_def)
      next
        assume "b < y \<and> y < b + 2 ^ k"
        then show ?thesis using H O [OF bn] by (intro exI [of _ b]) simp
      qed
    next
      case False
      then have "x \<noteq> b" using x bt by (auto simp: is_head_def)
      then show ?thesis using x False xn O H by (intro exI [of _ x]) auto
    qed
  qed
  ultimately show ?thesis by (auto simp: blocks_ok_def)
qed

lemma blocks_ok_merge:
  assumes ok: "blocks_ok st" and p: "is_head st p" and b: "is_head st (p + 2 ^ k)"
    and k: "ord_of st p = k" "ord_of st (p + 2 ^ k) = k" "k < PAGE_MAX_ORDER" "2 ^ Suc k dvd p"
    and core': "core st' = (core st)[p + 2 ^ k := (PG_TAIL, k), p := (st_of st p, Suc k)]"
  shows "blocks_ok st'"
proof -
  define b where "b = p + 2 ^ k"
  have pos: "0 < (2::nat) ^ k" by simp
  have n: "mem_nr_pages st' = mem_nr_pages st" using core_nr(2) [OF core'] .
  note P = blocks_okD [OF ok p, unfolded k(1)]
  note B = blocks_okD [OF ok b, folded b_def, unfolded k(2) [folded b_def]]
  have pb: "p < b" by (simp add: b_def)
  have pn: "p < mem_nr_pages st" and bn: "b < mem_nr_pages st" using p b by (auto simp: is_head_def b_def)
  have S: "st_of st' x = (if x = b then PG_TAIL else st_of st x)"
    and O: "ord_of st' x = (if x = p then Suc k else if x = b then k else ord_of st x)"
    if "x < mem_nr_pages st" for x
    using that pn bn pb by (auto simp: st_ord_core n core' b_def nth_upd_if)
  have H: "is_head st' x \<longleftrightarrow> is_head st x \<and> x \<noteq> b" for x
    using bn S by (auto simp: is_head_def n split: if_splits)
  have "block_ok st' x" if "is_head st' x" for x
  proof (cases "x = p")
    case True
    have "st_of st' y = PG_TAIL" if "p < y" "y < p + 2 * 2 ^ k" for y
    proof -
      have "y < mem_nr_pages st" using that B(3) by (simp add: b_def)
      moreover have "y < b \<or> y = b \<or> (b < y \<and> y < b + 2 ^ k)" using that by (auto simp: b_def)
      ultimately show ?thesis using S P(4) [of y] B(4) [of y] that by (auto simp: b_def)
    qed
    then show ?thesis
      using True B(3) k O n pn by (simp add: block_ok_def b_def)
  next
    case False
    then have x: "is_head st x" "x \<noteq> b" "x < mem_nr_pages st" using that H by (auto simp: is_head_def)
    show ?thesis
      using blocks_okD [OF ok x(1)] S O n x False by (auto simp: block_ok_def)
  qed
  moreover have "\<exists>x. is_head st' x \<and> x < y \<and> y < x + 2 ^ ord_of st' x"
    if "y < mem_nr_pages st'" "st_of st' y = PG_TAIL" for y
  proof (cases "p < y \<and> y < p + 2 * 2 ^ k")
    case True
    then show ?thesis using H p pb O [OF pn] by (intro exI [of _ p]) auto
  next
    case False
    then have y: "y < mem_nr_pages st" "st_of st y = PG_TAIL" using that S n pb by (auto simp: b_def split: if_splits)
    then obtain x where x: "is_head st x" "x < y" "y < x + 2 ^ ord_of st x" by (rule tail_block [OF ok])
    then have "x \<noteq> p" "x \<noteq> b" using False k by (auto simp: b_def)
    then show ?thesis using x O H by (intro exI [of _ x]) (auto simp: is_head_def)
  qed
  ultimately show ?thesis by (auto simp: blocks_ok_def)
qed

lemma blocks_ok_restate:
  assumes ok: "blocks_ok st" and p: "is_head st p" and s: "s \<in> {PG_BUDDY, PG_ALLOCATED}"
    and core': "core st' = (core st)[p := (s, ord_of st p)]"
  shows "blocks_ok st'"
proof -
  have n: "mem_nr_pages st' = mem_nr_pages st" using core_nr(1) [OF core'] .
  have pn: "p < mem_nr_pages st" using p by (simp add: is_head_def)
  have S: "st_of st' x = (if x = p then s else st_of st x)" and O: "ord_of st' x = ord_of st x"
    if "x < mem_nr_pages st" for x
    using that pn by (auto simp: st_ord_core n core' nth_upd_if)
  have H: "is_head st' x \<longleftrightarrow> is_head st x" for x
    using S [of x] s p by (cases "x = p") (auto simp: is_head_def n)
  have T: "st_of st' y = PG_TAIL \<longleftrightarrow> st_of st y = PG_TAIL" if "y < mem_nr_pages st" for y
    using S [OF that] s p by (auto simp: is_head_def)
  have "block_ok st' x" if "is_head st x" for x
    using blocks_okD [OF ok that] that O T n by (auto simp: block_ok_def is_head_def)
  moreover have "\<exists>x. is_head st' x \<and> x < y \<and> y < x + 2 ^ ord_of st' x"
    if y: "y < mem_nr_pages st" "st_of st y = PG_TAIL" for y
  proof -
    obtain x where "is_head st x" "x < y" "y < x + 2 ^ ord_of st x" by (rule tail_block [OF ok y])
    then show ?thesis using H O by (intro exI [of _ x]) (auto simp: is_head_def)
  qed
  ultimately show ?thesis using H T n by (auto simp: blocks_ok_def)
qed

end
