(* ===== verification/Buddy_Alloc.thy ===== *)
theory Buddy_Alloc
  imports Buddy_Inv
begin

text \<open>
  The specification of \<^verbatim>\<open>alloc_pages\<close> and \<^verbatim>\<open>free_pages\<close> over the sets of free and of allocated blocks, and
  the proof that the operations implement it and keep the invariant. Freeing is covered in the case in
  which the freed block has no free left buddy; the last section shows what the source does
  otherwise.
\<close>

definition free_blocks :: "buddy \<Rightarrow> (nat \<times> nat) set" where
  "free_blocks st = {(x, k). x \<in> free_set st k}"

definition alloc_blocks :: "buddy \<Rightarrow> (nat \<times> nat) set" where
  "alloc_blocks st = {(x, k). x < mem_nr_pages st \<and> st_of st x = PG_ALLOCATED \<and> ord_of st x = k}"

definition allocated_frames :: "buddy \<Rightarrow> nat set" where
  "allocated_frames st = (\<Union>(x, k) \<in> alloc_blocks st. block x k)"

text \<open>The block to the left of \<open>p\<close> with which \<open>p\<close> could be merged is free.\<close>

definition left_buddy_free :: "buddy \<Rightarrow> nat \<Rightarrow> bool" where
  "left_buddy_free st p =
     (let a = alignment_order p
      in a < PAGE_MAX_ORDER \<and> 2 ^ a \<le> p \<and> st_of st (p - 2 ^ a) = PG_BUDDY \<and> ord_of st (p - 2 ^ a) = a)"

lemma free_blocks_core:
  "free_blocks st = {(x, k). x < length (core st) \<and> core st ! x = (PG_BUDDY, k)}"
  by (auto simp: free_blocks_def free_set_core)

lemma alloc_blocks_core:
  "alloc_blocks st = {(x, k). x < length (core st) \<and> core st ! x = (PG_ALLOCATED, k)}"
  by (auto simp: alloc_blocks_def core_nth)

section \<open>Allocation\<close>

lemma alloc_find_spec:
  assumes "lists_ok F st fl"
  shows "(alloc_find st i = Ok (None, st) \<and> (\<forall>k. i \<le> k \<and> k \<le> PAGE_MAX_ORDER \<longrightarrow> free_set st k \<subseteq> F)) \<or>
    (\<exists>p k st' fl'. alloc_find st i = Ok (Some p, st') \<and> i \<le> k \<and> k \<le> PAGE_MAX_ORDER \<and>
       (\<forall>j. i \<le> j \<and> j < k \<longrightarrow> free_set st j \<subseteq> F) \<and> p \<in> free_set st k - F \<and>
       core st' = core st \<and> lists_ok (insert p F) st' fl')"
    (is "?P i")
proof (induction "Suc PAGE_MAX_ORDER - i" arbitrary: i)
  case 0
  then show ?case by (subst (1 2) alloc_find.simps) auto
next
  case (Suc n)
  then have i: "i \<le> PAGE_MAX_ORDER" and IH: "?P (Suc i)" by auto
  note pop = pop_free_lists [OF assms i]
  note D = lists_okD [OF assms i]
  show ?case
  proof (cases "fl i")
    case Nil
    then have step: "alloc_find st i = alloc_find st (Suc i)"
      using pop i by (subst alloc_find.simps) simp
    have emp: "free_set st i \<subseteq> F" using D(3) Nil by auto
    have le: "i \<le> j \<longleftrightarrow> j = i \<or> Suc i \<le> j" for j by auto
    from IH show ?thesis
    proof (elim disjE exE conjE)
      assume "alloc_find st (Suc i) = Ok (None, st)"
        "\<forall>k. Suc i \<le> k \<and> k \<le> PAGE_MAX_ORDER \<longrightarrow> free_set st k \<subseteq> F"
      then show ?thesis using emp step le by metis
    next
      fix p k st' fl'
      assume "alloc_find st (Suc i) = Ok (Some p, st')" "Suc i \<le> k" "k \<le> PAGE_MAX_ORDER"
        "\<forall>j. Suc i \<le> j \<and> j < k \<longrightarrow> free_set st j \<subseteq> F" "p \<in> free_set st k - F"
        "core st' = core st" "lists_ok (insert p F) st' fl'"
      then show ?thesis
        using emp step le by (intro disjI2 exI [of _ p] exI [of _ k] exI [of _ st'] exI [of _ fl']) auto
    qed
  next
    case (Cons p ps)
    with pop obtain st' where st': "pop_free st i = Ok (Some p, st')" "p \<in> free_set st i - F"
      "lists_ok (insert p F) st' (fl(i := ps))" by auto
    then have "alloc_find st i = Ok (Some p, st')" using i by (subst alloc_find.simps) simp
    then show ?thesis
      using st' pop_free_core [OF st'(1)] i
      by (intro disjI2 exI [of _ p] exI [of _ i] exI [of _ st'] exI [of _ "fl(i := ps)"]) auto
  qed
qed

lemma lists_ok_orders:
  assumes ok: "lists_ok {p} st fl" and p: "p < mem_nr_pages st" and b: "b < mem_nr_pages st"
    and bs: "st_of st b \<noteq> PG_BUDDY"
  shows "lists_ok {p} (page_upd b (\<lambda>q. q\<lparr>pg_order := k\<rparr>) (page_upd p (\<lambda>q. q\<lparr>pg_order := k\<rparr>) st)) fl"
proof (rule lists_ok_frame [OF ok])
  show "mem_map (page_upd b (\<lambda>q. q\<lparr>pg_order := k\<rparr>) (page_upd p (\<lambda>q. q\<lparr>pg_order := k\<rparr>) st)) ! x = mem_map st ! x"
    if "j \<le> PAGE_MAX_ORDER" "x \<in> set (fl j)" for j x
    using that lists_okD(3) [OF ok that(1)] bs by (auto simp: nth_page_upd free_set_def)
qed (use p b bs in \<open>auto simp: free_set_def nth_page_upd split: if_splits\<close>)

lemma alloc_split_step:
  assumes ok: "blocks_ok st" and fl: "lists_ok {p} st fl" and p: "p < mem_nr_pages st"
    and ps: "st_of st p = PG_BUDDY" and k: "ord_of st p = Suc k" and le: "ord \<le> k"
  shows "\<exists>st' fl'. alloc_split st p ord = alloc_split st' p ord \<and> blocks_ok st' \<and>
           lists_ok {p} st' fl' \<and> mem_nr_pages st' = mem_nr_pages st \<and>
           core st' = (core st)[p := (PG_BUDDY, k), p + 2 ^ k := (PG_BUDDY, k)]"
proof -
  define b where "b = p + 2 ^ k"
  define st1 where "st1 = page_upd b (\<lambda>q. q\<lparr>pg_order := k\<rparr>) (page_upd p (\<lambda>q. q\<lparr>pg_order := k\<rparr>) st)"
  have hd: "is_head st p" using p ps by (simp add: is_head_def)
  note P = blocks_okD [OF ok hd, unfolded k]
  have pos: "0 < (2::nat) ^ k" by simp
  have bn: "b < mem_nr_pages st" and pb: "p \<noteq> b"
    using P(3) pos unfolding b_def power_Suc by linarith+
  have bt: "st_of st b = PG_TAIL" using P(4) [of b] by (simp add: b_def)
  have fl1: "lists_ok {p} st1 fl"
    unfolding st1_def by (rule lists_ok_orders [OF fl p bn]) (simp add: bt)
  have b1: "st_of st1 b = PG_TAIL" "ord_of st1 b = k" "b < mem_nr_pages st1"
    using bn bt pb by (simp_all add: st1_def nth_page_upd)
  obtain st' where st': "insert_free st1 b = Ok st'" "lists_ok ({p} - {b}) st' (fl(ord_of st1 b := b # fl (ord_of st1 b)))"
    using insert_free_lists [OF fl1 b1(3)] b1 P(1) by auto
  have core': "core st' = (core st)[p := (PG_BUDDY, k), b := (PG_BUDDY, k)]"
    using insert_free_core [OF st'(1)] b1 bn pb p ps bt
    by (intro nth_equalityI) (auto simp: st1_def core_nth nth_page_upd nth_upd_if)
  have "alloc_split st p ord = alloc_split st' p ord"
    using p k le bn bt pb st'(1)
    by (subst alloc_split.simps) (simp add: Let_def b_def [symmetric] st1_def nth_page_upd)
  moreover have "blocks_ok st'"
    using blocks_ok_split [OF ok hd k] core' ps by (simp add: b_def)
  ultimately show ?thesis
    using st'(2) pb core' core_nr(2) [OF core'] by (auto simp: b_def)
qed

lemma alloc_split_spec:
  assumes "blocks_ok st" and "lists_ok {p} st fl" and "p < mem_nr_pages st"
    and "st_of st p = PG_BUDDY" and "ord_of st p = ord + d"
  shows "\<exists>st' fl'. alloc_split st p ord = Ok st' \<and> blocks_ok st' \<and> lists_ok {p} st' fl' \<and>
           mem_nr_pages st' = mem_nr_pages st \<and> st_of st' p = PG_BUDDY \<and> ord_of st' p = ord \<and>
           free_blocks st' = free_blocks st - {(p, ord + d)} \<union> {(p, ord)} \<union>
             {(p + 2 ^ j, j) |j. ord \<le> j \<and> j < ord + d} \<and>
           alloc_blocks st' = alloc_blocks st"
  using assms
proof (induction d arbitrary: st fl)
  case 0
  then have "alloc_split st p ord = Ok st" by (subst alloc_split.simps) simp
  moreover have "(p, ord) \<in> free_blocks st" using 0 by (simp add: free_blocks_def free_set_def)
  ultimately show ?case using 0 by auto
next
  case (Suc d)
  note P = blocks_okD [OF Suc.prems(1), of p]
  have hd: "is_head st p" using Suc.prems by (simp add: is_head_def)
  obtain st1 fl1 where st1: "alloc_split st p ord = alloc_split st1 p ord" "blocks_ok st1"
    "lists_ok {p} st1 fl1" "mem_nr_pages st1 = mem_nr_pages st"
    "core st1 = (core st)[p := (PG_BUDDY, ord + d), p + 2 ^ (ord + d) := (PG_BUDDY, ord + d)]"
    using alloc_split_step [OF Suc.prems(1-4), of "ord + d" ord] Suc.prems(5) by auto
  define b where "b = p + 2 ^ (ord + d)"
  have pos: "0 < (2::nat) ^ (ord + d)" by simp
  have "p + 2 * 2 ^ (ord + d) \<le> mem_nr_pages st"
    using P(3) [OF hd] Suc.prems(5) by simp
  then have bn: "b < mem_nr_pages st" and pb: "p \<noteq> b"
    using pos unfolding b_def by linarith+
  have bt: "st_of st b = PG_TAIL"
    using P(4) [OF hd, of b] Suc.prems(5) by (simp add: b_def)
  have p1: "st_of st1 p = PG_BUDDY" "ord_of st1 p = ord + d"
    using st1(4,5) Suc.prems(3) pb by (simp_all add: st_ord_core nth_upd_if b_def)
  have fb: "free_blocks st1 = free_blocks st - {(p, ord + Suc d)} \<union> {(p, ord + d), (b, ord + d)}"
    using Suc.prems(3,4,5) bn pb bt st1(5)
    by (auto simp: free_blocks_core b_def nth_upd_if core_nth split: if_splits)
  have ab: "alloc_blocks st1 = alloc_blocks st"
    using Suc.prems(3,4) bn bt st1(5)
    by (auto simp: alloc_blocks_core b_def nth_upd_if core_nth split: if_splits)
  obtain st' fl' where st': "alloc_split st1 p ord = Ok st'" "blocks_ok st'" "lists_ok {p} st' fl'"
    "mem_nr_pages st' = mem_nr_pages st1" "st_of st' p = PG_BUDDY" "ord_of st' p = ord"
    "free_blocks st' = free_blocks st1 - {(p, ord + d)} \<union> {(p, ord)} \<union> {(p + 2 ^ j, j) |j. ord \<le> j \<and> j < ord + d}"
    "alloc_blocks st' = alloc_blocks st1"
    using Suc.IH [OF st1(2,3) _ p1] Suc.prems(3) st1(4) by auto
  have "(p, ord + d) \<notin> free_blocks st"
    using Suc.prems(5) by (auto simp: free_blocks_def free_set_def)
  moreover have "j < ord + Suc d \<longleftrightarrow> j < ord + d \<or> j = ord + d" for j by auto
  ultimately have "free_blocks st' = free_blocks st - {(p, ord + Suc d)} \<union> {(p, ord)} \<union>
             {(p + 2 ^ j, j) |j. ord \<le> j \<and> j < ord + Suc d}"
    using st'(7) fb pb by (auto simp: b_def)
  then show ?case using st' st1(1,4) ab by auto
qed

theorem alloc_pages_spec:
  assumes inv: "buddy_inv st" and ord: "ord \<le> PAGE_MAX_ORDER"
  shows "(alloc_pages st ord = Ok (None, st) \<and> (\<forall>(x, k) \<in> free_blocks st. k < ord)) \<or>
    (\<exists>p k st'. alloc_pages st ord = Ok (Some p, st') \<and> buddy_inv st' \<and>
       ord \<le> k \<and> (p, k) \<in> free_blocks st \<and> (\<forall>(x, j) \<in> free_blocks st. ord \<le> j \<longrightarrow> k \<le> j) \<and>
       free_blocks st' = free_blocks st - {(p, k)} \<union> {(p + 2 ^ j, j) |j. ord \<le> j \<and> j < k} \<and>
       alloc_blocks st' = insert (p, ord) (alloc_blocks st) \<and> mem_nr_pages st' = mem_nr_pages st)"
proof -
  obtain fl where ok: "blocks_ok st" and fl: "lists_ok {} st fl"
    using inv by (auto simp: buddy_inv_def inv_except_def)
  have bound: "k \<le> PAGE_MAX_ORDER" if "(x, k) \<in> free_blocks st" for x k
    using that blocks_okD(1) [OF ok, of x] by (auto simp: free_blocks_def free_set_def is_head_def)
  from alloc_find_spec [OF fl, of ord] show ?thesis
  proof (elim disjE exE conjE)
    assume "alloc_find st ord = Ok (None, st)" and
      none: "\<forall>k. ord \<le> k \<and> k \<le> PAGE_MAX_ORDER \<longrightarrow> free_set st k \<subseteq> {}"
    moreover have "k < ord" if "(x, k) \<in> free_blocks st" for x k
      using that none bound [OF that] by (fastforce simp: free_blocks_def not_le [symmetric])
    ultimately show ?thesis using ord by (auto simp: alloc_pages_def)
  next
    fix p k st1 fl1
    assume find: "alloc_find st ord = Ok (Some p, st1)" and k: "ord \<le> k" "k \<le> PAGE_MAX_ORDER"
      and least: "\<forall>j. ord \<le> j \<and> j < k \<longrightarrow> free_set st j \<subseteq> {}" and pf: "p \<in> free_set st k - {}"
      and core1: "core st1 = core st" and fl1: "lists_ok {p} st1 fl1"
    have n1: "mem_nr_pages st1 = mem_nr_pages st" using core1 by (rule mem_nr_pages_core)
    have p1: "p < mem_nr_pages st1" "st_of st1 p = PG_BUDDY" "ord_of st1 p = k"
      using pf core1 n1 by (auto simp: free_set_core st_ord_core)
    have ok1: "blocks_ok st1" using core1 ok by (rule blocks_ok_cong)
    obtain st2 fl2 where st2: "alloc_split st1 p ord = Ok st2" "blocks_ok st2" "lists_ok {p} st2 fl2"
      "mem_nr_pages st2 = mem_nr_pages st1" "st_of st2 p = PG_BUDDY" "ord_of st2 p = ord"
      "free_blocks st2 = free_blocks st1 - {(p, k)} \<union> {(p, ord)} \<union> {(p + 2 ^ j, j) |j. ord \<le> j \<and> j < k}"
      "alloc_blocks st2 = alloc_blocks st1"
      using alloc_split_spec [OF ok1 fl1 p1(1,2), of ord "k - ord"] p1(3) k by auto
    define st' where "st' = page_upd p (\<lambda>q. q\<lparr>pg_state := PG_ALLOCATED\<rparr>) st2"
    have p2: "p < mem_nr_pages st2" using p1 st2(4) by simp
    have core': "core st' = (core st2)[p := (PG_ALLOCATED, ord)]"
      using st2(6) by (simp add: st'_def core_page_upd)
    have "blocks_ok st'"
      using blocks_ok_restate [OF st2(2), of p PG_ALLOCATED st'] core' st2(5,6) p2
      by (simp add: is_head_def)
    moreover have "lists_ok {} st' fl2"
    proof (rule lists_ok_frame [OF st2(3)])
      show "mem_map st' ! x = mem_map st2 ! x" if "j \<le> PAGE_MAX_ORDER" "x \<in> set (fl2 j)" for j x
        using that lists_okD(3) [OF st2(3) that(1)] by (auto simp: st'_def nth_page_upd free_set_def)
    qed (use p2 in \<open>auto simp: st'_def free_set_def nth_page_upd split: if_splits\<close>)
    moreover have "free_blocks st' = free_blocks st - {(p, k)} \<union> {(p + 2 ^ j, j) |j. ord \<le> j \<and> j < k}"
    proof -
      have "free_blocks st' = free_blocks st2 - {(p, ord)}"
        using core' p2 st2(5,6) by (auto simp: free_blocks_core nth_upd_if core_nth split: if_splits)
      moreover have "free_blocks st1 = free_blocks st" by (simp add: free_blocks_core core1)
      moreover have "(p, ord) \<notin> free_blocks st - {(p, k)} \<union> {(p + 2 ^ j, j) |j. ord \<le> j \<and> j < k}"
        using pf by (auto simp: free_blocks_def free_set_def)
      ultimately show ?thesis using st2(7) by simp
    qed
    moreover have "alloc_blocks st' = insert (p, ord) (alloc_blocks st)"
    proof -
      have "alloc_blocks st' = insert (p, ord) (alloc_blocks st2)"
        using core' p2 st2(5) by (auto simp: alloc_blocks_core nth_upd_if core_nth split: if_splits)
      moreover have "alloc_blocks st1 = alloc_blocks st" by (simp add: alloc_blocks_core core1)
      ultimately show ?thesis using st2(8) by simp
    qed
    moreover have "alloc_pages st ord = Ok (Some p, st')"
      using ord find st2(1) by (simp add: alloc_pages_def st'_def)
    moreover have "(p, k) \<in> free_blocks st" "\<forall>(x, j) \<in> free_blocks st. ord \<le> j \<longrightarrow> k \<le> j"
      using pf least by (auto simp: free_blocks_def not_le [symmetric])
    ultimately show ?thesis
      using k n1 st2(4) by (auto simp: buddy_inv_def inv_except_def st'_def)
  qed
qed

section \<open>Alignment\<close>

lemma ctzll_dvd: "0 < n \<Longrightarrow> 2 ^ j dvd n \<longleftrightarrow> j \<le> ctzll n"
proof (induction n arbitrary: j rule: ctzll.induct)
  case (1 n)
  show ?case
  proof (cases "odd n")
    case True
    then have "ctzll n = 0" by (subst ctzll.simps) simp
    then show ?thesis using True by (cases j) (auto dest: dvd_mult_left)
  next
    case False
    then obtain m where m: "n = 2 * m" by auto
    have c: "ctzll n = Suc (ctzll m)" using False m "1.prems" by (subst ctzll.simps) simp
    show ?thesis
      using "1.IH" [of "j - 1"] False m c "1.prems" by (cases j) auto
  qed
qed

lemma alignment_order_dvd: "k < PAGE_MAX_ORDER \<Longrightarrow> k < alignment_order p \<longleftrightarrow> 2 ^ Suc k dvd p"
  using ctzll_dvd [of p "Suc k"] by (auto simp: alignment_order_def PAGE_MAX_ORDER_def Let_def)

lemma alignment_order_le: "alignment_order p \<le> PAGE_MAX_ORDER"
  by (simp add: alignment_order_def Let_def)

lemma alignment_order_exact:
  assumes "2 ^ k dvd p" and "k < PAGE_MAX_ORDER" and "\<not> k < alignment_order p"
  shows "alignment_order p = k"
  using assms alignment_order_dvd [of "k - 1" p] by (cases k) auto

section \<open>Freeing\<close>

text \<open>Whether the left buddy is free depends on the pages left of \<open>p\<close> only.\<close>

lemma left_buddy_free_cong:
  assumes "p < mem_nr_pages st" and "mem_nr_pages st' = mem_nr_pages st"
    and "\<And>x. x < p \<Longrightarrow> core st' ! x = core st ! x"
  shows "left_buddy_free st' p = left_buddy_free st p"
proof (cases "2 ^ alignment_order p \<le> p")
  case True
  moreover have "0 < (2::nat) ^ alignment_order p" by simp
  ultimately have x: "p - 2 ^ alignment_order p < p" by linarith
  then have "st_of st' (p - 2 ^ alignment_order p) = st_of st (p - 2 ^ alignment_order p)"
    "ord_of st' (p - 2 ^ alignment_order p) = ord_of st (p - 2 ^ alignment_order p)"
    using assms by (simp_all add: st_ord_core)
  then show ?thesis by (simp add: left_buddy_free_def Let_def)
qed (simp add: left_buddy_free_def Let_def)

text \<open>
  One merge with a free right buddy, from the state in which \<open>p\<close> is in flight. The other pages in
  flight are not touched.
\<close>

lemma merge_step_right:
  assumes ok: "blocks_ok st" and fl: "lists_ok F st fl" and p: "p < mem_nr_pages st" and pF: "p \<in> F"
    and ps: "st_of st p = PG_BUDDY" and k: "ord_of st p = k" "k < PAGE_MAX_ORDER" "2 ^ Suc k dvd p"
    and b: "(p + 2 ^ k, k) \<in> free_blocks st" and bF: "p + 2 ^ k \<notin> F"
  shows "\<exists>st' fl'. merge_step st p = Ok (Some (p, st')) \<and> blocks_ok st' \<and> lists_ok F st' fl' \<and>
           (\<forall>x \<in> F - {p}. mem_map st' ! x = mem_map st ! x) \<and>
           core st' = (core st)[p + 2 ^ k := (PG_TAIL, k), p := (PG_BUDDY, Suc k)]"
proof -
  define b where "b = p + 2 ^ k"
  have bf: "b \<in> free_set st k - F" and bn: "b < mem_nr_pages st" and bs: "st_of st b = PG_BUDDY" "ord_of st b = k"
    and pb: "p \<noteq> b"
    using b bF by (auto simp: b_def free_blocks_def free_set_def)
  have kM: "k \<le> PAGE_MAX_ORDER" using k by simp
  obtain st1 where st1: "remove_free st b = Ok st1" "lists_ok (insert b F) st1 (fl(k := remove1 b (fl k)))"
    "\<forall>x \<in> F. mem_map st1 ! x = mem_map st ! x"
    using remove_free_lists [OF fl bf kM] by auto
  have core1: "core st1 = core st" using st1(1) by (rule remove_free_core)
  then have n1: "mem_nr_pages st1 = mem_nr_pages st" by (rule mem_nr_pages_core)
  have S1: "st_of st1 x = st_of st x" "ord_of st1 x = ord_of st x" if "x < mem_nr_pages st" for x
    using that core1 n1 by (simp_all add: st_ord_core)
  define st' where "st' = page_upd p (\<lambda>q. q\<lparr>pg_order := pg_order q + 1\<rparr>)
                            (page_upd b (\<lambda>q. q\<lparr>pg_state := PG_TAIL\<rparr>) st1)"
  have core': "core st' = (core st)[b := (PG_TAIL, k), p := (PG_BUDDY, Suc k)]"
    using core1 bs ps k p bn pb S1 n1
    by (simp add: st'_def core_page_upd nth_page_upd)
  have "merge_step st p = Ok (Some (p, st'))"
    using p k bn bs st1(1) alignment_order_dvd [of k p]
    by (simp add: merge_step_def Let_def b_def st'_def del: power_Suc)
  moreover have "blocks_ok st'"
  proof (rule blocks_ok_merge [OF ok])
    show "is_head st p" "is_head st (p + 2 ^ k)"
      using p ps bn bs by (auto simp: is_head_def b_def)
  qed (use k bs core' ps in \<open>simp_all add: b_def\<close>)
  moreover have "lists_ok F st' (fl(k := remove1 b (fl k)))"
  proof (rule lists_ok_frame [OF st1(2)])
    show "mem_map st' ! x = mem_map st1 ! x"
      if "j \<le> PAGE_MAX_ORDER" "x \<in> set ((fl(k := remove1 b (fl k))) j)" for j x
      using lists_okD(3) [OF st1(2) that(1)] that(2) pF by (auto simp: st'_def nth_page_upd free_set_def)
    show "free_set st' j - F = free_set st1 j - insert b F" for j
      using bn p n1 pF by (auto simp: st'_def free_set_def nth_page_upd split: if_splits)
  qed (simp_all add: st'_def)
  moreover have "\<forall>x \<in> F - {p}. mem_map st' ! x = mem_map st ! x"
    using st1(3) bF by (auto simp: st'_def page_upd_def nth_upd_if b_def)
  ultimately show ?thesis using core' by (auto simp: b_def)
qed

text \<open>The merging loop without a free left buddy: it absorbs right buddies as long as it can.\<close>

lemma free_merge_spec:
  assumes "blocks_ok st" and "lists_ok F st fl" and "p < mem_nr_pages st"
    and "st_of st p = PG_BUDDY" and "ord_of st p = k" and "\<not> left_buddy_free st p" and "p \<in> F"
    and "\<forall>x j. (x, j) \<in> free_blocks st \<longrightarrow> k \<le> j \<longrightarrow> x \<noteq> p \<longrightarrow> x \<notin> F"
  shows "\<exists>st' fl' k'. free_merge st p = Ok (p, st') \<and> blocks_ok st' \<and> lists_ok F st' fl' \<and>
           (\<forall>x \<in> F - {p}. mem_map st' ! x = mem_map st ! x) \<and>
           mem_nr_pages st' = mem_nr_pages st \<and> st_of st' p = PG_BUDDY \<and> ord_of st' p = k' \<and> k \<le> k' \<and>
           (\<forall>j. k \<le> j \<and> j < k' \<longrightarrow> (p + 2 ^ j, j) \<in> free_blocks st) \<and>
           free_blocks st' = free_blocks st - {(p, k)} - {(p + 2 ^ j, j) |j. k \<le> j \<and> j < k'} \<union> {(p, k')} \<and>
           (k' < PAGE_MAX_ORDER \<and> k' < alignment_order p \<longrightarrow> (p + 2 ^ k', k') \<notin> free_blocks st') \<and>
           alloc_blocks st' = alloc_blocks st"
  using assms
proof (induction "PAGE_MAX_ORDER - k" arbitrary: st fl k rule: less_induct)
  case less
  note prems = less.prems
  have hd: "is_head st p" using prems by (simp add: is_head_def)
  note P = blocks_okD [OF prems(1) hd, unfolded prems(5)]
  define right where "right \<longleftrightarrow> k < PAGE_MAX_ORDER \<and> k < alignment_order p \<and> (p + 2 ^ k, k) \<in> free_blocks st"
  show ?case
  proof (cases right)
    case True
    then have k: "k < PAGE_MAX_ORDER" "k < alignment_order p" and bf: "(p + 2 ^ k, k) \<in> free_blocks st"
      by (auto simp: right_def)
    define b where "b = p + 2 ^ k"
    have pb: "p \<noteq> b" and bn: "b < mem_nr_pages st" and bs: "core st ! b = (PG_BUDDY, k)"
      using bf by (auto simp: b_def free_blocks_core)
    have bF: "p + 2 ^ k \<notin> F" using prems(8) bf by simp
    obtain st1 fl1 where st1: "merge_step st p = Ok (Some (p, st1))" "blocks_ok st1" "lists_ok F st1 fl1"
      "core st1 = (core st)[b := (PG_TAIL, k), p := (PG_BUDDY, Suc k)]"
      "\<forall>x \<in> F - {p}. mem_map st1 ! x = mem_map st ! x"
      using merge_step_right [OF prems(1-3,7,4,5) k(1) _ bf bF] k alignment_order_dvd [OF k(1)]
      by (auto simp: b_def)
    have n1: "mem_nr_pages st1 = mem_nr_pages st" using core_nr(2) [OF st1(4)] .
    have p1: "st_of st1 p = PG_BUDDY" "ord_of st1 p = Suc k"
      using st1(4) n1 prems(3) by (simp_all add: st_ord_core nth_upd_if)
    have left1: "\<not> left_buddy_free st1 p"
      using left_buddy_free_cong [OF prems(3) n1] prems(6) st1(4) by (simp add: b_def)
    have fb: "free_blocks st1 = free_blocks st - {(p, k)} - {(b, k)} \<union> {(p, Suc k)}"
      using prems(3,4,5) bn bs pb st1(4)
      by (auto simp: free_blocks_core nth_upd_if core_nth split: if_splits)
    have ab: "alloc_blocks st1 = alloc_blocks st"
      using prems(3,4) bn bs st1(4)
      by (auto simp: alloc_blocks_core nth_upd_if core_nth split: if_splits)
    have F1: "\<forall>x j. (x, j) \<in> free_blocks st1 \<longrightarrow> Suc k \<le> j \<longrightarrow> x \<noteq> p \<longrightarrow> x \<notin> F"
      using fb prems(8) by auto
    have lt: "PAGE_MAX_ORDER - Suc k < PAGE_MAX_ORDER - k" using k by simp
    obtain st' fl' k' where st': "free_merge st1 p = Ok (p, st')" "blocks_ok st'" "lists_ok F st' fl'"
      "mem_nr_pages st' = mem_nr_pages st1" "st_of st' p = PG_BUDDY" "ord_of st' p = k'" "Suc k \<le> k'"
      "\<forall>j. Suc k \<le> j \<and> j < k' \<longrightarrow> (p + 2 ^ j, j) \<in> free_blocks st1"
      "free_blocks st' = free_blocks st1 - {(p, Suc k)} - {(p + 2 ^ j, j) |j. Suc k \<le> j \<and> j < k'} \<union> {(p, k')}"
      "k' < PAGE_MAX_ORDER \<and> k' < alignment_order p \<longrightarrow> (p + 2 ^ k', k') \<notin> free_blocks st'"
      "alloc_blocks st' = alloc_blocks st1" "\<forall>x \<in> F - {p}. mem_map st' ! x = mem_map st1 ! x"
      using less.hyps [OF lt st1(2,3) _ p1 left1 prems(7) F1] prems(3) n1 by auto
    have merge: "free_merge st p = Ok (p, st')"
      using st1(1) st'(1) by (subst free_merge.simps) simp
    have range: "k \<le> j \<and> j < k' \<longleftrightarrow> j = k \<or> Suc k \<le> j \<and> j < k'" for j using st'(7) by auto
    have "(p, Suc k) \<notin> free_blocks st" using prems(5) by (auto simp: free_blocks_def free_set_def)
    then have "free_blocks st' = free_blocks st - {(p, k)} - {(p + 2 ^ j, j) |j. k \<le> j \<and> j < k'} \<union> {(p, k')}"
      using st'(9) fb range by (auto simp: b_def)
    moreover have "\<forall>j. k \<le> j \<and> j < k' \<longrightarrow> (p + 2 ^ j, j) \<in> free_blocks st"
      using st'(8) fb bf range by auto
    ultimately show ?thesis
      using merge st' n1 ab st1(5) by (intro exI [of _ st'] exI [of _ fl'] exI [of _ k']) simp
  next
    case False
    have "merge_step st p = Ok None"
    proof (cases "k < PAGE_MAX_ORDER \<and> \<not> k < alignment_order p")
      case True
      then have "alignment_order p = k" using alignment_order_exact P(2) by simp
      then show ?thesis
        using True prems(3,5,6) by (auto simp: merge_step_def Let_def left_buddy_free_def not_less)
    next
      case F2: False
      then show ?thesis
        using False prems(3,5) by (auto simp: merge_step_def Let_def right_def free_blocks_def free_set_def)
    qed
    then have "free_merge st p = Ok (p, st)" by (subst free_merge.simps) simp
    moreover have "(p, k) \<in> free_blocks st" using prems by (simp add: free_blocks_def free_set_def)
    ultimately show ?thesis
      using prems False by (intro exI [of _ st] exI [of _ fl] exI [of _ k]) (auto simp: right_def)
  qed
qed

text \<open>A block that is about to be freed: it is free, but in no list yet.\<close>

lemma free_start:
  fixes st p
  defines "st1 \<equiv> page_upd p (\<lambda>q. q\<lparr>pg_state := PG_BUDDY, pg_prev := None, pg_next := None\<rparr>) st"
  assumes ok: "blocks_ok st" and fl: "lists_ok {} st fl"
    and p0: "p < mem_nr_pages st" "st_of st p = PG_ALLOCATED" "ord_of st p = k"
  shows "blocks_ok st1" and "lists_ok {p} st1 fl" and "core st1 = (core st)[p := (PG_BUDDY, k)]"
proof -
  show core1: "core st1 = (core st)[p := (PG_BUDDY, k)]" using p0 by (simp add: st1_def core_page_upd)
  show "blocks_ok st1"
    using blocks_ok_restate [OF ok, of p PG_BUDDY st1] core1 p0 by (simp add: is_head_def)
  show "lists_ok {p} st1 fl"
  proof (rule lists_ok_frame [OF fl])
    show "mem_map st1 ! x = mem_map st ! x" if "j \<le> PAGE_MAX_ORDER" "x \<in> set (fl j)" for j x
    proof -
      have "x \<noteq> p" using lists_ok_member(2) [OF fl that] p0 by auto
      then show ?thesis using lists_ok_member(1) [OF fl that] by (simp add: st1_def nth_page_upd)
    qed
  qed (use p0 in \<open>auto simp: st1_def free_set_def nth_page_upd\<close>)
qed

theorem free_pages_spec:
  assumes inv: "buddy_inv st" and p: "(p, k) \<in> alloc_blocks st" and left: "\<not> left_buddy_free st p"
  shows "\<exists>st' k'. free_pages st p = Ok st' \<and> buddy_inv st' \<and>
           alloc_blocks st' = alloc_blocks st - {(p, k)} \<and> k \<le> k' \<and>
           (\<forall>j. k \<le> j \<and> j < k' \<longrightarrow> (p + 2 ^ j, j) \<in> free_blocks st) \<and>
           free_blocks st' = free_blocks st - {(p + 2 ^ j, j) |j. k \<le> j \<and> j < k'} \<union> {(p, k')} \<and>
           (k' < PAGE_MAX_ORDER \<and> k' < alignment_order p \<longrightarrow> (p + 2 ^ k', k') \<notin> free_blocks st')"
proof -
  obtain fl where ok: "blocks_ok st" and fl: "lists_ok {} st fl"
    using inv by (auto simp: buddy_inv_def inv_except_def)
  have p0: "p < mem_nr_pages st" "st_of st p = PG_ALLOCATED" "ord_of st p = k"
    using p by (auto simp: alloc_blocks_def)
  define st1 where "st1 = page_upd p (\<lambda>q. q\<lparr>pg_state := PG_BUDDY, pg_prev := None, pg_next := None\<rparr>) st"
  note ok1 = free_start(1) [OF ok fl p0, folded st1_def] and fl1 = free_start(2) [OF ok fl p0, folded st1_def]
    and core1 = free_start(3) [OF ok fl p0, folded st1_def]
  have n1: "mem_nr_pages st1 = mem_nr_pages st" by (simp add: st1_def)
  have p1: "st_of st1 p = PG_BUDDY" "ord_of st1 p = k" using p0 by (simp_all add: st1_def nth_page_upd)
  have left1: "\<not> left_buddy_free st1 p"
    using left_buddy_free_cong [OF p0(1) n1] left core1 by simp
  obtain st2 fl2 k' where st2: "free_merge st1 p = Ok (p, st2)" "blocks_ok st2" "lists_ok {p} st2 fl2"
    "mem_nr_pages st2 = mem_nr_pages st1" "st_of st2 p = PG_BUDDY" "ord_of st2 p = k'" "k \<le> k'"
    "\<forall>j. k \<le> j \<and> j < k' \<longrightarrow> (p + 2 ^ j, j) \<in> free_blocks st1"
    "free_blocks st2 = free_blocks st1 - {(p, k)} - {(p + 2 ^ j, j) |j. k \<le> j \<and> j < k'} \<union> {(p, k')}"
    "k' < PAGE_MAX_ORDER \<and> k' < alignment_order p \<longrightarrow> (p + 2 ^ k', k') \<notin> free_blocks st2"
    "alloc_blocks st2 = alloc_blocks st1"
    using free_merge_spec [OF ok1 fl1 _ p1 left1] p0 n1 by auto
  have p2: "p < mem_nr_pages st2" using p0 n1 st2(4) by simp
  have k'M: "ord_of st2 p \<le> PAGE_MAX_ORDER"
    using blocks_okD(1) [OF st2(2), of p] p2 st2(5) by (simp add: is_head_def)
  obtain st' where st': "insert_free st2 p = Ok st'" "lists_ok {} st' (fl2(ord_of st2 p := p # fl2 (ord_of st2 p)))"
    using insert_free_lists [OF st2(3) p2 k'M] by auto
  have core': "core st' = core st2"
    using insert_free_core [OF st'(1)] p2 st2(5)
    by (auto intro!: nth_equalityI simp: nth_upd_if core_nth)
  have "free_pages st p = Ok st'"
    using p0 st2(1) st'(1) by (simp add: free_pages_def st1_def)
  moreover have "buddy_inv st'"
    using blocks_ok_cong [OF core' st2(2)] st'(2) by (auto simp: buddy_inv_def inv_except_def)
  moreover have "free_blocks st1 = insert (p, k) (free_blocks st)" "alloc_blocks st1 = alloc_blocks st - {(p, k)}"
    using core1 p0 by (auto simp: free_blocks_core alloc_blocks_core nth_upd_if core_nth split: if_splits)
  moreover have "(p, j) \<notin> free_blocks st" for j
    using p0 by (simp add: free_blocks_def free_set_def)
  moreover have "free_blocks st' = free_blocks st2" "alloc_blocks st' = alloc_blocks st2"
    by (simp_all add: free_blocks_core alloc_blocks_core core')
  ultimately show ?thesis
    using st2(7-11) by (intro exI [of _ st'] exI [of _ k']) auto
qed

text \<open>A pointer that is not the head of an allocation is ignored, so a double free has no effect.\<close>

lemma free_pages_ignored:
  "p < mem_nr_pages st \<Longrightarrow> st_of st p \<noteq> PG_ALLOCATED \<Longrightarrow> free_pages st p = Ok st"
  by (simp add: free_pages_def)

section \<open>The buddy allocator as a block source\<close>

definition buddy_give :: "nat \<Rightarrow> buddy \<Rightarrow> (nat \<times> buddy) option" where
  "buddy_give ord st =
     (case alloc_pages st ord of Ok (Some p, st') \<Rightarrow> Some (p, st') | Ok (None, st') \<Rightarrow> None | Err e \<Rightarrow> None)"

lemma alloc_pages_order: "\<not> ord \<le> PAGE_MAX_ORDER \<Longrightarrow> alloc_pages st ord = Err (Panic ''Order is more than maximum'')"
  by (simp add: alloc_pages_def)

lemma buddy_give_Some:
  assumes "buddy_inv st" and "buddy_give ord st = Some (p, st')"
  obtains k where "alloc_pages st ord = Ok (Some p, st')" and "buddy_inv st'" and "ord \<le> k"
    and "(p, k) \<in> free_blocks st" and "alloc_blocks st' = insert (p, ord) (alloc_blocks st)"
proof (cases "ord \<le> PAGE_MAX_ORDER")
  case True
  then show ?thesis
    using alloc_pages_spec [OF assms(1) True] assms(2) that by (auto simp: buddy_give_def)
next
  case False
  then show ?thesis using assms(2) alloc_pages_order [OF False] by (simp add: buddy_give_def)
qed

lemma free_block_disjoint:
  assumes "buddy_inv st" and "(p, k) \<in> free_blocks st"
  shows "block p k \<inter> allocated_frames st = {}"
proof (rule ccontr)
  assume "block p k \<inter> allocated_frames st \<noteq> {}"
  then obtain y x j where y: "p \<le> y" "y < p + 2 ^ k" and x: "(x, j) \<in> alloc_blocks st" "x \<le> y" "y < x + 2 ^ j"
    by (auto simp: allocated_frames_def)
  have "blocks_ok st" using assms(1) by (simp add: buddy_inv_def inv_except_def)
  then have "p = x"
    by (rule block_unique [where y = y])
      (use assms(2) y x in \<open>auto simp: free_blocks_def free_set_def alloc_blocks_def is_head_def\<close>)
  then show False using assms(2) x by (auto simp: free_blocks_def free_set_def alloc_blocks_def)
qed

interpretation buddy_src: block_source buddy_inv allocated_frames buddy_give
proof unfold_locales
  fix st ord p st' assume a: "buddy_inv st" "buddy_give ord st = Some (p, st')"
  from a obtain k where k: "buddy_inv st'" "ord \<le> k" "(p, k) \<in> free_blocks st"
    "alloc_blocks st' = insert (p, ord) (alloc_blocks st)" by (rule buddy_give_Some)
  show "buddy_inv st'" by (rule k(1))
  have "block p ord \<subseteq> block p k" using k(2) by (auto simp: subset_iff intro: less_le_trans)
  then show "block p ord \<inter> allocated_frames st = {}"
    using free_block_disjoint [OF a(1) k(3)] by blast
  show "allocated_frames st' = allocated_frames st \<union> block p ord"
    using k(4) by (auto simp: allocated_frames_def)
qed

section \<open>Merging with a free left buddy\<close>

text \<open>The pages that a walk along the \<^verbatim>\<open>next\<close> links of a free list visits.\<close>

primrec walk :: "page list \<Rightarrow> nat \<Rightarrow> nat option \<Rightarrow> nat option" where
  "walk mm 0 h = h"
| "walk mm (Suc n) h = (case h of None \<Rightarrow> None | Some x \<Rightarrow> walk mm n (pg_next (mm ! x)))"

definition on_list :: "buddy \<Rightarrow> nat \<Rightarrow> nat \<Rightarrow> bool" where
  "on_list st k x \<longleftrightarrow> (\<exists>n. walk (mem_map st) n (free_matrix st ! k) = Some x)"

lemma walk_dll: "dll mm pr h xs \<Longrightarrow> walk mm n h = Some x \<Longrightarrow> x \<in> set xs"
proof (induction xs arbitrary: pr h n)
  case Nil
  then show ?case by (cases n) auto
next
  case (Cons y ys)
  then show ?case by (cases n) auto
qed

lemma dll_walk:
  "dll mm pr h (us @ x # vs) \<Longrightarrow> \<forall>u \<in> set us. mm' ! u = mm ! u \<Longrightarrow> walk mm' (length us) h = Some x"
  by (induction us arbitrary: pr h) auto

lemma on_list_inv:
  assumes "buddy_inv st" and "on_list st k x" and "k \<le> PAGE_MAX_ORDER"
  shows "ord_of st x = k"
proof -
  obtain fl where fl: "lists_ok {} st fl" using assms(1) by (auto simp: buddy_inv_def inv_except_def)
  have "x \<in> set (fl k)" using assms(2) walk_dll [OF lists_okD(1) [OF fl assms(3)]] by (auto simp: on_list_def)
  then show ?thesis using lists_ok_member(3) [OF fl assms(3)] by simp
qed

text \<open>The operations on blocks of another order do not depend on list \<open>k\<close>.\<close>

lemma matrix_set_swap:
  "j \<noteq> k \<Longrightarrow> matrix_set j w (matrix_set k v st) = matrix_set k v (matrix_set j w st)"
  by (simp add: matrix_set_def list_update_swap)

lemma matrix_set_page_upd: "page_upd p f (matrix_set k v st) = matrix_set k v (page_upd p f st)"
  by (simp add: matrix_set_def page_upd_def)

lemma page_write_matrix_set:
  "page_write p f (matrix_set k v st) = rbind (page_write p f st) (\<lambda>s. Ok (matrix_set k v s))"
  by (simp add: page_write_def deref_def matrix_set_page_upd)

lemma free_matrix_set_other: "j \<noteq> k \<Longrightarrow> free_matrix (matrix_set k v st) ! j = free_matrix st ! j"
  by simp

lemmas matrix_commute = rbind_assoc matrix_set_swap matrix_set_page_upd page_write_matrix_set free_matrix_set_other

lemma insert_free_matrix_set:
  assumes "ord_of st p \<noteq> k"
  shows "insert_free (matrix_set k v st) p = rbind (insert_free st p) (\<lambda>s. Ok (matrix_set k v s))"
  using assms by (simp add: insert_free_def deref_def Let_def matrix_commute split: option.splits)

lemma remove_free_matrix_set:
  assumes "ord_of st p \<noteq> k"
  shows "remove_free (matrix_set k v st) p = rbind (remove_free st p) (\<lambda>s. Ok (matrix_set k v s))"
  using assms by (simp add: remove_free_def deref_def Let_def matrix_commute split: option.splits)

lemma merge_step_matrix_set:
  assumes "ord_of st p \<noteq> k"
  shows "merge_step (matrix_set k v st) p =
         rbind (merge_step st p) (\<lambda>r. Ok (map_option (\<lambda>(q, s). (q, matrix_set k v s)) r))"
  using assms
  by (simp add: merge_step_def deref_def Let_def remove_free_matrix_set matrix_commute)


lemma free_merge_matrix_set:
  assumes "k < ord_of st p" and "free_merge (matrix_set k v st) p = Ok (q, s)"
  shows "\<exists>st'. free_merge st p = Ok (q, st') \<and> s = matrix_set k v st' \<and>
           free_matrix st' ! k = free_matrix st ! k"
  using assms
proof (induction st p arbitrary: q s rule: free_merge.induct)
  case (1 st p)
  note M = merge_step_matrix_set [of st p k v]
  note E = free_merge.simps [of "matrix_set k v st" p] free_merge.simps [of st p]
  have fm: "free_matrix st1 ! k = free_matrix st ! k" if "merge_step st p = Ok (Some (r, st1))" for r st1
    using that 1(2)
    by (auto simp: merge_step_def remove_free_def Let_def page_write_def deref_def split: if_splits option.splits)
  show ?case
  proof (cases "merge_step st p")
    case (Err e)
    then show ?thesis using 1(2,3) M E by simp
  next
    case (Ok r)
    show ?thesis
    proof (cases r)
      case None
      then show ?thesis
        using Ok 1(2,3) M E by simp
    next
      case (Some a)
      obtain x st1 where a: "a = (x, st1)" by fastforce
      have ms: "merge_step st p = Ok (Some (x, st1))" using Ok Some a by simp
      have o1: "k < ord_of st1 x"
      proof -
        have "x < mem_nr_pages st1" "p < mem_nr_pages st"
          using ms by (auto simp: merge_step_def Let_def dest!: remove_free_core mem_nr_pages_core split: if_splits)
        then show ?thesis using merge_step_order(1) [OF ms] 1(2) by (simp add: orders_nth)
      qed
      have "free_merge (matrix_set k v st1) x = Ok (q, s)"
        using Ok Some a 1(2,3) M E by simp
      from 1(1) [OF Ok Some a [symmetric] o1 this] fm [of x st1] show ?thesis
        using Ok Some a E by simp
    qed
  qed
qed

text \<open>Splitting is safe as soon as the heads of the free lists are pages of the array.\<close>

definition heads_in :: "buddy \<Rightarrow> bool" where
  "heads_in st \<longleftrightarrow> length (free_matrix st) = Suc PAGE_MAX_ORDER \<and>
     (\<forall>j n. j \<le> PAGE_MAX_ORDER \<longrightarrow> free_matrix st ! j = Some n \<longrightarrow> n < mem_nr_pages st)"

lemma insert_free_heads:
  assumes "heads_in st" and "p < mem_nr_pages st" and "ord_of st p \<le> PAGE_MAX_ORDER"
  shows "\<exists>st'. insert_free st p = Ok st' \<and> heads_in st' \<and>
           free_matrix st' = (free_matrix st)[ord_of st p := Some p] \<and> mem_nr_pages st' = mem_nr_pages st \<and>
           (\<forall>x. x \<noteq> p \<longrightarrow> pg_next (mem_map st' ! x) = pg_next (mem_map st ! x))"
  using assms
  by (cases "free_matrix st ! ord_of st p")
    (auto simp: insert_free_def Let_def heads_in_def nth_list_update page_write_def deref_def
      page_upd_def matrix_set_def nth_upd_if)

lemma alloc_split_heads:
  assumes "heads_in st" and "b < mem_nr_pages st" and "ord_of st b \<le> PAGE_MAX_ORDER" and "k \<le> ord_of st b"
    and "\<forall>y. b < y \<and> y < b + 2 ^ ord_of st b \<longrightarrow> y < mem_nr_pages st \<and> st_of st y = PG_TAIL"
  shows "\<exists>st'. alloc_split st b k = Ok st' \<and> heads_in st' \<and> mem_nr_pages st' = mem_nr_pages st \<and>
           ord_of st' b = k \<and> pg_next (mem_map st' ! b) = pg_next (mem_map st ! b) \<and>
           (\<forall>j. ord_of st b \<le> j \<longrightarrow> free_matrix st' ! j = free_matrix st ! j)"
  using assms
proof (induction "ord_of st b" arbitrary: st)
  case 0
  then show ?case by (subst alloc_split.simps) simp
next
  case (Suc m)
  show ?case
  proof (cases "k = Suc m")
    case True
    then show ?thesis using Suc.prems Suc.hyps(2) by (subst alloc_split.simps) simp
  next
    case False
    define c where "c = b + 2 ^ m"
    define st1 where "st1 = page_upd b (\<lambda>q. q\<lparr>pg_order := m\<rparr>) st"
    define st2 where "st2 = page_upd c (\<lambda>q. q\<lparr>pg_order := m\<rparr>) st1"
    have c: "c < mem_nr_pages st" "st_of st c = PG_TAIL" "c \<noteq> b"
      using Suc.prems(5) Suc.hyps(2) [symmetric] by (auto simp: c_def)
    have h2: "heads_in st2" and n2: "mem_nr_pages st2 = mem_nr_pages st" and f2: "free_matrix st2 = free_matrix st"
      using Suc.prems(1) by (simp_all add: heads_in_def st2_def st1_def)
    have o2: "ord_of st2 c = m" "ord_of st2 b = m"
      using c Suc.prems(2) by (simp_all add: st2_def st1_def nth_page_upd)
    obtain st3 where st3: "insert_free st2 c = Ok st3" "heads_in st3"
      "free_matrix st3 = (free_matrix st)[m := Some c]" "mem_nr_pages st3 = mem_nr_pages st"
      "pg_next (mem_map st3 ! b) = pg_next (mem_map st2 ! b)"
      using insert_free_heads [OF h2, of c] c n2 f2 o2 Suc.prems(3) Suc.hyps(2) by auto
    have core3: "core st3 = (core st2)[c := (PG_BUDDY, m)]" using insert_free_core [OF st3(1)] o2 by simp
    have S3: "ord_of st3 y = ord_of st2 y" "y \<noteq> c \<Longrightarrow> st_of st3 y = st_of st2 y" if "y < mem_nr_pages st" for y
      using that core3 n2 st3(4) o2 by (auto simp: st_ord_core nth_upd_if)
    have o3: "ord_of st3 b = m" using S3 Suc.prems(2) o2 by simp
    have tails: "\<forall>y. b < y \<and> y < b + 2 ^ m \<longrightarrow> y < mem_nr_pages st3 \<and> st_of st3 y = PG_TAIL"
    proof (intro allI impI)
      fix y assume y: "b < y \<and> y < b + 2 ^ m"
      then have t: "y < mem_nr_pages st" "st_of st y = PG_TAIL" "y \<noteq> c"
        using Suc.prems(5) Suc.hyps(2) [symmetric] by (auto simp: c_def)
      then show "y < mem_nr_pages st3 \<and> st_of st3 y = PG_TAIL"
        using S3 [of y] y st3(4) by (simp add: st2_def st1_def nth_page_upd)
    qed
    have km: "k \<le> m" using False Suc.prems(4) Suc.hyps(2) by simp
    obtain st' where st': "alloc_split st3 b k = Ok st'" "heads_in st'" "mem_nr_pages st' = mem_nr_pages st3"
      "ord_of st' b = k" "\<forall>j. m \<le> j \<longrightarrow> free_matrix st' ! j = free_matrix st3 ! j"
      "pg_next (mem_map st' ! b) = pg_next (mem_map st3 ! b)"
      using Suc.hyps(1) [of st3] o3 st3 Suc.prems(2,3) Suc.hyps(2) km tails by (metis Suc_leD)
    have "alloc_split st b k = alloc_split st3 b k"
      using Suc.prems(2) Suc.hyps(2) [symmetric] km c st3(1)
      by (subst alloc_split.simps) (simp add: Let_def c_def st1_def st2_def nth_page_upd)
    moreover have "pg_next (mem_map st2 ! b) = pg_next (mem_map st ! b)"
      using c Suc.prems(2) by (simp add: st2_def st1_def nth_page_upd)
    ultimately show ?thesis
      using st' st3 Suc.hyps(2) by (intro exI [of _ st']) auto
  qed
qed


text \<open>
  The merge with a free left buddy \<open>b\<close>: the pages of order \<open>k\<close>, among them \<open>b\<close>, keep their links, and
  apart from list \<open>k\<close> the free lists are those of a state with \<open>b\<close> in flight.
\<close>

lemma merge_step_left:
  assumes ok: "blocks_ok st" and fl: "lists_ok {p} st fl" and p: "p < mem_nr_pages st"
    and ps: "st_of st p = PG_BUDDY" "pg_prev (mem_map st ! p) = None" "pg_next (mem_map st ! p) = None"
    and k: "ord_of st p = k" "k < PAGE_MAX_ORDER" "\<not> 2 ^ Suc k dvd p"
    and b: "(b, k) \<in> free_blocks st" "p = b + 2 ^ k"
  shows "\<exists>st'. merge_step st p = Ok (Some (b, st')) \<and> blocks_ok st' \<and>
           core st' = (core st)[p := (PG_TAIL, k), b := (PG_BUDDY, Suc k)] \<and>
           lists_ok (insert b (free_set st' k)) (matrix_set k None st') (fl(k := [])) \<and>
           free_matrix st' = free_matrix st \<and> (\<forall>x. x \<noteq> p \<longrightarrow> x \<noteq> b \<longrightarrow> mem_map st' ! x = mem_map st ! x)"
proof -
  define st' where "st' = page_upd b (\<lambda>q. q\<lparr>pg_order := pg_order q + 1\<rparr>)
                            (page_upd p (\<lambda>q. q\<lparr>pg_state := PG_TAIL\<rparr>) st)"
  have kM: "k \<le> PAGE_MAX_ORDER" using k by simp
  have bn: "b < mem_nr_pages st" and bs: "st_of st b = PG_BUDDY" "ord_of st b = k" and pb: "p \<noteq> b"
    using b by (auto simp: free_blocks_def free_set_def)
  have "p \<notin> set (fl k)" using lists_okD(3) [OF fl kM] by auto
  then have nh: "free_matrix st ! k \<noteq> Some p"
    using lists_okD(1) [OF fl kM] by (cases "fl k") auto
  have al: "\<not> k < alignment_order p" using k alignment_order_dvd by blast
  have "p - 2 ^ k = b" "\<not> p < 2 ^ k" using b(2) by auto
  then have "merge_step st p = Ok (Some (b, st'))"
    using p ps k(1,2) al bs nh kM by (simp add: merge_step_def Let_def remove_free_def st'_def not_less)
  moreover have core': "core st' = (core st)[p := (PG_TAIL, k), b := (PG_BUDDY, Suc k)]"
    using p pb bn bs k by (simp add: st'_def core_page_upd nth_page_upd)
  moreover have "blocks_ok st'"
  proof (rule blocks_ok_merge [OF ok])
    show "is_head st b" "is_head st (b + 2 ^ k)" using p ps bn bs b(2) by (auto simp: is_head_def)
    have "is_head st p" using p ps by (simp add: is_head_def)
    then obtain m where m: "p = 2 ^ k * m" using blocks_okD(2) [OF ok] k by (auto simp: dvd_def)
    have "odd m"
    proof
      assume "even m"
      then have "2 ^ Suc k dvd p" unfolding m power_Suc2 by (intro mult_dvd_mono) simp_all
      with k(3) show False ..
    qed
    then obtain m' where "m = Suc (2 * m')" by (auto elim!: oddE)
    then have "b = 2 ^ Suc k * m'" using m b(2) by simp
    then show "2 ^ Suc k dvd b" by simp
  qed (use k bs b(2) core' in simp_all)
  moreover have "lists_ok (insert b (free_set st' k)) (matrix_set k None st') (fl(k := []))"
    unfolding lists_ok_def
  proof (intro conjI allI impI)
    show "length (free_matrix (matrix_set k None st')) = Suc PAGE_MAX_ORDER"
      using lists_okD(4) [OF fl kM] by (simp add: st'_def)
  next
    fix j assume j: "j \<le> PAGE_MAX_ORDER"
    note D = lists_okD [OF fl j]
    show "distinct ((fl(k := [])) j)" using D(2) by simp
    show "dll (mem_map (matrix_set k None st')) None (free_matrix (matrix_set k None st') ! j) ((fl(k := [])) j)"
    proof (cases "j = k")
      case True
      then show ?thesis using lists_okD(4) [OF fl kM] kM by (simp add: st'_def)
    next
      case False
      then have "b \<notin> set (fl j)" "p \<notin> set (fl j)" using D(3) bs by (auto simp: free_set_def)
      then have "dll (mem_map st') None (free_matrix st ! j) (fl j)"
        using D(1) by (simp add: st'_def page_upd_def)
      then show ?thesis using False by (simp add: st'_def)
    qed
    show "set ((fl(k := [])) j) = free_set (matrix_set k None st') j - insert b (free_set st' k)"
    proof (cases "j = k")
      case True
      then show ?thesis by (auto simp: free_set_def)
    next
      case False
      have "x \<in> free_set st' j \<and> x \<noteq> b \<longleftrightarrow> x \<in> free_set st j \<and> x \<noteq> p" for x
        using False bs(2) by (auto simp: st'_def free_set_def nth_page_upd split: if_splits)
      moreover have "free_set st' j \<inter> free_set st' k = {}" using False by (auto simp: free_set_def)
      moreover have "free_set (matrix_set k None st') j = free_set st' j" by (simp add: free_set_def)
      ultimately show ?thesis using D(3) False by auto
    qed
  qed
  moreover have "\<forall>x. x \<noteq> p \<longrightarrow> x \<noteq> b \<longrightarrow> mem_map st' ! x = mem_map st ! x"
    by (simp add: st'_def page_upd_def)
  ultimately show ?thesis by (intro exI [of _ st']) (simp add: st'_def)
qed


lemma pop_free_head:
  assumes "free_matrix st ! k = Some b" and "b < mem_nr_pages st" and "k \<le> PAGE_MAX_ORDER"
    and "\<And>n. pg_next (mem_map st ! b) = Some n \<Longrightarrow> n < mem_nr_pages st"
  shows "\<exists>st'. pop_free st k = Ok (Some b, st') \<and> pg_next (mem_map st' ! b) = None \<and>
           free_matrix st' = (free_matrix st)[k := pg_next (mem_map st ! b)]"
  using assms
  by (cases "pg_next (mem_map st ! b)") (auto simp: pop_free_def Let_def page_write_def deref_def nth_page_upd)

text \<open>Two allocations from a state in which block \<open>b\<close> heads the lists of two orders.\<close>

lemma alloc_twice:
  assumes ok: "blocks_ok st" and h: "heads_in st" and b: "(b, k') \<in> free_blocks st" and k: "k < k'"
    and m: "free_matrix st ! k = Some b" "free_matrix st ! k' = Some b"
    and nx: "\<And>n. pg_next (mem_map st ! b) = Some n \<Longrightarrow> n < mem_nr_pages st"
  shows "\<exists>st2 st3. alloc_pages st k = Ok (Some b, st2) \<and> (b, k) \<in> alloc_blocks st2 \<and>
           alloc_pages st2 k' = Ok (Some b, st3)"
proof -
  have b0: "b < mem_nr_pages st" "st_of st b = PG_BUDDY" "ord_of st b = k'"
    using b by (auto simp: free_blocks_def free_set_def)
  note B = blocks_okD [OF ok, of b, unfolded is_head_def b0]
  have kM: "k' \<le> PAGE_MAX_ORDER" "k \<le> PAGE_MAX_ORDER" using B(1) b0 k by auto
  obtain st1 where st1: "pop_free st k = Ok (Some b, st1)"
    and fm1: "free_matrix st1 = (free_matrix st)[k := pg_next (mem_map st ! b)]"
    and nx1: "pg_next (mem_map st1 ! b) = None"
    using pop_free_head [OF m(1) b0(1) kM(2) nx] by blast
  have core1: "core st1 = core st" using st1 by (rule pop_free_core)
  then have n1: "mem_nr_pages st1 = mem_nr_pages st" by (rule mem_nr_pages_core)
  have S1: "st_of st1 x = st_of st x" "ord_of st1 x = ord_of st x" if "x < mem_nr_pages st" for x
    using that core1 n1 by (simp_all add: st_ord_core)
  have h1: "heads_in st1" using h nx fm1 n1 by (auto simp: heads_in_def nth_upd_if split: if_splits)
  have tails: "\<forall>y. b < y \<and> y < b + 2 ^ ord_of st1 b \<longrightarrow> y < mem_nr_pages st1 \<and> st_of st1 y = PG_TAIL"
    using B(3,4) S1 b0 n1 by auto
  obtain st2 where st2: "alloc_split st1 b k = Ok st2" "heads_in st2" "mem_nr_pages st2 = mem_nr_pages st1"
    "ord_of st2 b = k" "\<forall>j. ord_of st1 b \<le> j \<longrightarrow> free_matrix st2 ! j = free_matrix st1 ! j"
    "pg_next (mem_map st2 ! b) = None"
    using nx1 alloc_split_heads [OF h1, of b k] b0 n1 S1 kM k tails by auto
  define st2' where "st2' = page_upd b (\<lambda>q. q\<lparr>pg_state := PG_ALLOCATED\<rparr>) st2"
  have a1: "alloc_pages st k = Ok (Some b, st2')"
    using kM st1 st2(1) by (simp add: alloc_pages_def alloc_find.simps [of st k] st2'_def)
  have b2: "b < mem_nr_pages st2'" using b0 n1 st2(3) by (simp add: st2'_def)
  then have o2: "ord_of st2' b = k" and s2: "st_of st2' b = PG_ALLOCATED"
    using st2(4) by (simp_all add: st2'_def nth_page_upd)
  have fm2: "free_matrix st2' ! k' = Some b"
    using st2(5) fm1 m(2) k b0 S1 by (simp add: st2'_def)
  have nx2: "pg_next (mem_map st2' ! b) = None" using st2(6) b2 by (simp add: st2'_def nth_page_upd)
  obtain st3 where st3: "pop_free st2' k' = Ok (Some b, st3)"
    using pop_free_head [OF fm2 b2 kM(1)] nx2 by auto
  have core3: "core st3 = core st2'" using st3 by (rule pop_free_core)
  then have n3: "mem_nr_pages st3 = mem_nr_pages st2'" by (rule mem_nr_pages_core)
  then have o3: "ord_of st3 b = k" using core3 o2 b2 by (simp add: st_ord_core)
  have "alloc_split st3 b k' = Ok st3"
    using b2 n3 o3 k by (subst alloc_split.simps) simp
  then have "\<exists>st3'. alloc_pages st2' k' = Ok (Some b, st3')"
    using kM st3 by (simp add: alloc_pages_def alloc_find.simps [of st2' k'])
  moreover have "(b, k) \<in> alloc_blocks st2'" using b2 o2 s2 by (simp add: alloc_blocks_def)
  ultimately show ?thesis using a1 by blast
qed


lemma lists_ok_heads: "lists_ok F st fl \<Longrightarrow> heads_in st"
  using lists_okD(1) dll_bound unfolding heads_in_def lists_ok_def
  by (metis dll_head list.set_intros(1))

lemma left_merge_spec:
  assumes inv: "buddy_inv st" and p: "(p, k) \<in> alloc_blocks st" and k: "k < PAGE_MAX_ORDER"
    and al: "\<not> 2 ^ Suc k dvd p" and b: "(p - 2 ^ k, k) \<in> free_blocks st"
    and left: "\<not> left_buddy_free st (p - 2 ^ k)"
  shows "\<exists>st1 k'. free_pages st p = Ok st1 \<and> k < k' \<and> k' \<le> PAGE_MAX_ORDER \<and>
           (p - 2 ^ k, k') \<in> free_blocks st1 \<and> free_matrix st1 ! k' = Some (p - 2 ^ k) \<and>
           on_list st1 k (p - 2 ^ k) \<and> \<not> buddy_inv st1 \<and>
           (free_matrix st ! k = Some (p - 2 ^ k) \<longrightarrow>
             (\<exists>st2 st3. alloc_pages st1 k = Ok (Some (p - 2 ^ k), st2) \<and>
                (p - 2 ^ k, k) \<in> alloc_blocks st2 \<and> alloc_pages st2 k' = Ok (Some (p - 2 ^ k), st3)))"
proof -
  define b where "b = p - 2 ^ k"
  obtain fl where ok: "blocks_ok st" and fl: "lists_ok {} st fl"
    using inv by (auto simp: buddy_inv_def inv_except_def)
  have p0: "p < mem_nr_pages st" "st_of st p = PG_ALLOCATED" "ord_of st p = k"
    using p by (auto simp: alloc_blocks_def)
  define s0 where "s0 = page_upd p (\<lambda>q. q\<lparr>pg_state := PG_BUDDY, pg_prev := None, pg_next := None\<rparr>) st"
  note S = free_start [OF ok fl p0, folded s0_def]
  have n0: "mem_nr_pages s0 = mem_nr_pages st" by (simp add: s0_def)
  have ps: "st_of s0 p = PG_BUDDY" "pg_prev (mem_map s0 ! p) = None" "pg_next (mem_map s0 ! p) = None" "ord_of s0 p = k"
    using p0 by (simp_all add: s0_def nth_page_upd)
  have "2 ^ k dvd p" using blocks_okD(2) [OF ok, of p] p0 by (simp add: is_head_def)
  moreover have "p \<noteq> 0" using al by (metis dvd_0_right)
  ultimately have pb: "p = b + 2 ^ k" using dvd_imp_le [of "2 ^ k" p] by (simp add: b_def)
  then have bp: "b < p" by simp
  have b0: "(b, k) \<in> free_blocks s0"
    using b p0 bp S(3) by (auto simp: b_def [symmetric] free_blocks_core nth_upd_if)
  have p0': "p < mem_nr_pages s0" using p0 n0 by simp
  obtain s1 where s1: "merge_step s0 p = Ok (Some (b, s1))" "blocks_ok s1"
    "core s1 = (core s0)[p := (PG_TAIL, k), b := (PG_BUDDY, Suc k)]"
    "lists_ok (insert b (free_set s1 k)) (matrix_set k None s1) (fl(k := []))"
    "free_matrix s1 = free_matrix s0" "\<forall>x. x \<noteq> p \<longrightarrow> x \<noteq> b \<longrightarrow> mem_map s1 ! x = mem_map s0 ! x"
    using merge_step_left [OF S(1,2) p0' ps(1-3) ps(4) k al b0 pb] by blast
  have n1: "mem_nr_pages s1 = mem_nr_pages st" using core_nr(2) [OF s1(3)] n0 by simp
  have b1: "b < mem_nr_pages s1" "st_of s1 b = PG_BUDDY" "ord_of s1 b = Suc k"
    using s1(3) n1 n0 p0 bp by (simp_all add: st_ord_core nth_upd_if)
  define m1 where "m1 = matrix_set k None s1"
  define F where "F = insert b (free_set s1 k)"
  have cm1: "core m1 = core s1" by (simp add: m1_def)
  have left1: "\<not> left_buddy_free m1 b"
    using left_buddy_free_cong [of b st m1] left s1(3) S(3) n1 b1 bp by (simp add: b_def [symmetric] m1_def)
  obtain m2 fl2 k' where m2: "free_merge m1 b = Ok (b, m2)" "blocks_ok m2" "lists_ok F m2 fl2"
    "\<forall>x \<in> F - {b}. mem_map m2 ! x = mem_map m1 ! x" "mem_nr_pages m2 = mem_nr_pages m1"
    "st_of m2 b = PG_BUDDY" "ord_of m2 b = k'" "Suc k \<le> k'"
    using free_merge_spec [of m1 F "fl(k := [])" b "Suc k"] blocks_ok_cong [OF cm1 s1(2)] s1(4) b1 left1
    by (auto simp: m1_def F_def free_blocks_def free_set_def)
  obtain s2 where s2: "free_merge s1 b = Ok (b, s2)" "m2 = matrix_set k None s2" "free_matrix s2 ! k = free_matrix s1 ! k"
    using free_merge_matrix_set [of k s1 b None b m2] m2(1) b1 by (auto simp: m1_def)
  have b2: "b < mem_nr_pages m2" using b1 m2(5) by (simp add: m1_def)
  have k'M: "ord_of m2 b \<le> PAGE_MAX_ORDER"
    using blocks_okD(1) [OF m2(2), of b] b2 m2(6) by (simp add: is_head_def)
  obtain m3 where m3: "insert_free m2 b = Ok m3" "lists_ok (F - {b}) m3 (fl2(k' := b # fl2 k'))"
    "\<forall>x \<in> F - {b}. mem_map m3 ! x = mem_map m2 ! x"
    using insert_free_lists [OF m2(3) b2 k'M] m2(7) by (auto simp: F_def)
  obtain s3 where s3: "insert_free s2 b = Ok s3" "m3 = matrix_set k None s3"
    using insert_free_matrix_set [of s2 b k None] m3(1) s2(2) m2(7,8) by (cases "insert_free s2 b") auto
  have kk: "k \<le> PAGE_MAX_ORDER" "k < k'" using k m2(8) by auto
  have res: "free_pages st p = Ok s3"
    using p0 s1(1) s2(1) s3(1) by (simp add: free_pages_def s0_def [symmetric] free_merge.simps [of s0 p])
  have fm3: "free_matrix s3 = (free_matrix s2)[k' := Some b]"
    using s3(1) s2(2) m2(7) by (auto simp: insert_free_def Let_def split: option.splits if_splits)
  have core3: "core s3 = core m2"
  proof -
    have "core s3 = (core s2)[b := (PG_BUDDY, ord_of s2 b)]" using insert_free_core [OF s3(1)] .
    then show ?thesis using s2(2) m2(6) b2 by (auto intro!: nth_equalityI simp: nth_upd_if core_nth)
  qed
  have n3: "mem_nr_pages s3 = mem_nr_pages st" using mem_nr_pages_core [OF core3] m2(5) n1 by (simp add: m1_def)
  have len: "length (free_matrix s2) = Suc PAGE_MAX_ORDER"
    using lists_okD(4) [OF m2(3) kk(1)] s2(2) by simp
  have head: "free_matrix s3 ! k' = Some b" using fm3 len k'M m2(7) by simp
  have fk: "free_matrix s3 ! k = free_matrix st ! k" using fm3 kk s2(3) s1(5) by (simp add: s0_def)
  have fb: "(b, k') \<in> free_blocks s3" using core3 b2 m2(6,7) by (simp add: free_blocks_core core_nth)
  have bl: "b \<in> set (fl k)"
    using lists_okD(3) [OF fl kk(1)] b by (simp add: b_def free_blocks_def)
  then obtain us vs where uv: "fl k = us @ b # vs" by (auto simp: in_set_conv_decomp)
  have same: "mem_map s3 ! u = mem_map st ! u" if "u \<in> set us" for u
  proof -
    have u: "u < mem_nr_pages st" "st_of st u = PG_BUDDY" "ord_of st u = k" "u \<noteq> b" "u \<noteq> p"
      using lists_ok_member [OF fl kk(1), of u] that uv lists_okD(2) [OF fl kk(1)] p0 by auto
    have e1: "mem_map s1 ! u = mem_map st ! u" using s1(6) u by (simp add: s0_def nth_page_upd)
    then have "u \<in> F - {b}" using u n1 by (simp add: F_def free_set_def)
    then show ?thesis using m3(3) m2(4) s3(2) e1 by (simp add: m1_def)
  qed
  have on: "on_list s3 k b"
    unfolding on_list_def fk
    by (rule exI, rule dll_walk [OF lists_okD(1) [OF fl kk(1), unfolded uv]]) (simp add: same)
  have ninv: "\<not> buddy_inv s3" using on_list_inv [OF _ on kk(1)] fb kk by (auto simp: free_blocks_def free_set_def)
  have twice: "\<exists>st2 st3. alloc_pages s3 k = Ok (Some b, st2) \<and> (b, k) \<in> alloc_blocks st2 \<and>
      alloc_pages st2 k' = Ok (Some b, st3)" if "free_matrix st ! k = Some b"
  proof (rule alloc_twice [OF blocks_ok_cong [OF core3 m2(2)] _ fb kk(2) _ head])
    show "free_matrix s3 ! k = Some b" using fk that by simp
    have h3: "heads_in m3" by (rule lists_ok_heads [OF m3(2)])
    show "heads_in s3"
      using h3 s3(2) fk that b1 n1 n3 kk(1)
      by (auto simp: heads_in_def nth_upd_if split: if_splits)
    show "n < mem_nr_pages s3" if "pg_next (mem_map s3 ! b) = Some n" for n
    proof -
      have d: "dll (mem_map m3) None (free_matrix m3 ! k') (b # fl2 k')"
        using lists_okD(1) [OF m3(2), of k'] k'M m2(7) by simp
      then show ?thesis using that s3(2) by (cases "fl2 k'") auto
    qed
  qed
  show ?thesis
    using res kk(2) k'M m2(7) fb head on ninv twice unfolding b_def by (intro exI [of _ s3] exI [of _ k']) simp
qed

section \<open>A concrete instance\<close>

text \<open>Two page frames forming one free block of order 1.\<close>

definition two_pages :: buddy where
  "two_pages =
     \<lparr>mem_map = [\<lparr>pg_state = PG_BUDDY, pg_order = 1, pg_prev = None, pg_next = None\<rparr>,
                 \<lparr>pg_state = PG_TAIL, pg_order = 0, pg_prev = None, pg_next = None\<rparr>],
      free_matrix = [None, Some 0, None, None, None, None, None, None, None, None, None],
      managed_mem = 8192\<rparr>"

lemmas buddy_eval =
  alloc_pages_def free_pages_def alloc_find.simps alloc_split.simps free_merge.simps merge_step_def
  insert_free_def pop_free_def remove_free_def deref_def page_write_def page_upd_def matrix_set_def
  PAGE_MAX_ORDER_def alignment_order_def ctzll.simps Let_def

lemma two_pages_nr [simp]: "mem_nr_pages two_pages = 2"
  by (simp add: two_pages_def)

lemma two_pages_nth [simp]:
  "st_of two_pages 0 = PG_BUDDY" "ord_of two_pages 0 = 1"
  "st_of two_pages (Suc 0) = PG_TAIL" "ord_of two_pages (Suc 0) = 0"
  by (simp_all add: two_pages_def)

lemma two_pages_blocks: "free_blocks two_pages = {(0, 1)}" "alloc_blocks two_pages = {}"
  by (auto simp: free_blocks_def alloc_blocks_def free_set_def dest!: less_2_cases)

lemma two_pages_inv: "buddy_inv two_pages"
proof -
  have h: "is_head two_pages x \<longleftrightarrow> x = 0" for x
    by (auto simp: is_head_def less_2_cases_iff)
  have "blocks_ok two_pages"
    by (auto simp: blocks_ok_def block_ok_def h PAGE_MAX_ORDER_def less_Suc_eq dest!: less_2_cases)
  moreover have "free_set two_pages k = (if k = 1 then {0} else {})" for k
    by (auto simp: free_set_def dest!: less_2_cases)
  moreover have "free_matrix two_pages ! k = (if k = 1 then Some 0 else None)" if "k \<le> 10" for k
  proof -
    have "\<forall>k < 11. free_matrix two_pages ! k = (if k = 1 then Some 0 else None)"
      by (simp add: two_pages_def numeral_eq_Suc All_less_Suc)
    then show ?thesis using that by simp
  qed
  ultimately show ?thesis
    by (auto simp: buddy_inv_def inv_except_def lists_ok_def PAGE_MAX_ORDER_def
        intro!: exI [of _ "\<lambda>k. if k = 1 then [0] else []"]) (simp_all add: two_pages_def)
qed

text \<open>The same two frames after both were allocated and the first was freed.\<close>

definition half_free :: buddy where
  "half_free =
     \<lparr>mem_map = [\<lparr>pg_state = PG_BUDDY, pg_order = 0, pg_prev = None, pg_next = None\<rparr>,
                 \<lparr>pg_state = PG_ALLOCATED, pg_order = 0, pg_prev = None, pg_next = None\<rparr>],
      free_matrix = [Some 0, None, None, None, None, None, None, None, None, None, None],
      managed_mem = 8192\<rparr>"

lemma half_free_nth [simp]:
  "mem_nr_pages half_free = 2" "st_of half_free 0 = PG_BUDDY" "ord_of half_free 0 = 0"
  "st_of half_free (Suc 0) = PG_ALLOCATED" "ord_of half_free (Suc 0) = 0"
  by (simp_all add: half_free_def)

lemma half_free_inv: "buddy_inv half_free"
proof -
  have "blocks_ok half_free"
    by (auto simp: blocks_ok_def block_ok_def is_head_def dest!: less_2_cases)
  moreover have "free_set half_free k = (if k = 0 then {0} else {})" for k
    by (auto simp: free_set_def dest!: less_2_cases)
  moreover have "free_matrix half_free ! k = (if k = 0 then Some 0 else None)" if "k \<le> 10" for k
  proof -
    have "\<forall>k < 11. free_matrix half_free ! k = (if k = 0 then Some 0 else None)"
      by (simp add: half_free_def numeral_eq_Suc All_less_Suc)
    then show ?thesis using that by simp
  qed
  ultimately show ?thesis
    by (auto simp: buddy_inv_def inv_except_def lists_ok_def PAGE_MAX_ORDER_def
        intro!: exI [of _ "\<lambda>k. if k = 0 then [0] else []"]) (simp_all add: half_free_def)
qed

section \<open>Properties\<close>

text \<open>
  Claim C2. In a state satisfying the allocator invariant, \<^verbatim>\<open>alloc_pages(order)\<close> with an order of at most 10
  neither panics nor reads outside \<^verbatim>\<open>mem_map\<close>. It returns \<^verbatim>\<open>NULL\<close> and changes nothing exactly when no
  free block is large enough; otherwise it takes a smallest sufficient free block, returns its first
  \<open>2 ^ order\<close> pages as the one new allocation, puts the remaining halves back as free blocks of
  each order in between, and keeps the invariant.
\<close>

theorem alloc_pages_correct:
  assumes "buddy_inv st" and "ord \<le> PAGE_MAX_ORDER"
  shows "(alloc_pages st ord = Ok (None, st) \<and> (\<forall>(x, k) \<in> free_blocks st. k < ord)) \<or>
    (\<exists>p k st'. alloc_pages st ord = Ok (Some p, st') \<and> buddy_inv st' \<and>
       ord \<le> k \<and> (p, k) \<in> free_blocks st \<and> (\<forall>(x, j) \<in> free_blocks st. ord \<le> j \<longrightarrow> k \<le> j) \<and>
       free_blocks st' = free_blocks st - {(p, k)} \<union> {(p + 2 ^ j, j) |j. ord \<le> j \<and> j < k} \<and>
       alloc_blocks st' = insert (p, ord) (alloc_blocks st) \<and> mem_nr_pages st' = mem_nr_pages st)"
  using assms by (rule alloc_pages_spec)

theorem alloc_pages_correct_witness:
  "\<exists>p st'. alloc_pages two_pages 0 = Ok (Some p, st') \<and> buddy_inv st' \<and>
     free_blocks st' = {(p + 1, 0)} \<and> alloc_blocks st' = {(p, 0)}"
proof -
  have "\<not> (\<forall>(x, k) \<in> free_blocks two_pages. k < 0)" by (simp add: two_pages_blocks)
  with alloc_pages_correct [OF two_pages_inv, of 0] obtain p k st' where
    "alloc_pages two_pages 0 = Ok (Some p, st')" "buddy_inv st'" "(p, k) \<in> free_blocks two_pages"
    "free_blocks st' = free_blocks two_pages - {(p, k)} \<union> {(p + 2 ^ j, j) |j. 0 \<le> j \<and> j < k}"
    "alloc_blocks st' = insert (p, 0) (alloc_blocks two_pages)" by auto
  then show ?thesis by (intro exI [of _ p] exI [of _ st']) (auto simp: two_pages_blocks)
qed

text \<open>
  Claim C3. Freeing an allocation that has no free left buddy, in a state satisfying the invariant,
  neither panics nor reads outside \<^verbatim>\<open>mem_map\<close>: it removes exactly that allocation, absorbs the free right
  buddies of increasing order until the next one is not free (or the order is 10 or the block is not
  aligned for a larger one), adds the merged block to the free blocks, and keeps the invariant.
\<close>

theorem free_pages_correct:
  assumes "buddy_inv st" and "(p, k) \<in> alloc_blocks st" and "\<not> left_buddy_free st p"
  shows "\<exists>st' k'. free_pages st p = Ok st' \<and> buddy_inv st' \<and>
           alloc_blocks st' = alloc_blocks st - {(p, k)} \<and> k \<le> k' \<and>
           (\<forall>j. k \<le> j \<and> j < k' \<longrightarrow> (p + 2 ^ j, j) \<in> free_blocks st) \<and>
           free_blocks st' = free_blocks st - {(p + 2 ^ j, j) |j. k \<le> j \<and> j < k'} \<union> {(p, k')} \<and>
           (k' < PAGE_MAX_ORDER \<and> k' < alignment_order p \<longrightarrow> (p + 2 ^ k', k') \<notin> free_blocks st')"
  using assms by (rule free_pages_spec)

theorem free_pages_correct_witness:
  "\<exists>st st'. alloc_pages two_pages 0 = Ok (Some 0, st) \<and> free_pages st 0 = Ok st' \<and> buddy_inv st' \<and>
     alloc_blocks st' = {}"
proof -
  obtain st where st: "alloc_pages two_pages 0 = Ok (Some 0, st)" "st_of st 0 = PG_ALLOCATED"
    by (simp add: two_pages_def buddy_eval cong: rbind_weak_cong)
  have give: "buddy_give 0 two_pages = Some (0, st)" using st by (simp add: buddy_give_def)
  have inv: "buddy_inv st" by (rule buddy_src.give_inv [OF two_pages_inv give])
  have ab: "alloc_blocks st = {(0, 0)}"
    by (rule buddy_give_Some [OF two_pages_inv give]) (simp add: two_pages_blocks)
  have left: "\<not> left_buddy_free st 0" by (simp add: left_buddy_free_def alignment_order_def PAGE_MAX_ORDER_def)
  show ?thesis using free_pages_correct [OF inv _ left, of 0] ab st(1) by auto
qed



text \<open>
  Claim C5. Freeing a block merges it with a free left buddy without taking that buddy out of its free list
  (the source unlinks the page that is freed, which is in no list, in place of the buddy). From every
  state satisfying the invariant, when the left buddy is free and has no free left buddy itself,
  \<^verbatim>\<open>free_pages\<close> returns and the merged block is then the head of the list of its new, larger order while
  it can still be reached in the list of the old order, so the invariant is lost. When the buddy was
  the first of its list, the next \<^verbatim>\<open>alloc_pages\<close> of the old order and the one of the new order after it
  both return this same block: it is handed out twice.
\<close>

theorem left_merge_double_allocation:
  assumes "buddy_inv st" and "(p, k) \<in> alloc_blocks st" and "k < PAGE_MAX_ORDER"
    and "\<not> 2 ^ Suc k dvd p" and "(p - 2 ^ k, k) \<in> free_blocks st"
    and "\<not> left_buddy_free st (p - 2 ^ k)"
  shows "\<exists>st1 k'. free_pages st p = Ok st1 \<and> k < k' \<and> k' \<le> PAGE_MAX_ORDER \<and>
           (p - 2 ^ k, k') \<in> free_blocks st1 \<and> free_matrix st1 ! k' = Some (p - 2 ^ k) \<and>
           on_list st1 k (p - 2 ^ k) \<and> \<not> buddy_inv st1 \<and>
           (free_matrix st ! k = Some (p - 2 ^ k) \<longrightarrow>
             (\<exists>st2 st3. alloc_pages st1 k = Ok (Some (p - 2 ^ k), st2) \<and>
                (p - 2 ^ k, k) \<in> alloc_blocks st2 \<and> alloc_pages st2 k' = Ok (Some (p - 2 ^ k), st3)))"
  using assms by (rule left_merge_spec)

theorem left_merge_double_allocation_witness:
  "\<exists>st1 st2 st3 k'. free_pages half_free 1 = Ok st1 \<and> \<not> buddy_inv st1 \<and> 0 < k' \<and>
     alloc_pages st1 0 = Ok (Some 0, st2) \<and> (0, 0) \<in> alloc_blocks st2 \<and> alloc_pages st2 k' = Ok (Some 0, st3)"
proof -
  have "(1, 0) \<in> alloc_blocks half_free" "(1 - 2 ^ 0, 0) \<in> free_blocks half_free"
    "\<not> left_buddy_free half_free (1 - 2 ^ 0)" "(0::nat) < PAGE_MAX_ORDER" "\<not> 2 ^ Suc 0 dvd (1::nat)"
    by (simp_all add: alloc_blocks_def free_blocks_def free_set_def left_buddy_free_def alignment_order_def PAGE_MAX_ORDER_def)
  moreover have "free_matrix half_free ! 0 = Some (1 - 2 ^ 0)" by (simp add: half_free_def)
  ultimately show ?thesis
    using left_merge_double_allocation [OF half_free_inv, of 1 0] by auto
qed

end
