(* ===== verification/Buddy_Init.thy ===== *)
theory Buddy_Init
  imports Buddy_Alloc Bootmem_Correct
begin

text \<open>
  The start-up of the buddy allocator (\<^verbatim>\<open>buddy_init\<close> of \<^verbatim>\<open>mm/buddy.c\<close>): the usable page frames outside
  the kernel image and the boot pool are marked free, then grouped into aligned blocks and linked
  into the free lists. It takes the allocator from the all-reserved page array that \<^verbatim>\<open>mem_init\<close> leaves
  behind to a state of the invariant whose free frames are exactly the marked ones.
\<close>

section \<open>Operations\<close>

function mark_pages :: "buddy \<Rightarrow> nat \<Rightarrow> nat \<Rightarrow> buddy kres" where
  "mark_pages st i e =
     (if i < e then
        rbind (page_write i (\<lambda>q. q\<lparr>pg_state := PG_BUDDY, pg_order := 0\<rparr>) st) (\<lambda>st1. mark_pages st1 (i + 1) e)
      else Ok st)"
  by pat_completeness auto
termination
  by (relation "measure (\<lambda>(st, i, e). e - i)") auto

definition set_first_order_buddy_for_range :: "buddy \<Rightarrow> nat \<Rightarrow> nat \<Rightarrow> (nat \<times> buddy) kres" where
  "set_first_order_buddy_for_range st start_page end_page =
     (let e = (if end_page > mem_nr_pages st then mem_nr_pages st else end_page)
      in if start_page \<ge> e then Ok (0, st)
         else rbind (mark_pages st start_page e) (\<lambda>st1. Ok (e - start_page, st1)))"

definition mark_entry :: "nat \<Rightarrow> nat \<Rightarrow> e820_entry \<Rightarrow> nat \<times> buddy \<Rightarrow> (nat \<times> buddy) kres" where
  "mark_entry rs re e = (\<lambda>(expected, st).
     if e_type e \<noteq> E820_TYPE_RAM then Ok (expected, st)
     else
       let s0 = unat (DIV_UP (e_addr e) PAGE_SIZE);
           e0 = unat ((e_addr e + e_size e) div PAGE_SIZE);
           s1 = (if s0 \<ge> rs \<and> s0 < re then re else s0);
           e1 = (if e0 > rs \<and> e0 \<le> re then rs else e0)
       in if s1 \<ge> e1 then Ok (expected, st)
          else if s1 < rs \<and> e1 > re then
            rbind (set_first_order_buddy_for_range st s1 rs) (\<lambda>(n, st1).
            rbind (set_first_order_buddy_for_range st1 re e1) (\<lambda>(m, st2). Ok (expected + n + m, st2)))
          else rbind (set_first_order_buddy_for_range st s1 e1) (\<lambda>(n, st1). Ok (expected + n, st1)))"

fun mark_entries :: "nat \<Rightarrow> nat \<Rightarrow> e820_entry list \<Rightarrow> nat \<times> buddy \<Rightarrow> (nat \<times> buddy) kres" where
  "mark_entries rs re [] s = Ok s"
| "mark_entries rs re (e # es) s = rbind (mark_entry rs re e s) (mark_entries rs re es)"

text \<open>The grouping loop: the run of free pages from \<open>i\<close>, its tails, and the loop itself.\<close>

function free_run :: "buddy \<Rightarrow> nat \<Rightarrow> nat \<Rightarrow> nat" where
  "free_run st j e = (if j < e then if pg_state (mem_map st ! j) \<noteq> PG_BUDDY then j else free_run st (j + 1) e else j)"
  by pat_completeness auto
termination
  by (relation "measure (\<lambda>(st, j, e). e - j)") auto

function mark_tails :: "buddy \<Rightarrow> nat \<Rightarrow> nat \<Rightarrow> buddy kres" where
  "mark_tails st j e =
     (if j < e then rbind (page_write j (\<lambda>q. q\<lparr>pg_state := PG_TAIL\<rparr>) st) (\<lambda>st1. mark_tails st1 (j + 1) e)
      else Ok st)"
  by pat_completeness auto
termination
  by (relation "measure (\<lambda>(st, j, e). e - j)") auto

declare mark_pages.simps [simp del] free_run.simps [simp del] mark_tails.simps [simp del]

lemma mark_tails_nr: "mark_tails st j e = Ok st' \<Longrightarrow> mem_nr_pages st' = mem_nr_pages st"
proof (induction st j e rule: mark_tails.induct)
  case (1 st j e)
  then show ?case by (subst (asm) (2) mark_tails.simps) (auto split: if_splits)
qed

definition group_at :: "buddy \<Rightarrow> nat \<Rightarrow> (nat \<times> buddy) kres" where
  "group_at st i =
     (let max_pages = 2 ^ alignment_order i;
          e = (if i + max_pages \<le> mem_nr_pages st then i + max_pages else mem_nr_pages st);
          count = free_run st i e - i;
          st1 = page_upd i (\<lambda>q. q\<lparr>pg_order := nat (length_order count)\<rparr>) st;
          pages = 2 ^ nat (length_order count)
      in rbind (mark_tails st1 (i + 1) (i + pages)) (\<lambda>st2.
         rbind (insert_free st2 i) (\<lambda>st3. Ok (pages, st3))))"

lemma group_at_progress:
  assumes "group_at st i = Ok (n, st')"
  shows "0 < n \<and> mem_nr_pages st' = mem_nr_pages st"
  using assms by (auto simp: group_at_def Let_def dest!: mark_tails_nr insert_free_core core_nr
      split: if_splits)

function group_pages :: "buddy \<Rightarrow> nat \<Rightarrow> nat \<Rightarrow> (nat \<times> buddy) kres" where
  "group_pages st i accounted =
     (if i < mem_nr_pages st then
        if pg_state (mem_map st ! i) \<noteq> PG_BUDDY then group_pages st (i + 1) accounted
        else rbind (group_at st i) (\<lambda>(n, st1). group_pages st1 (i + n) (accounted + n))
      else Ok (accounted, st))"
  by pat_completeness auto
termination
  by (relation "measure (\<lambda>(st, i, a). mem_nr_pages st - i)") (auto dest!: group_at_progress)

declare group_pages.simps [simp del]

definition buddy_init :: "u64 \<Rightarrow> e820_entry list \<Rightarrow> bootmem \<Rightarrow> buddy \<Rightarrow> (int \<times> bootmem \<times> buddy) kres" where
  "buddy_init kernel_phys es bm st =
     (let bm1 = bootmem_lock bm;
          rs = unat (kernel_phys div PAGE_SIZE);
          re = unat (DIV_UP (bootmem_get_pool_end bm1) PAGE_SIZE)
      in rbind (mark_entries rs re es (0, st)) (\<lambda>(expected, st1).
         rbind (group_pages st1 0 0) (\<lambda>(accounted, st2).
           if expected \<noteq> accounted then Err (Panic ''Buddy grouping failed'')
           else Ok (0, bm1, st2\<lparr>managed_mem := of_nat accounted * PAGE_SIZE\<rparr>))))"

section \<open>Updates of sets of pages\<close>

definition pages_upd :: "nat set \<Rightarrow> (page \<Rightarrow> page) \<Rightarrow> buddy \<Rightarrow> buddy" where
  "pages_upd A f st = st\<lparr>mem_map := map (\<lambda>x. if x \<in> A then f (mem_map st ! x) else mem_map st ! x) [0..<mem_nr_pages st]\<rparr>"

abbreviation to_free :: "page \<Rightarrow> page" where
  "to_free q \<equiv> q\<lparr>pg_state := PG_BUDDY, pg_order := 0\<rparr>"

abbreviation to_tail :: "page \<Rightarrow> page" where
  "to_tail q \<equiv> q\<lparr>pg_state := PG_TAIL\<rparr>"

lemma pages_upd_simps [simp]:
  "mem_nr_pages (pages_upd A f st) = mem_nr_pages st"
  "free_matrix (pages_upd A f st) = free_matrix st"
  "x < mem_nr_pages st \<Longrightarrow> mem_map (pages_upd A f st) ! x = (if x \<in> A then f (mem_map st ! x) else mem_map st ! x)"
  by (simp_all add: pages_upd_def)

lemma pages_upd_empty [simp]: "pages_upd {} f st = st"
  by (simp add: pages_upd_def map_nth)

lemma page_upd_pages: "page_upd i f st = pages_upd {i} f st"
  unfolding page_upd_def pages_upd_def
  by (intro buddy.equality nth_equalityI) (auto simp: nth_list_update)

lemma pages_upd_Un:
  assumes "\<And>q. f (f q) = f q"
  shows "pages_upd A f (pages_upd B f st) = pages_upd (B \<union> A) f st"
  using assms by (simp add: pages_upd_def)

lemma mark_pages_eq:
  assumes "e \<le> mem_nr_pages st"
  shows "mark_pages st i e = Ok (pages_upd {i..<e} to_free st)"
  using assms
proof (induction st i e rule: mark_pages.induct)
  case (1 st i e)
  show ?case
  proof (cases "i < e")
    case True
    then have i: "{i} \<union> {i + 1..<e} = {i..<e}" by auto
    have "mark_pages (page_upd i to_free st) (i + 1) e = Ok (pages_upd {i..<e} to_free st)"
      using 1 True pages_upd_Un [of to_free "{i + 1..<e}" "{i}" st] unfolding i by (simp add: page_upd_pages)
    then show ?thesis using True 1(2) by (subst mark_pages.simps) simp
  qed (simp add: mark_pages.simps)
qed

lemma mark_tails_eq:
  assumes "e \<le> mem_nr_pages st"
  shows "mark_tails st j e = Ok (pages_upd {j..<e} to_tail st)"
  using assms
proof (induction st j e rule: mark_tails.induct)
  case (1 st j e)
  show ?case
  proof (cases "j < e")
    case True
    then have j: "{j} \<union> {j + 1..<e} = {j..<e}" by auto
    have "mark_tails (page_upd j to_tail st) (j + 1) e = Ok (pages_upd {j..<e} to_tail st)"
      using 1 True pages_upd_Un [of to_tail "{j + 1..<e}" "{j}" st] unfolding j by (simp add: page_upd_pages)
    then show ?thesis using True 1(2) by (subst mark_tails.simps) simp
  qed (simp add: mark_tails.simps)
qed

lemma set_first_order_eq:
  "set_first_order_buddy_for_range st s e =
     Ok (card ({s..<e} \<inter> {..<mem_nr_pages st}), pages_upd ({s..<e} \<inter> {..<mem_nr_pages st}) to_free st)"
proof -
  have "{s..<e} \<inter> {..<mem_nr_pages st} = {s..<min e (mem_nr_pages st)}" by auto
  then show ?thesis by (auto simp: set_first_order_buddy_for_range_def Let_def mark_pages_eq min_def)
qed

section \<open>Marking\<close>

definition free_part :: "nat \<Rightarrow> nat \<Rightarrow> nat \<Rightarrow> e820_entry \<Rightarrow> nat set" where
  "free_part n rs re e = {f \<in> entry_frames e. f < n \<and> \<not> (rs \<le> f \<and> f < re)}"

lemma finite_free_part [simp]: "finite (free_part n rs re e)"
  by (rule finite_subset [of _ "{..<n}"]) (auto simp: free_part_def)

lemma clip_interval:
  assumes "rs \<le> (re :: nat)" and "s1 = (if s0 \<ge> rs \<and> s0 < re then re else s0)"
    and "e1 = (if e0 > rs \<and> e0 \<le> re then rs else e0)"
  shows "s1 \<ge> e1 \<Longrightarrow> {x. s0 \<le> x \<and> x < e0 \<and> \<not> (rs \<le> x \<and> x < re)} = {}"
    and "s1 < e1 \<Longrightarrow> s1 < rs \<and> e1 > re \<Longrightarrow>
      {x. s0 \<le> x \<and> x < e0 \<and> \<not> (rs \<le> x \<and> x < re)} = {s1..<rs} \<union> {re..<e1}"
    and "s1 < e1 \<Longrightarrow> \<not> (s1 < rs \<and> e1 > re) \<Longrightarrow>
      {x. s0 \<le> x \<and> x < e0 \<and> \<not> (rs \<le> x \<and> x < re)} = {s1..<e1}"
  using assms by (auto split: if_splits)

lemma entry_pages:
  assumes "map_ok (e # es)" and "e_type e = E820_TYPE_RAM"
  shows "f \<in> entry_frames e \<longleftrightarrow>
    unat (DIV_UP (e_addr e) PAGE_SIZE) \<le> f \<and> f < unat ((e_addr e + e_size e) div PAGE_SIZE)"
proof -
  note E = map_ok_Cons [OF assms(1)]
  have "unat (e_addr e) + 4096 \<le> 2 ^ 64" using E(2) [OF assms(2)] E(3) by (simp add: e_lo_def PHYS_LIMIT_def)
  then have S: "unat (DIV_UP (e_addr e) PAGE_SIZE) = (e_lo e + 4095) div 4096"
    by (subst unat_DIV_UP) (simp_all add: e_lo_def)
  have T: "unat ((e_addr e + e_size e) div PAGE_SIZE) = e_hi e div 4096" by (simp add: unat_div_eq E(4))
  have "(e_lo e + 4095) div 4096 < f + 1 \<longleftrightarrow> e_lo e \<le> 4096 * f"
    by (subst div_less_iff_less_mult) auto
  moreover have "f + 1 \<le> e_hi e div 4096 \<longleftrightarrow> 4096 * f + 4096 \<le> e_hi e"
    by (subst less_eq_div_iff_mult_less_eq) auto
  ultimately show ?thesis using assms(2) unfolding S T by (auto simp: entry_frames_def)
qed

lemma mark_entry_eq:
  assumes ok: "map_ok (e # es)" and r: "rs \<le> re"
  shows "mark_entry rs re e (x, st) =
    Ok (x + card (free_part (mem_nr_pages st) rs re e), pages_upd (free_part (mem_nr_pages st) rs re e) to_free st)"
proof (cases "e_type e = E820_TYPE_RAM")
  case False
  then have "free_part (mem_nr_pages st) rs re e = {}" by (auto simp: free_part_def entry_frames_def)
  then show ?thesis using False by (simp add: mark_entry_def)
next
  case ram: True
  define n where "n = mem_nr_pages st"
  define s0 where "s0 = unat (DIV_UP (e_addr e) PAGE_SIZE)"
  define e0 where "e0 = unat ((e_addr e + e_size e) div PAGE_SIZE)"
  define s1 where s1: "s1 = (if s0 \<ge> rs \<and> s0 < re then re else s0)"
  define e1 where e1: "e1 = (if e0 > rs \<and> e0 \<le> re then rs else e0)"
  have P: "free_part n rs re e = {x. s0 \<le> x \<and> x < e0 \<and> \<not> (rs \<le> x \<and> x < re)} \<inter> {..<n}"
    using entry_pages [OF ok ram] by (auto simp: free_part_def s0_def e0_def)
  note C = clip_interval [OF r s1 e1]
  have "mark_entry rs re e (x, st) =
      (if s1 \<ge> e1 then Ok (x, st)
       else if s1 < rs \<and> e1 > re then
         rbind (set_first_order_buddy_for_range st s1 rs) (\<lambda>(n, st1).
         rbind (set_first_order_buddy_for_range st1 re e1) (\<lambda>(m, st2). Ok (x + n + m, st2)))
       else rbind (set_first_order_buddy_for_range st s1 e1) (\<lambda>(n, st1). Ok (x + n, st1)))"
    using ram unfolding mark_entry_def s1 e1 s0_def e0_def by (simp add: Let_def)
  also have "\<dots> = Ok (x + card (free_part n rs re e), pages_upd (free_part n rs re e) to_free st)"
  proof -
    have card: "card ({s1..<rs} \<inter> {..<n}) + card ({re..<e1} \<inter> {..<n}) = card (({s1..<rs} \<union> {re..<e1}) \<inter> {..<n})"
      using r by (subst card_Un_disjoint [symmetric]) (auto intro: arg_cong [of _ _ card])
    show ?thesis
    proof (cases "s1 \<ge> e1")
      case True
      then have "free_part n rs re e = {}" unfolding P C(1) [OF True] by simp
      then show ?thesis using True by simp
    next
      case False
      then show ?thesis unfolding P using C(2,3) card
        by (auto simp: set_first_order_eq pages_upd_Un n_def [symmetric] Int_Un_distrib2)
    qed
  qed
  finally show ?thesis unfolding n_def .
qed

definition free_frames_of :: "nat \<Rightarrow> nat \<Rightarrow> nat \<Rightarrow> e820_entry list \<Rightarrow> nat set" where
  "free_frames_of n rs re es = {f \<in> usable es 0. f < n \<and> \<not> (rs \<le> f \<and> f < re)}"

lemma mark_entries_eq:
  assumes "map_ok es" and r: "rs \<le> re"
  shows "mark_entries rs re es (x, st) =
    Ok (x + card (free_frames_of (mem_nr_pages st) rs re es), pages_upd (free_frames_of (mem_nr_pages st) rs re es) to_free st)"
  using assms(1)
proof (induction es arbitrary: x st)
  case Nil
  then show ?case by (simp add: free_frames_of_def)
next
  case (Cons e es)
  let ?n = "mem_nr_pages st"
  have U: "free_frames_of ?n rs re (e # es) = free_part ?n rs re e \<union> free_frames_of ?n rs re es"
    by (auto simp: free_frames_of_def free_part_def usable_Cons)
  have "free_part ?n rs re e \<inter> free_frames_of ?n rs re es = {}"
    using map_ok_Cons(5) [OF Cons.prems] by (fastforce simp: free_frames_of_def free_part_def usable_def entry_frames_def)
  moreover have "finite (free_frames_of ?n rs re es)"
    by (rule finite_subset [of _ "{..<?n}"]) (auto simp: free_frames_of_def)
  ultimately show ?case
    using Cons.IH [OF map_ok_Cons(1) [OF Cons.prems]] mark_entry_eq [OF Cons.prems r]
    by (simp add: U card_Un_disjoint pages_upd_Un)
qed

section \<open>Orders of runs\<close>

lemma clz_bits_bounds:
  "0 < n \<Longrightarrow> n < 2 ^ m \<Longrightarrow> clz_bits m n < m \<and> 2 ^ (m - Suc (clz_bits m n)) \<le> n \<and> n < 2 ^ (m - clz_bits m n)"
proof (induction m)
  case (Suc k)
  show ?case
  proof (cases "2 ^ k \<le> n")
    case True
    then have "n div 2 ^ k = 1" using Suc.prems(2) by (intro div_nat_eqI) auto
    then show ?thesis using True Suc.prems by simp
  next
    case False
    then show ?thesis using Suc by (simp add: Suc_diff_le)
  qed
qed simp

lemma length_order_bounds:
  assumes "0 < n" and "n < 2 ^ 64"
  shows "2 ^ nat (length_order n) \<le> n" and "n < 2 * 2 ^ nat (length_order n)"
proof -
  note C = clz_bits_bounds [OF assms]
  define c where "c = clz_bits 64 n"
  have o: "nat (length_order n) = 63 - c" using assms(1) by (simp add: length_order_def clzll_def c_def)
  have "64 - c = Suc (63 - c)" "c < 64" using C by (auto simp: c_def)
  then show "2 ^ nat (length_order n) \<le> n" "n < 2 * 2 ^ nat (length_order n)"
    unfolding o using C by (auto simp: c_def [symmetric])
qed

lemma pow_alignment_dvd: "2 ^ alignment_order p dvd p"
proof (cases "alignment_order p")
  case (Suc j)
  then have "j < PAGE_MAX_ORDER" using alignment_order_le [of p] by simp
  then show ?thesis using alignment_order_dvd [of j p] Suc by simp
qed simp

lemma free_run_spec:
  assumes "j \<le> e"
  shows "j \<le> free_run st j e \<and> free_run st j e \<le> e \<and> (\<forall>x. j \<le> x \<and> x < free_run st j e \<longrightarrow> st_of st x = PG_BUDDY) \<and>
    (j < e \<and> st_of st j = PG_BUDDY \<longrightarrow> j < free_run st j e) \<and> (free_run st j e < e \<longrightarrow> st_of st (free_run st j e) \<noteq> PG_BUDDY)"
  using assms
proof (induction st j e rule: free_run.induct)
  case (1 st j e)
  show ?case
  proof (cases "j < e \<and> st_of st j = PG_BUDDY")
    case True
    then have "free_run st j e = free_run st (j + 1) e" by (subst free_run.simps) simp
    moreover have "j \<le> x \<longleftrightarrow> x = j \<or> j + 1 \<le> x" for x by auto
    ultimately show ?thesis using 1 True by auto
  next
    case False
    then have "free_run st j e = j" by (subst free_run.simps) auto
    then show ?thesis using 1 False by auto
  qed
qed

section \<open>Grouping\<close>

definition free_frames :: "buddy \<Rightarrow> nat set" where
  "free_frames st = (\<Union>(x, k) \<in> free_blocks st. block x k)"

lemma in_free_frames:
  "y \<in> free_frames st \<longleftrightarrow> (\<exists>x < mem_nr_pages st. st_of st x = PG_BUDDY \<and> x \<le> y \<and> y < x + 2 ^ ord_of st x)"
  by (auto simp: free_frames_def free_blocks_def free_set_def)

text \<open>Allocations come out of the free frames.\<close>

lemma alloc_pages_frames:
  assumes inv: "buddy_inv st" and r: "alloc_pages st ord = Ok (Some p, st')" and o: "ord \<le> PAGE_MAX_ORDER"
  shows "buddy_inv st'" and "block p ord \<subseteq> free_frames st" and "free_frames st' \<subseteq> free_frames st"
    and "allocated_frames st' = allocated_frames st \<union> block p ord" and "block p ord \<inter> allocated_frames st = {}"
    and "mem_nr_pages st' = mem_nr_pages st" and "free_frames st \<subseteq> {..<mem_nr_pages st}"
proof -
  obtain k where k: "buddy_inv st'" "ord \<le> k" "(p, k) \<in> free_blocks st" "mem_nr_pages st' = mem_nr_pages st"
    "free_blocks st' = free_blocks st - {(p, k)} \<union> {(p + 2 ^ j, j) |j. ord \<le> j \<and> j < k}"
    using alloc_pages_spec [OF inv o] r by auto
  have g: "buddy_give ord st = Some (p, st')" using r by (simp add: buddy_give_def)
  show "buddy_inv st'" "mem_nr_pages st' = mem_nr_pages st" by (rule k)+
  show "allocated_frames st' = allocated_frames st \<union> block p ord" "block p ord \<inter> allocated_frames st = {}"
    by (rule buddy_src.give_owned [OF inv g], rule buddy_src.give_fresh [OF inv g])
  have sub: "block p k \<subseteq> free_frames st" using k(3) by (auto simp: free_frames_def)
  have pw: "(2::nat) ^ j + 2 ^ j \<le> 2 ^ k" if "j < k" for j
    using that power_increasing [of "Suc j" k "2::nat"] by simp
  have "(2::nat) ^ ord \<le> 2 ^ k" using k(2) by (intro power_increasing) simp_all
  then have "block p ord \<subseteq> block p k" unfolding block_def by (simp only: ivl_subset) linarith
  then show "block p ord \<subseteq> free_frames st" using sub by blast
  have "block (p + 2 ^ j) j \<subseteq> block p k" if "j < k" for j
    using pw [OF that] unfolding block_def by (simp only: ivl_subset) linarith
  then have new: "block (p + 2 ^ j) j \<subseteq> free_frames st" if "j < k" for j using sub that by blast
  show "free_frames st' \<subseteq> free_frames st"
  proof
    fix y assume "y \<in> free_frames st'"
    then obtain x j where x: "(x, j) \<in> free_blocks st'" "y \<in> block x j" by (auto simp: free_frames_def)
    then have "(x, j) \<in> free_blocks st \<or> (x = p + 2 ^ j \<and> j < k)" unfolding k(5) by blast
    then show "y \<in> free_frames st"
    proof
      assume "(x, j) \<in> free_blocks st"
      then show ?thesis using x(2) unfolding free_frames_def by blast
    qed (use new x(2) in blast)
  qed
  have "blocks_ok st" using inv by (simp add: buddy_inv_def inv_except_def)
  then show "free_frames st \<subseteq> {..<mem_nr_pages st}"
    using blocks_okD(3) [of st] by (fastforce simp: free_frames_def free_blocks_def free_set_def is_head_def)
qed

text \<open>A block of order \<open>k\<close> at \<open>x\<close> is as large as alignment, maximal order and the set \<open>M\<close> of free pages allow.\<close>

definition maximal :: "nat set \<Rightarrow> nat \<Rightarrow> nat \<Rightarrow> bool" where
  "maximal M x k \<longleftrightarrow> k = PAGE_MAX_ORDER \<or> \<not> 2 ^ Suc k dvd x \<or> \<not> {x..<x + 2 ^ Suc k} \<subseteq> M"

text \<open>
  The state of the loop at page \<open>i\<close>: the pages from \<open>i\<close> on are still single pages outside the lists, the blocks before it are maximal.
\<close>

definition group_inv :: "nat set \<Rightarrow> nat \<Rightarrow> buddy \<Rightarrow> bool" where
  "group_inv M i st \<longleftrightarrow> blocks_ok st \<and> (\<exists>fl. lists_ok {x \<in> M. i \<le> x} st fl) \<and> M \<subseteq> {..<mem_nr_pages st} \<and>
     (\<forall>x < mem_nr_pages st. i \<le> x \<longrightarrow> (if x \<in> M then st_of st x = PG_BUDDY \<and> ord_of st x = 0 else st_of st x = PG_RESERVED)) \<and>
     (\<forall>x < mem_nr_pages st. st_of st x \<noteq> PG_ALLOCATED) \<and> free_frames st = M \<and>
     (\<forall>x < mem_nr_pages st. x < i \<longrightarrow> st_of st x = PG_BUDDY \<longrightarrow> maximal M x (ord_of st x))"

text \<open>Merging the single pages \<open>i ..< i + 2 ^ k\<close> into one block.\<close>

definition grouped :: "nat \<Rightarrow> nat \<Rightarrow> buddy \<Rightarrow> buddy" where
  "grouped i k st = pages_upd {i + 1..<i + 2 ^ k} to_tail (page_upd i (\<lambda>q. q\<lparr>pg_order := k\<rparr>) st)"

lemma grouped_simps [simp]:
  "mem_nr_pages (grouped i k st) = mem_nr_pages st" "free_matrix (grouped i k st) = free_matrix st"
  and nth_grouped: "x < mem_nr_pages st \<Longrightarrow> mem_map (grouped i k st) ! x =
     (if x = i then (mem_map st ! x)\<lparr>pg_order := k\<rparr> else if i < x \<and> x < i + 2 ^ k then to_tail (mem_map st ! x) else mem_map st ! x)"
  by (auto simp: grouped_def nth_page_upd)

lemma grouped_state:
  assumes "x < mem_nr_pages st"
  shows "st_of (grouped i k st) x = (if i < x \<and> x < i + 2 ^ k then PG_TAIL else st_of st x)"
    and "ord_of (grouped i k st) x = (if x = i then k else ord_of st x)"
  using assms by (auto simp: nth_grouped)

lemma group_invD:
  assumes "group_inv M i st" and "x < mem_nr_pages st" and "i \<le> x"
  shows "x \<in> M \<Longrightarrow> st_of st x = PG_BUDDY" "x \<in> M \<Longrightarrow> ord_of st x = 0" "x \<notin> M \<Longrightarrow> st_of st x = PG_RESERVED"
  using assms by (auto simp: group_inv_def)

lemma grouped_blocks_ok:
  assumes inv: "group_inv M i st" and sub: "{i..<i + 2 ^ k} \<subseteq> M" and k: "k \<le> PAGE_MAX_ORDER" "2 ^ k dvd i"
  shows "blocks_ok (grouped i k st)"
proof -
  let ?st = "grouped i k st"
  have B: "blocks_ok st" and n: "M \<subseteq> {..<mem_nr_pages st}" using inv by (auto simp: group_inv_def)
  have pos: "0 < (2::nat) ^ k" by simp
  have "i \<in> {i..<i + 2 ^ k}" "i + 2 ^ k - 1 \<in> {i..<i + 2 ^ k}"
    unfolding atLeastLessThan_iff using pos by linarith+
  then have "i \<in> M" "i + 2 ^ k - 1 \<in> M" using sub by blast+
  then have i: "i < mem_nr_pages st" "i + 2 ^ k \<le> mem_nr_pages st" using n pos by auto
  note D = group_invD [OF inv]
  have tail: "y < i" if "y < mem_nr_pages st" "st_of st y = PG_TAIL" for y
    using D [OF that(1)] that(2) by (cases "y \<in> M") (auto simp: not_le [symmetric])
  have head: "is_head ?st x \<longleftrightarrow> is_head st x \<and> \<not> (i < x \<and> x < i + 2 ^ k)" for x
    by (auto simp: is_head_def grouped_state split: if_splits)
  have "block_ok ?st x" if x: "is_head ?st x" for x
  proof (cases "x = i")
    case True
    then show ?thesis using i k by (auto simp: block_ok_def grouped_state)
  next
    case False
    have hx: "is_head st x" "x < mem_nr_pages st" "ord_of ?st x = ord_of st x"
      using x head False by (auto simp: is_head_def grouped_state)
    note K = blocks_okD [OF B hx(1)]
    have "st_of ?st y = PG_TAIL" if "x < y" "y < x + 2 ^ ord_of st x" for y
    proof -
      have "y < mem_nr_pages st" "st_of st y = PG_TAIL" using K(3,4) that by auto
      then show ?thesis using tail by (auto simp: grouped_state)
    qed
    then show ?thesis using K hx by (auto simp: block_ok_def)
  qed
  moreover have "\<exists>x. is_head ?st x \<and> x < y \<and> y < x + 2 ^ ord_of ?st x"
    if y: "y < mem_nr_pages st" "st_of ?st y = PG_TAIL" for y
  proof (cases "i < y \<and> y < i + 2 ^ k")
    case True
    have "is_head ?st i" using D(1) [of i] \<open>i \<in> M\<close> i by (simp add: is_head_def grouped_state)
    then show ?thesis using True i by (auto simp: grouped_state)
  next
    case False
    then have t: "st_of st y = PG_TAIL" using y by (auto simp: grouped_state split: if_splits)
    obtain x where x: "is_head st x" "x < y" "y < x + 2 ^ ord_of st x" by (rule tail_block [OF B y(1) t])
    have "x < i" using tail [OF y(1) t] x(2) by simp
    then show ?thesis using x head i by (intro exI [of _ x]) (auto simp: is_head_def grouped_state)
  qed
  ultimately show ?thesis by (auto simp: blocks_ok_def)
qed

lemma grouped_lists_ok:
  assumes inv: "group_inv M i st" and sub: "{i..<i + 2 ^ k} \<subseteq> M" and l: "lists_ok {x \<in> M. i \<le> x} st fl"
  shows "lists_ok (insert i {x \<in> M. i + 2 ^ k \<le> x}) (grouped i k st) fl"
proof (rule lists_ok_frame [OF l])
  note D = group_invD [OF inv]
  have low: "x < i" if "x < mem_nr_pages st" "st_of st x = PG_BUDDY" "x \<notin> {x \<in> M. i \<le> x}" for x
    using D [OF that(1)] that(2,3) by (cases "i \<le> x") auto
  show "mem_map (grouped i k st) ! x = mem_map st ! x" if "j \<le> PAGE_MAX_ORDER" "x \<in> set (fl j)" for j x
    using lists_ok_member [OF l that] low [of x] by (simp add: nth_grouped)
  show "free_set (grouped i k st) j - insert i {x \<in> M. i + 2 ^ k \<le> x} = free_set st j - {x \<in> M. i \<le> x}"
    if "j \<le> PAGE_MAX_ORDER" for j
  proof (intro set_eqI iffI)
    fix x assume x: "x \<in> free_set (grouped i k st) j - insert i {x \<in> M. i + 2 ^ k \<le> x}"
    then have "x < mem_nr_pages st" "x \<noteq> i" "st_of st x = PG_BUDDY" "ord_of st x = j" "\<not> (i < x \<and> x < i + 2 ^ k)"
      by (auto simp: free_set_def grouped_state split: if_splits)
    moreover from this have "x < i" using D [of x] x by (cases "i + 2 ^ k \<le> x") (auto split: if_splits)
    ultimately show "x \<in> free_set st j - {x \<in> M. i \<le> x}" by (auto simp: free_set_def)
  next
    fix x assume x: "x \<in> free_set st j - {x \<in> M. i \<le> x}"
    then have "x < i" using low [of x] by (auto simp: free_set_def)
    then show "x \<in> free_set (grouped i k st) j - insert i {x \<in> M. i + 2 ^ k \<le> x}"
      using x by (auto simp: free_set_def grouped_state)
  qed
qed simp_all

lemma grouped_free_frames:
  assumes inv: "group_inv M i st" and sub: "{i..<i + 2 ^ k} \<subseteq> M"
  shows "free_frames (grouped i k st) = M"
proof (intro set_eqI iffI)
  have n: "M \<subseteq> {..<mem_nr_pages st}" and F: "free_frames st = M" using inv by (auto simp: group_inv_def)
  have "i \<in> M" using sub by auto
  then have i: "i < mem_nr_pages st" "st_of st i = PG_BUDDY" using n group_invD(1) [OF inv, of i] by auto
  fix y
  {
    assume "y \<in> free_frames (grouped i k st)"
    then obtain x where x: "x < mem_nr_pages st" "st_of (grouped i k st) x = PG_BUDDY" "x \<le> y"
      "y < x + 2 ^ ord_of (grouped i k st) x" by (auto simp: in_free_frames)
    show "y \<in> M"
    proof (cases "x = i")
      case True
      then have "y \<in> {i..<i + 2 ^ k}" using x by (simp add: grouped_state)
      then show ?thesis using sub by blast
    next
      case False
      then have "y \<in> free_frames st" using x unfolding in_free_frames
        by (intro exI [of _ x]) (auto simp: grouped_state split: if_splits)
      then show ?thesis using F by simp
    qed
  next
    assume "y \<in> M"
    then obtain x where x: "x < mem_nr_pages st" "st_of st x = PG_BUDDY" "x \<le> y" "y < x + 2 ^ ord_of st x"
      using F by (auto simp: in_free_frames [symmetric]) (metis in_free_frames)
    show "y \<in> free_frames (grouped i k st)"
    proof (cases "i \<le> x \<and> x < i + 2 ^ k")
      case True
      then have "x \<in> M" using sub by auto
      then have "y = x" using group_invD(2) [OF inv x(1)] True x by simp
      then show ?thesis unfolding in_free_frames using True i by (intro exI [of _ i]) (simp add: grouped_state)
    next
      case False
      then show ?thesis unfolding in_free_frames using x by (intro exI [of _ x]) (auto simp: grouped_state)
    qed
  }
qed

lemma free_frames_core: "core st' = core st \<Longrightarrow> free_frames st' = free_frames st"
  by (simp only: free_frames_def free_blocks_def free_set_core)

lemma group_inv_block:
  assumes inv: "group_inv M i st" and sub: "{i..<i + 2 ^ k} \<subseteq> M" and k: "k \<le> PAGE_MAX_ORDER" "2 ^ k dvd i" and mx: "maximal M i k"
  shows "\<exists>st'. insert_free (grouped i k st) i = Ok st' \<and> group_inv M (i + 2 ^ k) st' \<and> mem_nr_pages st' = mem_nr_pages st"
proof -
  let ?st = "grouped i k st"
  obtain fl where fl: "lists_ok {x \<in> M. i \<le> x} st fl" using inv by (auto simp: group_inv_def)
  have n: "M \<subseteq> {..<mem_nr_pages st}" using inv by (auto simp: group_inv_def)
  have "i \<in> M" using sub by auto
  then have i: "i < mem_nr_pages st" "st_of ?st i = PG_BUDDY" "ord_of ?st i = k"
    using n group_invD(1) [OF inv, of i] by (auto simp: grouped_state)
  obtain st' where st': "insert_free ?st i = Ok st'"
    "lists_ok (insert i {x \<in> M. i + 2 ^ k \<le> x} - {i}) st' (fl(k := i # fl k))"
    using insert_free_lists [OF grouped_lists_ok [OF inv sub fl], of i] i k by auto
  have "core st' = (core ?st)[i := (PG_BUDDY, k)]" using insert_free_core [OF st'(1)] i by simp
  also have "\<dots> = core ?st" using i by (metis core_nth grouped_simps(1) list_update_id)
  finally have c: "core st' = core ?st" .
  have m: "mem_nr_pages st' = mem_nr_pages st" using mem_nr_pages_core [OF c] by simp
  have S: "st_of st' x = st_of ?st x" "ord_of st' x = ord_of ?st x" if "x < mem_nr_pages st" for x
    using that c m st_ord_core [of x st'] st_ord_core [of x ?st] by simp_all
  have "insert i {x \<in> M. i + 2 ^ k \<le> x} - {i} = {x \<in> M. i + 2 ^ k \<le> x}" by auto
  then have L: "lists_ok {x \<in> M. i + 2 ^ k \<le> x} st' (fl(k := i # fl k))" using st'(2) by simp
  have "group_inv M (i + 2 ^ k) st'"
    unfolding group_inv_def
  proof (intro conjI allI impI)
    show "blocks_ok st'" by (rule blocks_ok_cong [OF c grouped_blocks_ok [OF inv sub k]])
    show "free_frames st' = M" using free_frames_core [OF c] grouped_free_frames [OF inv sub] by simp
    show "if x \<in> M then st_of st' x = PG_BUDDY \<and> ord_of st' x = 0 else st_of st' x = PG_RESERVED"
      if x: "x < mem_nr_pages st'" "i + 2 ^ k \<le> x" for x
    proof -
      have "x \<noteq> i" using x(2) by auto
      then show ?thesis using x m S [of x] group_invD [OF inv, of x] by (auto simp: grouped_state)
    qed
    show "st_of st' x \<noteq> PG_ALLOCATED" if "x < mem_nr_pages st'" for x
      using that m S [of x] inv by (auto simp: grouped_state group_inv_def)
    show "maximal M x (ord_of st' x)" if "x < mem_nr_pages st'" "x < i + 2 ^ k" "st_of st' x = PG_BUDDY" for x
      using that m S [of x] inv mx by (cases "x = i") (auto simp: grouped_state group_inv_def split: if_splits)
  qed (use L m n in auto)
  then show ?thesis using st'(1) m by blast
qed

lemma group_at_spec:
  assumes inv: "group_inv M i st" and i: "i \<in> M"
  shows "\<exists>n st'. group_at st i = Ok (n, st') \<and> {i..<i + n} \<subseteq> M \<and> group_inv M (i + n) st'"
proof -
  define e where "e = (if i + 2 ^ alignment_order i \<le> mem_nr_pages st then i + 2 ^ alignment_order i else mem_nr_pages st)"
  define count where "count = free_run st i e - i"
  define k where "k = nat (length_order count)"
  have n: "M \<subseteq> {..<mem_nr_pages st}" using inv by (auto simp: group_inv_def)
  have lt: "i < mem_nr_pages st" "st_of st i = PG_BUDDY" using i n group_invD(1) [OF inv, of i] by auto
  have e: "i < e" "e \<le> mem_nr_pages st" "e \<le> i + 2 ^ alignment_order i" using lt by (auto simp: e_def)
  have run: "i < free_run st i e" "free_run st i e \<le> e" "\<And>x. i \<le> x \<Longrightarrow> x < free_run st i e \<Longrightarrow> st_of st x = PG_BUDDY"
    "free_run st i e < e \<Longrightarrow> st_of st (free_run st i e) \<noteq> PG_BUDDY"
    using free_run_spec [of i e st] e(1) lt(2) by auto
  have c: "0 < count" "count \<le> 2 ^ alignment_order i" using run e by (auto simp: count_def)
  have "(2::nat) ^ alignment_order i \<le> 2 ^ 10"
    using alignment_order_le [of i] by (intro power_increasing) (simp_all add: PAGE_MAX_ORDER_def)
  then have "count < 2 ^ 64" using c(2) by simp
  note K = length_order_bounds [OF c(1) this, folded k_def]
  have al: "k \<le> alignment_order i"
    using K(1) c(2) by (meson le_trans one_less_numeral_iff power_le_imp_le_exp semiring_norm(76))
  have k: "k \<le> PAGE_MAX_ORDER" "2 ^ k dvd i"
    using al alignment_order_le [of i] pow_alignment_dvd [of i] by (auto intro: dvd_trans le_imp_power_dvd)
  have sub: "{i..<i + 2 ^ k} \<subseteq> M"
  proof
    fix x assume x: "x \<in> {i..<i + 2 ^ k}"
    then have "x < free_run st i e" using K(1) by (auto simp: count_def)
    then show "x \<in> M" using run(2,3) e(2) x group_invD(3) [OF inv, of x] by fastforce
  qed
  have "maximal M i k" unfolding maximal_def
  proof (rule ccontr, unfold de_Morgan_disj not_not, elim conjE)
    assume c: "k \<noteq> PAGE_MAX_ORDER" "2 ^ Suc k dvd i" "{i..<i + 2 ^ Suc k} \<subseteq> M"
    then have "k < alignment_order i" using k(1) alignment_order_dvd [of k i] by simp
    then have "(2 :: nat) ^ Suc k \<le> 2 ^ alignment_order i" by (intro power_increasing) simp_all
    moreover have "0 < (2 :: nat) ^ Suc k" by simp
    then have "i + 2 ^ Suc k - 1 \<in> {i..<i + 2 ^ Suc k}" unfolding atLeastLessThan_iff by linarith
    then have "i + 2 ^ Suc k - 1 < mem_nr_pages st" using c(3) n by blast
    ultimately have e2: "i + 2 ^ Suc k \<le> e" by (auto simp: e_def)
    have "free_run st i e < i + 2 ^ Suc k" using K(2) run(1) by (simp add: count_def)
    then have "free_run st i e \<in> M" "free_run st i e < e" using c(3) run(1) e2 by auto
    then show False using run(1, 4) group_invD(1) [OF inv, of "free_run st i e"] n by auto
  qed
  note block = group_inv_block [OF inv sub k this]
  have "i + 2 ^ k \<le> mem_nr_pages (page_upd i (\<lambda>q. q\<lparr>pg_order := k\<rparr>) st)"
    using K(1) run(2) e(2) c(1) by (simp add: count_def)
  then have "mark_tails (page_upd i (\<lambda>q. q\<lparr>pg_order := k\<rparr>) st) (i + 1) (i + 2 ^ k) = Ok (grouped i k st)"
    by (simp add: mark_tails_eq grouped_def)
  then show ?thesis
    using block sub
    by (auto simp: group_at_def Let_def e_def [symmetric] count_def [symmetric] k_def [symmetric])
qed

lemma group_pages_spec:
  assumes "group_inv M i st" and "i \<le> mem_nr_pages st"
  shows "\<exists>st'. group_pages st i a = Ok (a + card {x \<in> M. i \<le> x}, st') \<and> group_inv M (mem_nr_pages st') st'"
  using assms
proof (induction st i a rule: group_pages.induct)
  case (1 st i a)
  have n: "M \<subseteq> {..<mem_nr_pages st}" using 1(3) by (auto simp: group_inv_def)
  then have fin: "finite M" by (rule finite_subset) simp
  consider "i = mem_nr_pages st" | "i < mem_nr_pages st" "i \<notin> M" | "i < mem_nr_pages st" "i \<in> M" using 1(4) by linarith
  then show ?case
  proof cases
    case c: 1
    then have e: "{x \<in> M. i \<le> x} = {}" using n by auto
    have "card {x \<in> M. i \<le> x} = 0" unfolding e by simp
    then show ?thesis using c 1(3) by (subst group_pages.simps) simp
  next
    case 2
    then have s: "st_of st i \<noteq> PG_BUDDY" using group_invD(3) [OF 1(3)] by simp
    have eq: "{x \<in> M. i \<le> x} = {x \<in> M. i + 1 \<le> x}"
      using 2(2) le_eq_less_or_eq by auto
    have "group_inv M (i + 1) st" using 1(3) eq s by (auto simp: group_inv_def less_Suc_eq)
    then show ?thesis using 1(1) [OF 2(1) s] 2 s eq by (subst group_pages.simps) simp
  next
    case 3
    then have s: "st_of st i = PG_BUDDY" using group_invD(1) [OF 1(3)] by simp
    obtain m st' where g: "group_at st i = Ok (m, st')" "{i..<i + m} \<subseteq> M" "group_inv M (i + m) st'"
      using group_at_spec [OF 1(3) 3(2)] by blast
    have eq: "{x \<in> M. i \<le> x} = {i..<i + m} \<union> {x \<in> M. i + m \<le> x}" using g(2) by auto
    have c: "card {x \<in> M. i \<le> x} = m + card {x \<in> M. i + m \<le> x}"
      unfolding eq using fin by (subst card_Un_disjoint) auto
    have p: "0 < m" "mem_nr_pages st' = mem_nr_pages st" using group_at_progress [OF g(1)] by auto
    have "i + m - 1 \<in> M" using g(2) p(1) by auto
    then have "i + m \<le> mem_nr_pages st'" using n p by auto
    then show ?thesis using 1(2) [OF 3(1) _ g(1) refl g(3)] s g(1) 3(1) c
      by (subst group_pages.simps) (simp add: add.assoc)
  qed
qed

section \<open>Initialisation\<close>

text \<open>The state \<^verbatim>\<open>mem_init\<close> leaves behind: every page reserved, the free lists empty.\<close>

definition all_reserved :: "buddy \<Rightarrow> bool" where
  "all_reserved st \<longleftrightarrow> (\<forall>x < mem_nr_pages st. st_of st x = PG_RESERVED) \<and>
     free_matrix st = replicate (Suc PAGE_MAX_ORDER) None"

lemma group_inv_start:
  assumes st: "all_reserved st" and M: "M \<subseteq> {..<mem_nr_pages st}"
  shows "group_inv M 0 (pages_upd M to_free st)"
proof -
  let ?st = "pages_upd M to_free st"
  have S: "st_of ?st x = (if x \<in> M then PG_BUDDY else PG_RESERVED)" "x \<in> M \<Longrightarrow> ord_of ?st x = 0"
    if "x < mem_nr_pages st" for x
    using that st by (auto simp: all_reserved_def)
  have "block_ok ?st x" if "is_head ?st x" for x
    using S [of x] that by (auto simp: block_ok_def is_head_def simp del: pages_upd_simps(3) split: if_splits)
  then have "blocks_ok ?st" using S by (auto simp: blocks_ok_def simp del: pages_upd_simps(3) split: if_splits)
  moreover have "lists_ok {x \<in> M. 0 \<le> x} ?st (\<lambda>_. [])"
    using st S by (auto simp: lists_ok_def all_reserved_def free_set_def nth_Cons' split: if_splits)
  moreover have "free_frames ?st = M"
  proof (intro set_eqI iffI)
    fix y assume "y \<in> free_frames ?st"
    then obtain x where x: "x < mem_nr_pages st" "st_of ?st x = PG_BUDDY" "x \<le> y" "y < x + 2 ^ ord_of ?st x"
      unfolding in_free_frames by auto
    have "x \<in> M" using x(2) S(1) [OF x(1)] by (auto split: if_splits)
    moreover from this have "y = x" using x(3,4) S(2) [OF x(1)] by simp
    ultimately show "y \<in> M" by simp
  next
    fix y assume "y \<in> M"
    then show "y \<in> free_frames ?st" using S [of y] M unfolding in_free_frames by (intro exI [of _ y]) auto
  qed
  ultimately show ?thesis using M S by (auto simp: group_inv_def simp del: pages_upd_simps(3))
qed

lemma buddy_inv_managed [simp]:
  "buddy_inv (st\<lparr>managed_mem := v\<rparr>) = buddy_inv st" "free_frames (st\<lparr>managed_mem := v\<rparr>) = free_frames st"
  "alloc_blocks (st\<lparr>managed_mem := v\<rparr>) = alloc_blocks st" "free_blocks (st\<lparr>managed_mem := v\<rparr>) = free_blocks st"
  by (simp_all add: buddy_inv_def inv_except_def blocks_ok_def block_ok_def is_head_def lists_ok_def free_set_def
      free_frames_def free_blocks_def alloc_blocks_def)

lemma group_pages_nr: "group_pages st i a = Ok (n, st') \<Longrightarrow> mem_nr_pages st' = mem_nr_pages st"
proof (induction st i a rule: group_pages.induct)
  case (1 st i a)
  show ?case
  proof (cases "i < mem_nr_pages st \<and> pg_state (mem_map st ! i) = PG_BUDDY")
    case True
    then obtain k st1 where g: "group_at st i = Ok (k, st1)" "group_pages st1 (i + k) (a + k) = Ok (n, st')"
      using "1.prems" by (subst (asm) group_pages.simps) auto
    show ?thesis using "1.IH"(2) [OF _ _ g(1) refl g(2)] True group_at_progress [OF g(1)] by auto
  next
    case False
    then show ?thesis using "1.IH"(1) "1.prems" by (subst (asm) (2) group_pages.simps) (auto split: if_splits)
  qed
qed

lemma buddy_init_spec:
  assumes bm: "bm_inv es bm" and k: "kernel_phys \<le> pool_end bm"
    and st: "all_reserved st" "4096 * mem_nr_pages st < 2 ^ 64"
  shows "\<exists>st'. buddy_init kernel_phys es bm st = Ok (0, bootmem_lock bm, st') \<and> buddy_inv st' \<and> alloc_blocks st' = {} \<and>
    free_frames st' = {f \<in> usable es 0. f < mem_nr_pages st \<and> \<not> (unat kernel_phys div 4096 \<le> f \<and> 4096 * f < unat (pool_end bm))} \<and>
    unat (managed_mem st') = 4096 * card (free_frames st') \<and> mem_nr_pages st' = mem_nr_pages st \<and> (\<forall>(x, k) \<in> free_blocks st'. maximal (free_frames st') x k)"
proof -
  define rs where "rs = unat (kernel_phys div PAGE_SIZE)"
  define re where "re = unat (DIV_UP (pool_end bm) PAGE_SIZE)"
  define M where "M = free_frames_of (mem_nr_pages st) rs re es"
  note B = bm [unfolded bm_inv_def]
  obtain p where p: "unat (pool_end bm) = 4096 * p" using B by blast
  have rs: "rs = unat kernel_phys div 4096" by (simp add: rs_def unat_div_eq)
  have re: "re = p" using B p by (simp add: re_def unat_DIV_UP PHYS_LIMIT_def)
  have "rs \<le> re" using div_le_mono [of "unat kernel_phys" "unat (pool_end bm)" 4096] k p rs re by (simp add: word_le_nat_alt)
  then have mark: "mark_entries rs re es (0, st) = Ok (card M, pages_upd M to_free st)"
    using mark_entries_eq [of es rs re 0 st] B by (simp add: M_def)
  have M: "M \<subseteq> {..<mem_nr_pages st}" by (auto simp: M_def free_frames_of_def)
  obtain st2 where g: "group_pages (pages_upd M to_free st) 0 0 = Ok (card M, st2)" "group_inv M (mem_nr_pages st2) st2"
    using group_pages_spec [OF group_inv_start [OF st(1) M], of 0] by auto
  have none: "{x \<in> M. mem_nr_pages st2 \<le> x} = {}" using g(2) by (auto simp: group_inv_def)
  have "\<exists>fl. lists_ok {} st2 fl" using g(2) unfolding group_inv_def none by blast
  then have inv: "buddy_inv st2" "alloc_blocks st2 = {}" "free_frames st2 = M" "\<forall>(x, k) \<in> free_blocks st2. maximal M x k"
    using g(2) by (auto simp: group_inv_def buddy_inv_def inv_except_def alloc_blocks_def free_blocks_def free_set_def)
  have cM: "card M \<le> mem_nr_pages st" using card_mono [OF _ M] by simp
  then have "unat (of_nat (card M) :: u64) = card M" using st(2) by (simp add: unat_of_nat)
  then have "unat (of_nat (card M) * PAGE_SIZE) = card M * 4096" using st(2) cM by (subst unat_mult_lt) simp_all
  moreover have "M = {f \<in> usable es 0. f < mem_nr_pages st \<and> \<not> (unat kernel_phys div 4096 \<le> f \<and> 4096 * f < unat (pool_end bm))}"
    by (auto simp: M_def free_frames_of_def rs re p)
  ultimately show ?thesis
    using mark g(1) inv group_pages_nr [OF g(1)]
    by (simp add: buddy_init_def Let_def bootmem_get_pool_end_def bootmem_lock_def rs_def [symmetric] re_def [symmetric])
qed

text \<open>
  Claim C11. Started on the reserved page array, \<^verbatim>\<open>buddy_init\<close> does not panic (the expected and the accounted page counts
  agree), locks the boot allocator and establishes the allocator invariant with nothing allocated. The free frames are exactly the
  usable RAM frames outside the kernel image and the boot pool, so no frame the boot allocator handed out is free, and the
  managed memory is their size. Every free block is as large as its alignment, the maximal order and the free frames after it allow.
\<close>

theorem buddy_init_correct:
  assumes bm: "bm_inv es bm" and k: "kernel_phys \<le> pool_start bm"
    and st: "all_reserved st" "4096 * mem_nr_pages st < 2 ^ 64"
  shows "\<exists>st'. buddy_init kernel_phys es bm st = Ok (0, bootmem_lock bm, st') \<and> buddy_inv st' \<and> alloc_blocks st' = {} \<and>
    free_frames st' = {f \<in> usable es 0. f < mem_nr_pages st \<and> \<not> (unat kernel_phys div 4096 \<le> f \<and> 4096 * f < unat (pool_end bm))} \<and>
    free_frames st' \<inter> bm_owned es bm = {} \<and> unat (managed_mem st') = 4096 * card (free_frames st') \<and> (\<forall>(x, k) \<in> free_blocks st'. maximal (free_frames st') x k)"
proof -
  have "kernel_phys \<le> pool_end bm" using bm k by (auto simp: bm_inv_def)
  moreover have "unat kernel_phys div 4096 \<le> f" if "f \<in> bm_owned es bm" for f
  proof -
    have "unat kernel_phys \<le> f * 4096" using that k by (auto simp: bm_owned_def usable_def word_le_nat_alt)
    then show ?thesis using div_le_mono [of "unat kernel_phys" "f * 4096" 4096] by simp
  qed
  ultimately show ?thesis
    using buddy_init_spec [OF bm _ st, of kernel_phys] by (auto simp: bm_owned_def)
qed

definition boot_buddy :: buddy where
  "boot_buddy = \<lparr>mem_map = replicate 640 \<lparr>pg_state = PG_RESERVED, pg_order = 0, pg_prev = None, pg_next = None\<rparr>,
     free_matrix = replicate (Suc PAGE_MAX_ORDER) None, managed_mem = 0\<rparr>"

theorem buddy_init_correct_witness:
  "\<exists>st'. buddy_init 0x200000 boot_map boot_pool boot_buddy = Ok (0, bootmem_lock boot_pool, st') \<and> buddy_inv st'"
proof -
  have "0x200000 \<le> pool_start boot_pool" "all_reserved boot_buddy" "4096 * mem_nr_pages boot_buddy < 2 ^ 64"
    by (simp_all add: boot_pool_def boot_buddy_def all_reserved_def)
  then show ?thesis using buddy_init_correct [OF boot_pool_inv] by blast
qed

end
