(* ===== verification/Mem.thy ===== *)
theory Mem
  imports Buddy_Init
begin

text \<open>
  The translation between page descriptors and direct-map addresses of \<^verbatim>\<open>mm/mem.c\<close>. A
  page descriptor is its page frame number, a NULL descriptor is \<open>None\<close>: subtracting \<^verbatim>\<open>mem_map\<close> from
  it is undefined, which is the error \<^const>\<open>NullDeref\<close>.
\<close>

definition page_to_hhdm :: "nat option \<Rightarrow> u64 kres" where
  "page_to_hhdm page =
     (case page of None \<Rightarrow> Err NullDeref | Some pfn \<Rightarrow> Ok (of_nat pfn * PAGE_SIZE + HHDM_BASE))"

definition hhdm_to_page :: "u64 \<Rightarrow> nat" where
  "hhdm_to_page hhdm = unat ((hhdm - HHDM_BASE) div PAGE_SIZE)"

lemma hhdm_to_page_phys: "hhdm_to_page (a + HHDM_BASE) = unat a div 4096"
  by (simp add: hhdm_to_page_def unat_div_eq)

text \<open>
  For every page frame of the physical address space the direct-map address of its descriptor is page
  aligned and maps back to the descriptor, and its physical address is the frame's.
\<close>

theorem page_hhdm_roundtrip:
  assumes "4096 * pfn < 2 ^ 64"
  shows "\<exists>a. page_to_hhdm (Some pfn) = Ok a \<and> hhdm_to_page a = pfn \<and> unat (hhdm_to_phys a) = 4096 * pfn"
proof -
  have "unat (of_nat pfn :: u64) = pfn" using assms by (simp add: unat_of_nat)
  then have "unat (of_nat pfn * PAGE_SIZE) = pfn * 4096" using assms by (subst unat_mult_lt) simp_all
  then show ?thesis
    by (simp add: page_to_hhdm_def hhdm_to_page_phys hhdm_to_phys_def)
qed

theorem page_hhdm_roundtrip_witness:
  "\<exists>a. page_to_hhdm (Some 0x250) = Ok a \<and> hhdm_to_page a = 0x250 \<and> unat (hhdm_to_phys a) = 0x250000"
  using page_hhdm_roundtrip [of "0x250"] by simp

end
