(* ===== verification/Vmm.thy ===== *)
theory Vmm
  imports Mem
begin

text \<open>
  The page-table code of \<^verbatim>\<open>arch/x86/vmm.c\<close>. Physical memory is a store of 64-bit words by physical
  address (tables are page aligned and accessed word-wise). The kernel dereferences pointers in three windows, the
  kernel image, the direct map and the low identity map; \<open>mmu\<close> gives the physical address behind
  such a pointer. The windows of the kernel image and, once it is built, of the direct map hold every table; that the identity map
  ends at \<^verbatim>\<open>low_map_end\<close> matters while the direct map is built, where an access behind it is a page fault. The state of the memory subsystem is one record: physical memory, the control
  registers the code writes, the state machine of the file, and the states of the two allocators the code calls. The static tables are placed by
  the linker and passed as their addresses. The TLB is not modelled.
\<close>

section \<open>Constants (vmm.h, vmm.c, linker.ld)\<close>

definition PT_PRESENT :: u64 where "PT_PRESENT = 1"
definition PT_WRITABLE :: u64 where "PT_WRITABLE = 2"
definition PT_USER :: u64 where "PT_USER = 4"
definition PT_PWT :: u64 where "PT_PWT = 8"
definition PT_PCD :: u64 where "PT_PCD = 16"
definition PT_PSE :: u64 where "PT_PSE = 128"
definition PT_GLOBAL :: u64 where "PT_GLOBAL = 256"
definition PT_NX :: u64 where "PT_NX = 0x8000000000000000"

definition KERN_PML4 :: u64 where "KERN_PML4 = 0xFFFFFFFFFFFFFFFF"

definition FLAGS_MASK :: u64 where "FLAGS_MASK = 0x8000000000000FFF"
definition LARGE_PAGE_SIZE :: u64 where "LARGE_PAGE_SIZE = 0x200000"
definition LARGE_FLAGS_MASK :: u64 where "LARGE_FLAGS_MASK = 0x80000000001FFFFF"
definition CR3_ADDR_MASK :: u64 where "CR3_ADDR_MASK = 0x000FFFFFFFFFF000"

definition KERNEL_PHYS :: u64 where "KERNEL_PHYS = 0x200000"
definition kernel_vma_start :: u64 where "kernel_vma_start = 0xFFFFFFFF80000000"

section \<open>State\<close>

datatype vmm_state = VMM_EARLY | VMM_IDENTITY | VMM_TRANSITION | VMM_VIRTUAL_ONLY | VMM_READY

fun vmm_rank :: "vmm_state \<Rightarrow> nat" where
  "vmm_rank VMM_EARLY = 0"
| "vmm_rank VMM_IDENTITY = 1"
| "vmm_rank VMM_TRANSITION = 2"
| "vmm_rank VMM_VIRTUAL_ONLY = 3"
| "vmm_rank VMM_READY = 4"

instantiation vmm_state :: linorder
begin

definition less_eq_vmm_state :: "vmm_state \<Rightarrow> vmm_state \<Rightarrow> bool" where
  "less_eq_vmm_state a b \<longleftrightarrow> vmm_rank a \<le> vmm_rank b"

definition less_vmm_state :: "vmm_state \<Rightarrow> vmm_state \<Rightarrow> bool" where
  "less_vmm_state a b \<longleftrightarrow> vmm_rank a < vmm_rank b"

instance
proof
  fix a b :: vmm_state
  show "a \<le> b \<Longrightarrow> b \<le> a \<Longrightarrow> a = b"
    by (cases a; cases b) (simp_all add: less_eq_vmm_state_def)
qed (auto simp: less_eq_vmm_state_def less_vmm_state_def)

end

record tables =
  kern_pml4 :: u64
  pdpt_low :: u64
  pd_low :: u64
  pdpt_kern :: u64
  pd_kern :: u64

record kmem =
  pmem :: "u64 \<Rightarrow> u64"
  vstate :: vmm_state
  low_map_end :: u64
  cr3 :: u64
  cr4 :: u64
  efer :: u64
  k_bm :: bootmem
  k_bd :: buddy

definition mmu :: "u64 \<Rightarrow> u64" where
  "mmu v = (if v \<ge> kernel_vma_start then v - kernel_vma_start + KERNEL_PHYS
            else if v \<ge> HHDM_BASE then v - HHDM_BASE else v)"

definition tload :: "kmem \<Rightarrow> u64 \<Rightarrow> u64 \<Rightarrow> u64" where
  "tload st t idx = pmem st (mmu t + 8 * idx)"

definition tstore :: "u64 \<Rightarrow> u64 \<Rightarrow> u64 \<Rightarrow> kmem \<Rightarrow> kmem" where
  "tstore t idx v st = st\<lparr>pmem := (pmem st)(mmu t + 8 * idx := v)\<rparr>"

text \<open>\<^verbatim>\<open>memset(table, 0, PAGE_SIZE)\<close>\<close>

definition tzero :: "u64 \<Rightarrow> kmem \<Rightarrow> kmem" where
  "tzero t st = st\<lparr>pmem := (\<lambda>a. if mmu t \<le> a \<and> a < mmu t + PAGE_SIZE then 0 else pmem st a)\<rparr>"

section \<open>Address conversions\<close>

definition virt_to_phys :: "u64 \<Rightarrow> u64" where
  "virt_to_phys virt =
     (if virt \<ge> kernel_vma_start then virt + KERNEL_PHYS - kernel_vma_start
      else if virt \<ge> HHDM_BASE then (virt - HHDM_BASE) AND NOT FLAGS_MASK
      else virt AND NOT FLAGS_MASK)"

definition phys_to_virt :: "kmem \<Rightarrow> u64 \<Rightarrow> u64" where
  "phys_to_virt st phys = (if vstate st \<ge> VMM_TRANSITION then phys + HHDM_BASE else phys)"

definition set_cr3 :: "u64 \<Rightarrow> kmem \<Rightarrow> kmem" where
  "set_cr3 pml4 st = st\<lparr>cr3 := pml4\<rparr>"

definition get_cr3 :: "kmem \<Rightarrow> u64" where
  "get_cr3 st = cr3 st"

section \<open>Initialisation\<close>

definition map_low_identity :: "tables \<Rightarrow> kmem \<Rightarrow> kmem" where
  "map_low_identity ts st =
     (let st1 = tstore (kern_pml4 ts) 0 (virt_to_phys (pdpt_low ts) OR PT_PRESENT OR PT_WRITABLE) st;
          st2 = tstore (pdpt_low ts) 0 (virt_to_phys (pd_low ts) OR PT_PRESENT OR PT_WRITABLE) st1;
          st3 = fold (\<lambda>i. tstore (pd_low ts) (of_nat i)
                   ((of_nat i * 0x200000) OR PT_PRESENT OR PT_WRITABLE OR PT_PSE)) [0..<512] st2
      in st3\<lparr>vstate := VMM_IDENTITY, low_map_end := 512 * 0x200000\<rparr>)"

definition pt_index :: "nat \<Rightarrow> u64 \<Rightarrow> u64" where
  "pt_index sh virt = drop_bit sh virt AND 0x1FF"

definition map_kernel :: "tables \<Rightarrow> kmem \<Rightarrow> kmem" where
  "map_kernel ts st =
     (let st1 = tstore (kern_pml4 ts) (pt_index 39 kernel_vma_start) (virt_to_phys (pdpt_kern ts) OR PT_PRESENT OR PT_WRITABLE) st;
          st2 = tstore (pdpt_kern ts) (pt_index 30 kernel_vma_start) (virt_to_phys (pd_kern ts) OR PT_PRESENT OR PT_WRITABLE) st1
      in tstore (pd_kern ts) (pt_index 21 kernel_vma_start)
           (KERNEL_PHYS OR PT_PRESENT OR PT_WRITABLE OR PT_PSE OR PT_GLOBAL) st2)"

definition enable_nxe :: "kmem \<Rightarrow> kmem" where
  "enable_nxe st = st\<lparr>efer := efer st OR push_bit 11 1\<rparr>"

definition enable_pge :: "kmem \<Rightarrow> kmem" where
  "enable_pge st = st\<lparr>cr4 := cr4 st OR push_bit 7 1\<rparr>"

definition vmm_init :: "tables \<Rightarrow> kmem \<Rightarrow> kmem" where
  "vmm_init ts st =
     set_cr3 (virt_to_phys (kern_pml4 ts)) (map_kernel ts (map_low_identity ts (enable_pge (enable_nxe st))))"

definition vmm_get_low_map_end :: "kmem \<Rightarrow> u64" where
  "vmm_get_low_map_end st = low_map_end st"

section \<open>Tables\<close>

definition alloc_table :: "e820_entry list \<Rightarrow> kmem \<Rightarrow> (u64 \<times> kmem) kres" where
  "alloc_table es st =
     (if vstate st = VMM_IDENTITY then
        rbind (bootmem_alloc_page_phys es (k_bm st)) (\<lambda>(a, bm). Ok (a, st\<lparr>k_bm := bm\<rparr>))
      else if vstate st = VMM_TRANSITION \<or> vstate st = VMM_VIRTUAL_ONLY then
        rbind (bootmem_alloc_page es (k_bm st)) (\<lambda>(a, bm). Ok (a, st\<lparr>k_bm := bm\<rparr>))
      else if vstate st = VMM_READY then
        rbind (alloc_pages (k_bd st) 0) (\<lambda>(page, bd).
        rbind (page_to_hhdm page) (\<lambda>a. Ok (a, st\<lparr>k_bd := bd\<rparr>)))
      else Ok (0, st))"

definition get_or_create_table :: "e820_entry list \<Rightarrow> u64 \<Rightarrow> u64 \<Rightarrow> kmem \<Rightarrow> (u64 \<times> kmem) kres" where
  "get_or_create_table es table idx st =
     (if vstate st < VMM_IDENTITY then Ok (0, st)
      else if idx \<ge> 512 then Ok (0, st)
      else
        let entry = tload st table idx
        in if entry AND PT_PRESENT \<noteq> 0 then
             if entry AND PT_PSE \<noteq> 0 then Ok (0, st)
             else Ok (phys_to_virt st (entry AND NOT FLAGS_MASK), st)
           else
             rbind (alloc_table es st) (\<lambda>(sub_table, st1).
               if sub_table = 0 then Ok (0, st1)
               else Ok (sub_table, tstore table idx (virt_to_phys sub_table OR PT_PRESENT OR PT_WRITABLE OR PT_USER)
                          (tzero sub_table st1))))"

definition get_or_create_pt :: "e820_entry list \<Rightarrow> u64 \<Rightarrow> u64 \<Rightarrow> kmem \<Rightarrow> (u64 \<times> kmem) kres" where
  "get_or_create_pt es pml4 virt st =
     rbind (get_or_create_table es pml4 (pt_index 39 virt) st) (\<lambda>(pdpt, st1).
       if pdpt = 0 then Ok (0, st1)
       else rbind (get_or_create_table es pdpt (pt_index 30 virt) st1) (\<lambda>(pd, st2).
         if pd = 0 then Ok (0, st2)
         else get_or_create_table es pd (pt_index 21 virt) st2))"

definition get_or_create_pd :: "e820_entry list \<Rightarrow> u64 \<Rightarrow> u64 \<Rightarrow> kmem \<Rightarrow> (u64 \<times> kmem) kres" where
  "get_or_create_pd es pml4 virt st =
     rbind (get_or_create_table es pml4 (pt_index 39 virt) st) (\<lambda>(pdpt, st1).
       if pdpt = 0 then Ok (0, st1)
       else get_or_create_table es pdpt (pt_index 30 virt) st1)"

section \<open>Mapping\<close>

definition set_page :: "e820_entry list \<Rightarrow> u64 \<Rightarrow> u64 \<Rightarrow> u64 \<Rightarrow> u64 \<Rightarrow> bool \<Rightarrow> kmem \<Rightarrow> (int \<times> kmem) kres" where
  "set_page es pml4 virt phys flags overwrite st =
     (if virt AND (PAGE_SIZE - 1) \<noteq> 0 then Ok (-1, st)
      else if phys AND (PAGE_SIZE - 1) \<noteq> 0 then Ok (-1, st)
      else rbind (get_or_create_pt es pml4 virt st) (\<lambda>(pt, st1).
        if pt = 0 then Ok (-1, st1)
        else
          let idx = pt_index 12 virt
          in if \<not> overwrite \<and> tload st1 pt idx AND PT_PRESENT \<noteq> 0 then Ok (-1, st1)
             else Ok (0, tstore pt idx ((phys AND NOT FLAGS_MASK) OR flags) st1)))"

definition set_large_page :: "e820_entry list \<Rightarrow> u64 \<Rightarrow> u64 \<Rightarrow> u64 \<Rightarrow> u64 \<Rightarrow> bool \<Rightarrow> kmem \<Rightarrow> (int \<times> kmem) kres" where
  "set_large_page es pml4 virt phys flags overwrite st =
     (if virt AND (LARGE_PAGE_SIZE - 1) \<noteq> 0 then Ok (-1, st)
      else if phys AND (LARGE_PAGE_SIZE - 1) \<noteq> 0 then Ok (-1, st)
      else rbind (get_or_create_pd es pml4 virt st) (\<lambda>(pd, st1).
        if pd = 0 then Ok (-1, st1)
        else
          let idx = pt_index 21 virt
          in if \<not> overwrite \<and> tload st1 pd idx AND PT_PRESENT \<noteq> 0 then Ok (-1, st1)
             else Ok (0, tstore pd idx ((phys AND NOT LARGE_FLAGS_MASK) OR flags OR PT_PSE) st1)))"

text \<open>The mapping loops step through an aligned size, so they run \<open>size / step\<close> times.\<close>

fun set_pages_loop :: "(u64 \<Rightarrow> kmem \<Rightarrow> (int \<times> kmem) kres) \<Rightarrow> u64 \<Rightarrow> nat \<Rightarrow> u64 \<Rightarrow> u64 \<Rightarrow> kmem \<Rightarrow> (u64 \<times> kmem) kres" where
  "set_pages_loop set_one step 0 i failed st = Ok (failed, st)"
| "set_pages_loop set_one step (Suc n) i failed st =
     rbind (set_one i st) (\<lambda>(code, st1).
       set_pages_loop set_one step n (i + step) (if code \<noteq> 0 then failed + step else failed) st1)"

definition set_pages :: "e820_entry list \<Rightarrow> u64 \<Rightarrow> u64 \<Rightarrow> u64 \<Rightarrow> u64 \<Rightarrow> u64 \<Rightarrow> bool \<Rightarrow> kmem \<Rightarrow> (u64 \<times> kmem) kres" where
  "set_pages es pml4 virt phys sz flags overwrite st =
     (if virt AND (PAGE_SIZE - 1) \<noteq> 0 then Ok (sz, st)
      else if phys AND (PAGE_SIZE - 1) \<noteq> 0 then Ok (sz, st)
      else if sz AND (PAGE_SIZE - 1) \<noteq> 0 then Ok (sz, st)
      else set_pages_loop (\<lambda>i. set_page es pml4 (virt + i) (phys + i) flags overwrite) PAGE_SIZE
             (unat sz div 0x1000) 0 0 st)"

definition set_large_pages :: "e820_entry list \<Rightarrow> u64 \<Rightarrow> u64 \<Rightarrow> u64 \<Rightarrow> u64 \<Rightarrow> u64 \<Rightarrow> bool \<Rightarrow> kmem \<Rightarrow> (u64 \<times> kmem) kres" where
  "set_large_pages es pml4 virt phys sz flags overwrite st =
     (if virt AND (LARGE_PAGE_SIZE - 1) \<noteq> 0 then Ok (sz, st)
      else if phys AND (LARGE_PAGE_SIZE - 1) \<noteq> 0 then Ok (sz, st)
      else if sz AND (LARGE_PAGE_SIZE - 1) \<noteq> 0 then Ok (sz, st)
      else set_pages_loop (\<lambda>i. set_large_page es pml4 (virt + i) (phys + i) flags overwrite) LARGE_PAGE_SIZE
             (unat sz div 0x200000) 0 0 st)"

text \<open>
  The page-unaligned ends of a range are skipped and counted as failed: the aligned start, the
  offset it moved by, the aligned end, and the bytes that failed.
\<close>

definition trim_range :: "u64 \<Rightarrow> u64 \<Rightarrow> u64 \<times> u64 \<times> u64 \<times> u64" where
  "trim_range virt virt_end =
     (let off = (if virt AND (PAGE_SIZE - 1) \<noteq> 0 then ROUND_UP virt PAGE_SIZE - virt else 0);
          eoff = (if virt_end AND (PAGE_SIZE - 1) \<noteq> 0 then virt_end - ROUND_DOWN virt_end PAGE_SIZE else 0)
      in (virt + off, off, virt_end - eoff, off + eoff))"

definition set_range :: "e820_entry list \<Rightarrow> u64 \<Rightarrow> u64 \<Rightarrow> u64 \<Rightarrow> u64 \<Rightarrow> u64 \<Rightarrow> bool \<Rightarrow> kmem \<Rightarrow> (u64 \<times> kmem) kres" where
  "set_range es pml4 virt0 phys0 sz flags overwrite st =
     (if virt0 AND (LARGE_PAGE_SIZE - 1) \<noteq> phys0 AND (LARGE_PAGE_SIZE - 1) then Ok (sz, st)
      else
        let (virt, off, virt_end, failed) = trim_range virt0 (virt0 + sz);
            phys = phys0 + off
        in if virt \<ge> virt_end then Ok (sz, st)
           else
             let large_virt = ROUND_UP virt LARGE_PAGE_SIZE;
                 large_phys = ROUND_UP phys LARGE_PAGE_SIZE;
                 large_virt_end = ROUND_DOWN virt_end LARGE_PAGE_SIZE;
                 large_size = (if large_virt_end > large_virt then large_virt_end - large_virt else 0);
                 pre_pad_end = (if large_virt < virt_end then large_virt else virt_end);
                 pre_pad_size = (if pre_pad_end > virt then pre_pad_end - virt else 0);
                 pos_pad_virt = large_virt + large_size;
                 pos_pad_phys = large_phys + large_size;
                 pos_pad_size = (if virt_end > pos_pad_virt then virt_end - pos_pad_virt else 0)
             in rbind (if pre_pad_size \<noteq> 0 then set_pages es pml4 virt phys pre_pad_size flags overwrite st else Ok (0, st)) (\<lambda>(f1, st1).
                rbind (if large_size \<noteq> 0 then set_large_pages es pml4 large_virt large_phys large_size flags overwrite st1 else Ok (0, st1)) (\<lambda>(f2, st2).
                rbind (if pos_pad_size \<noteq> 0 then set_pages es pml4 pos_pad_virt pos_pad_phys pos_pad_size flags overwrite st2 else Ok (0, st2)) (\<lambda>(f3, st3).
                  Ok (failed + f1 + f2 + f3, st3)))))"

definition hhdm_flags :: "u32 \<Rightarrow> u64" where
  "hhdm_flags t =
     (let flags = PT_PRESENT OR PT_GLOBAL OR PT_NX
      in if t = E820_TYPE_RAM then flags OR PT_WRITABLE
         else if t = E820_TYPE_NVS \<or> t = E820_TYPE_ACPI then flags
         else PT_PCD OR PT_PWT)"

fun map_hhdm_entries :: "e820_entry list \<Rightarrow> u64 \<Rightarrow> e820_entry list \<Rightarrow> u64 \<Rightarrow> kmem \<Rightarrow> (u64 \<times> kmem) kres" where
  "map_hhdm_entries es pml4 [] failed st = Ok (failed, st)"
| "map_hhdm_entries es pml4 (e # rest) failed st =
     rbind (set_range es pml4 (HHDM_BASE + e_addr e) (e_addr e) (e_size e) (hhdm_flags (e_type e)) False st)
       (\<lambda>(f, st1). map_hhdm_entries es pml4 rest (failed + f) st1)"

text \<open>
  While the low identity map is used, a fresh table is cleared through its physical address, which is mapped below \<^verbatim>\<open>low_map_end\<close>
  only; an access behind it is a page fault, on which \<^verbatim>\<open>__isr_dispatch\<close> panics. The boot allocator gives frames in ascending order, so a
  call has run into the fault exactly when the last frame it took lies behind the end of the map.
\<close>

abbreviation page_fault :: kerr where
  "page_fault \<equiv> Panic ''Unhandled exception with vector ID''"

definition identity_fault :: "kmem \<Rightarrow> kmem \<Rightarrow> bool" where
  "identity_fault st st' \<longleftrightarrow> pool_end (k_bm st') \<noteq> pool_end (k_bm st) \<and> low_map_end st' < pool_end (k_bm st')"

definition vmm_map_hhdm :: "tables \<Rightarrow> e820_entry list \<Rightarrow> kmem \<Rightarrow> (int \<times> kmem) kres" where
  "vmm_map_hhdm ts es st =
     (if vstate st \<noteq> VMM_IDENTITY then Ok (-1, st)
      else rbind (map_hhdm_entries es (kern_pml4 ts) es 0 st) (\<lambda>(failed, st1).
           rbind (set_range es (kern_pml4 ts) (HHDM_BASE + 0xA0000) 0xA0000 0x20000
                    (PT_PRESENT OR PT_WRITABLE OR PT_GLOBAL OR PT_NX OR PT_PCD OR PT_PWT) False st1) (\<lambda>(_, st2).
             if identity_fault st st2 then Err page_fault else
             let st3 = st2\<lparr>vstate := VMM_TRANSITION\<rparr>
             in if failed \<noteq> 0 then Ok (-1, st3) else Ok (0, st3))))"

definition vmm_unmap_low_identity :: "tables \<Rightarrow> kmem \<Rightarrow> int \<times> kmem" where
  "vmm_unmap_low_identity ts st =
     (if vstate st \<noteq> VMM_TRANSITION then (-1, st)
      else (0, (set_cr3 (get_cr3 st) (tstore (kern_pml4 ts) 0 0 st))\<lparr>vstate := VMM_VIRTUAL_ONLY\<rparr>))"

definition vmm_map :: "tables \<Rightarrow> e820_entry list \<Rightarrow> u64 \<Rightarrow> u64 \<Rightarrow> u64 \<Rightarrow> u64 \<Rightarrow> u64 \<Rightarrow> kmem \<Rightarrow> (u64 \<times> kmem) kres" where
  "vmm_map ts es pml4_0 virt0 phys0 sz flags st =
     (let pml4 = (if pml4_0 = KERN_PML4 then kern_pml4 ts else pml4_0)
      in if pml4 = 0 then Ok (-1, st)
         else if pml4 mod 0x1000 \<noteq> 0 then Ok (-1, st)
         else if virt0 AND (LARGE_PAGE_SIZE - 1) \<noteq> phys0 AND (LARGE_PAGE_SIZE - 1) then
           if virt0 AND (PAGE_SIZE - 1) \<noteq> phys0 AND (PAGE_SIZE - 1) then Ok (sz, st)
           else
             let (virt, off, virt_end, failed) = trim_range virt0 (virt0 + sz)
             in if virt \<ge> virt_end then Ok (sz, st)
                else rbind (set_pages es pml4 virt (phys0 + off) (virt_end - virt) flags False st) (\<lambda>(f, st1).
                       Ok (failed + f, st1))
         else set_range es pml4 virt0 phys0 sz flags False st)"

section \<open>Queries\<close>

definition is_pt_mapped :: "kmem \<Rightarrow> u64 \<Rightarrow> u32 \<Rightarrow> u32 \<Rightarrow> int" where
  "is_pt_mapped st pt start_idx entries_count =
     (if pt = 0 then -1
      else
        let end0 = start_idx + entries_count;
            end_idx = (if end0 > 512 then 512 else end0)
        in if \<exists>i \<in> set [unat start_idx..<unat end_idx]. tload st pt (of_nat i) AND PT_PRESENT \<noteq> 0 then 1 else 0)"

text \<open>
  The scan of a virtual range. Its loop may not end when the range reaches the end of the address space, where the
  address wraps around: not returning is \<open>None\<close>. One iteration yields either the result (\<open>Inl\<close>) or the next
  address.
\<close>

definition scan_step :: "kmem \<Rightarrow> u64 \<Rightarrow> u64 \<Rightarrow> int + u64" where
  "scan_step st pml4 virt =
     (let entry = tload st pml4 (pt_index 39 virt) in
      if entry AND PT_PRESENT = 0 then Inr (ROUND_DOWN virt 0x8000000000 + 0x8000000000)
      else
        let pdpt = phys_to_virt st (entry AND NOT FLAGS_MASK);
            entry = tload st pdpt (pt_index 30 virt)
        in if entry AND PT_PRESENT = 0 then Inr (ROUND_DOWN virt 0x40000000 + 0x40000000)
           else if entry AND PT_PSE \<noteq> 0 then Inl 1
           else
             let pd = phys_to_virt st (entry AND NOT FLAGS_MASK);
                 entry = tload st pd (pt_index 21 virt)
             in if entry AND PT_PRESENT = 0 then Inr (ROUND_DOWN virt LARGE_PAGE_SIZE + LARGE_PAGE_SIZE)
                else if entry AND PT_PSE \<noteq> 0 then Inl 1
                else
                  let pt = phys_to_virt st (entry AND NOT FLAGS_MASK);
                      entry = tload st pt (pt_index 12 virt)
                  in if entry AND PT_PRESENT = 0 then Inr (virt + PAGE_SIZE) else Inl 1)"

partial_function (option) scan_range :: "kmem \<Rightarrow> u64 \<Rightarrow> u64 \<Rightarrow> u64 \<Rightarrow> int option" where
  "scan_range st pml4 virt e =
     (if virt < e then
        case scan_step st pml4 virt of Inl r \<Rightarrow> Some r | Inr virt' \<Rightarrow> scan_range st pml4 virt' e
      else Some 0)"

definition vmm_virt_range_has_mapping :: "tables \<Rightarrow> kmem \<Rightarrow> u64 \<Rightarrow> u64 \<Rightarrow> u64 \<Rightarrow> int option" where
  "vmm_virt_range_has_mapping ts st pml4_0 virt sz =
     (let pml4 = (if pml4_0 = KERN_PML4 then kern_pml4 ts else pml4_0)
      in if pml4 = 0 then Some (-1)
         else if pml4 mod 0x1000 \<noteq> 0 then Some (-1)
         else scan_range st pml4 virt (virt + sz))"

section \<open>User address spaces\<close>

definition vmm_use_alloc_pages :: "kmem \<Rightarrow> int \<times> kmem" where
  "vmm_use_alloc_pages st =
     (if vstate st < VMM_VIRTUAL_ONLY then (-1, st) else (0, st\<lparr>vstate := VMM_READY\<rparr>))"

definition vmm_create_user_pml4 :: "tables \<Rightarrow> e820_entry list \<Rightarrow> kmem \<Rightarrow> (u64 \<times> kmem) kres" where
  "vmm_create_user_pml4 ts es st =
     rbind (alloc_table es st) (\<lambda>(pml4, st1).
       if pml4 = 0 then Ok (0, st1)
       else Ok (pml4, fold (\<lambda>i st. tstore pml4 (of_nat i) (tload st (kern_pml4 ts) (of_nat i)) st) [256..<512] (tzero pml4 st1)))"

definition free_at :: "u64 \<Rightarrow> kmem \<Rightarrow> kmem kres" where
  "free_at hhdm st = rbind (free_pages (k_bd st) (hhdm_to_page hhdm)) (\<lambda>bd. Ok (st\<lparr>k_bd := bd\<rparr>))"

text \<open>The nested loops of \<^verbatim>\<open>vmm_destroy_user_pml4\<close>, one definition per level.\<close>

definition destroy_pt :: "u64 \<Rightarrow> kmem \<Rightarrow> kmem kres" where
  "destroy_pt pt st =
     rbind (rfold (\<lambda>l st.
         let pt_entry = tload st pt (of_nat l)
         in if pt_entry AND PT_PRESENT = 0 then Ok st
            else free_at (phys_to_virt st (pt_entry AND NOT FLAGS_MASK)) st) [0..<512] st)
       (free_at pt)"

definition destroy_pd :: "u64 \<Rightarrow> kmem \<Rightarrow> kmem kres" where
  "destroy_pd pd st =
     rbind (rfold (\<lambda>k st.
         let pd_entry = tload st pd (of_nat k)
         in if pd_entry AND PT_PRESENT = 0 then Ok st
            else if pd_entry AND PT_PSE \<noteq> 0 then
              let addr = phys_to_virt st (pd_entry AND NOT FLAGS_MASK)
              in if addr mod 0x200000 \<noteq> 0 then Err (Panic ''VMM: corrupted 2MB page alignment detected'')
                 else free_at addr st
            else destroy_pt (phys_to_virt st (pd_entry AND NOT FLAGS_MASK)) st) [0..<512] st)
       (free_at pd)"

definition destroy_pdpt :: "u64 \<Rightarrow> kmem \<Rightarrow> kmem kres" where
  "destroy_pdpt pdpt st =
     rbind (rfold (\<lambda>j st.
         let pdpt_entry = tload st pdpt (of_nat j)
         in if pdpt_entry AND PT_PRESENT = 0 then Ok st
            else destroy_pd (phys_to_virt st (pdpt_entry AND NOT FLAGS_MASK)) st) [0..<512] st)
       (free_at pdpt)"

definition vmm_destroy_user_pml4 :: "tables \<Rightarrow> u64 \<Rightarrow> kmem \<Rightarrow> (int \<times> kmem) kres" where
  "vmm_destroy_user_pml4 ts pml4 st =
     (if pml4 = kern_pml4 ts then Ok (-1, st)
      else
        let st1 = (if phys_to_virt st (get_cr3 st AND CR3_ADDR_MASK) = pml4
                   then set_cr3 (virt_to_phys (kern_pml4 ts)) st else st)
        in rbind (rfold (\<lambda>i st.
             let pml4_entry = tload st pml4 (of_nat i)
             in if pml4_entry AND PT_PRESENT = 0 then Ok st
                else destroy_pdpt (phys_to_virt st (pml4_entry AND NOT FLAGS_MASK)) st) [0..<256] st1) (\<lambda>st2.
           rbind (free_at pml4 st2) (\<lambda>st3. Ok (0, st3))))"

definition vmm_set_table :: "u64 \<Rightarrow> kmem \<Rightarrow> kmem" where
  "vmm_set_table pml4 st = set_cr3 (virt_to_phys pml4) st"

end
