(* ===== verification/Vmm_Walk.thy ===== *)
theory Vmm_Walk
  imports Vmm
begin

text \<open>
  The four-level page tables as a tree. A table is reached by the path of the indices from the root,
  \<open>translate\<close> is the walk of the hardware. The tables of a tree lie in distinct page-aligned frames, so a store into one
  entry only affects the paths through that entry: the lemmas here give the effect of the stores and of the zeroed new
  tables on all walks.
\<close>

section \<open>Entries\<close>

abbreviation present :: "u64 \<Rightarrow> bool" where
  "present e \<equiv> e AND PT_PRESENT \<noteq> 0"

abbreviation pse :: "u64 \<Rightarrow> bool" where
  "pse e \<equiv> e AND PT_PSE \<noteq> 0"

abbreviation addr_of :: "u64 \<Rightarrow> u64" where
  "addr_of e \<equiv> e AND NOT FLAGS_MASK"

definition page_aligned :: "u64 \<Rightarrow> bool" where
  "page_aligned a \<longleftrightarrow> unat a mod 4096 = 0"

lemma bit_pow_u64: "bit (push_bit k 1 :: u64) n \<longleftrightarrow> n = k \<and> k < 64"
  by (auto simp only: bit_push_bit_iff bit_1_iff possible_bit_def) auto

lemma u64_eq_iff: "(a :: u64) = b \<longleftrightarrow> (\<forall>n < 64. bit a n \<longleftrightarrow> bit b n)"
  by (auto intro: bit_word_eqI)

lemma and_nonzero: "(a :: u64) AND b \<noteq> 0 \<longleftrightarrow> (\<exists>n < 64. bit a n \<and> bit b n)"
  by (simp add: u64_eq_iff bit_and_iff)

lemma bit_FLAGS_MASK: "bit FLAGS_MASK n \<longleftrightarrow> n < 12 \<or> n = 63"
proof -
  have E: "FLAGS_MASK = mask 12 OR push_bit 63 1"
    by (simp add: FLAGS_MASK_def mask_eq_exp_minus_1)
  show ?thesis unfolding E bit_or_iff bit_pow_u64 bit_mask_iff possible_bit_word by auto
qed

lemma bit_PT [simp]: "bit PT_PRESENT n \<longleftrightarrow> n = 0" "bit PT_WRITABLE n \<longleftrightarrow> n = 1" "bit PT_USER n \<longleftrightarrow> n = 2"
  "bit PT_PSE n \<longleftrightarrow> n = 7"
proof -
  have E: "PT_PRESENT = push_bit 0 1" "PT_WRITABLE = push_bit 1 1" "PT_USER = push_bit 2 1" "PT_PSE = push_bit 7 1"
    by (simp_all add: PT_PRESENT_def PT_WRITABLE_def PT_USER_def PT_PSE_def)
  show "bit PT_PRESENT n \<longleftrightarrow> n = 0" "bit PT_WRITABLE n \<longleftrightarrow> n = 1" "bit PT_USER n \<longleftrightarrow> n = 2" "bit PT_PSE n \<longleftrightarrow> n = 7"
    unfolding E bit_pow_u64 by simp_all
qed

lemma present_bit: "present e \<longleftrightarrow> bit e 0" and pse_bit: "pse e \<longleftrightarrow> bit e 7"
  unfolding and_nonzero by auto

lemma page_aligned_bits: "page_aligned a \<longleftrightarrow> (\<forall>n < 12. \<not> bit a n)"
proof -
  have "unat (take_bit 12 a) = unat a mod 4096" unfolding unsigned_take_bit_eq by (simp add: take_bit_eq_mod)
  then have "page_aligned a \<longleftrightarrow> take_bit 12 a = 0" unfolding page_aligned_def by (metis unat_eq_zero)
  also have "\<dots> \<longleftrightarrow> (\<forall>n < 12. \<not> bit a n)" unfolding u64_eq_iff bit_take_bit_iff by auto
  finally show ?thesis .
qed

lemma page_aligned_addr_of [simp]: "page_aligned (addr_of e)"
  by (auto simp: page_aligned_bits bit_and_iff bit_not_iff bit_FLAGS_MASK)

lemma small_bits: "unat (a :: u64) < 2 ^ k \<Longrightarrow> k \<le> n \<Longrightarrow> \<not> bit a n"
proof -
  assume a: "unat a < 2 ^ k" "k \<le> n"
  have "\<not> bit (unat a) n" using a by (metis bit_take_bit_iff leD less_le_trans power_increasing_iff one_less_numeral_iff semiring_norm(76) take_bit_nat_eq_self)
  then show ?thesis by (simp add: bit_unsigned_iff)
qed

text \<open>Masking out the flags recovers the frame address that was stored.\<close>

lemma addr_of_aligned:
  assumes "page_aligned a" and "unat a < 2 ^ 63"
  shows "addr_of a = a"
  using assms small_bits [of a 63 63]
  by (auto simp: u64_eq_iff bit_and_iff bit_not_iff bit_FLAGS_MASK page_aligned_bits)

lemma table_entry:
  assumes "page_aligned a" and "unat a < 2 ^ 63"
  shows "addr_of (a OR PT_PRESENT OR PT_WRITABLE OR PT_USER) = a" "present (a OR PT_PRESENT OR PT_WRITABLE OR PT_USER)"
    "\<not> pse (a OR PT_PRESENT OR PT_WRITABLE OR PT_USER)"
proof -
  have "addr_of (a OR PT_PRESENT OR PT_WRITABLE OR PT_USER) = addr_of a"
    by (auto simp: u64_eq_iff bit_and_iff bit_or_iff bit_not_iff bit_FLAGS_MASK)
  then show "addr_of (a OR PT_PRESENT OR PT_WRITABLE OR PT_USER) = a" using addr_of_aligned [OF assms] by simp
  show "present (a OR PT_PRESENT OR PT_WRITABLE OR PT_USER)" "\<not> pse (a OR PT_PRESENT OR PT_WRITABLE OR PT_USER)"
    using assms(1) unfolding present_bit pse_bit by (auto simp: bit_or_iff page_aligned_bits)
qed

section \<open>Paths\<close>

fun tbl_at :: "(u64 \<Rightarrow> u64) \<Rightarrow> u64 \<Rightarrow> u64 list \<Rightarrow> u64 option" where
  "tbl_at m t [] = Some t"
| "tbl_at m t (i # p) =
     (let e = m (t + 8 * i) in if present e \<and> \<not> pse e then tbl_at m (addr_of e) p else None)"

text \<open>The walk: the physical address and the entry a virtual address resolves to.\<close>

definition translate :: "(u64 \<Rightarrow> u64) \<Rightarrow> u64 \<Rightarrow> u64 \<Rightarrow> (u64 \<times> u64) option" where
  "translate m root v =
     (case tbl_at m root [pt_index 39 v, pt_index 30 v] of
        None \<Rightarrow> None
      | Some pd \<Rightarrow>
          let e = m (pd + 8 * pt_index 21 v)
          in if \<not> present e then None
             else if pse e then Some ((e AND NOT LARGE_FLAGS_MASK) + (v AND (LARGE_PAGE_SIZE - 1)), e)
             else
               let e' = m (addr_of e + 8 * pt_index 12 v)
               in if present e' then Some (addr_of e' + (v AND (PAGE_SIZE - 1)), e') else None)"

lemma tbl_at_append:
  "tbl_at m t (p @ q) = (case tbl_at m t p of None \<Rightarrow> None | Some t' \<Rightarrow> tbl_at m t' q)"
  by (induction m t p rule: tbl_at.induct) (auto simp: Let_def)

lemma tbl_at_snoc:
  "tbl_at m t (p @ [i]) = (case tbl_at m t p of None \<Rightarrow> None | Some t' \<Rightarrow>
     if present (m (t' + 8 * i)) \<and> \<not> pse (m (t' + 8 * i)) then Some (addr_of (m (t' + 8 * i))) else None)"
  by (simp add: tbl_at_append Let_def split: option.splits)

definition path_ok :: "u64 list \<Rightarrow> bool" where
  "path_ok p \<longleftrightarrow> length p \<le> 3 \<and> (\<forall>i \<in> set p. i < 512)"

lemma path_ok_snoc: "path_ok (p @ [i]) \<longleftrightarrow> path_ok p \<and> length p < 3 \<and> i < 512"
  by (auto simp: path_ok_def)

text \<open>The code never creates a large entry above the page directory level.\<close>

definition no_huge :: "(u64 \<Rightarrow> u64) \<Rightarrow> u64 \<Rightarrow> bool" where
  "no_huge m root \<longleftrightarrow> (\<forall>p t i. length p \<le> 1 \<and> path_ok (p @ [i]) \<and> tbl_at m root p = Some t \<and> present (m (t + 8 * i)) \<longrightarrow>
     \<not> pse (m (t + 8 * i)))"

lemma no_huge_mono:
  assumes "no_huge m root"
    and "\<And>p t i. length p \<le> 1 \<Longrightarrow> path_ok (p @ [i]) \<Longrightarrow> tbl_at m' root p = Some t \<Longrightarrow> present (m' (t + 8 * i)) \<Longrightarrow>
      pse (m' (t + 8 * i)) \<Longrightarrow> tbl_at m root p = Some t \<and> m (t + 8 * i) = m' (t + 8 * i)"
  shows "no_huge m' root"
  using assms unfolding no_huge_def by metis

text \<open>The tables of a tree lie in distinct page-aligned frames out of a set.\<close>

definition pt_ok :: "(u64 \<Rightarrow> u64) \<Rightarrow> u64 \<Rightarrow> nat set \<Rightarrow> bool" where
  "pt_ok m root R \<longleftrightarrow>
     (\<forall>p t. path_ok p \<and> tbl_at m root p = Some t \<longrightarrow> page_aligned t \<and> unat t div 4096 \<in> R) \<and>
     (\<forall>p q t. path_ok p \<and> path_ok q \<and> tbl_at m root p = Some t \<and> tbl_at m root q = Some t \<longrightarrow> p = q) \<and>
     no_huge m root"

lemma pt_ok_huge: "pt_ok m root R \<Longrightarrow> no_huge m root"
  by (simp add: pt_ok_def)

lemma pt_okD:
  assumes "pt_ok m root R" and "path_ok p" and "tbl_at m root p = Some t"
  shows "page_aligned t" and "unat t div 4096 \<in> R"
    and "path_ok q \<Longrightarrow> tbl_at m root q = Some t \<Longrightarrow> p = q"
  using assms by (auto simp: pt_ok_def)

lemma unat_cell:
  assumes "page_aligned t" and "i < 512"
  shows "unat (t + 8 * i) = unat t + 8 * unat i"
proof -
  have i: "unat i < 512" using assms(2) by (simp add: word_less_nat_alt)
  have u: "unat (8 * i) = 8 * unat i" using i by (subst unat_mult_lt) simp_all
  obtain k where k: "unat t = 4096 * k" using assms(1) by (auto simp: page_aligned_def)
  have "unat t < 2 ^ 64" by simp
  then have "unat t + 4096 \<le> 2 ^ 64" unfolding k by simp
  then show ?thesis using i u by (subst unat_add_lt) simp_all
qed

lemma cell_eq:
  assumes "page_aligned t" "i < 512" and "page_aligned t'" "i' < 512"
  shows "t + 8 * i = t' + 8 * i' \<longleftrightarrow> t = t' \<and> i = i'"
proof
  assume "t + 8 * i = t' + 8 * i'"
  then have eq: "unat t + 8 * unat i = unat t' + 8 * unat i'" using unat_cell assms by metis
  have i: "8 * unat i < 4096" "8 * unat i' < 4096" using assms(2,4) by (simp_all add: word_less_nat_alt)
  have "(unat t + 8 * unat i) div 4096 = unat t div 4096" "(unat t' + 8 * unat i') div 4096 = unat t' div 4096"
    using i assms(1,3) by (auto simp: page_aligned_def elim!: dvdE)
  then have "unat t = unat t'"
    using eq assms(1,3) by (metis add.right_neutral div_mult_mod_eq page_aligned_def)
  then show "t = t' \<and> i = i'" using eq by (simp add: word_unat_eq_iff)
qed simp

text \<open>A store into entry \<open>i\<close> of the table at path \<open>p\<close> is seen by the paths through that entry only.\<close>

lemma tbl_at_store_other:
  assumes ok: "pt_ok m root R" and p: "path_ok p" "tbl_at m root p = Some t" "i < 512"
    and same: "\<And>a. a \<noteq> t + 8 * i \<Longrightarrow> m' a = m a"
    and q: "path_ok q" "\<not> (\<exists>r. q = p @ i # r)"
  shows "tbl_at m' root q = tbl_at m root q"
  using q
proof (induction q rule: rev_induct)
  case (snoc j q)
  have q: "path_ok q" "j < 512" using snoc.prems(1) by (simp_all add: path_ok_snoc)
  have IH: "tbl_at m' root q = tbl_at m root q"
    using snoc.IH q(1) snoc.prems(2) by (metis append.assoc append_Cons)
  show ?case
  proof (cases "tbl_at m root q")
    case (Some t')
    have "t' + 8 * j \<noteq> t + 8 * i"
    proof
      assume "t' + 8 * j = t + 8 * i"
      then have "t' = t" "j = i" using cell_eq pt_okD(1) [OF ok p(1,2)] pt_okD(1) [OF ok q(1) Some] p(3) q(2) by auto
      then have "q = p" using pt_okD(3) [OF ok p(1,2) q(1)] Some by simp
      then show False using snoc.prems(2) \<open>j = i\<close> by simp
    qed
    then show ?thesis using same by (simp add: tbl_at_snoc IH Some)
  qed (simp add: tbl_at_snoc IH)
qed simp

text \<open>Clearing a frame outside the tree is not seen at all.\<close>

lemma tbl_at_frame_other:
  assumes ok: "pt_ok m root R" and f: "f \<notin> R" and same: "\<And>a. unat a div 4096 \<noteq> f \<Longrightarrow> m' a = m a"
    and q: "path_ok q"
  shows "tbl_at m' root q = tbl_at m root q"
  using q
proof (induction q rule: rev_induct)
  case (snoc j q)
  have q: "path_ok q" "j < 512" using snoc.prems by (simp_all add: path_ok_snoc)
  show ?case
  proof (cases "tbl_at m root q")
    case (Some t)
    note T = pt_okD(1,2) [OF ok q(1) Some]
    have "unat (t + 8 * j) div 4096 = unat t div 4096"
      using unat_cell [OF T(1) q(2)] T(1) q(2) by (auto simp: page_aligned_def word_less_nat_alt elim!: dvdE)
    then have "m' (t + 8 * j) = m (t + 8 * j)" using same T(2) f by metis
    then show ?thesis using snoc.IH [OF q(1)] Some by (simp add: tbl_at_snoc)
  qed (simp add: tbl_at_snoc snoc.IH [OF q(1)])
qed simp

section \<open>Walks under stores\<close>

lemma pt_index_less [simp]: "pt_index sh v < 512"
proof -
  have "pt_index sh v = take_bit 9 (drop_bit sh v)"
    by (simp add: pt_index_def take_bit_eq_mask mask_eq_exp_minus_1)
  then have "unat (pt_index sh v) < 2 ^ 9" using take_bit_nat_less_exp [of 9 "unat (drop_bit sh v)"] by (simp add: unsigned_take_bit_eq)
  then show ?thesis by (simp add: word_less_nat_alt)
qed

abbreviation vpath :: "u64 \<Rightarrow> u64 list" where
  "vpath v \<equiv> [pt_index 39 v, pt_index 30 v, pt_index 21 v]"

lemma path_ok_v [simp]: "path_ok (vpath v)" "path_ok [pt_index 39 v, pt_index 30 v]" "path_ok [pt_index 39 v]" "path_ok []"
  by (simp_all add: path_ok_def)

lemma tbl_at_vpath: "tbl_at m root (vpath v) = (case tbl_at m root [pt_index 39 v, pt_index 30 v] of None \<Rightarrow> None | Some pd \<Rightarrow>
    if present (m (pd + 8 * pt_index 21 v)) \<and> \<not> pse (m (pd + 8 * pt_index 21 v)) then Some (addr_of (m (pd + 8 * pt_index 21 v))) else None)"
  using tbl_at_snoc [of m root "[pt_index 39 v, pt_index 30 v]"] by simp

lemma translate_cong:
  assumes "tbl_at m' root [pt_index 39 v, pt_index 30 v] = tbl_at m root [pt_index 39 v, pt_index 30 v]"
    and "\<And>pd. tbl_at m root [pt_index 39 v, pt_index 30 v] = Some pd \<Longrightarrow> m' (pd + 8 * pt_index 21 v) = m (pd + 8 * pt_index 21 v)"
    and "\<And>pt. tbl_at m root (vpath v) = Some pt \<Longrightarrow> m' (pt + 8 * pt_index 12 v) = m (pt + 8 * pt_index 12 v)"
  shows "translate m' root v = translate m root v"
  using assms unfolding translate_def tbl_at_vpath by (auto simp: Let_def split: option.splits)

text \<open>Linking a new empty table into a free slot: the tree grows by one table and no translation changes.\<close>

definition new_table :: "(u64 \<Rightarrow> u64) \<Rightarrow> (u64 \<Rightarrow> u64) \<Rightarrow> u64 \<Rightarrow> nat set \<Rightarrow> u64 list \<Rightarrow> u64 \<Rightarrow> u64 \<Rightarrow> u64 \<Rightarrow> bool" where
  "new_table m m' root R p t i n \<longleftrightarrow> pt_ok m root R \<and> path_ok (p @ [i]) \<and> tbl_at m root p = Some t \<and>
     \<not> present (m (t + 8 * i)) \<and> page_aligned n \<and> unat n < 2 ^ 63 \<and> unat n div 4096 \<notin> R \<and>
     m' (t + 8 * i) = n OR PT_PRESENT OR PT_WRITABLE OR PT_USER \<and> (\<forall>j < 512. m' (n + 8 * j) = 0) \<and>
     (\<forall>a. unat a div 4096 \<noteq> unat n div 4096 \<longrightarrow> a \<noteq> t + 8 * i \<longrightarrow> m' a = m a)"

lemma new_tableD:
  assumes "new_table m m' root R p t i n"
  shows ntD_ok: "pt_ok m root R" and ntD_path: "path_ok p" "i < 512" "length p < 3" and ntD_table: "tbl_at m root p = Some t"
    and ntD_slot: "\<not> present (m (t + 8 * i))"
    and ntD_fresh: "page_aligned n" "unat n < 2 ^ 63" "unat n div 4096 \<notin> R"
    and ntD_entry: "m' (t + 8 * i) = n OR PT_PRESENT OR PT_WRITABLE OR PT_USER"
    and ntD_zero: "\<And>j. j < 512 \<Longrightarrow> m' (n + 8 * j) = 0"
    and ntD_same: "\<And>a. unat a div 4096 \<noteq> unat n div 4096 \<Longrightarrow> a \<noteq> t + 8 * i \<Longrightarrow> m' a = m a"
  using assms by (simp_all add: new_table_def path_ok_snoc)

lemma nt_cell_same:
  assumes N: "new_table m m' root R p t i n"
    and q: "path_ok q" "tbl_at m root q = Some t'" "j < 512" "q \<noteq> p \<or> j \<noteq> i"
  shows "m' (t' + 8 * j) = m (t' + 8 * j)"
proof (rule ntD_same [OF N])
  note ok = ntD_ok [OF N] and T = pt_okD(1,2) [OF ntD_ok [OF N] q(1,2)]
  have "unat (t' + 8 * j) div 4096 = unat t' div 4096"
    using unat_cell [OF T(1) q(3)] T(1) q(3) by (auto simp: page_aligned_def word_less_nat_alt elim!: dvdE)
  then show "unat (t' + 8 * j) div 4096 \<noteq> unat n div 4096" using T(2) ntD_fresh(3) [OF N] by metis
  show "t' + 8 * j \<noteq> t + 8 * i"
    using cell_eq [OF T(1) q(3) pt_okD(1) [OF ok ntD_path(1) [OF N] ntD_table [OF N]] ntD_path(2) [OF N]] q(2,4)
      pt_okD(3) [OF ok ntD_path(1) [OF N] ntD_table [OF N] q(1)] by blast
qed

lemma nt_tbl_at_other:
  assumes N: "new_table m m' root R p t i n" and "path_ok q" and "\<not> (\<exists>r. q = p @ i # r)"
  shows "tbl_at m' root q = tbl_at m root q"
  using assms(2,3)
proof (induction q rule: rev_induct)
  case (snoc j q)
  have q: "path_ok q" "j < 512" using snoc.prems(1) by (simp_all add: path_ok_snoc)
  have IH: "tbl_at m' root q = tbl_at m root q"
    using snoc.IH q(1) snoc.prems(2) by (metis append.assoc append_Cons)
  have "q \<noteq> p \<or> j \<noteq> i" using snoc.prems(2) by auto
  then show ?case using nt_cell_same [OF N q(1) _ q(2)] by (simp add: tbl_at_snoc IH split: option.split)
qed simp

lemma nt_tbl_at_new:
  assumes N: "new_table m m' root R p t i n"
  shows "tbl_at m' root p = Some t" and "tbl_at m' root (p @ [i]) = Some n"
proof -
  show p: "tbl_at m' root p = Some t" using nt_tbl_at_other [OF N ntD_path(1) [OF N]] ntD_table [OF N] by auto
  show "tbl_at m' root (p @ [i]) = Some n"
    using p ntD_entry [OF N] table_entry [OF ntD_fresh(1,2) [OF N]] by (simp add: tbl_at_snoc)
qed

lemma nt_tbl_at_below:
  assumes N: "new_table m m' root R p t i n" and "path_ok (p @ i # j # r)"
  shows "tbl_at m' root (p @ i # j # r) = None"
proof -
  have "j < 512" using assms(2) by (simp add: path_ok_def)
  then show ?thesis
    using nt_tbl_at_new(2) [OF N] tbl_at_append [of m' root "p @ [i]" "j # r"] ntD_zero [OF N] by simp
qed

lemma nt_none_before: "new_table m m' root R p t i n \<Longrightarrow> tbl_at m root (p @ i # r) = None"
  using ntD_slot [of m m' root R p t i n] ntD_table [of m m' root R p t i n] by (simp add: tbl_at_append Let_def)

lemma pt_ok_new:
  assumes N: "new_table m m' root R p t i n"
  shows "pt_ok m' root (insert (unat n div 4096) R)"
proof -
  note ok = ntD_ok [OF N] and fresh = ntD_fresh [OF N]
  have cases: "q = p @ [i] \<and> t' = n \<or> (\<not> (\<exists>r. q = p @ i # r) \<and> tbl_at m root q = Some t')"
    if "path_ok q" "tbl_at m' root q = Some t'" for q t'
  proof (cases "\<exists>r. q = p @ i # r")
    case True
    then obtain r where r: "q = p @ i # r" by blast
    then show ?thesis using that nt_tbl_at_new(2) [OF N] nt_tbl_at_below [OF N] by (cases r) auto
  qed (use that nt_tbl_at_other [OF N] in auto)
  have n_new: "unat t' div 4096 \<noteq> unat n div 4096" if "path_ok q" "tbl_at m root q = Some t'" for q t'
    using pt_okD(2) [OF ok that] fresh(3) by metis
  show ?thesis
    unfolding pt_ok_def
  proof (intro conjI allI impI; (elim conjE)?)
    fix q t' assume q: "path_ok q" "tbl_at m' root q = Some t'"
    show "page_aligned t'" "unat t' div 4096 \<in> insert (unat n div 4096) R"
      using cases [OF q] q fresh pt_okD(1,2) [OF ok q(1)] by auto
  next
    fix q q' t' assume q: "path_ok q" "path_ok q'" "tbl_at m' root q = Some t'" "tbl_at m' root q' = Some t'"
    show "q = q'"
      using cases [OF q(1,3)] cases [OF q(2,4)] n_new q(1,2) pt_okD(3) [OF ok q(1) _ q(2)] by blast
  next
    show "no_huge m' root"
    proof (rule no_huge_mono [OF pt_ok_huge [OF ok]])
      fix q t' j assume q: "path_ok (q @ [j])" "tbl_at m' root q = Some t'" "present (m' (t' + 8 * j))" "pse (m' (t' + 8 * j))"
      have j: "path_ok q" "j < 512" using q(1) by (simp_all add: path_ok_snoc)
      have old: "tbl_at m root q = Some t'" using cases [OF j(1) q(2)] ntD_zero [OF N j(2)] q(3) by auto
      have "q \<noteq> p \<or> j \<noteq> i"
        using q(4) old ntD_table [OF N] ntD_entry [OF N] table_entry(3) [OF fresh(1,2)] by auto
      then show "tbl_at m root q = Some t' \<and> m (t' + 8 * j) = m' (t' + 8 * j)" using nt_cell_same [OF N j(1) old j(2)] old by simp
    qed
  qed
qed

lemma translate_new_through:
  assumes N: "new_table m m' root R p t i n" and r: "vpath v = p @ i # r"
  shows "translate m' root v = translate m root v"
proof -
  have "length p + length r = 2" using arg_cong [OF r, of length] by simp
  then consider "r = []" | j where "r = [j]" | j k where "r = [j, k]" "p = []"
    by (cases r rule: remdups_adj.cases) auto
  then show ?thesis
  proof cases
    case 1
    then have p: "p = [pt_index 39 v, pt_index 30 v]" "i = pt_index 21 v" using r by (auto simp: Cons_eq_append_conv)
    show ?thesis
      using nt_tbl_at_new(1) [OF N] ntD_table [OF N] ntD_slot [OF N] ntD_entry [OF N] table_entry [OF ntD_fresh(1,2) [OF N]]
        ntD_zero [OF N, of "pt_index 12 v"] unfolding p translate_def by simp
  next
    case (2 j)
    then have p: "p = [pt_index 39 v]" "i = pt_index 30 v" using r by (auto simp: Cons_eq_append_conv)
    then have "tbl_at m' root [pt_index 39 v, pt_index 30 v] = Some n" "tbl_at m root [pt_index 39 v, pt_index 30 v] = None"
      using nt_tbl_at_new(2) [OF N] nt_none_before [OF N, of "[]"] by simp_all
    then show ?thesis using ntD_zero [OF N, of "pt_index 21 v"] unfolding translate_def by simp
  next
    case (3 j k)
    then have p: "i = pt_index 39 v" "p = []" using r by auto
    then have "tbl_at m' root [pt_index 39 v, pt_index 30 v] = None" "tbl_at m root [pt_index 39 v, pt_index 30 v] = None"
      using nt_tbl_at_below [OF N, of "pt_index 30 v" "[]"] nt_none_before [OF N, of "[pt_index 30 v]"] by simp_all
    then show ?thesis unfolding translate_def by simp
  qed
qed

lemma translate_new:
  assumes N: "new_table m m' root R p t i n"
  shows "translate m' root v = translate m root v"
proof (cases "\<exists>r. vpath v = p @ i # r")
  case False
  then have no: "\<not> (\<exists>r. [pt_index 39 v, pt_index 30 v] = p @ i # r)"
    by (metis append_Cons append_Nil append_assoc)
  show ?thesis
  proof (rule translate_cong)
    show "tbl_at m' root [pt_index 39 v, pt_index 30 v] = tbl_at m root [pt_index 39 v, pt_index 30 v]"
      by (rule nt_tbl_at_other [OF N _ no]) simp
    show "m' (pd + 8 * pt_index 21 v) = m (pd + 8 * pt_index 21 v)"
      if "tbl_at m root [pt_index 39 v, pt_index 30 v] = Some pd" for pd
      using False by (intro nt_cell_same [OF N _ that]) auto
    show "m' (pt + 8 * pt_index 12 v) = m (pt + 8 * pt_index 12 v)"
      if "tbl_at m root (vpath v) = Some pt" for pt
      using ntD_path(3) [OF N] by (intro nt_cell_same [OF N _ that]) auto
  qed
qed (use translate_new_through [OF N] in blast)

declare tbl_at.simps(2) [simp del]

text \<open>Storing a page table entry: only the translation of that page changes.\<close>

definition same_page :: "u64 \<Rightarrow> u64 \<Rightarrow> bool" where
  "same_page v w \<longleftrightarrow> vpath v = vpath w \<and> pt_index 12 v = pt_index 12 w"

definition same_large :: "u64 \<Rightarrow> u64 \<Rightarrow> bool" where
  "same_large v w \<longleftrightarrow> vpath v = vpath w"

lemma pt_ok_cong:
  assumes "pt_ok m root R" and "\<And>q. path_ok q \<Longrightarrow> tbl_at m' root q = tbl_at m root q"
    and "\<And>q t i. path_ok q \<Longrightarrow> tbl_at m root q = Some t \<Longrightarrow> i < 512 \<Longrightarrow> length q \<le> 1 \<Longrightarrow> m' (t + 8 * i) = m (t + 8 * i)"
  shows "pt_ok m' root R"
proof -
  have "no_huge m' root" using pt_ok_huge [OF assms(1)] by (rule no_huge_mono) (auto simp: path_ok_snoc assms(2) dest!: assms(3))
  then show ?thesis using assms(1) unfolding pt_ok_def by (metis (no_types) assms(2))
qed

lemma cell_other:
  assumes ok: "pt_ok m root R" and p: "path_ok p" "tbl_at m root p = Some t" "i < 512"
    and q: "path_ok q" "tbl_at m root q = Some t'" "j < 512" and d: "p \<noteq> q \<or> i \<noteq> j"
  shows "t' + 8 * j \<noteq> t + 8 * i"
  using cell_eq [OF pt_okD(1) [OF ok q(1,2)] q(3) pt_okD(1) [OF ok p(1,2)] p(3)] pt_okD(3) [OF ok p(1,2) q(1)] q(2) d
  by blast

lemma leaf_store:
  assumes ok: "pt_ok m root R" and pt: "tbl_at m root (vpath v) = Some pt"
    and m': "m' = m(pt + 8 * pt_index 12 v := e)"
  shows "pt_ok m' root R" and "path_ok q \<Longrightarrow> tbl_at m' root q = tbl_at m root q"
    and "translate m' root w = (if same_page v w then (if present e then Some (addr_of e + (w AND (PAGE_SIZE - 1)), e) else None)
       else translate m root w)"
proof -
  have same: "m' a = m a" if "a \<noteq> pt + 8 * pt_index 12 v" for a using that m' by simp
  show T: "tbl_at m' root q = tbl_at m root q" if "path_ok q" for q
    by (rule tbl_at_store_other [OF ok _ pt _ same that]) (use that in \<open>auto simp: path_ok_def\<close>)
  show "pt_ok m' root R"
    by (rule pt_ok_cong [OF ok T], assumption, rule same, rule cell_other [OF ok _ pt]) auto
  have pd: "m' (pd + 8 * pt_index 21 w) = m (pd + 8 * pt_index 21 w)"
    if "tbl_at m root [pt_index 39 w, pt_index 30 w] = Some pd" for pd
    by (rule same, rule cell_other [OF ok _ pt _ _ that]) simp_all
  show "translate m' root w = (if same_page v w then (if present e then Some (addr_of e + (w AND (PAGE_SIZE - 1)), e) else None)
       else translate m root w)"
  proof (cases "same_page v w")
    case False
    have "translate m' root w = translate m root w"
    proof (rule translate_cong [OF T pd])
      show "m' (t' + 8 * pt_index 12 w) = m (t' + 8 * pt_index 12 w)" if "tbl_at m root (vpath w) = Some t'" for t'
        using False by (intro same cell_other [OF ok _ pt _ _ that]) (auto simp: same_page_def)
    qed simp
    then show ?thesis using False by simp
  next
    case True
    then have eq: "vpath w = vpath v" "pt_index 12 w = pt_index 12 v" by (auto simp: same_page_def)
    then obtain pd' where P: "tbl_at m root [pt_index 39 w, pt_index 30 w] = Some pd'" "present (m (pd' + 8 * pt_index 21 w))"
      "\<not> pse (m (pd' + 8 * pt_index 21 w))" "addr_of (m (pd' + 8 * pt_index 21 w)) = pt"
      using pt unfolding eq(1) [symmetric] tbl_at_vpath by (auto split: option.splits if_splits)
    have "tbl_at m' root [pt_index 39 w, pt_index 30 w] = Some pd'" using P(1) by (subst T) auto
    then show ?thesis using True P pd [OF P(1)] m' eq(2) unfolding translate_def by (simp add: Let_def)
  qed
qed

lemma large_store:
  assumes ok: "pt_ok m root R" and pd: "tbl_at m root [pt_index 39 v, pt_index 30 v] = Some pd"
    and free: "\<not> present (m (pd + 8 * pt_index 21 v))"
    and m': "m' = m(pd + 8 * pt_index 21 v := e)" and e: "pse e"
  shows "pt_ok m' root R" and "path_ok q \<Longrightarrow> tbl_at m' root q = tbl_at m root q"
    and "translate m' root w = (if same_large v w then
         (if present e then Some ((e AND NOT LARGE_FLAGS_MASK) + (w AND (LARGE_PAGE_SIZE - 1)), e) else None)
       else translate m root w)"
proof -
  let ?p = "[pt_index 39 v, pt_index 30 v]"
  have same: "m' a = m a" if "a \<noteq> pd + 8 * pt_index 21 v" for a using that m' by simp
  have T2: "tbl_at m' root q = tbl_at m root q" if "path_ok q" "\<not> (\<exists>r. q = ?p @ pt_index 21 v # r)" for q
    by (rule tbl_at_store_other [OF ok _ pd _ same that]) simp_all
  show T: "tbl_at m' root q = tbl_at m root q" if q: "path_ok q" for q
  proof (cases "\<exists>r. q = ?p @ pt_index 21 v # r")
    case True
    then have q': "q = ?p @ [pt_index 21 v]" using q by (auto simp: path_ok_def)
    have "tbl_at m' root ?p = Some pd" using pd by (subst T2) auto
    then show ?thesis unfolding q' tbl_at_snoc [of _ _ ?p] using pd free e m' by simp
  qed (use T2 q in blast)
  show "pt_ok m' root R"
    by (rule pt_ok_cong [OF ok T], assumption, rule same, rule cell_other [OF ok _ pd]) auto
  show "translate m' root w = (if same_large v w then
         (if present e then Some ((e AND NOT LARGE_FLAGS_MASK) + (w AND (LARGE_PAGE_SIZE - 1)), e) else None)
       else translate m root w)"
  proof (cases "same_large v w")
    case True
    then have eq: "pt_index 39 w = pt_index 39 v" "pt_index 30 w = pt_index 30 v" "pt_index 21 w = pt_index 21 v"
      by (auto simp: same_large_def)
    have "tbl_at m' root ?p = Some pd" using pd by (subst T) auto
    then show ?thesis using True m' e unfolding translate_def eq by (simp add: Let_def)
  next
    case False
    have "translate m' root w = translate m root w"
    proof (rule translate_cong [OF T])
      show "m' (t' + 8 * pt_index 21 w) = m (t' + 8 * pt_index 21 w)" if "tbl_at m root [pt_index 39 w, pt_index 30 w] = Some t'" for t'
        using False by (intro same cell_other [OF ok _ pd _ _ that]) (auto simp: same_large_def)
      show "m' (t' + 8 * pt_index 12 w) = m (t' + 8 * pt_index 12 w)" if "tbl_at m root (vpath w) = Some t'" for t'
        by (intro same cell_other [OF ok _ pd _ _ that]) auto
    qed simp
    then show ?thesis using False by simp
  qed
qed

end
