(* ===== verification/Vmm_Tables.thy ===== *)
theory Vmm_Tables
  imports Vmm_Walk
begin

text \<open>
  Table allocation and creation. Whatever allocator the state machine of \<^verbatim>\<open>vmm.c\<close> selects, the table frames
  it hands out are fresh: \<open>alloc_table\<close> is a frame source over the kernel's own frames and everything the two
  allocators gave away. On top of that, \<^verbatim>\<open>get_or_create_table\<close> keeps the tree of tables intact and
  changes no translation.
\<close>

section \<open>Pointers and physical addresses\<close>

lemma unat_hhdm:
  assumes "unat a < PHYS_LIMIT"
  shows "unat (a + HHDM_BASE) = unat a + unat HHDM_BASE"
  using assms by (subst unat_add_lt) (simp_all add: HHDM_BASE_def PHYS_LIMIT_def)

lemma mmu_phys: "unat a < PHYS_LIMIT \<Longrightarrow> mmu a = a"
  by (simp add: mmu_def kernel_vma_start_def HHDM_BASE_def word_le_nat_alt PHYS_LIMIT_def)

lemma mmu_hhdm: "unat a < PHYS_LIMIT \<Longrightarrow> mmu (a + HHDM_BASE) = a"
  using unat_hhdm [of a]
  by (simp add: mmu_def word_le_nat_alt) (simp add: kernel_vma_start_def HHDM_BASE_def PHYS_LIMIT_def)

lemma mmu_phys_to_virt: "unat a < PHYS_LIMIT \<Longrightarrow> mmu (phys_to_virt st a) = a"
  by (simp add: phys_to_virt_def mmu_phys mmu_hhdm)

lemma virt_to_phys_eq:
  assumes "page_aligned a" and "unat a < PHYS_LIMIT"
  shows "virt_to_phys a = a" and "virt_to_phys (a + HHDM_BASE) = a"
proof -
  have "unat a < 2 ^ 63" using assms(2) by (simp add: PHYS_LIMIT_def)
  note A = addr_of_aligned [OF assms(1) this]
  have "\<not> kernel_vma_start \<le> a" "\<not> HHDM_BASE \<le> a"
    using assms(2) by (simp_all add: kernel_vma_start_def HHDM_BASE_def word_le_nat_alt PHYS_LIMIT_def)
  then show "virt_to_phys a = a" by (simp add: virt_to_phys_def A)
  have "\<not> kernel_vma_start \<le> a + HHDM_BASE" "HHDM_BASE \<le> a + HHDM_BASE"
    using assms(2) unat_hhdm [OF assms(2)]
    by (simp_all add: word_le_nat_alt) (simp add: kernel_vma_start_def HHDM_BASE_def PHYS_LIMIT_def)
  then show "virt_to_phys (a + HHDM_BASE) = a" by (simp add: virt_to_phys_def A)
qed

lemma hhdm_nonzero: "unat a < PHYS_LIMIT \<Longrightarrow> a + HHDM_BASE \<noteq> 0"
  using unat_hhdm [of a] unsigned_eq_0_iff [of "a + HHDM_BASE"] by (auto simp: HHDM_BASE_def)

section \<open>The allocator behind the page tables\<close>

text \<open>\<open>K\<close> are the frames of the kernel image, which hold the static tables.\<close>

definition kinv :: "e820_entry list \<Rightarrow> nat set \<Rightarrow> kmem \<Rightarrow> bool" where
  "kinv es K st \<longleftrightarrow> map_ok es \<and> (\<forall>f \<in> K. 0 < f \<and> 4096 * f + 4096 \<le> PHYS_LIMIT) \<and> pool_start (k_bm st) > 0 \<and>
     (case vstate st of
        VMM_EARLY \<Rightarrow> False
      | VMM_READY \<Rightarrow> buddy_inv (k_bd st) \<and> 4096 * mem_nr_pages (k_bd st) \<le> PHYS_LIMIT \<and>
          free_frames (k_bd st) \<inter> (K \<union> bm_owned es (k_bm st)) = {}
      | _ \<Rightarrow> bm_inv es (k_bm st) \<and> (\<forall>f \<in> K. 4096 * f < unat (pool_start (k_bm st))))"

definition kowned :: "e820_entry list \<Rightarrow> nat set \<Rightarrow> kmem \<Rightarrow> nat set" where
  "kowned es K st = K \<union> bm_owned es (k_bm st) \<union> (if vstate st = VMM_READY then allocated_frames (k_bd st) else {})"

lemma allocated_bound:
  assumes "buddy_inv bd"
  shows "allocated_frames bd \<subseteq> {..<mem_nr_pages bd}"
proof -
  have "blocks_ok bd" using assms by (simp add: buddy_inv_def inv_except_def)
  then show ?thesis
    using blocks_okD(3) [of bd] by (fastforce simp: allocated_frames_def alloc_blocks_def is_head_def)
qed

lemma kowned_bound:
  assumes "kinv es K st" and "f \<in> kowned es K st"
  shows "4096 * f + 4096 \<le> PHYS_LIMIT" and "vstate st = VMM_IDENTITY \<Longrightarrow> 0 < f"
proof -
  have bm: "4096 * f + 4096 \<le> PHYS_LIMIT" "0 < f" if "f \<in> bm_owned es (k_bm st)" for f
    using that assms(1) usable_bound [of es f] by (auto simp: bm_owned_def kinv_def usable_def word_less_nat_alt)
  show "4096 * f + 4096 \<le> PHYS_LIMIT"
    using assms bm allocated_bound [of "k_bd st"] by (fastforce simp: kinv_def kowned_def split: if_splits)
  show "vstate st = VMM_IDENTITY \<Longrightarrow> 0 < f" using assms bm by (auto simp: kinv_def kowned_def)
qed

text \<open>What a successful table allocation yields: a pointer to a fresh frame.\<close>

definition new_frame :: "e820_entry list \<Rightarrow> nat set \<Rightarrow> kmem \<Rightarrow> u64 \<Rightarrow> kmem \<Rightarrow> bool" where
  "new_frame es K st a st' \<longleftrightarrow> a \<noteq> 0 \<and> page_aligned (mmu a) \<and> unat (mmu a) + 4096 \<le> PHYS_LIMIT \<and>
     virt_to_phys a = mmu a \<and> unat (mmu a) div 4096 \<notin> kowned es K st \<and>
     kowned es K st' = insert (unat (mmu a) div 4096) (kowned es K st)"

lemma boot_frame:
  assumes inv: "bm_inv es (k_bm st)" and g: "bm_grab es (k_bm st) = Some (f, bm)" and s: "vstate st \<noteq> VMM_READY"
    and K: "\<forall>f \<in> K. 4096 * f < unat (pool_start (k_bm st))" and a: "unat a = 4096 * f"
  shows "new_frame es K st a (st\<lparr>k_bm := bm\<rparr>)" and "new_frame es K st (HHDM_BASE + a) (st\<lparr>k_bm := bm\<rparr>)"
proof -
  note G = bm_grab_cases [OF inv g]
  have ok: "map_ok es" using inv by (simp add: bm_inv_def)
  have f: "4096 * f + 4096 \<le> PHYS_LIMIT" using usable_bound [OF ok G(2)] .
  have al: "page_aligned a" using a by (simp add: page_aligned_def)
  have lim: "unat a < PHYS_LIMIT" "unat a + 4096 \<le> PHYS_LIMIT" using f a by simp_all
  have le: "unat (pool_start (k_bm st)) \<le> 4096 * f" "0 < unat (pool_start (k_bm st))"
    using G(2) inv by (auto simp: usable_def bm_inv_def word_le_nat_alt word_less_nat_alt)
  have "f \<notin> K" using K le(1) by (meson leD)
  then have new: "f \<notin> kowned es K st" "kowned es K (st\<lparr>k_bm := bm\<rparr>) = insert f (kowned es K st)"
    using bootmem_src.grab_fresh [OF inv g] bootmem_src.grab_owned [OF inv g] s by (auto simp: kowned_def)
  have "a \<noteq> 0" using le a by auto
  then show "new_frame es K st a (st\<lparr>k_bm := bm\<rparr>)"
    using new al lim virt_to_phys_eq(1) [OF al lim(1)] a by (simp add: new_frame_def mmu_phys)
  show "new_frame es K st (HHDM_BASE + a) (st\<lparr>k_bm := bm\<rparr>)"
    unfolding add.commute [of HHDM_BASE] new_frame_def
    using new al lim virt_to_phys_eq(2) [OF al lim(1)] hhdm_nonzero [OF lim(1)] a
    by (simp add: mmu_hhdm)
qed

lemma ready_frame:
  assumes k: "kinv es K st" and s: "vstate st = VMM_READY"
    and r: "alloc_pages (k_bd st) 0 = Ok (Some p, bd)" and a: "a = of_nat p * PAGE_SIZE + HHDM_BASE"
  shows "new_frame es K st a (st\<lparr>k_bd := bd\<rparr>)" and "kinv es K (st\<lparr>k_bd := bd\<rparr>)"
proof -
  have inv: "buddy_inv (k_bd st)" and n: "4096 * mem_nr_pages (k_bd st) \<le> PHYS_LIMIT"
    and fr: "free_frames (k_bd st) \<inter> (K \<union> bm_owned es (k_bm st)) = {}" using k s by (auto simp: kinv_def)
  note A = alloc_pages_frames [OF inv r, simplified]
  have p: "p < mem_nr_pages (k_bd st)" using A(2,7) by auto
  have up: "unat (of_nat p :: u64) = p" using p n by (simp add: unat_of_nat PHYS_LIMIT_def)
  define b :: u64 where "b = of_nat p * PAGE_SIZE"
  have b: "unat b = 4096 * p" using p n unfolding b_def by (subst unat_mult_lt) (simp_all add: up PHYS_LIMIT_def)
  have al: "page_aligned b" and lim: "unat b < PHYS_LIMIT" "unat b + 4096 \<le> PHYS_LIMIT"
    using b p n by (simp_all add: page_aligned_def)
  have new: "p \<notin> kowned es K st" "kowned es K (st\<lparr>k_bd := bd\<rparr>) = insert p (kowned es K st)"
    using A(2,4,5) fr s by (auto simp: kowned_def)
  show "new_frame es K st a (st\<lparr>k_bd := bd\<rparr>)"
    using new al lim virt_to_phys_eq(2) [OF al lim(1)] hhdm_nonzero [OF lim(1)] b
    unfolding a b_def [symmetric] by (simp add: new_frame_def mmu_hhdm)
  show "kinv es K (st\<lparr>k_bd := bd\<rparr>)" using k s A(1,3,6) n fr by (auto simp: kinv_def)
qed

lemma alloc_table_spec:
  assumes k: "kinv es K st" and r: "alloc_table es st = Ok (a, st')"
  shows "kinv es K st'" and "a = 0 \<Longrightarrow> st' = st" and "a \<noteq> 0 \<Longrightarrow> new_frame es K st a st'"
    and "st' = st\<lparr>k_bm := k_bm st', k_bd := k_bd st'\<rparr>"
proof -
  have "kinv es K st' \<and> (a = 0 \<longrightarrow> st' = st) \<and> (a \<noteq> 0 \<longrightarrow> new_frame es K st a st') \<and> st' = st\<lparr>k_bm := k_bm st', k_bd := k_bd st'\<rparr>"
  proof (cases "vstate st = VMM_READY")
    case True
    then obtain p bd where p: "alloc_pages (k_bd st) 0 = Ok (Some p, bd)" "a = of_nat p * PAGE_SIZE + HHDM_BASE" "st' = st\<lparr>k_bd := bd\<rparr>"
      using r by (auto simp: alloc_table_def page_to_hhdm_def split: option.splits)
    note F = ready_frame [OF k True p(1,2)]
    have "a \<noteq> 0" using F(1) by (simp add: new_frame_def)
    then show ?thesis using F p(3) by simp
  next
    case False
    then have B: "bm_inv es (k_bm st)" "\<forall>f \<in> K. 4096 * f < unat (pool_start (k_bm st))"
      and s: "vstate st = VMM_IDENTITY \<or> vstate st = VMM_TRANSITION \<or> vstate st = VMM_VIRTUAL_ONLY"
      using k by (auto simp: kinv_def split: vmm_state.splits)
    obtain b bm where b: "bootmem_alloc_page_phys es (k_bm st) = Ok (b, bm)" "bm_inv es bm" and e: "b = 0 \<Longrightarrow> bm = k_bm st"
      and g: "b \<noteq> 0 \<Longrightarrow> bm_grab es (k_bm st) = Some (unat b div 4096, bm)" and u: "unat b = 4096 * (unat b div 4096)"
      using bootmem_page_total [OF B(1)] by metis
    have a: "a = (if vstate st = VMM_IDENTITY \<or> b = 0 then b else HHDM_BASE + b)" "st' = st\<lparr>k_bm := bm\<rparr>"
      using r s b(1) by (auto simp: alloc_table_def bootmem_alloc_page_def)
    show ?thesis
    proof (cases "b = 0")
      case True
      then show ?thesis using a e k by simp
    next
      case nz: False
      note G = bm_grab_cases [OF B(1) g [OF nz]] and F = boot_frame [OF B(1) g [OF nz] False B(2) u]
      have "kinv es K st'" using k G(1,5) B(2) s a(2) by (auto simp: kinv_def bm_inv_def)
      then show ?thesis using F a nz hhdm_nonzero by (auto simp: new_frame_def)
    qed
  qed
  then show "kinv es K st'" "a = 0 \<Longrightarrow> st' = st" "a \<noteq> 0 \<Longrightarrow> new_frame es K st a st'"
    "st' = st\<lparr>k_bm := k_bm st', k_bd := k_bd st'\<rparr>" by auto
qed

text \<open>Before the switch to the buddy allocator a table allocation cannot fail with an error.\<close>

lemma alloc_table_total:
  assumes "kinv es K st" and "vstate st \<noteq> VMM_READY"
  shows "is_Ok (alloc_table es st)"
proof -
  have B: "bm_inv es (k_bm st)" using assms by (auto simp: kinv_def split: vmm_state.splits)
  obtain a bm where "bootmem_alloc_page_phys es (k_bm st) = Ok (a, bm)" using bootmem_page_total [OF B] by metis
  then show ?thesis using assms(2) by (simp add: alloc_table_def bootmem_alloc_page_def)
qed

definition kgrab :: "e820_entry list \<Rightarrow> kmem \<Rightarrow> (nat \<times> kmem) option" where
  "kgrab es st =
     (case alloc_table es st of
        Ok (a, st') \<Rightarrow> if a = 0 then None else Some (unat (mmu a) div 4096, st')
      | Err e \<Rightarrow> None)"

lemma kgrab_Some: "kgrab es st = Some (f, st') \<Longrightarrow> \<exists>a. alloc_table es st = Ok (a, st') \<and> a \<noteq> 0 \<and> f = unat (mmu a) div 4096"
  by (auto simp: kgrab_def split: kres.splits if_splits)

interpretation table_src: frame_source "kinv es K" "kowned es K" "kgrab es" for es K
proof unfold_locales
  fix st f st' assume k: "kinv es K st" and g: "kgrab es st = Some (f, st')"
  obtain a where a: "alloc_table es st = Ok (a, st')" "a \<noteq> 0" "f = unat (mmu a) div 4096" using kgrab_Some [OF g] by blast
  note S = alloc_table_spec [OF k a(1)]
  show "kinv es K st'" by (rule S(1))
  show "f \<notin> kowned es K st" "kowned es K st' = insert f (kowned es K st)"
    using S(3) [OF a(2)] a(3) by (simp_all add: new_frame_def)
qed

section \<open>Creating tables\<close>

definition tree_ok :: "e820_entry list \<Rightarrow> nat set \<Rightarrow> u64 \<Rightarrow> kmem \<Rightarrow> bool" where
  "tree_ok es K root st \<longleftrightarrow> kinv es K st \<and> pt_ok (pmem st) root (kowned es K st)"

text \<open>The tree may grow, but no table moves and no translation changes.\<close>

definition tree_step :: "e820_entry list \<Rightarrow> nat set \<Rightarrow> u64 \<Rightarrow> kmem \<Rightarrow> kmem \<Rightarrow> bool" where
  "tree_step es K root st st' \<longleftrightarrow> tree_ok es K root st' \<and> vstate st' = vstate st \<and>
     (\<forall>v. translate (pmem st') root v = translate (pmem st) root v) \<and>
     (\<forall>q t. path_ok q \<longrightarrow> tbl_at (pmem st) root q = Some t \<longrightarrow> tbl_at (pmem st') root q = Some t)"

lemma tree_step_refl: "tree_ok es K root st \<Longrightarrow> tree_step es K root st st"
  by (simp add: tree_step_def)

lemma tree_step_trans: "tree_step es K root st st1 \<Longrightarrow> tree_step es K root st1 st2 \<Longrightarrow> tree_step es K root st st2"
  by (simp add: tree_step_def)

lemma tree_step_ok: "tree_step es K root st st' \<Longrightarrow> tree_ok es K root st'"
  by (simp add: tree_step_def)

lemma kinv_pmem [simp]: "kinv es K (st\<lparr>pmem := m\<rparr>) = kinv es K st" "kowned es K (st\<lparr>pmem := m\<rparr>) = kowned es K st"
  by (simp_all add: kinv_def kowned_def split: vmm_state.split)

lemma tree_table:
  assumes "tree_ok es K root st" and "path_ok p" and "tbl_at (pmem st) root p = Some t"
  shows "page_aligned t" and "unat t < PHYS_LIMIT" and "unat t div 4096 \<in> kowned es K st"
    and "mmu (phys_to_virt st t) = t" and "VMM_IDENTITY \<le> vstate st \<Longrightarrow> phys_to_virt st t \<noteq> 0"
proof -
  have k: "kinv es K st" and ok: "pt_ok (pmem st) root (kowned es K st)" using assms(1) by (auto simp: tree_ok_def)
  note T = pt_okD(1,2) [OF ok assms(2,3)]
  note B = kowned_bound [OF k T(2)]
  have "unat t = 4096 * (unat t div 4096)" using T(1) by (auto simp: page_aligned_def)
  then show lim: "unat t < PHYS_LIMIT" using B(1) by linarith
  show "page_aligned t" "unat t div 4096 \<in> kowned es K st" by (rule T)+
  show "mmu (phys_to_virt st t) = t" by (rule mmu_phys_to_virt [OF lim])
  show "phys_to_virt st t \<noteq> 0" if "VMM_IDENTITY \<le> vstate st"
  proof (cases "vstate st = VMM_IDENTITY")
    case True
    then show ?thesis using B(2) by (auto simp: phys_to_virt_def less_eq_vmm_state_def)
  next
    case False
    then show ?thesis using that hhdm_nonzero [OF lim]
      by (cases "vstate st") (auto simp: phys_to_virt_def less_eq_vmm_state_def)
  qed
qed

lemma tzero_cells:
  assumes "page_aligned n" and "unat n + 4096 \<le> PHYS_LIMIT"
  shows "n \<le> a \<and> a < n + PAGE_SIZE \<longleftrightarrow> unat a div 4096 = unat n div 4096"
proof -
  have u: "unat (n + PAGE_SIZE) = unat n + 4096" using assms(2) by (intro unat_add_page) simp
  obtain k where k: "unat n = 4096 * k" using assms(1) by (auto simp: page_aligned_def)
  have "4096 * k \<le> x \<and> x < 4096 * k + 4096 \<longleftrightarrow> x div 4096 = k" for x :: nat
  proof
    assume "4096 * k \<le> x \<and> x < 4096 * k + 4096"
    then show "x div 4096 = k" by (intro div_nat_eqI) auto
  qed auto
  then show ?thesis unfolding word_le_nat_alt word_less_nat_alt u k by simp
qed

lemma link_table:
  assumes ok: "tree_ok es K root st" and p: "path_ok (p @ [i])" "tbl_at (pmem st) root p = Some (mmu T)"
    and free: "\<not> present (tload st T i)" and r: "alloc_table es st = Ok (s, st1)" "s \<noteq> 0"
    and st': "st' = tstore T i (virt_to_phys s OR PT_PRESENT OR PT_WRITABLE OR PT_USER) (tzero s st1)"
  shows "tree_step es K root st st'" and "tbl_at (pmem st') root (p @ [i]) = Some (mmu s)"
    and "path_ok q \<Longrightarrow> tbl_at (pmem st') root q = Some t \<Longrightarrow> tbl_at (pmem st) root q = Some t \<or> t = mmu s"
proof -
  have k: "kinv es K st" and pt: "pt_ok (pmem st) root (kowned es K st)" using ok by (auto simp: tree_ok_def)
  note A = alloc_table_spec [OF k r(1)]
  note F = A(3) [OF r(2), unfolded new_frame_def]
  have st1: "pmem st1 = pmem st" "vstate st1 = vstate st" using A(4) by (metis kmem.select_convs(1,2) kmem.surjective kmem.update_convs(7,8))+
  have pp: "path_ok p" "i < 512" using p(1) by (simp_all add: path_ok_snoc)
  note T = tree_table [OF ok pp(1) p(2)]
  have Z: "mmu s \<le> a \<and> a < mmu s + PAGE_SIZE \<longleftrightarrow> unat a div 4096 = unat (mmu s) div 4096" for a
    using F by (intro tzero_cells) auto
  have m': "pmem st' a = (if a = mmu T + 8 * i then mmu s OR PT_PRESENT OR PT_WRITABLE OR PT_USER
      else if unat a div 4096 = unat (mmu s) div 4096 then 0 else pmem st a)" for a
    using F by (simp add: st' tstore_def tzero_def Z st1)
  have cell: "unat (t + 8 * j) div 4096 = unat t div 4096" if "page_aligned t" "j < 512" for t j
    using unat_cell [OF that] that by (auto simp: page_aligned_def word_less_nat_alt elim!: dvdE)
  have N: "new_table (pmem st) (pmem st') root (kowned es K st) p (mmu T) i (mmu s)"
    unfolding new_table_def
  proof (intro conjI allI impI)
    fix j :: u64 assume j: "j < 512"
    have c: "unat (mmu s + 8 * j) div 4096 = unat (mmu s) div 4096" using F j by (intro cell) auto
    have "mmu s + 8 * j \<noteq> mmu T + 8 * i" using c cell [OF T(1) pp(2)] T(3) F by metis
    then show "pmem st' (mmu s + 8 * j) = 0" using c by (simp add: m')
  qed (use pt p free F in \<open>auto simp: m' tload_def PHYS_LIMIT_def\<close>)
  show "tbl_at (pmem st') root (p @ [i]) = Some (mmu s)" by (rule nt_tbl_at_new(2) [OF N])
  show "tbl_at (pmem st) root q = Some t \<or> t = mmu s" if q: "path_ok q" "tbl_at (pmem st') root q = Some t"
  proof (cases "\<exists>r. q = p @ i # r")
    case True
    then obtain r where r: "q = p @ i # r" ..
    then have "r = []" using nt_tbl_at_below [OF N] q by (cases r) auto
    then show ?thesis using r q(2) nt_tbl_at_new(2) [OF N] by simp
  next
    case False
    then show ?thesis using nt_tbl_at_other [OF N q(1) False] q(2) by simp
  qed
  have own: "kowned es K st' = insert (unat (mmu s) div 4096) (kowned es K st)" and "kinv es K st'"
    using F A(1) by (simp_all add: st' tstore_def tzero_def)
  then have "tree_ok es K root st'" using pt_ok_new [OF N] by (simp add: tree_ok_def)
  moreover have "tbl_at (pmem st') root q = Some t" if "path_ok q" "tbl_at (pmem st) root q = Some t" for q t
    using that nt_tbl_at_other [OF N that(1)] nt_none_before [OF N] by fastforce
  moreover have "vstate st' = vstate st" using st1 by (simp add: st' tstore_def tzero_def)
  ultimately show "tree_step es K root st st'" using translate_new [OF N] by (auto simp: tree_step_def)
qed

lemma get_or_create_table_spec:
  assumes ok: "tree_ok es K root st" and p: "path_ok (p @ [i])" "tbl_at (pmem st) root p = Some (mmu T)"
    and r: "get_or_create_table es T i st = Ok (s, st')"
  shows "tree_step es K root st st'" and "s \<noteq> 0 \<Longrightarrow> tbl_at (pmem st') root (p @ [i]) = Some (mmu s)"
proof -
  have k: "kinv es K st" and i: "\<not> 512 \<le> i" using ok p(1) by (auto simp: tree_ok_def path_ok_snoc)
  have v: "\<not> vstate st < VMM_IDENTITY" "VMM_IDENTITY \<le> vstate st"
    using k by (auto simp: kinv_def less_vmm_state_def less_eq_vmm_state_def split: vmm_state.splits)
  have "tree_step es K root st st' \<and> (s \<noteq> 0 \<longrightarrow> tbl_at (pmem st') root (p @ [i]) = Some (mmu s))"
  proof (cases "present (tload st T i)")
    case True
    show ?thesis
    proof (cases "pse (tload st T i)")
      case pse: True
      then show ?thesis using r True v i tree_step_refl [OF ok] by (simp add: get_or_create_table_def Let_def)
    next
      case False
      then have s: "s = phys_to_virt st (addr_of (tload st T i))" "st' = st"
        using r True v i by (auto simp: get_or_create_table_def Let_def)
      have "tbl_at (pmem st) root (p @ [i]) = Some (addr_of (tload st T i))"
        using True False p(2) by (simp add: tbl_at_snoc tload_def)
      then show ?thesis using tree_table(4) [OF ok p(1)] s tree_step_refl [OF ok] by simp
    qed
  next
    case False
    then obtain st1 where a: "alloc_table es st = Ok (s, st1)"
      and st': "st' = (if s = 0 then st1 else tstore T i (virt_to_phys s OR PT_PRESENT OR PT_WRITABLE OR PT_USER) (tzero s st1))"
      using r v i by (auto simp: get_or_create_table_def Let_def split: if_splits)
    show ?thesis
    proof (cases "s = 0")
      case True
      then show ?thesis using st' alloc_table_spec(2) [OF k a] tree_step_refl [OF ok] by simp
    next
      case nz: False
      then show ?thesis using link_table(1, 2) [OF ok p False a] st' by simp
    qed
  qed
  then show "tree_step es K root st st'" "s \<noteq> 0 \<Longrightarrow> tbl_at (pmem st') root (p @ [i]) = Some (mmu s)" by auto
qed

lemma get_or_create_table_total:
  assumes "kinv es K st" and "vstate st \<noteq> VMM_READY"
  shows "is_Ok (get_or_create_table es T i st)"
proof -
  obtain a st1 where "alloc_table es st = Ok (a, st1)" using alloc_table_total [OF assms] by (auto simp: is_Ok_iff)
  then show ?thesis by (auto simp: get_or_create_table_def Let_def)
qed

end
