(* ===== verification/Vmm_Map.thy ===== *)
theory Vmm_Map
  imports Vmm_Tables
begin

text \<open>
  Correctness of the mapping operations of \<^verbatim>\<open>vmm.c\<close> against the walk of the hardware: a mapped page translates to
  the requested physical page with the requested flags, no other translation changes, existing mappings
  are never overwritten, and a failure changes no translation.
\<close>

section \<open>Single pages\<close>

lemma get_or_create_pd_spec:
  assumes ok: "tree_ok es K root st" and root: "mmu pml4 = root" and r: "get_or_create_pd es pml4 v st = Ok (s, st')"
  shows "tree_step es K root st st'" and "s \<noteq> 0 \<Longrightarrow> tbl_at (pmem st') root [pt_index 39 v, pt_index 30 v] = Some (mmu s)"
proof -
  obtain pdpt st1 where a: "get_or_create_table es pml4 (pt_index 39 v) st = Ok (pdpt, st1)"
    and rest: "if pdpt = 0 then s = 0 \<and> st' = st1 else get_or_create_table es pdpt (pt_index 30 v) st1 = Ok (s, st')"
    using r by (auto simp: get_or_create_pd_def split: if_splits)
  note A = get_or_create_table_spec [OF ok, of "[]", simplified, OF path_ok_v(3) root [symmetric] a]
  have "tree_step es K root st st' \<and> (s \<noteq> 0 \<longrightarrow> tbl_at (pmem st') root [pt_index 39 v, pt_index 30 v] = Some (mmu s))"
  proof (cases "pdpt = 0")
    case True
    then show ?thesis using rest A(1) by simp
  next
    case False
    then have b: "get_or_create_table es pdpt (pt_index 30 v) st1 = Ok (s, st')" using rest by simp
    note B = get_or_create_table_spec [OF tree_step_ok [OF A(1)], of "[pt_index 39 v]", simplified, OF path_ok_v(2) A(2) [OF False] b]
    show ?thesis using tree_step_trans [OF A(1) B(1)] B(2) by simp
  qed
  then show "tree_step es K root st st'" "s \<noteq> 0 \<Longrightarrow> tbl_at (pmem st') root [pt_index 39 v, pt_index 30 v] = Some (mmu s)"
    by auto
qed

lemma get_or_create_pt_pd:
  "get_or_create_pt es pml4 v st =
     rbind (get_or_create_pd es pml4 v st) (\<lambda>(pd, st2). if pd = 0 then Ok (0, st2) else get_or_create_table es pd (pt_index 21 v) st2)"
  unfolding get_or_create_pt_def get_or_create_pd_def rbind_assoc
  by (rule arg_cong [of _ _ "rbind _"]) (auto simp: fun_eq_iff)

lemma get_or_create_pt_spec:
  assumes ok: "tree_ok es K root st" and root: "mmu pml4 = root" and r: "get_or_create_pt es pml4 v st = Ok (s, st')"
  shows "tree_step es K root st st'" and "s \<noteq> 0 \<Longrightarrow> tbl_at (pmem st') root (vpath v) = Some (mmu s)"
proof -
  obtain pd st1 where a: "get_or_create_pd es pml4 v st = Ok (pd, st1)"
    and rest: "if pd = 0 then s = 0 \<and> st' = st1 else get_or_create_table es pd (pt_index 21 v) st1 = Ok (s, st')"
    using r by (auto simp: get_or_create_pt_pd split: if_splits)
  note A = get_or_create_pd_spec [OF ok root a]
  have "tree_step es K root st st' \<and> (s \<noteq> 0 \<longrightarrow> tbl_at (pmem st') root (vpath v) = Some (mmu s))"
  proof (cases "pd = 0")
    case True
    then show ?thesis using rest A(1) by simp
  next
    case False
    then have b: "get_or_create_table es pd (pt_index 21 v) st1 = Ok (s, st')" using rest by simp
    note B = get_or_create_table_spec [OF tree_step_ok [OF A(1)], of "[pt_index 39 v, pt_index 30 v]", simplified, OF path_ok_v(1) A(2) [OF False] b]
    show ?thesis using tree_step_trans [OF A(1) B(1)] B(2) by simp
  qed
  then show "tree_step es K root st st'" "s \<noteq> 0 \<Longrightarrow> tbl_at (pmem st') root (vpath v) = Some (mmu s)"
    by auto
qed

text \<open>
  The effect of a mapping operation on all translations: \<open>M w\<close> is the new translation of the addresses it maps.
\<close>

definition maps_only :: "e820_entry list \<Rightarrow> nat set \<Rightarrow> u64 \<Rightarrow> kmem \<Rightarrow> kmem \<Rightarrow> (u64 \<Rightarrow> (u64 \<times> u64) option) \<Rightarrow> u64 set \<Rightarrow> bool" where
  "maps_only es K root st st' M A \<longleftrightarrow> tree_ok es K root st' \<and> vstate st' = vstate st \<and>
     (\<forall>w. translate (pmem st') root w = (if w \<in> A then M w else translate (pmem st) root w)) \<and>
     (\<forall>w \<in> A. translate (pmem st) root w = None)"

lemma maps_only_step: "tree_step es K root st st' \<Longrightarrow> maps_only es K root st st' M {}"
  by (simp add: maps_only_def tree_step_def)

lemma translate_same_page: "same_page v w \<Longrightarrow> translate m root v = None \<longleftrightarrow> translate m root w = None"
  by (auto simp: translate_def same_page_def Let_def split: option.splits)

lemma translate_same_large:
  assumes "same_large v w" and "tbl_at m root [pt_index 39 v, pt_index 30 v] = Some pd" and "\<not> present (m (pd + 8 * pt_index 21 v))"
  shows "translate m root w = None"
  using assms by (simp add: translate_def same_large_def)

definition page_map :: "u64 \<Rightarrow> u64 \<Rightarrow> u64 \<Rightarrow> (u64 \<times> u64) option" where
  "page_map phys flags w =
     (let e = addr_of phys OR flags in if present e then Some (addr_of e + (w AND (PAGE_SIZE - 1)), e) else None)"

definition large_map :: "u64 \<Rightarrow> u64 \<Rightarrow> u64 \<Rightarrow> (u64 \<times> u64) option" where
  "large_map phys flags w =
     (let e = (phys AND NOT LARGE_FLAGS_MASK) OR flags OR PT_PSE
      in if present e then Some ((e AND NOT LARGE_FLAGS_MASK) + (w AND (LARGE_PAGE_SIZE - 1)), e) else None)"

lemma kinv_tstore [simp]:
  "kinv es K (tstore t i v st) = kinv es K st" "kowned es K (tstore t i v st) = kowned es K st"
  "vstate (tstore t i v st) = vstate st" "pmem (tstore t i v st) = (pmem st)(mmu t + 8 * i := v)"
  by (simp_all add: tstore_def)

lemma set_page_spec:
  assumes ok: "tree_ok es K root st" and root: "mmu pml4 = root"
    and r: "set_page es pml4 virt phys flags False st = Ok (rc, st')"
  shows "rc = 0 \<or> rc = -1"
    and "maps_only es K root st st' (page_map phys flags) (if rc = 0 then {w. same_page virt w} else {})"
    and "rc = 0 \<Longrightarrow> virt AND (PAGE_SIZE - 1) = 0 \<and> phys AND (PAGE_SIZE - 1) = 0"
proof -
  have "(rc = 0 \<or> rc = -1) \<and> maps_only es K root st st' (page_map phys flags) (if rc = 0 then {w. same_page virt w} else {}) \<and>
    (rc = 0 \<longrightarrow> virt AND (PAGE_SIZE - 1) = 0 \<and> phys AND (PAGE_SIZE - 1) = 0)"
  proof (cases "virt AND (PAGE_SIZE - 1) = 0 \<and> phys AND (PAGE_SIZE - 1) = 0")
    case False
    then have "rc = -1" "st' = st" using r by (auto simp: set_page_def split: if_splits)
    then show ?thesis using maps_only_step [OF tree_step_refl [OF ok]] by simp
  next
    case True
    then obtain pt st1 where a: "get_or_create_pt es pml4 virt st = Ok (pt, st1)"
      and rest: "if pt = 0 \<or> present (tload st1 pt (pt_index 12 virt)) then rc = -1 \<and> st' = st1
        else rc = 0 \<and> st' = tstore pt (pt_index 12 virt) (addr_of phys OR flags) st1"
      using r by (auto simp: set_page_def Let_def split: if_splits)
    note A = get_or_create_pt_spec [OF ok root a]
    have ok1: "pt_ok (pmem st1) root (kowned es K st1)" "kinv es K st1" using tree_step_ok [OF A(1)] by (auto simp: tree_ok_def)
    show ?thesis
    proof (cases "pt = 0 \<or> present (tload st1 pt (pt_index 12 virt))")
      case t: True
      then show ?thesis using rest maps_only_step [OF A(1)] by auto
    next
      case False
      then have T: "tbl_at (pmem st1) root (vpath virt) = Some (mmu pt)" and rc: "rc = 0"
        and st': "st' = tstore pt (pt_index 12 virt) (addr_of phys OR flags) st1" using A(2) rest by auto
      note L = leaf_store [OF ok1(1) T refl, where e = "addr_of phys OR flags"]
      have none: "translate (pmem st1) root virt = None"
        using T False unfolding tbl_at_vpath by (auto simp: translate_def tload_def Let_def split: option.splits if_splits)
      have "translate (pmem st) root w = None" if "same_page virt w" for w
        using A(1) none translate_same_page [OF that] by (simp add: tree_step_def)
      then have "maps_only es K root st st' (page_map phys flags) {w. same_page virt w}"
        using A(1) L ok1(2) by (auto simp: maps_only_def tree_ok_def st' page_map_def Let_def tree_step_def)
      then show ?thesis using rc True by simp
    qed
  qed
  then show "rc = 0 \<or> rc = -1" "maps_only es K root st st' (page_map phys flags) (if rc = 0 then {w. same_page virt w} else {})"
    "rc = 0 \<Longrightarrow> virt AND (PAGE_SIZE - 1) = 0 \<and> phys AND (PAGE_SIZE - 1) = 0" by auto
qed

lemma set_large_page_spec:
  assumes ok: "tree_ok es K root st" and root: "mmu pml4 = root"
    and r: "set_large_page es pml4 virt phys flags False st = Ok (rc, st')"
  shows "rc = 0 \<or> rc = -1"
    and "maps_only es K root st st' (large_map phys flags) (if rc = 0 then {w. same_large virt w} else {})"
    and "rc = 0 \<Longrightarrow> virt AND (LARGE_PAGE_SIZE - 1) = 0 \<and> phys AND (LARGE_PAGE_SIZE - 1) = 0"
proof -
  have "(rc = 0 \<or> rc = -1) \<and> maps_only es K root st st' (large_map phys flags) (if rc = 0 then {w. same_large virt w} else {}) \<and>
    (rc = 0 \<longrightarrow> virt AND (LARGE_PAGE_SIZE - 1) = 0 \<and> phys AND (LARGE_PAGE_SIZE - 1) = 0)"
  proof (cases "virt AND (LARGE_PAGE_SIZE - 1) = 0 \<and> phys AND (LARGE_PAGE_SIZE - 1) = 0")
    case False
    then have "rc = -1" "st' = st" using r by (auto simp: set_large_page_def split: if_splits)
    then show ?thesis using maps_only_step [OF tree_step_refl [OF ok]] by simp
  next
    case True
    define e where "e = (phys AND NOT LARGE_FLAGS_MASK) OR flags OR PT_PSE"
    from True obtain pd st1 where a: "get_or_create_pd es pml4 virt st = Ok (pd, st1)"
      and rest: "if pd = 0 \<or> present (tload st1 pd (pt_index 21 virt)) then rc = -1 \<and> st' = st1
        else rc = 0 \<and> st' = tstore pd (pt_index 21 virt) e st1"
      using r by (auto simp: set_large_page_def Let_def e_def split: if_splits)
    note A = get_or_create_pd_spec [OF ok root a]
    have ok1: "pt_ok (pmem st1) root (kowned es K st1)" "kinv es K st1" using tree_step_ok [OF A(1)] by (auto simp: tree_ok_def)
    show ?thesis
    proof (cases "pd = 0 \<or> present (tload st1 pd (pt_index 21 virt))")
      case t: True
      then show ?thesis using rest maps_only_step [OF A(1)] by auto
    next
      case False
      then have T: "tbl_at (pmem st1) root [pt_index 39 virt, pt_index 30 virt] = Some (mmu pd)" and rc: "rc = 0"
        and st': "st' = tstore pd (pt_index 21 virt) e st1" and f: "\<not> present (pmem st1 (mmu pd + 8 * pt_index 21 virt))"
        using A(2) rest by (auto simp: tload_def)
      have "pse e" unfolding e_def pse_bit by (simp add: bit_or_iff)
      note L = large_store [OF ok1(1) T f refl this]
      have "translate (pmem st) root w = None" if "same_large virt w" for w
        using A(1) translate_same_large [OF that T f] by (simp add: tree_step_def)
      then have "maps_only es K root st st' (large_map phys flags) {w. same_large virt w}"
        using A(1) L ok1(2) by (auto simp: maps_only_def tree_ok_def st' large_map_def Let_def tree_step_def e_def [symmetric])
      then show ?thesis using rc True by simp
    qed
  qed
  then show "rc = 0 \<or> rc = -1" "maps_only es K root st st' (large_map phys flags) (if rc = 0 then {w. same_large virt w} else {})"
    "rc = 0 \<Longrightarrow> virt AND (LARGE_PAGE_SIZE - 1) = 0 \<and> phys AND (LARGE_PAGE_SIZE - 1) = 0" by auto
qed

section \<open>Pages of an address\<close>

lemma pt_index_eq: "sh + 9 \<le> 64 \<Longrightarrow> pt_index sh a = pt_index sh b \<longleftrightarrow> (\<forall>n < 9. bit a (sh + n) = bit b (sh + n))"
proof -
  assume sh: "sh + 9 \<le> 64"
  have E: "pt_index sh a = take_bit 9 (drop_bit sh a)" for a
    by (simp add: pt_index_def take_bit_eq_mask mask_eq_exp_minus_1)
  have "(\<forall>n < 64. (n < 9 \<and> P n) = (n < 9 \<and> Q n)) \<longleftrightarrow> (\<forall>n < 9. P n = Q n)" for P Q :: "nat \<Rightarrow> bool"
  proof
    assume h: "\<forall>n < 64. (n < 9 \<and> P n) = (n < 9 \<and> Q n)"
    show "\<forall>n < 9. P n = Q n"
    proof (rule allI, rule impI)
      fix n :: nat assume "n < 9"
      then show "P n = Q n" using h [rule_format, of n] by simp
    qed
  qed auto
  then show ?thesis unfolding E u64_eq_iff bit_take_bit_iff bit_drop_bit_eq o_def by simp
qed

lemma and_pow_mask: "(w :: u64) AND (2 ^ k - 1) = take_bit k w"
  by (simp add: take_bit_eq_mask mask_eq_exp_minus_1)

lemma unat_take_bit: "unat (take_bit k w :: u64) = unat w mod 2 ^ k"
  unfolding unsigned_take_bit_eq by (simp add: take_bit_eq_mod)

lemma page_off: "w AND (PAGE_SIZE - 1) = take_bit 12 w" and large_off: "w AND (LARGE_PAGE_SIZE - 1) = take_bit 21 w"
  using and_pow_mask [of w 12] and_pow_mask [of w 21] by (simp_all add: PAGE_SIZE_def LARGE_PAGE_SIZE_def)

text \<open>An address in the \<open>2 ^ k\<close>-byte page that starts at an aligned address.\<close>

lemma in_chunk:
  fixes v w :: u64
  assumes "unat v mod 2 ^ k = 0" and "unat v \<le> unat w" and "unat w < unat v + 2 ^ k" and "k \<le> 64"
  shows "take_bit k w = w - v" and "n \<ge> k \<Longrightarrow> bit w n = bit v n"
proof -
  obtain q where q: "unat v = 2 ^ k * q" using assms(1) by auto
  have m: "unat w mod 2 ^ k = unat w - unat v" "unat w div 2 ^ k = unat v div 2 ^ k"
    using assms(2,3) q by (auto simp: mod_nat_eqI intro!: div_nat_eqI)
  have "v \<le> w" using assms(2) by (simp add: word_le_nat_alt)
  then show "take_bit k w = w - v"
    using unat_take_bit [of k w] m(1) by (simp add: word_unat_eq_iff unat_sub_le)
  show "bit w n = bit v n" if "n \<ge> k"
  proof -
    have "bit (unat x) n = bit (unat x div 2 ^ k) (n - k)" for x :: u64
      using fun_cong [OF bit_drop_bit_eq [of k "unat x"], of "n - k"] that by (simp add: drop_bit_eq_div)
    then have "bit (unat w) n = bit (unat v) n" using m(2) by simp
    then show ?thesis by (simp add: bit_unsigned_iff)
  qed
qed

lemma in_page:
  assumes "page_aligned v" and "unat v \<le> unat w" and "unat w < unat v + 4096"
  shows "same_page v w" and "w AND (PAGE_SIZE - 1) = w - v"
  using in_chunk [of v 12 w] assms by (auto simp: same_page_def page_off page_aligned_def pt_index_eq)

lemma in_large:
  assumes "unat v mod 0x200000 = 0" and "unat v \<le> unat w" and "unat w < unat v + 0x200000"
  shows "same_large v w" and "w AND (LARGE_PAGE_SIZE - 1) = w - v"
  using in_chunk [of v 21 w] assms by (auto simp: same_large_def large_off pt_index_eq)

lemma large_pages:
  assumes "unat v mod 0x200000 = 0" and "same_large v w"
  shows "\<exists>u. unat v \<le> unat u \<and> unat u < unat v + 0x200000 \<and> same_page u w"
proof -
  define u where "u = v + take_bit 21 w"
  have v: "\<not> bit v n" if "n < 21" for n
  proof -
    have "unat (take_bit 21 v) = 0" unfolding unat_take_bit using assms(1) by simp
    then have "take_bit 21 v = 0" by (metis unat_eq_zero)
    moreover have "bit (take_bit 21 v) n = bit v n" using that by (simp add: bit_take_bit_iff)
    ultimately show ?thesis by simp
  qed
  have "v AND take_bit 21 w = 0" unfolding u64_eq_iff bit_and_iff bit_take_bit_iff using v by auto
  then have u: "u = v OR take_bit 21 w" unfolding u_def by (rule disjunctive_add_eq_or)
  have b: "bit u n = (if n < 21 then bit w n else bit v n)" for n
    using v by (simp add: u bit_or_iff bit_take_bit_iff)
  have "same_page u w"
    using assms(2) by (auto simp: same_page_def same_large_def pt_index_eq b)
  moreover have "unat u = unat v + unat w mod 0x200000"
  proof -
    obtain q where q: "unat v = 0x200000 * q" using assms(1) by auto
    have "unat v < 0x200000 * 0x80000000000" by simp
    then have "unat v + 0x200000 \<le> 2 ^ 64" unfolding q by simp
    then show ?thesis unfolding u_def by (subst unat_add_lt) (simp_all add: unat_take_bit)
  qed
  ultimately show ?thesis by (intro exI [of _ u]) simp
qed

section \<open>Ranges\<close>

text \<open>Translations outside \<open>A\<close> are kept, and so are all existing ones.\<close>

definition extends :: "e820_entry list \<Rightarrow> nat set \<Rightarrow> u64 \<Rightarrow> kmem \<Rightarrow> kmem \<Rightarrow> u64 set \<Rightarrow> bool" where
  "extends es K root st st' A \<longleftrightarrow> tree_ok es K root st' \<and> vstate st' = vstate st \<and>
     (\<forall>w. translate (pmem st') root w \<noteq> translate (pmem st) root w \<longrightarrow> translate (pmem st) root w = None \<and> w \<in> A)"

lemma extends_refl: "tree_ok es K root st \<Longrightarrow> extends es K root st st A"
  by (simp add: extends_def)

lemma extends_trans:
  assumes "extends es K root st st1 A" and "extends es K root st1 st2 B"
  shows "extends es K root st st2 (A \<union> B)"
  using assms unfolding extends_def by (metis UnCI)

lemma extends_mono: "extends es K root st st' A \<Longrightarrow> A \<subseteq> B \<Longrightarrow> extends es K root st st' B"
  by (auto simp: extends_def)

lemma extends_keeps: "extends es K root st st' A \<Longrightarrow> translate (pmem st) root w = Some x \<Longrightarrow> translate (pmem st') root w = Some x"
  unfolding extends_def by (metis option.distinct(1))

lemma extends_ok: "extends es K root st st' A \<Longrightarrow> tree_ok es K root st'"
  by (simp add: extends_def)

lemma maps_only_extends: "maps_only es K root st st' M A \<Longrightarrow> extends es K root st st' A"
  by (auto simp: maps_only_def extends_def split: if_splits)

lemma loop_spec:
  assumes one: "\<And>i st rc st'. tree_ok es K root st \<Longrightarrow> set_one i st = Ok (rc, st') \<Longrightarrow>
      (rc = 0 \<or> rc = -1) \<and> maps_only es K root st st' (F i) (if rc = 0 then P i else {})"
    and some: "\<And>i w. w \<in> P i \<Longrightarrow> F i w \<noteq> None"
    and ok: "tree_ok es K root st" and r: "set_pages_loop set_one step n i failed st = Ok (f, st')"
  shows "extends es K root st st' (\<Union>k < n. P (i + of_nat k * step)) \<and>
    (\<exists>S \<subseteq> {..<n}. f = failed + of_nat (n - card S) * step \<and>
      (\<forall>k \<in> S. \<forall>w \<in> P (i + of_nat k * step). translate (pmem st') root w = F (i + of_nat k * step) w))"
  using ok r
proof (induction n arbitrary: i failed st)
  case 0
  then show ?case by (simp add: extends_refl)
next
  case (Suc n)
  obtain rc st1 where a: "set_one i st = Ok (rc, st1)"
    and rest: "set_pages_loop set_one step n (i + step) (if rc \<noteq> 0 then failed + step else failed) st1 = Ok (f, st')"
    using Suc.prems(2) by auto
  have A: "rc = 0 \<or> rc = -1" "maps_only es K root st st1 (F i) (if rc = 0 then P i else {})" using one [OF Suc.prems(1) a] by auto
  note E = maps_only_extends [OF A(2)]
  note IH = Suc.IH [OF extends_ok [OF E] rest]
  have shift: "i + step + of_nat k * step = i + of_nat (Suc k) * step" for k by (simp add: algebra_simps)
  obtain S where S: "S \<subseteq> {..<n}" "f = (if rc \<noteq> 0 then failed + step else failed) + of_nat (n - card S) * step"
    and T: "\<And>k w. k \<in> S \<Longrightarrow> w \<in> P (i + of_nat (Suc k) * step) \<Longrightarrow> translate (pmem st') root w = F (i + of_nat (Suc k) * step) w"
    using IH unfolding shift by blast
  define S' where "S' = (if rc = 0 then {0} else {}) \<union> Suc ` S"
  have fin: "finite S" "card S \<le> n" using S(1) card_mono [OF _ S(1)] finite_subset by auto
  have "card S' = (if rc = 0 then 1 else 0) + card S"
    unfolding S'_def using fin by (subst card_Un_disjoint) (auto simp: card_image)
  then have "f = failed + of_nat (Suc n - card S') * step"
    using S(2) fin(2) by (auto simp: Suc_diff_le algebra_simps)
  moreover have "translate (pmem st') root w = F (i + of_nat k * step) w" if k: "k \<in> S'" "w \<in> P (i + of_nat k * step)" for k w
  proof (cases k)
    case 0
    then have "rc = 0" "w \<in> P i" using k by (auto simp: S'_def split: if_splits)
    then obtain x where x: "F i w = Some x" "translate (pmem st1) root w = Some x" using A(2) some [of w i] by (auto simp: maps_only_def)
    then show ?thesis using extends_keeps [OF conjunct1 [OF IH]] 0 by simp
  next
    case (Suc j)
    then show ?thesis using k T [of j w] by (auto simp: S'_def split: if_splits)
  qed
  moreover have "S' \<subseteq> {..<Suc n}" using S(1) by (auto simp: S'_def)
  moreover have "extends es K root st st' (\<Union>k < Suc n. P (i + of_nat k * step))"
  proof (rule extends_mono [OF extends_trans [OF E conjunct1 [OF IH]]])
    have "P i \<subseteq> (\<Union>k < Suc n. P (i + of_nat k * step))" by (rule subsetI, rule UN_I [of 0]) auto
    moreover have "P (i + of_nat (Suc k) * step) \<subseteq> (\<Union>k < Suc n. P (i + of_nat k * step))" if "k < n" for k
      using that by (intro UN_upper [of "Suc k"]) auto
    ultimately show "(if rc = 0 then P i else {}) \<union> (\<Union>k < n. P (i + step + of_nat k * step)) \<subseteq> (\<Union>k < Suc n. P (i + of_nat k * step))"
      unfolding shift by auto
  qed
  ultimately show ?case by blast
qed

definition flags_ok :: "u64 \<Rightarrow> bool" where
  "flags_ok flags \<longleftrightarrow> flags AND NOT FLAGS_MASK = 0 \<and> present flags \<and> \<not> pse flags"

definition region :: "nat \<Rightarrow> nat \<Rightarrow> u64 set" where
  "region lo hi = {w. \<exists>u :: u64. lo \<le> unat u \<and> unat u < hi \<and> same_page u w}"

definition maps_to :: "kmem \<Rightarrow> u64 \<Rightarrow> u64 \<Rightarrow> u64 \<Rightarrow> u64 \<Rightarrow> bool" where
  "maps_to st root w pa flags \<longleftrightarrow> (\<exists>e. translate (pmem st) root w = Some (pa, e) \<and> e AND FLAGS_MASK AND NOT PT_PSE = flags)"

lemma region_mono: "lo' \<le> lo \<Longrightarrow> hi \<le> hi' \<Longrightarrow> region lo hi \<subseteq> region lo' hi'"
  unfolding region_def by (auto intro: le_trans less_le_trans)

lemma flags_bits:
  assumes "flags_ok flags"
  shows "bit flags n \<Longrightarrow> n < 12 \<or> n = 63" "bit flags 0" "\<not> bit flags 7"
proof -
  show "n < 12 \<or> n = 63" if "bit flags n"
  proof (rule ccontr)
    assume "\<not> (n < 12 \<or> n = 63)"
    moreover have "n < 64" using that bit_imp_le_length by force
    ultimately have "bit (flags AND NOT FLAGS_MASK) n" using that by (simp add: bit_and_iff bit_not_iff bit_FLAGS_MASK)
    then show False using assms by (simp add: flags_ok_def)
  qed
qed (use assms in \<open>auto simp: flags_ok_def present_bit pse_bit\<close>)

lemma flags_present: "flags_ok flags \<Longrightarrow> present (a OR flags)"
  unfolding present_bit bit_or_iff using flags_bits(2) by blast

lemma page_map_eq:
  assumes "flags_ok flags" and "page_aligned phys" and "unat phys < 2 ^ 63"
  shows "page_map phys flags w = Some (phys + (w AND (PAGE_SIZE - 1)), phys OR flags)"
    and "(phys OR flags) AND FLAGS_MASK AND NOT PT_PSE = flags"
proof -
  have p: "addr_of phys = phys" by (rule addr_of_aligned [OF assms(2,3)])
  have "addr_of (phys OR flags) = addr_of phys"
    using flags_bits(1) [OF assms(1)] by (auto simp: u64_eq_iff bit_and_iff bit_or_iff bit_not_iff bit_FLAGS_MASK)
  then show "page_map phys flags w = Some (phys + (w AND (PAGE_SIZE - 1)), phys OR flags)"
    using flags_present [OF assms(1)] p by (simp add: page_map_def Let_def)
  show "(phys OR flags) AND FLAGS_MASK AND NOT PT_PSE = flags"
    using flags_bits [OF assms(1)] assms(2) small_bits [OF assms(3), of 63]
    by (auto simp: u64_eq_iff bit_and_iff bit_or_iff bit_not_iff bit_FLAGS_MASK page_aligned_bits)
qed

lemma bit_LARGE_FLAGS_MASK: "bit LARGE_FLAGS_MASK n \<longleftrightarrow> n < 21 \<or> n = 63"
proof -
  have E: "LARGE_FLAGS_MASK = mask 21 OR push_bit 63 1"
    by (simp add: LARGE_FLAGS_MASK_def mask_eq_exp_minus_1)
  show ?thesis unfolding E bit_or_iff bit_pow_u64 bit_mask_iff possible_bit_word by auto
qed

lemma large_aligned_bits: "unat (a :: u64) mod 0x200000 = 0 \<Longrightarrow> n < 21 \<Longrightarrow> \<not> bit a n"
proof -
  assume a: "unat a mod 0x200000 = 0" "n < 21"
  have "unat (take_bit 21 a) = 0" unfolding unat_take_bit using a(1) by simp
  then have "take_bit 21 a = 0" by (metis unat_eq_zero)
  moreover have "bit (take_bit 21 a) n = bit a n" using a(2) by (simp add: bit_take_bit_iff)
  ultimately show "\<not> bit a n" by simp
qed

lemma large_map_eq:
  assumes "flags_ok flags" and "unat phys mod 0x200000 = 0" and "unat phys < 2 ^ 63"
  shows "large_map phys flags w = Some (phys + (w AND (LARGE_PAGE_SIZE - 1)), phys OR flags OR PT_PSE)"
    and "(phys OR flags OR PT_PSE) AND FLAGS_MASK AND NOT PT_PSE = flags"
proof -
  note b = large_aligned_bits [OF assms(2)] small_bits [OF assms(3), of 63] flags_bits [OF assms(1)]
  have p: "phys AND NOT LARGE_FLAGS_MASK = phys"
    using b(1,2) by (auto simp: u64_eq_iff bit_and_iff bit_not_iff bit_LARGE_FLAGS_MASK)
  have hi: "\<not> bit flags n" if "\<not> n < 21" "n \<noteq> 63" for n using b(3) [of n] that by auto
  have "(phys OR flags OR PT_PSE) AND NOT LARGE_FLAGS_MASK = phys"
    using b hi by (auto simp: u64_eq_iff bit_and_iff bit_or_iff bit_not_iff bit_LARGE_FLAGS_MASK)
  moreover have "present (phys OR flags OR PT_PSE)" unfolding present_bit bit_or_iff using b by blast
  ultimately show "large_map phys flags w = Some (phys + (w AND (LARGE_PAGE_SIZE - 1)), phys OR flags OR PT_PSE)"
    by (simp add: large_map_def Let_def p)
  show "(phys OR flags OR PT_PSE) AND FLAGS_MASK AND NOT PT_PSE = flags"
    using b by (auto simp: u64_eq_iff bit_and_iff bit_or_iff bit_not_iff bit_FLAGS_MASK)
qed

lemma unat_chunk:
  fixes a step :: u64
  assumes "k < n" and "unat a + unat step * n \<le> 2 ^ 64" and "0 < unat step"
  shows "unat (a + of_nat k * step) = unat a + k * unat step"
proof -
  have "unat a + unat step * Suc k \<le> unat a + unat step * n" using assms(1) by (intro add_left_mono mult_le_mono) auto
  then have "unat a + unat step * Suc k \<le> 2 ^ 64" using assms(2) by simp
  then have b: "unat a + k * unat step < 2 ^ 64" using assms(3) by (simp add: algebra_simps)
  have "k * 1 \<le> k * unat step" using assms(3) by (intro mult_le_mono2) simp
  then have "k < 2 ^ 64" using b by linarith
  then have k: "unat (of_nat k :: u64) = k" by (simp add: unat_of_nat)
  then have "unat (of_nat k * step) = k * unat step" using b by (subst unat_mult_lt) simp_all
  then show ?thesis using b by (subst unat_add_lt) simp_all
qed

lemma chunk_index:
  fixes a w step :: u64
  assumes "unat a \<le> unat w" and "unat w < unat a + unat step * n" and "unat a + unat step * n \<le> 2 ^ 64"
  obtains k where "k < n" and "unat (a + of_nat k * step) \<le> unat w" and "unat w < unat (a + of_nat k * step) + unat step"
proof -
  define k where "k = (unat w - unat a) div unat step"
  have s: "0 < unat step" using assms(1,2) by (cases "unat step") auto
  have "unat w - unat a < n * unat step" using assms(1,2) by (simp add: algebra_simps)
  then have k: "k < n" unfolding k_def using s by (simp add: div_less_iff_less_mult)
  have d: "k * unat step + (unat w - unat a) mod unat step = unat w - unat a" "(unat w - unat a) mod unat step < unat step"
    using s by (simp_all add: k_def)
  show thesis
    using unat_chunk [OF k assms(3) s] d assms(1) by (intro that [OF k]) linarith+
qed

lemma all_succeed:
  assumes "S \<subseteq> {..<n}" and "f = of_nat (n - card S) * (step :: u64)" and "unat step * n < 2 ^ 64" and "0 < unat step"
  shows "unat f \<le> unat step * n" and "f = 0 \<Longrightarrow> S = {..<n}"
proof -
  have le: "unat step * (n - card S) \<le> unat step * n" by simp
  have "n - card S \<le> unat step * (n - card S)" using assms(4) by simp
  then have "n - card S < 2 ^ 64" using le assms(3) by linarith
  then have "unat (of_nat (n - card S) :: u64) = n - card S" by (simp add: unat_of_nat)
  then have u: "unat f = (n - card S) * unat step"
    unfolding assms(2) using le_less_trans [OF le assms(3)] by (subst unat_mult_lt) (simp_all add: mult.commute)
  then show "unat f \<le> unat step * n" using le by (simp add: mult.commute)
  show "S = {..<n}" if "f = 0"
  proof -
    have "n \<le> card S" using u that assms(4) by simp
    then show ?thesis using card_mono [OF _ assms(1)] by (intro card_subset_eq assms(1)) auto
  qed
qed

text \<open>
  What mapping a range achieves: \<open>f\<close> bytes failed, and if none did the whole range is mapped. Without the present bit in the
  flags nothing becomes mapped at all.
\<close>

definition touched :: "u64 \<Rightarrow> nat \<Rightarrow> nat \<Rightarrow> u64 set" where
  "touched flags lo hi = (if present flags then region lo hi else {})"

lemma touched_mono: "lo' \<le> lo \<Longrightarrow> hi \<le> hi' \<Longrightarrow> touched flags lo hi \<subseteq> touched flags lo' hi'"
  using region_mono by (simp add: touched_def)

definition flags_fit :: "u64 \<Rightarrow> bool" where
  "flags_fit flags \<longleftrightarrow> flags_ok flags \<or> \<not> present flags"

definition range_result :: "e820_entry list \<Rightarrow> nat set \<Rightarrow> u64 \<Rightarrow> u64 \<Rightarrow> u64 \<Rightarrow> nat \<Rightarrow> u64 \<Rightarrow> kmem \<Rightarrow> u64 \<Rightarrow> kmem \<Rightarrow> bool" where
  "range_result es K root virt phys sz flags st f st' \<longleftrightarrow>
     extends es K root st st' (touched flags (unat virt) (unat virt + sz)) \<and> unat f \<le> sz \<and>
     (f = 0 \<and> present flags \<longrightarrow> (\<forall>w. unat virt \<le> unat w \<and> unat w < unat virt + sz \<longrightarrow> maps_to st' root w (phys + (w - virt)) flags))"

lemma aligned_and: "a AND (PAGE_SIZE - 1) = 0 \<longleftrightarrow> page_aligned a"
proof -
  have "a AND (PAGE_SIZE - 1) = 0 \<longleftrightarrow> unat (take_bit 12 a) = 0" unfolding page_off by (metis unat_eq_zero)
  then show ?thesis unfolding unat_take_bit by (simp add: page_aligned_def)
qed

lemma large_and: "a AND (LARGE_PAGE_SIZE - 1) = 0 \<longleftrightarrow> unat a mod 0x200000 = 0"
proof -
  have "a AND (LARGE_PAGE_SIZE - 1) = 0 \<longleftrightarrow> unat (take_bit 21 a) = 0" unfolding large_off by (metis unat_eq_zero)
  then show ?thesis unfolding unat_take_bit by simp
qed

lemma set_pages_mapped:
  assumes ok: "tree_ok es K root st" and root: "mmu pml4 = root" and fl: "flags_ok flags"
    and al: "page_aligned virt" "page_aligned phys" "page_aligned sz"
    and lim: "unat virt + unat sz \<le> 2 ^ 64" "unat phys + unat sz \<le> 2 ^ 63"
    and r: "set_pages es pml4 virt phys sz flags False st = Ok (f, st')"
  shows "range_result es K root virt phys (unat sz) flags st f st'"
proof -
  define n where "n = unat sz div 0x1000"
  have n: "unat sz = 4096 * n" "unat PAGE_SIZE * n = unat sz" using al(3) by (auto simp: n_def page_aligned_def)
  have loop: "set_pages_loop (\<lambda>i. set_page es pml4 (virt + i) (phys + i) flags False) PAGE_SIZE n 0 0 st = Ok (f, st')"
    using r al by (simp add: set_pages_def aligned_and n_def)
  let ?P = "\<lambda>i. {w. same_page (virt + i) w}" and ?F = "\<lambda>i. page_map (phys + i) flags"
  have "extends es K root st st' (\<Union>k < n. ?P (0 + of_nat k * PAGE_SIZE)) \<and>
    (\<exists>S \<subseteq> {..<n}. f = 0 + of_nat (n - card S) * PAGE_SIZE \<and>
      (\<forall>k \<in> S. \<forall>w \<in> ?P (0 + of_nat k * PAGE_SIZE). translate (pmem st') root w = ?F (0 + of_nat k * PAGE_SIZE) w))"
  proof (rule loop_spec [OF _ _ ok loop])
    show "(rc = 0 \<or> rc = -1) \<and> maps_only es K root st st' (?F i) (if rc = 0 then ?P i else {})"
      if "tree_ok es K root st" "set_page es pml4 (virt + i) (phys + i) flags False st = Ok (rc, st')" for i st rc st'
      using set_page_spec [OF that(1) root that(2)] by simp
  qed (use flags_present [OF fl] in \<open>simp add: page_map_def Let_def\<close>)
  then obtain S where E: "extends es K root st st' (\<Union>k < n. ?P (of_nat k * PAGE_SIZE))" and S: "S \<subseteq> {..<n}" "f = of_nat (n - card S) * PAGE_SIZE"
    and T: "\<And>k w. k \<in> S \<Longrightarrow> same_page (virt + of_nat k * PAGE_SIZE) w \<Longrightarrow>
      translate (pmem st') root w = page_map (phys + of_nat k * PAGE_SIZE) flags w" by auto
  have lt: "unat PAGE_SIZE * n < 2 ^ 64" unfolding n(2) by simp
  note F = all_succeed [OF S lt]
  have pos: "unat virt + unat PAGE_SIZE * n \<le> 2 ^ 64" "unat phys + unat PAGE_SIZE * n \<le> 2 ^ 64" using lim unfolding n(2) by simp_all
  have "maps_to st' root w (phys + (w - virt)) flags"
    if w: "f = 0" "unat virt \<le> unat w" "unat w < unat virt + unat sz" for w
  proof -
    obtain k where k: "k < n" "unat (virt + of_nat k * PAGE_SIZE) \<le> unat w" "unat w < unat (virt + of_nat k * PAGE_SIZE) + 4096"
      using chunk_index [OF w(2) _ pos(1)] w(3) n(2) by auto
    define v where "v = virt + of_nat k * PAGE_SIZE"
    define p where "p = phys + of_nat k * PAGE_SIZE"
    have up: "unat v = unat virt + k * 4096" "unat p = unat phys + k * 4096"
      unfolding v_def p_def using unat_chunk [OF k(1) pos(1)] unat_chunk [OF k(1) pos(2)] by simp_all
    have "k * 4096 + 4096 \<le> unat sz" using k(1) n(1) by simp
    then have "page_aligned v" "page_aligned p" "unat p < 2 ^ 63"
      using up al(1,2) lim(2) by (auto simp: page_aligned_def)
    note Q = in_page [OF this(1) k(2,3) [folded v_def]] and M = page_map_eq [OF fl this(2,3)]
    have "k \<in> S" using F(2) w(1) k(1) by simp
    then have "translate (pmem st') root w = Some (p + (w - v), p OR flags)"
      using T [of k w] Q M(1) by (simp add: v_def p_def)
    moreover have "p + (w - v) = phys + (w - virt)" by (simp add: v_def p_def)
    ultimately show ?thesis using M(2) by (auto simp: maps_to_def)
  qed
  moreover have "(\<Union>k < n. ?P (of_nat k * PAGE_SIZE)) \<subseteq> region (unat virt) (unat virt + unat sz)"
  proof
    fix w assume "w \<in> (\<Union>k < n. ?P (of_nat k * PAGE_SIZE))"
    then obtain k where k: "k < n" "same_page (virt + of_nat k * PAGE_SIZE) w" by auto
    have "unat (virt + of_nat k * PAGE_SIZE) = unat virt + k * 4096" using unat_chunk [OF k(1) pos(1)] by simp
    moreover have "k * 4096 + 4096 \<le> unat sz" using k(1) n(1) by simp
    ultimately show "w \<in> region (unat virt) (unat virt + unat sz)"
      unfolding region_def using k(2) by (intro CollectI exI [of _ "virt + of_nat k * PAGE_SIZE"]) simp
  qed
  ultimately show ?thesis using extends_mono [OF E] F(1) n(2) fl by (auto simp: range_result_def touched_def flags_ok_def)
qed

lemma quiet_loop:
  assumes one: "\<And>i st rc st'. tree_ok es K root st \<Longrightarrow> set_one i st = Ok (rc, st') \<Longrightarrow> extends es K root st st' {} \<and> (rc = 0 \<or> rc = -1)"
    and np: "\<not> present flags" and step: "unat step * n \<le> sz" "sz < 2 ^ 64" "0 < unat step"
    and ok: "tree_ok es K root st" and r: "set_pages_loop set_one step n 0 0 st = Ok (f, st')"
  shows "range_result es K root virt phys sz flags st f st'"
proof -
  have "extends es K root st st' (\<Union>k < n. {}) \<and>
    (\<exists>S \<subseteq> {..<n}. f = 0 + of_nat (n - card S) * step \<and> (\<forall>k \<in> S. \<forall>w \<in> {}. translate (pmem st') root w = None))"
  proof (rule loop_spec [OF _ _ ok r])
    show "(rc = 0 \<or> rc = -1) \<and> maps_only es K root st st' (\<lambda>w. None) (if rc = 0 then {} else {})"
      if "tree_ok es K root st" "set_one i st = Ok (rc, st')" for i st rc st'
      using one [OF that] by (auto simp: extends_def maps_only_def)
  qed simp
  then obtain S where E: "extends es K root st st' {}" and S: "S \<subseteq> {..<n}" "f = of_nat (n - card S) * step" by auto
  have "unat step * n < 2 ^ 64" using step by linarith
  then show ?thesis using E all_succeed(1) [OF S] step np by (auto simp: range_result_def touched_def)
qed

lemma quiet_map:
  assumes "\<not> present flags"
  shows "page_map phys flags w = None" and "large_map phys flags w = None"
  using assms by (auto simp: page_map_def large_map_def Let_def present_bit bit_or_iff bit_and_iff bit_not_iff bit_FLAGS_MASK bit_LARGE_FLAGS_MASK)

lemma maps_only_quiet: "maps_only es K root st st' M A \<Longrightarrow> (\<And>w. M w = None) \<Longrightarrow> extends es K root st st' {}"
  by (auto simp: maps_only_def extends_def)

lemma quiet_steps:
  assumes np: "\<not> present flags" and ok: "tree_ok es K root st" and root: "mmu pml4 = root"
  shows "set_page es pml4 v p flags False st = Ok (rc, st') \<Longrightarrow> extends es K root st st' {} \<and> (rc = 0 \<or> rc = -1)"
    and "set_large_page es pml4 v p flags False st = Ok (rc, st') \<Longrightarrow> extends es K root st st' {} \<and> (rc = 0 \<or> rc = -1)"
proof -
  show "extends es K root st st' {} \<and> (rc = 0 \<or> rc = -1)" if r: "set_page es pml4 v p flags False st = Ok (rc, st')"
    using set_page_spec(1,2) [OF ok root r] maps_only_quiet quiet_map(1) [OF np] by blast
  show "extends es K root st st' {} \<and> (rc = 0 \<or> rc = -1)" if r: "set_large_page es pml4 v p flags False st = Ok (rc, st')"
    using set_large_page_spec(1,2) [OF ok root r] maps_only_quiet quiet_map(2) [OF np] by blast
qed

lemma set_pages_spec:
  assumes ok: "tree_ok es K root st" and root: "mmu pml4 = root" and fl: "flags_fit flags"
    and al: "page_aligned virt" "page_aligned phys" "page_aligned sz"
    and lim: "unat virt + unat sz \<le> 2 ^ 64" "unat phys + unat sz \<le> 2 ^ 63"
    and r: "set_pages es pml4 virt phys sz flags False st = Ok (f, st')"
  shows "range_result es K root virt phys (unat sz) flags st f st'"
proof (cases "flags_ok flags")
  case True
  then show ?thesis by (rule set_pages_mapped [OF ok root _ al lim r])
next
  case False
  then have np: "\<not> present flags" using fl by (simp add: flags_fit_def)
  have "set_pages_loop (\<lambda>i. set_page es pml4 (virt + i) (phys + i) flags False) PAGE_SIZE (unat sz div 0x1000) 0 0 st = Ok (f, st')"
    using r al by (simp add: set_pages_def aligned_and)
  then show ?thesis
    by (intro quiet_loop [OF quiet_steps(1) [OF np _ root] np _ _ _ ok]) auto
qed

lemma set_large_pages_mapped:
  assumes ok: "tree_ok es K root st" and root: "mmu pml4 = root" and fl: "flags_ok flags"
    and al: "unat virt mod 0x200000 = 0" "unat phys mod 0x200000 = 0" "unat sz mod 0x200000 = 0"
    and lim: "unat virt + unat sz \<le> 2 ^ 64" "unat phys + unat sz \<le> 2 ^ 63"
    and r: "set_large_pages es pml4 virt phys sz flags False st = Ok (f, st')"
  shows "range_result es K root virt phys (unat sz) flags st f st'"
proof -
  define n where "n = unat sz div 0x200000"
  have up: "unat LARGE_PAGE_SIZE = 0x200000" by (simp add: LARGE_PAGE_SIZE_def)
  have n: "unat sz = 0x200000 * n" "unat LARGE_PAGE_SIZE * n = unat sz" using al(3) by (auto simp: n_def up)
  have loop: "set_pages_loop (\<lambda>i. set_large_page es pml4 (virt + i) (phys + i) flags False) LARGE_PAGE_SIZE n 0 0 st = Ok (f, st')"
    using r al by (simp add: set_large_pages_def large_and n_def)
  let ?P = "\<lambda>i. {w. same_large (virt + i) w}" and ?F = "\<lambda>i. large_map (phys + i) flags"
  have some: "large_map p flags w \<noteq> None" for p w
    using flags_bits(2) [OF fl] by (auto simp: large_map_def Let_def present_bit bit_or_iff)
  have "extends es K root st st' (\<Union>k < n. ?P (0 + of_nat k * LARGE_PAGE_SIZE)) \<and>
    (\<exists>S \<subseteq> {..<n}. f = 0 + of_nat (n - card S) * LARGE_PAGE_SIZE \<and>
      (\<forall>k \<in> S. \<forall>w \<in> ?P (0 + of_nat k * LARGE_PAGE_SIZE). translate (pmem st') root w = ?F (0 + of_nat k * LARGE_PAGE_SIZE) w))"
  proof (rule loop_spec [OF _ some ok loop])
    show "(rc = 0 \<or> rc = -1) \<and> maps_only es K root st st' (?F i) (if rc = 0 then ?P i else {})"
      if "tree_ok es K root st" "set_large_page es pml4 (virt + i) (phys + i) flags False st = Ok (rc, st')" for i st rc st'
      using set_large_page_spec [OF that(1) root that(2)] by simp
  qed
  then obtain S where E: "extends es K root st st' (\<Union>k < n. ?P (of_nat k * LARGE_PAGE_SIZE))" and S: "S \<subseteq> {..<n}" "f = of_nat (n - card S) * LARGE_PAGE_SIZE"
    and T: "\<And>k w. k \<in> S \<Longrightarrow> same_large (virt + of_nat k * LARGE_PAGE_SIZE) w \<Longrightarrow>
      translate (pmem st') root w = large_map (phys + of_nat k * LARGE_PAGE_SIZE) flags w" by auto
  have lt: "unat LARGE_PAGE_SIZE * n < 2 ^ 64" unfolding n(2) by simp
  note F = all_succeed [OF S lt]
  have pos: "unat virt + unat LARGE_PAGE_SIZE * n \<le> 2 ^ 64" "unat phys + unat LARGE_PAGE_SIZE * n \<le> 2 ^ 64" using lim unfolding n(2) by simp_all
  have al_k: "unat (virt + of_nat k * LARGE_PAGE_SIZE) mod 0x200000 = 0" "unat (virt + of_nat k * LARGE_PAGE_SIZE) = unat virt + k * 0x200000"
    if "k < n" for k using unat_chunk [OF that pos(1)] al(1) by (simp_all add: up)
  have "maps_to st' root w (phys + (w - virt)) flags"
    if w: "f = 0" "unat virt \<le> unat w" "unat w < unat virt + unat sz" for w
  proof -
    obtain k where k: "k < n" "unat (virt + of_nat k * LARGE_PAGE_SIZE) \<le> unat w" "unat w < unat (virt + of_nat k * LARGE_PAGE_SIZE) + 0x200000"
      using chunk_index [OF w(2) _ pos(1)] w(3) n(2) by (auto simp: up)
    define v where "v = virt + of_nat k * LARGE_PAGE_SIZE"
    define p where "p = phys + of_nat k * LARGE_PAGE_SIZE"
    have "unat p = unat phys + k * 0x200000"
      unfolding p_def using unat_chunk [OF k(1) pos(2)] by (simp add: up)
    moreover have "k * 0x200000 + 0x200000 \<le> unat sz" using k(1) n(1) by simp
    ultimately have "unat p mod 0x200000 = 0" "unat p < 2 ^ 63" using al(2) lim(2) by auto
    note M = large_map_eq [OF fl this] and Q = in_large [OF al_k(1) [OF k(1)] k(2,3), folded v_def]
    have "k \<in> S" using F(2) w(1) k(1) by (simp add: up)
    then have "translate (pmem st') root w = Some (p + (w - v), p OR flags OR PT_PSE)"
      using T [of k w] Q M(1) by (simp add: v_def p_def)
    moreover have "p + (w - v) = phys + (w - virt)" by (simp add: v_def p_def)
    ultimately show ?thesis using M(2) by (auto simp: maps_to_def)
  qed
  moreover have "(\<Union>k < n. ?P (of_nat k * LARGE_PAGE_SIZE)) \<subseteq> region (unat virt) (unat virt + unat sz)"
  proof
    fix w assume "w \<in> (\<Union>k < n. ?P (of_nat k * LARGE_PAGE_SIZE))"
    then obtain k where k: "k < n" "same_large (virt + of_nat k * LARGE_PAGE_SIZE) w" by auto
    obtain u where "unat virt + k * 0x200000 \<le> unat u" "unat u < unat virt + k * 0x200000 + 0x200000" "same_page u w"
      using large_pages [OF al_k(1) [OF k(1)] k(2)] al_k(2) [OF k(1)] by auto
    moreover have "k * 0x200000 + 0x200000 \<le> unat sz" using k(1) n(1) by simp
    ultimately show "w \<in> region (unat virt) (unat virt + unat sz)" unfolding region_def by (intro CollectI exI [of _ u]) simp
  qed
  ultimately show ?thesis using extends_mono [OF E] F(1) n(2) fl by (auto simp: range_result_def touched_def flags_ok_def up)
qed

lemma set_large_pages_spec:
  assumes ok: "tree_ok es K root st" and root: "mmu pml4 = root" and fl: "flags_fit flags"
    and al: "unat virt mod 0x200000 = 0" "unat phys mod 0x200000 = 0" "unat sz mod 0x200000 = 0"
    and lim: "unat virt + unat sz \<le> 2 ^ 64" "unat phys + unat sz \<le> 2 ^ 63"
    and r: "set_large_pages es pml4 virt phys sz flags False st = Ok (f, st')"
  shows "range_result es K root virt phys (unat sz) flags st f st'"
proof (cases "flags_ok flags")
  case True
  then show ?thesis by (rule set_large_pages_mapped [OF ok root _ al lim r])
next
  case False
  then have np: "\<not> present flags" using fl by (simp add: flags_fit_def)
  have "set_pages_loop (\<lambda>i. set_large_page es pml4 (virt + i) (phys + i) flags False) LARGE_PAGE_SIZE (unat sz div 0x200000) 0 0 st = Ok (f, st')"
    using r al by (simp add: set_large_pages_def large_and)
  then show ?thesis
    by (intro quiet_loop [OF quiet_steps(2) [OF np _ root] np _ _ _ ok]) (auto simp: LARGE_PAGE_SIZE_def)
qed

text \<open>Ranges compose: first a range, then its continuation.\<close>

lemma range_result_empty: "tree_ok es K root st \<Longrightarrow> range_result es K root virt phys 0 flags st 0 st"
  by (auto simp: range_result_def extends_refl)

lemma maps_to_keeps: "extends es K root st st' A \<Longrightarrow> maps_to st root w pa flags \<Longrightarrow> maps_to st' root w pa flags"
  unfolding maps_to_def using extends_keeps by blast

lemma range_result_ok: "range_result es K root virt phys sz flags st f st' \<Longrightarrow> tree_ok es K root st'"
  by (simp add: range_result_def extends_def)

lemma range_join:
  assumes 1: "range_result es K root virt phys s1 flags st f1 st1"
    and 2: "range_result es K root virt2 phys2 s2 flags st1 f2 st2"
    and v: "unat virt2 = unat virt + s1" "phys2 - virt2 = phys - virt" and lim: "unat virt + s1 + s2 \<le> 2 ^ 64" "s1 + s2 < 2 ^ 64"
  shows "range_result es K root virt phys (s1 + s2) flags st (f1 + f2) st2"
proof -
  note D = 1 [unfolded range_result_def] 2 [unfolded range_result_def]
  have f: "unat (f1 + f2) = unat f1 + unat f2" using D lim(2) by (intro unat_add_lt) auto
  have "extends es K root st st2 (touched flags (unat virt) (unat virt + s1) \<union> touched flags (unat virt2) (unat virt2 + s2))"
    using D by (blast intro: extends_trans)
  then have "extends es K root st st2 (touched flags (unat virt) (unat virt + (s1 + s2)))"
    by (rule extends_mono) (intro Un_least touched_mono; simp add: v)
  moreover have "maps_to st2 root w (phys + (w - virt)) flags"
    if w: "f1 + f2 = 0 \<and> present flags" "unat virt \<le> unat w" "unat w < unat virt + (s1 + s2)" for w
  proof -
    have z: "f1 = 0" "f2 = 0" "present flags" using w(1) f by (metis add_is_0 unat_eq_zero unsigned_0)+
    have pa: "phys + (w - virt) = phys2 + (w - virt2)" using v(2) by (simp add: algebra_simps)
    show ?thesis
    proof (cases "unat w < unat virt + s1")
      case True
      then show ?thesis using D z w(2) by (intro maps_to_keeps [OF conjunct1 [OF D(2)]]) auto
    next
      case False
      then show ?thesis unfolding pa using D z w(3) v(1) by auto
    qed
  qed
  ultimately show ?thesis using f D by (auto simp: range_result_def)
qed

section \<open>Arbitrary ranges\<close>

abbreviation up :: "nat \<Rightarrow> nat \<Rightarrow> nat" where
  "up b x \<equiv> (x + b - 1) div b * b"

lemma up_props:
  assumes "0 < b"
  shows "x \<le> up b x" and "up b x < x + b" and "b dvd up b x" and "b dvd x \<Longrightarrow> up b x = x"
proof -
  have d: "(x + b - 1) div b * b + (x + b - 1) mod b = x + b - 1" "(x + b - 1) mod b < b" using assms by simp_all
  show "x \<le> up b x" "up b x < x + b" using d assms by linarith+
  show "b dvd up b x" by simp
  show "up b x = x" if dv: "b dvd x"
  proof -
    obtain k where k: "x = b * k" using dv by blast
    have "(b * k + b - 1) div b = k" using assms by (intro div_nat_eqI) auto
    then show ?thesis unfolding k by (simp add: mult.commute)
  qed
qed

lemma unat_up:
  assumes "b \<noteq> 0" and "unat a + unat b \<le> 2 ^ 64"
  shows "unat (ROUND_UP a b) = up (unat b) (unat a)"
  using unat_ROUND_UP [OF assms] by simp

lemma trim_range_spec:
  assumes lim: "unat virt + unat sz + 4096 \<le> 2 ^ 64" and t: "trim_range virt (virt + sz) = (v, off, ve, failed)"
  shows "unat v = up 4096 (unat virt)" and "unat off = unat v - unat virt" and "v = virt + off"
    and "unat ve = (unat virt + unat sz) div 4096 * 4096" and "failed = off + (virt + sz - ve)"
    and "unat (virt + sz - ve) = unat virt + unat sz - unat ve"
proof -
  have e: "unat (virt + sz) = unat virt + unat sz" using lim by (intro unat_add_lt) simp
  have u: "unat (ROUND_UP virt PAGE_SIZE) = up 4096 (unat virt)" using lim by (subst unat_up) simp_all
  have d: "unat (ROUND_DOWN (virt + sz) PAGE_SIZE) = (unat virt + unat sz) div 4096 * 4096" by (simp add: unat_ROUND_DOWN e)
  have ups: "unat virt \<le> up 4096 (unat virt)" by (rule up_props) simp
  have le: "virt \<le> ROUND_UP virt PAGE_SIZE" "ROUND_DOWN (virt + sz) PAGE_SIZE \<le> virt + sz"
    using ups by (simp_all add: word_le_nat_alt u d e)
  have off: "off = ROUND_UP virt PAGE_SIZE - virt"
  proof (cases "page_aligned virt")
    case True
    then have "4096 dvd unat virt" by (auto simp: page_aligned_def)
    then have "up 4096 (unat virt) = unat virt" by (intro up_props(4)) simp_all
    then have "ROUND_UP virt PAGE_SIZE = virt" using u by (simp add: word_unat_eq_iff)
    then show ?thesis using t True by (auto simp: trim_range_def Let_def aligned_and)
  qed (use t in \<open>auto simp: trim_range_def Let_def aligned_and\<close>)
  have eoff: "ve = ROUND_DOWN (virt + sz) PAGE_SIZE"
  proof (cases "page_aligned (virt + sz)")
    case True
    then have "unat (virt + sz) div 4096 * 4096 = unat (virt + sz)" by (auto simp: page_aligned_def)
    then have "ROUND_DOWN (virt + sz) PAGE_SIZE = virt + sz" using d e by (simp add: word_unat_eq_iff)
    then show ?thesis using t True by (auto simp: trim_range_def Let_def aligned_and)
  qed (use t in \<open>auto simp: trim_range_def Let_def aligned_and\<close>)
  show v: "v = virt + off" and "failed = off + (virt + sz - ve)"
    using t eoff by (auto simp: trim_range_def Let_def)
  then have "v = ROUND_UP virt PAGE_SIZE" using off by simp
  then show "unat v = up 4096 (unat virt)" "unat off = unat v - unat virt"
    using u off le(1) by (simp_all add: unat_sub_le)
  show "unat ve = (unat virt + unat sz) div 4096 * 4096" "unat (virt + sz - ve) = unat virt + unat sz - unat ve"
    using d eoff le(2) e by (simp_all add: unat_sub_le)
qed

lemma up_cong:
  assumes "x mod b = y mod b" and "0 < b"
  shows "up b x + y = up b y + x"
proof -
  have "up b z = z div b * b + up b (z mod b)" for z
  proof -
    have e: "z + b - 1 = (z mod b + b - 1) + z div b * b" using assms(2) div_mult_mod_eq [of z b] by linarith
    have "(z + b - 1) div b = (z mod b + b - 1) div b + z div b"
      unfolding e using assms(2) by (simp only: div_mult_self1 neq0_conv [symmetric] simp_thms)
    then show ?thesis by (simp add: algebra_simps)
  qed
  then have "up b x = x div b * b + up b (x mod b)" "up b y = y div b * b + up b (x mod b)" using assms(1) by metis+
  then show ?thesis using div_mult_mod_eq [of x b] div_mult_mod_eq [of y b] assms(1) by linarith
qed

text \<open>How a page-aligned range is cut into small pages, large pages and small pages again.\<close>

lemma range_split:
  fixes V E :: nat
  assumes "V < E" "V mod 4096 = 0" "E mod 4096 = 0"
    and L: "L = up 0x200000 V" and LE: "LE = E div 0x200000 * 0x200000"
    and ls: "ls = (if LE > L then LE - L else 0)" and ps: "ps = (if L < E then L else E) - V"
    and qs: "qs = (if E > L + ls then E - (L + ls) else 0)"
  shows "ps + ls + qs = E - V" and "ls \<noteq> 0 \<Longrightarrow> L = V + ps" and "qs \<noteq> 0 \<Longrightarrow> L + ls = V + ps + ls"
    and "ps mod 4096 = 0" and "ls mod 0x200000 = 0" and "qs mod 4096 = 0" and "L mod 0x200000 = 0"
    and "V + ps + ls + qs = E" and "ls mod 4096 = 0"
proof -
  have U: "V \<le> L" "0x200000 dvd L" using up_props(1,3) [of "0x200000" V] L by simp_all
  show L0: "L mod 0x200000 = 0" using U(2) by simp
  have dL: "4096 dvd L" using U(2) by (rule dvd_trans [rotated]) simp
  have d: "4096 dvd V" "4096 dvd E" using assms(2,3) by auto
  have le: "LE \<le> E" "0x200000 dvd LE" by (simp_all add: LE)
  have dLE: "4096 dvd LE" using le(2) by (rule dvd_trans [rotated]) simp
  have "(ps + ls + qs = E - V) \<and> (ls \<noteq> 0 \<longrightarrow> L = V + ps) \<and> (qs \<noteq> 0 \<longrightarrow> L + ls = V + ps + ls) \<and>
    4096 dvd ps \<and> 0x200000 dvd ls \<and> 4096 dvd ls \<and> 4096 dvd qs"
  proof (cases "L < E")
    case True
    obtain q where q: "L = 0x200000 * q" using U(2) by blast
    have "q \<le> E div 0x200000" using True q by (simp add: less_eq_div_iff_mult_less_eq)
    then have "L \<le> LE" unfolding LE q by simp
    then have "ls = LE - L" "L + ls = LE" "ps = L - V" using True by (auto simp: ls ps)
    moreover have "qs = E - LE" using le(1) \<open>L + ls = LE\<close> by (simp add: qs)
    ultimately show ?thesis using U le dL dLE d \<open>L \<le> LE\<close> by (auto simp: dvd_diff_nat)
  next
    case False
    then have "ls = 0" "ps = E - V" "qs = 0" using le(1) by (auto simp: ls ps qs)
    then show ?thesis using d by (auto simp: dvd_diff_nat)
  qed
  then show "ps + ls + qs = E - V" "ls \<noteq> 0 \<Longrightarrow> L = V + ps" "qs \<noteq> 0 \<Longrightarrow> L + ls = V + ps + ls"
    "ps mod 4096 = 0" "ls mod 0x200000 = 0" "qs mod 4096 = 0" "V + ps + ls + qs = E" "ls mod 4096 = 0" using assms(1) by auto
qed

definition set_parts :: "e820_entry list \<Rightarrow> u64 \<Rightarrow> u64 \<Rightarrow> u64 \<Rightarrow> u64 \<Rightarrow> u64 \<Rightarrow> u64 \<Rightarrow> kmem \<Rightarrow> (u64 \<times> kmem) kres" where
  "set_parts es pml4 virt phys virt_end flags failed st =
     (let large_virt = ROUND_UP virt LARGE_PAGE_SIZE;
          large_phys = ROUND_UP phys LARGE_PAGE_SIZE;
          large_virt_end = ROUND_DOWN virt_end LARGE_PAGE_SIZE;
          large_size = (if large_virt_end > large_virt then large_virt_end - large_virt else 0);
          pre_pad_end = (if large_virt < virt_end then large_virt else virt_end);
          pre_pad_size = (if pre_pad_end > virt then pre_pad_end - virt else 0);
          pos_pad_virt = large_virt + large_size;
          pos_pad_phys = large_phys + large_size;
          pos_pad_size = (if virt_end > pos_pad_virt then virt_end - pos_pad_virt else 0)
      in rbind (if pre_pad_size \<noteq> 0 then set_pages es pml4 virt phys pre_pad_size flags False st else Ok (0, st)) (\<lambda>(f1, st1).
         rbind (if large_size \<noteq> 0 then set_large_pages es pml4 large_virt large_phys large_size flags False st1 else Ok (0, st1)) (\<lambda>(f2, st2).
         rbind (if pos_pad_size \<noteq> 0 then set_pages es pml4 pos_pad_virt pos_pad_phys pos_pad_size flags False st2 else Ok (0, st2)) (\<lambda>(f3, st3).
           Ok (failed + f1 + f2 + f3, st3)))))"

lemma part_layout:
  assumes al: "page_aligned virt" "page_aligned virt_end" "unat phys mod 0x200000 = unat virt mod 0x200000" and lt: "virt < virt_end"
    and lim: "unat virt_end + 0x200000 \<le> 2 ^ 64" "unat phys + (unat virt_end - unat virt) + 0x200000 \<le> 2 ^ 63"
    and L: "L = ROUND_UP virt LARGE_PAGE_SIZE" and LP: "LP = ROUND_UP phys LARGE_PAGE_SIZE"
    and LE: "LE = ROUND_DOWN virt_end LARGE_PAGE_SIZE" and ls: "ls = (if LE > L then LE - L else 0)"
    and pe: "pe = (if L < virt_end then L else virt_end)" and ps: "ps = (if pe > virt then pe - virt else 0)"
    and qs: "qs = (if virt_end > L + ls then virt_end - (L + ls) else 0)"
  shows "unat ps + unat ls + unat qs = unat virt_end - unat virt" and "page_aligned ps" and "page_aligned qs" and "page_aligned phys"
    and "unat ls mod 0x200000 = 0" and "page_aligned ls" and "ls \<noteq> 0 \<or> qs \<noteq> 0 \<Longrightarrow> L = virt + ps \<and> LP = phys + ps"
    and "unat L mod 0x200000 = 0" and "unat LP mod 0x200000 = 0"
proof -
  have V: "unat virt < unat virt_end" using lt by (simp add: word_less_nat_alt)
  have lp: "unat LARGE_PAGE_SIZE = 0x200000" "LARGE_PAGE_SIZE \<noteq> 0" by (simp_all add: LARGE_PAGE_SIZE_def)
  have uL: "unat L = up 0x200000 (unat virt)" unfolding L using lim(1) V lp by (subst unat_up) simp_all
  have uLP: "unat LP = up 0x200000 (unat phys)" unfolding LP using lim(2) lp by (subst unat_up) simp_all
  have uLE: "unat LE = unat virt_end div 0x200000 * 0x200000" unfolding LE by (simp add: unat_ROUND_DOWN lp)
  have Lv: "unat virt \<le> unat L" unfolding uL by (rule up_props) simp
  have uls: "unat ls = (if unat LE > unat L then unat LE - unat L else 0)"
    by (auto simp: ls word_less_nat_alt unat_sub_le word_le_nat_alt)
  have ups: "unat ps = (if unat L < unat virt_end then unat L else unat virt_end) - unat virt"
    using Lv V by (auto simp: ps pe word_less_nat_alt unat_sub_le word_le_nat_alt)
  have "unat L < unat virt + 0x200000" "unat LE \<le> unat virt_end" unfolding uL uLE by (rule up_props(2), simp_all)
  then have uLls: "unat (L + ls) = unat L + unat ls" using lim(1) V uls by (intro unat_add_lt) (auto split: if_splits)
  have uqs: "unat qs = (if unat virt_end > unat L + unat ls then unat virt_end - (unat L + unat ls) else 0)"
    by (auto simp: qs word_less_nat_alt unat_sub_le word_le_nat_alt uLls)
  have alm: "unat virt mod 4096 = 0" "unat virt_end mod 4096 = 0" using al(1,2) by (simp_all add: page_aligned_def)
  note S = range_split [OF V alm uL uLE uls ups uqs]
  show "unat ps + unat ls + unat qs = unat virt_end - unat virt" by (rule S(1))
  show "page_aligned ps" "page_aligned qs" "page_aligned ls" "unat ls mod 0x200000 = 0" "unat L mod 0x200000 = 0"
    using S(4-7,9) by (simp_all add: page_aligned_def)
  show "unat LP mod 0x200000 = 0" using uLP up_props(3) [of "0x200000" "unat phys"] by simp
  have "unat phys mod 4096 = unat virt mod 4096"
    using al(3) mod_mod_cancel [of 4096 "0x200000" "unat phys"] mod_mod_cancel [of 4096 "0x200000" "unat virt"] by simp
  then show "page_aligned phys" using alm by (simp add: page_aligned_def)
  have P: "unat LP + unat virt = unat L + unat phys" unfolding uL uLP using al(3) up_cong [of "unat phys" "0x200000" "unat virt"] by simp
  have u2: "unat (virt + ps) = unat virt + unat ps" "unat (phys + ps) = unat phys + unat ps"
    by (rule unat_add_lt, use S(8) lim V in simp)+
  show "L = virt + ps \<and> LP = phys + ps" if n: "ls \<noteq> 0 \<or> qs \<noteq> 0"
  proof -
    have "unat ls \<noteq> 0 \<or> unat qs \<noteq> 0" using n by (metis unat_eq_zero)
    then have "unat L = unat virt + unat ps" using S(2,3) by linarith
    then show ?thesis using P u2 by (simp add: word_unat_eq_iff)
  qed
qed

lemma set_parts_spec:
  assumes ok: "tree_ok es K root st" and root: "mmu pml4 = root" and fl: "flags_fit flags"
    and al: "page_aligned virt" "page_aligned virt_end" "unat phys mod 0x200000 = unat virt mod 0x200000" and lt: "virt < virt_end"
    and lim: "unat virt_end + 0x200000 \<le> 2 ^ 64" "unat phys + (unat virt_end - unat virt) + 0x200000 \<le> 2 ^ 63"
    and r: "set_parts es pml4 virt phys virt_end flags failed st = Ok (f, st')"
  shows "\<exists>g. f = failed + g \<and> range_result es K root virt phys (unat virt_end - unat virt) flags st g st'"
proof -
  define L LP LE where "L = ROUND_UP virt LARGE_PAGE_SIZE" and "LP = ROUND_UP phys LARGE_PAGE_SIZE" and "LE = ROUND_DOWN virt_end LARGE_PAGE_SIZE"
  define ls where "ls = (if LE > L then LE - L else 0)"
  define pe where "pe = (if L < virt_end then L else virt_end)"
  define ps where "ps = (if pe > virt then pe - virt else 0)"
  define qs where "qs = (if virt_end > L + ls then virt_end - (L + ls) else 0)"
  note defs = L_def LP_def LE_def ls_def pe_def ps_def qs_def
  note S = part_layout [OF al lt lim defs]
  have V: "unat virt < unat virt_end" using lt by (simp add: word_less_nat_alt)
  obtain f1 st1 f2 st2 f3 where
    a1: "(if ps \<noteq> 0 then set_pages es pml4 virt phys ps flags False st else Ok (0, st)) = Ok (f1, st1)" and
    a2: "(if ls \<noteq> 0 then set_large_pages es pml4 L LP ls flags False st1 else Ok (0, st1)) = Ok (f2, st2)" and
    a3: "(if qs \<noteq> 0 then set_pages es pml4 (L + ls) (LP + ls) qs flags False st2 else Ok (0, st2)) = Ok (f3, st')" and
    f: "f = failed + f1 + f2 + f3"
    using r unfolding set_parts_def Let_def defs [symmetric] by (elim rbind_OkE) (auto split: prod.splits)
  define v2 p2 where "v2 = virt + ps" and "p2 = phys + ps"
  have u2: "unat v2 = unat virt + unat ps" "unat p2 = unat phys + unat ps"
    unfolding v2_def p2_def by (rule unat_add_lt, use S(1) lim V in simp)+
  have u3: "unat (v2 + ls) = unat v2 + unat ls" "unat (p2 + ls) = unat p2 + unat ls"
    by (rule unat_add_lt, use u2 S(1) lim V in simp)+
  have l: "L = v2" "LP = p2" if "ls \<noteq> 0 \<or> qs \<noteq> 0" using S(7) that by (simp_all add: v2_def p2_def)
  have R1: "range_result es K root virt phys (unat ps) flags st f1 st1"
  proof (cases "ps = 0")
    case False
    then show ?thesis using a1 S(1) lim V by (intro set_pages_spec [OF ok root fl al(1) S(4,2)]) auto
  qed (use a1 range_result_empty [OF ok] in auto)
  note ok1 = range_result_ok [OF R1]
  have R2: "range_result es K root v2 p2 (unat ls) flags st1 f2 st2"
  proof (cases "ls = 0")
    case False
    then show ?thesis using a2 l S(1,5,8,9) lim V u2 by (intro set_large_pages_spec [OF ok1 root fl]) auto
  qed (use a2 range_result_empty [OF ok1] in auto)
  note ok2 = range_result_ok [OF R2]
  have R3: "range_result es K root (v2 + ls) (p2 + ls) (unat qs) flags st2 f3 st'"
  proof (cases "qs = 0")
    case False
    have "page_aligned (v2 + ls)" "page_aligned (p2 + ls)"
      unfolding page_aligned_def u2 u3 using S(2,4,6) al(1) by (auto simp: page_aligned_def mod_eq_0_iff_dvd)
    then show ?thesis using a3 False l S(1,3) lim V u2 u3 by (intro set_pages_spec [OF ok2 root fl]) auto
  qed (use a3 range_result_empty [OF ok2] in auto)
  have "range_result es K root virt phys (unat ps + unat ls) flags st (f1 + f2) st2"
    by (rule range_join [OF R1 R2]) (use u2 S(1) lim V in \<open>auto simp: v2_def p2_def\<close>)
  then have "range_result es K root virt phys (unat ps + unat ls + unat qs) flags st (f1 + f2 + f3) st'"
    by (rule range_join [OF _ R3]) (use u2 u3 S(1) lim V in \<open>auto simp: v2_def p2_def\<close>)
  then show ?thesis unfolding S(1) using f by (intro exI [of _ "f1 + f2 + f3"]) (simp add: add.assoc)
qed

text \<open>Skipped unaligned ends count as failed, so a range without failures was page aligned.\<close>

lemma range_trim:
  assumes lim: "unat virt0 + unat sz + 0x200000 \<le> 2 ^ 64" and t: "trim_range virt0 (virt0 + sz) = (virt, off, virt_end, failed)"
    and lt: "virt < virt_end" and R: "range_result es K root virt (phys0 + off) (unat virt_end - unat virt) flags st g st'"
  shows "range_result es K root virt0 phys0 (unat sz) flags st (failed + g) st'"
proof -
  note T = trim_range_spec [OF _ t] and R = R [unfolded range_result_def]
  have "unat virt0 + unat sz + 4096 \<le> 2 ^ 64" using lim by simp
  note T = T [OF this]
  have V: "unat virt0 \<le> unat virt" "unat virt < unat virt_end" "unat virt_end \<le> unat virt0 + unat sz"
    using T(1,4) up_props(1) [of 4096 "unat virt0"] lt by (simp_all add: word_less_nat_alt)
  define eoff where "eoff = virt0 + sz - virt_end"
  have e: "unat eoff = unat virt0 + unat sz - unat virt_end" "failed = off + eoff" using T(5,6) by (simp_all add: eoff_def)
  have szlt: "unat sz < 2 ^ LENGTH(64)" by (rule unsigned_less)
  have b: "unat off + unat eoff + unat g \<le> unat sz" using T(2) e(1) V R by linarith
  then have fl: "unat failed = unat off + unat eoff" unfolding e(2) using szlt by (intro unat_add_lt) linarith
  then have u: "unat (failed + g) = unat failed + unat g" using b szlt by (intro unat_add_lt) linarith
  have "extends es K root st st' (touched flags (unat virt0) (unat virt0 + unat sz))"
    using R by (elim conjE, elim extends_mono) (intro touched_mono; use V in linarith)
  moreover have "maps_to st' root w (phys0 + (w - virt0)) flags"
    if w: "failed + g = 0 \<and> present flags" "unat virt0 \<le> unat w" "unat w < unat virt0 + unat sz" for w
  proof -
    have "unat (failed + g) = 0" using w(1) by simp
    then have z: "unat off = 0" "unat eoff = 0" "unat g = 0" using u fl by linarith+
    then have "off = 0" "g = 0" by (simp_all only: unat_eq_zero)
    then show ?thesis using R w V e(1) z T(2,3) by auto
  qed
  ultimately show ?thesis using u b fl by (auto simp: range_result_def)
qed

lemma large_off_eq: "a AND (LARGE_PAGE_SIZE - 1) = b AND (LARGE_PAGE_SIZE - 1) \<longleftrightarrow> unat a mod 0x200000 = unat b mod 0x200000"
  unfolding large_off word_unat_eq_iff by (simp only: unat_take_bit) simp

lemma page_off_eq: "a AND (PAGE_SIZE - 1) = b AND (PAGE_SIZE - 1) \<longleftrightarrow> unat a mod 4096 = unat b mod 4096"
  unfolding page_off word_unat_eq_iff by (simp only: unat_take_bit) simp

lemma range_result_none:
  assumes "tree_ok es K root st"
  shows "range_result es K root virt phys (unat sz) flags st sz st"
proof -
  have "unat sz = 0" if "sz = 0" using that by simp
  then show ?thesis using assms by (auto simp: range_result_def extends_refl)
qed

lemma set_range_spec:
  assumes ok: "tree_ok es K root st" and root: "mmu pml4 = root" and fl: "flags_fit flags"
    and lim: "unat virt + unat sz + 0x200000 \<le> 2 ^ 64" "unat phys + unat sz + 0x200000 \<le> 2 ^ 63"
    and r: "set_range es pml4 virt phys sz flags False st = Ok (f, st')"
  shows "range_result es K root virt phys (unat sz) flags st f st'"
proof (cases "virt AND (LARGE_PAGE_SIZE - 1) = phys AND (LARGE_PAGE_SIZE - 1)")
  case False
  then show ?thesis using r range_result_none [OF ok] by (simp add: set_range_def)
next
  case True
  obtain v off ve failed where t: "trim_range virt (virt + sz) = (v, off, ve, failed)" by (metis prod_cases4)
  note T = trim_range_spec [OF _ t]
  have "unat virt + unat sz + 4096 \<le> 2 ^ 64" using lim by simp
  note T = T [OF this]
  show ?thesis
  proof (cases "v \<ge> ve")
    case le: True
    then show ?thesis using r t True range_result_none [OF ok] by (simp add: set_range_def)
  next
    case False
    then have lt: "v < ve" by simp
    have parts: "set_parts es pml4 v (phys + off) ve flags failed st = Ok (f, st')"
      using r True t False by (simp add: set_range_def set_parts_def Let_def)
    have V: "unat virt \<le> unat v" "unat v < unat ve" "unat ve \<le> unat virt + unat sz"
      using T(1,4) up_props(1) [of 4096 "unat virt"] lt by (simp_all add: word_less_nat_alt)
    have up: "unat (phys + off) = unat phys + unat off" using T(2) V lim by (intro unat_add_lt) simp
    have al: "page_aligned v" "page_aligned ve" using T(1,4) by (simp_all add: page_aligned_def)
    have uv: "unat v = unat virt + unat off" using T(2) V by simp
    have "unat (phys + off) mod 0x200000 = unat v mod 0x200000"
      using True unfolding large_off_eq up uv by (metis mod_add_left_eq)
    moreover have "unat ve + 0x200000 \<le> 2 ^ 64" "unat (phys + off) + (unat ve - unat v) + 0x200000 \<le> 2 ^ 63"
      using V lim up uv by linarith+
    ultimately obtain g where
      "f = failed + g" "range_result es K root v (phys + off) (unat ve - unat v) flags st g st'"
      using set_parts_spec [OF ok root fl al _ lt _ _ parts] by blast
    then show ?thesis using range_trim [OF lim(1) t lt] by simp
  qed
qed

lemma vmm_map_spec:
  assumes p: "pml4 = (if pml4_0 = KERN_PML4 then kern_pml4 ts else pml4_0)" "pml4 \<noteq> 0" "pml4 mod 0x1000 = 0"
    and ok: "tree_ok es K (mmu pml4) st" and fl: "flags_fit flags"
    and lim: "unat virt + unat sz + 0x200000 \<le> 2 ^ 64" "unat phys + unat sz + 0x200000 \<le> 2 ^ 63"
    and r: "vmm_map ts es pml4_0 virt phys sz flags st = Ok (f, st')"
  shows "range_result es K (mmu pml4) virt phys (unat sz) flags st f st'"
proof (cases "virt AND (LARGE_PAGE_SIZE - 1) = phys AND (LARGE_PAGE_SIZE - 1)")
  case True
  then have "set_range es pml4 virt phys sz flags False st = Ok (f, st')"
    using r p(2,3) by (simp add: vmm_map_def Let_def p(1) [symmetric])
  then show ?thesis by (rule set_range_spec [OF ok refl fl lim])
next
  case L: False
  show ?thesis
  proof (cases "virt AND (PAGE_SIZE - 1) = phys AND (PAGE_SIZE - 1)")
    case False
    then show ?thesis using r p(2,3) L range_result_none [OF ok] by (simp add: vmm_map_def Let_def p(1) [symmetric])
  next
    case True
    obtain v off ve failed where t: "trim_range virt (virt + sz) = (v, off, ve, failed)" by (metis prod_cases4)
    note T = trim_range_spec [OF _ t]
    have "unat virt + unat sz + 4096 \<le> 2 ^ 64" using lim by simp
    note T = T [OF this]
    show ?thesis
    proof (cases "v \<ge> ve")
      case le: True
      then show ?thesis using r t L True p(2,3) range_result_none [OF ok] by (simp add: vmm_map_def Let_def p(1) [symmetric])
    next
      case False
      then have lt: "v < ve" by simp
      obtain g where a: "set_pages es pml4 v (phys + off) (ve - v) flags False st = Ok (g, st')" "f = failed + g"
        using r t L True False p(2,3) by (auto simp: vmm_map_def Let_def p(1) [symmetric])
      have V: "unat virt \<le> unat v" "unat v < unat ve" "unat ve \<le> unat virt + unat sz"
        using T(1,4) up_props(1) [of 4096 "unat virt"] lt by (simp_all add: word_less_nat_alt)
      have up: "unat (phys + off) = unat phys + unat off" using T(2) V lim by (intro unat_add_lt) simp
      have sz: "unat (ve - v) = unat ve - unat v" using lt by (intro unat_sub_le) simp
      have uv: "unat v = unat virt + unat off" using T(2) V by simp
      have "unat (phys + off) mod 4096 = unat v mod 4096"
        using True unfolding page_off_eq up uv by (metis mod_add_left_eq)
      then have al: "page_aligned v" "page_aligned (phys + off)" "page_aligned (ve - v)"
        using T(1,4) sz by (auto simp: page_aligned_def mod_eq_0_iff_dvd dvd_diff_nat)
      have "range_result es K (mmu pml4) v (phys + off) (unat (ve - v)) flags st g st'"
        using V lim up T(2) sz by (intro set_pages_spec [OF ok refl fl al _ _ a(1)]) auto
      then show ?thesis using range_trim [OF lim(1) t lt] a(2) sz by simp
    qed
  qed
qed

end
