(* ===== verification/Vmm_Correct.thy ===== *)
theory Vmm_Correct
  imports Vmm_Map
begin

text \<open>
  The properties of the page-table code: the mapping operations always return while the boot allocator backs them, the
  range scan terminates and is exact, \<^verbatim>\<open>vmm_init\<close> builds the boot address space, and user address
  spaces share the kernel half.
\<close>

section \<open>Mapping always returns while tables come from the boot allocator\<close>

definition boot_tree :: "e820_entry list \<Rightarrow> nat set \<Rightarrow> u64 \<Rightarrow> kmem \<Rightarrow> bool" where
  "boot_tree es K root st \<longleftrightarrow> tree_ok es K root st \<and> vstate st \<noteq> VMM_READY"

lemma boot_tree_step: "boot_tree es K root st \<Longrightarrow> tree_step es K root st st' \<Longrightarrow> boot_tree es K root st'"
  by (auto simp: boot_tree_def tree_step_def)

lemma boot_tree_extends: "boot_tree es K root st \<Longrightarrow> extends es K root st st' A \<Longrightarrow> boot_tree es K root st'"
  by (auto simp: boot_tree_def extends_def)

lemma boot_tree_table: "boot_tree es K root st \<Longrightarrow> \<exists>s st'. get_or_create_table es T i st = Ok (s, st')"
  using get_or_create_table_total [of es K st T i] by (auto simp: boot_tree_def tree_ok_def is_Ok_iff)

lemma get_or_create_pd_total:
  assumes b: "boot_tree es K root st" and root: "mmu pml4 = root"
  shows "\<exists>s st'. get_or_create_pd es pml4 v st = Ok (s, st')"
proof -
  have ok: "tree_ok es K root st" using b by (simp add: boot_tree_def)
  obtain s1 st1 where a: "get_or_create_table es pml4 (pt_index 39 v) st = Ok (s1, st1)" using boot_tree_table [OF b] by blast
  have "tree_step es K root st st1"
    using get_or_create_table_spec(1) [OF ok, of "[]", simplified, OF path_ok_v(3) root [symmetric] a] .
  then show ?thesis using a boot_tree_table [OF boot_tree_step [OF b]] by (auto simp: get_or_create_pd_def)
qed

lemma get_or_create_pt_total:
  assumes b: "boot_tree es K root st" and root: "mmu pml4 = root"
  shows "\<exists>s st'. get_or_create_pt es pml4 v st = Ok (s, st')"
proof -
  have ok: "tree_ok es K root st" using b by (simp add: boot_tree_def)
  obtain s1 st1 where a: "get_or_create_pd es pml4 v st = Ok (s1, st1)" using get_or_create_pd_total [OF b root] by blast
  then show ?thesis
    using boot_tree_table [OF boot_tree_step [OF b get_or_create_pd_spec(1) [OF ok root a]]] by (auto simp: get_or_create_pt_pd)
qed

lemma set_page_total:
  assumes "boot_tree es K root st" and "mmu pml4 = root"
  shows "\<exists>rc st'. set_page es pml4 v p fl ow st = Ok (rc, st')"
proof -
  obtain s st1 where "get_or_create_pt es pml4 v st = Ok (s, st1)" using get_or_create_pt_total [OF assms] by blast
  then show ?thesis by (auto simp: set_page_def Let_def)
qed

lemma set_large_page_total:
  assumes "boot_tree es K root st" and "mmu pml4 = root"
  shows "\<exists>rc st'. set_large_page es pml4 v p fl ow st = Ok (rc, st')"
proof -
  obtain s st1 where "get_or_create_pd es pml4 v st = Ok (s, st1)" using get_or_create_pd_total [OF assms] by blast
  then show ?thesis by (auto simp: set_large_page_def Let_def)
qed

lemma loop_total:
  assumes one: "\<And>i st. boot_tree es K root st \<Longrightarrow> \<exists>rc st'. set_one i st = Ok (rc, st') \<and> boot_tree es K root st'"
    and b: "boot_tree es K root st"
  shows "\<exists>f st'. set_pages_loop set_one step n i failed st = Ok (f, st') \<and> boot_tree es K root st'"
  using b
proof (induction n arbitrary: i failed st)
  case (Suc n)
  obtain rc st1 where a: "set_one i st = Ok (rc, st1)" "boot_tree es K root st1" using one [OF Suc.prems] by blast
  show ?case using Suc.IH [OF a(2)] a(1) by simp
qed simp

lemma set_pages_total:
  assumes "boot_tree es K root st" and root: "mmu pml4 = root"
  shows "\<exists>f st'. set_pages es pml4 v p sz fl False st = Ok (f, st') \<and> boot_tree es K root st'"
proof -
  have one: "\<exists>rc st'. set_page es pml4 (v + i) (p + i) fl False st = Ok (rc, st') \<and> boot_tree es K root st'"
    if b: "boot_tree es K root st" for i st
  proof -
    obtain rc st' where a: "set_page es pml4 (v + i) (p + i) fl False st = Ok (rc, st')" using set_page_total [OF b root] by blast
    have "tree_ok es K root st" using b by (simp add: boot_tree_def)
    then show ?thesis
      using a boot_tree_extends [OF b maps_only_extends [OF set_page_spec(2) [OF _ root a]]] by blast
  qed
  show ?thesis using loop_total [OF one assms(1)] assms(1) by (simp add: set_pages_def)
qed

lemma set_large_pages_total:
  assumes "boot_tree es K root st" and root: "mmu pml4 = root"
  shows "\<exists>f st'. set_large_pages es pml4 v p sz fl False st = Ok (f, st') \<and> boot_tree es K root st'"
proof -
  have one: "\<exists>rc st'. set_large_page es pml4 (v + i) (p + i) fl False st = Ok (rc, st') \<and> boot_tree es K root st'"
    if b: "boot_tree es K root st" for i st
  proof -
    obtain rc st' where a: "set_large_page es pml4 (v + i) (p + i) fl False st = Ok (rc, st')" using set_large_page_total [OF b root] by blast
    have "tree_ok es K root st" using b by (simp add: boot_tree_def)
    then show ?thesis
      using a boot_tree_extends [OF b maps_only_extends [OF set_large_page_spec(2) [OF _ root a]]] by blast
  qed
  show ?thesis using loop_total [OF one assms(1)] assms(1) by (simp add: set_large_pages_def)
qed

lemma set_parts_total:
  assumes "boot_tree es K root st" and root: "mmu pml4 = root"
  shows "\<exists>f st'. set_parts es pml4 v p ve fl failed st = Ok (f, st') \<and> boot_tree es K root st'"
proof -
  have opt: "\<exists>f st'. (if c then set_pages es pml4 v p sz fl False st else Ok (0, st)) = Ok (f, st') \<and> boot_tree es K root st'"
    if "boot_tree es K root st" for c v p sz st
    using set_pages_total [OF that root] that by simp
  have opt': "\<exists>f st'. (if c then set_large_pages es pml4 v p sz fl False st else Ok (0, st)) = Ok (f, st') \<and> boot_tree es K root st'"
    if "boot_tree es K root st" for c v p sz st
    using set_large_pages_total [OF that root] that by simp
  have chain: "\<exists>f st'. rbind m1 (\<lambda>(f1, st1). rbind (m2 st1) (\<lambda>(f2, st2). rbind (m3 st2) (\<lambda>(f3, st3). Ok (failed + f1 + f2 + f3, st3)))) = Ok (f, st') \<and> boot_tree es K root st'"
    if "\<exists>f st'. m1 = Ok (f, st') \<and> boot_tree es K root st'"
      "\<And>st. boot_tree es K root st \<Longrightarrow> \<exists>f st'. m2 st = Ok (f, st') \<and> boot_tree es K root st'"
      "\<And>st. boot_tree es K root st \<Longrightarrow> \<exists>f st'. m3 st = Ok (f, st') \<and> boot_tree es K root st'"
    for m1 m2 m3
    using that by fastforce
  show ?thesis unfolding set_parts_def Let_def by (rule chain) (intro opt opt' assms(1); assumption)+
qed

lemma set_range_total:
  assumes b: "boot_tree es K root st" and root: "mmu pml4 = root"
  shows "\<exists>f st'. set_range es pml4 v p sz fl False st = Ok (f, st') \<and> boot_tree es K root st'"
proof -
  obtain v' off ve failed where t: "trim_range v (v + sz) = (v', off, ve, failed)" by (metis prod_cases4)
  have "set_range es pml4 v p sz fl False st =
      (if v AND (LARGE_PAGE_SIZE - 1) \<noteq> p AND (LARGE_PAGE_SIZE - 1) then Ok (sz, st)
       else if v' \<ge> ve then Ok (sz, st) else set_parts es pml4 v' (p + off) ve fl failed st)"
    by (simp add: set_range_def set_parts_def Let_def t)
  then show ?thesis using set_parts_total [OF b root] b by simp
qed

lemma vmm_map_total:
  assumes b: "boot_tree es K (mmu pml4) st" and p: "pml4 = (if pml4_0 = KERN_PML4 then kern_pml4 ts else pml4_0)"
  shows "\<exists>f st'. vmm_map ts es pml4_0 v ph sz fl st = Ok (f, st') \<and> boot_tree es K (mmu pml4) st'"
proof -
  obtain v' off ve failed where t: "trim_range v (v + sz) = (v', off, ve, failed)" by (metis prod_cases4)
  show ?thesis
    using set_range_total [OF b refl] set_pages_total [OF b refl, of v' "ph + off" "ve - v'" fl] b
    by (auto simp: vmm_map_def Let_def t p [symmetric])
qed

section \<open>The range scan\<close>

definition next_chunk :: "nat \<Rightarrow> u64 \<Rightarrow> nat" where
  "next_chunk k v = (unat v div 2 ^ k + 1) * 2 ^ k"

lemma same_chunk_index:
  assumes "unat v \<le> unat w" and "unat w < next_chunk k v" and "k \<le> sh" and "sh + 9 \<le> 64"
  shows "pt_index sh w = pt_index sh v"
proof -
  have "unat w div 2 ^ k = unat v div 2 ^ k"
  proof (rule div_nat_eqI)
    have "2 ^ k * (unat v div 2 ^ k) \<le> unat v" by (rule times_div_less_eq_dividend)
    then show "2 ^ k * (unat v div 2 ^ k) \<le> unat w" using assms(1) by linarith
  qed (use assms(2) in \<open>simp add: next_chunk_def mult.commute\<close>)
  then have "bit (unat w) n = bit (unat v) n" if "n \<ge> k" for n
  proof -
    have "bit (unat x) n = bit (unat x div 2 ^ k) (n - k)" for x :: u64
      using fun_cong [OF bit_drop_bit_eq [of k "unat x"], of "n - k"] that by (simp add: drop_bit_eq_div)
    then show ?thesis using \<open>unat w div 2 ^ k = unat v div 2 ^ k\<close> by simp
  qed
  then have "bit w (sh + n) = bit v (sh + n)" for n
    using assms(3) by (simp add: bit_unsigned_iff)
  then show ?thesis using assms(4) by (simp add: pt_index_eq)
qed

lemma next_chunk_props:
  shows "unat v < next_chunk k v" and "next_chunk k v \<le> unat v + 2 ^ k"
proof -
  have d: "unat v div 2 ^ k * 2 ^ k + unat v mod 2 ^ k = unat v" by (rule div_mult_mod_eq)
  have l: "unat v mod 2 ^ k < 2 ^ k" by simp
  show "unat v < next_chunk k v" "next_chunk k v \<le> unat v + 2 ^ k" unfolding next_chunk_def distrib_right using d l by linarith+
qed

lemma unat_next:
  assumes "unat (b :: u64) = 2 ^ k" and "unat v + 2 ^ k < 2 ^ 64"
  shows "unat (ROUND_DOWN v b + b) = next_chunk k v"
proof -
  have r: "unat (ROUND_DOWN v b) = unat v div 2 ^ k * 2 ^ k" unfolding unat_ROUND_DOWN assms(1) ..
  have "unat (ROUND_DOWN v b) \<le> unat v" unfolding r by simp
  then have "unat (ROUND_DOWN v b + b) = unat (ROUND_DOWN v b) + 2 ^ k"
    using assms by (subst unat_add_lt) simp_all
  then show ?thesis unfolding r next_chunk_def by simp
qed

text \<open>One iteration in terms of the tables on the path of the address.\<close>

lemma scan_step_walk:
  assumes ok: "tree_ok es K root st" and root: "mmu pml4 = root"
  shows "scan_step st pml4 v =
    (case tbl_at (pmem st) root [pt_index 39 v] of
       None \<Rightarrow> Inr (ROUND_DOWN v 0x8000000000 + 0x8000000000)
     | Some pdpt \<Rightarrow> case tbl_at (pmem st) root [pt_index 39 v, pt_index 30 v] of
         None \<Rightarrow> Inr (ROUND_DOWN v 0x40000000 + 0x40000000)
       | Some pd \<Rightarrow>
           let e = pmem st (pd + 8 * pt_index 21 v)
           in if \<not> present e then Inr (ROUND_DOWN v LARGE_PAGE_SIZE + LARGE_PAGE_SIZE)
              else if pse e then Inl 1
              else if present (pmem st (addr_of e + 8 * pt_index 12 v)) then Inl 1 else Inr (v + PAGE_SIZE))"
proof -
  let ?m = "pmem st"
  have huge: "no_huge (pmem st) root" using ok pt_ok_huge by (auto simp: tree_ok_def)
  define e4 where "e4 = ?m (root + 8 * pt_index 39 v)"
  define e3 where "e3 = ?m (addr_of e4 + 8 * pt_index 30 v)"
  define e2 where "e2 = ?m (addr_of e3 + 8 * pt_index 21 v)"
  have h4: "\<not> pse e4" if "present e4"
    using huge [unfolded no_huge_def, rule_format, of "[]" "pt_index 39 v" root] that by (simp add: e4_def)
  have T1: "tbl_at ?m root [pt_index 39 v] = (if present e4 then Some (addr_of e4) else None)"
    using h4 by (simp add: tbl_at.simps e4_def)
  have h3: "\<not> pse e3" if "present e4" "present e3"
    using huge [unfolded no_huge_def, rule_format, of "[pt_index 39 v]" "pt_index 30 v"] T1 that by (simp add: e3_def)
  have T2: "tbl_at ?m root [pt_index 39 v, pt_index 30 v] = (if present e4 \<and> present e3 then Some (addr_of e3) else None)"
    using tbl_at_snoc [of ?m root "[pt_index 39 v]" "pt_index 30 v"] T1 h3 by (auto simp: e3_def)
  have T3: "tbl_at ?m root (vpath v) = (if present e4 \<and> present e3 \<and> present e2 \<and> \<not> pse e2 then Some (addr_of e2) else None)"
    unfolding tbl_at_vpath T2 by (simp add: e2_def)
  have "tload st pml4 (pt_index 39 v) = e4" by (simp add: tload_def root e4_def)
  moreover have "tload st (phys_to_virt st (addr_of e4)) (pt_index 30 v) = e3" if "present e4"
    using tree_table(4) [OF ok, of "[pt_index 39 v]"] T1 that by (simp add: tload_def e3_def)
  moreover have "tload st (phys_to_virt st (addr_of e3)) (pt_index 21 v) = e2" if "present e4" "present e3"
    using tree_table(4) [OF ok, of "[pt_index 39 v, pt_index 30 v]"] T2 that by (simp add: tload_def e2_def)
  moreover have "tload st (phys_to_virt st (addr_of e2)) (pt_index 12 v) = ?m (addr_of e2 + 8 * pt_index 12 v)"
    if "present e4" "present e3" "present e2" "\<not> pse e2"
    using tree_table(4) [OF ok, of "vpath v"] T3 that by (simp add: tload_def)
  ultimately show ?thesis
    unfolding scan_step_def Let_def T1 T2 using h3 by (auto simp: e2_def [symmetric])
qed

definition scan_ok :: "kmem \<Rightarrow> u64 \<Rightarrow> u64 \<Rightarrow> int + u64 \<Rightarrow> bool" where
  "scan_ok st root v r \<longleftrightarrow> (r = Inl 1 \<and> translate (pmem st) root v \<noteq> None) \<or>
    (\<exists>v'. r = Inr v' \<and> unat v < unat v' \<and> unat v' \<le> unat v + 2 ^ 39 \<and> page_aligned v' \<and>
      (\<forall>w. unat v \<le> unat w \<and> unat w < unat v' \<longrightarrow> translate (pmem st) root w = None))"

lemma scan_ok_skip:
  assumes n: "unat v' = next_chunk k v" and k: "12 \<le> k" "k \<le> 39"
    and no: "\<And>w. (\<And>sh. k \<le> sh \<Longrightarrow> sh \<le> 39 \<Longrightarrow> pt_index sh w = pt_index sh v) \<Longrightarrow> translate (pmem st) root w = None"
  shows "scan_ok st root v (Inr v')"
proof -
  have "(2::nat) ^ k \<le> 2 ^ 39" using k(2) by (intro power_increasing) simp_all
  then have "unat v < unat v'" "unat v' \<le> unat v + 2 ^ 39" using next_chunk_props [where v = v and k = k] n by linarith+
  moreover have "(4096 :: nat) dvd 2 ^ k" using le_imp_power_dvd [OF k(1), of "2::nat"] by simp
  then have "page_aligned v'" unfolding page_aligned_def n next_chunk_def by (metis dvd_mult mod_eq_0_iff_dvd)
  moreover have "translate (pmem st) root w = None" if "unat v \<le> unat w" "unat w < unat v'" for w
    using that n same_chunk_index [of v w k] by (intro no) auto
  ultimately show ?thesis by (simp add: scan_ok_def)
qed

text \<open>One iteration either finds a mapping at the current address or skips a chunk without mappings.\<close>

lemma scan_step_ok:
  assumes ok: "tree_ok es K root st" and root: "mmu pml4 = root"
    and v: "page_aligned v" "unat v + 2 ^ 39 < 2 ^ 64"
  shows "scan_ok st root v (scan_step st pml4 v)"
proof -
  let ?m = "pmem st"
  note W = scan_step_walk [OF ok root, of v]
  have n: "unat (ROUND_DOWN v 0x8000000000 + 0x8000000000) = next_chunk 39 v"
    "unat (ROUND_DOWN v 0x40000000 + 0x40000000) = next_chunk 30 v"
    "unat (ROUND_DOWN v LARGE_PAGE_SIZE + LARGE_PAGE_SIZE) = next_chunk 21 v"
    using v by (auto intro!: unat_next simp: LARGE_PAGE_SIZE_def)
  have n12: "unat (v + PAGE_SIZE) = next_chunk 12 v"
    using v by (subst unat_add_lt) (auto simp: next_chunk_def page_aligned_def)
  show ?thesis
  proof (cases "tbl_at ?m root [pt_index 39 v]")
    case None
    then have "tbl_at ?m root [pt_index 39 v, i] = None" for i using tbl_at_snoc [of ?m root "[pt_index 39 v]"] by simp
    then show ?thesis using W None scan_ok_skip [OF n(1)] by (simp add: translate_def)
  next
    case (Some pdpt)
    note 1 = this
    show ?thesis
    proof (cases "tbl_at ?m root [pt_index 39 v, pt_index 30 v]")
      case None
      then show ?thesis using W 1 scan_ok_skip [OF n(2)] by (simp add: translate_def)
    next
      case (Some pd)
      define e where "e = ?m (pd + 8 * pt_index 21 v)"
      have W': "scan_step st pml4 v = (if \<not> present e then Inr (ROUND_DOWN v LARGE_PAGE_SIZE + LARGE_PAGE_SIZE)
          else if pse e then Inl 1 else if present (?m (addr_of e + 8 * pt_index 12 v)) then Inl 1 else Inr (v + PAGE_SIZE))"
        unfolding W 1 Some by (simp add: e_def)
      consider "\<not> present e" | "present e" "pse e \<or> present (?m (addr_of e + 8 * pt_index 12 v))"
        | "present e" "\<not> pse e" "\<not> present (?m (addr_of e + 8 * pt_index 12 v))" by blast
      then show ?thesis
      proof cases
        case 1
        then show ?thesis using W' Some scan_ok_skip [OF n(3)] by (simp add: translate_def e_def)
      next
        case 2
        then have "scan_step st pml4 v = Inl 1" using W' by auto
        then show ?thesis using 2 Some by (auto simp: scan_ok_def translate_def Let_def e_def [symmetric])
      next
        case 3
        then have "scan_step st pml4 v = Inr (v + PAGE_SIZE)" using W' by auto
        then show ?thesis using 3 Some scan_ok_skip [OF n12] by (simp add: translate_def e_def [symmetric])
      qed
    qed
  qed
qed

lemma scan_range_exact:
  assumes ok: "tree_ok es K root st" and root: "mmu pml4 = root"
    and e: "unat e + 2 ^ 39 < 2 ^ 64" and v: "page_aligned v"
  shows "scan_range st pml4 v e =
    Some (if \<exists>w. unat v \<le> unat w \<and> unat w < unat e \<and> translate (pmem st) root w \<noteq> None then 1 else 0)"
  using v
proof (induction "unat e - unat v" arbitrary: v rule: less_induct)
  case less
  show ?case
  proof (cases "v < e")
    case False
    then show ?thesis by (subst scan_range.simps) (auto simp: word_less_nat_alt)
  next
    case True
    then have lt: "unat v < unat e" by (simp add: word_less_nat_alt)
    have "scan_ok st root v (scan_step st pml4 v)" using e lt by (intro scan_step_ok [OF ok root less.prems]) simp
    then consider "scan_step st pml4 v = Inl 1" "translate (pmem st) root v \<noteq> None"
      | v' where "scan_step st pml4 v = Inr v'" "unat v < unat v'" "page_aligned v'"
        "\<And>w. unat v \<le> unat w \<Longrightarrow> unat w < unat v' \<Longrightarrow> translate (pmem st) root w = None"
      unfolding scan_ok_def by blast
    then show ?thesis
    proof cases
      case 1
      then show ?thesis using True lt by (subst scan_range.simps) auto
    next
      case (2 v')
      have "(\<exists>w. unat v \<le> unat w \<and> unat w < unat e \<and> translate (pmem st) root w \<noteq> None) \<longleftrightarrow>
          (\<exists>w. unat v' \<le> unat w \<and> unat w < unat e \<and> translate (pmem st) root w \<noteq> None)"
        using 2(2,4) by (meson le_less_trans less_imp_le not_le)
      moreover have "scan_range st pml4 v e = scan_range st pml4 v' e" using True 2(1) by (subst scan_range.simps) simp
      moreover have "unat e - unat v' < unat e - unat v" using 2(2) lt by simp
      ultimately show ?thesis using less.hyps [OF _ 2(3)] by simp
    qed
  qed
qed

section \<open>Properties\<close>

text \<open>An example: the boot map and pool, an empty address space with its root in the first kernel frame.\<close>

definition boot_tables :: tables where
  "boot_tables = \<lparr>kern_pml4 = 0xFFFFFFFF80000000, pdpt_low = 0xFFFFFFFF80001000, pd_low = 0xFFFFFFFF80002000,
     pdpt_kern = 0xFFFFFFFF80003000, pd_kern = 0xFFFFFFFF80004000\<rparr>"

definition empty_kmem :: kmem where
  "empty_kmem = \<lparr>pmem = (\<lambda>_. 0), vstate = VMM_IDENTITY, low_map_end = 0x40000000, cr3 = 0x200000, cr4 = 0, efer = 0,
     k_bm = boot_pool, k_bd = boot_buddy\<rparr>"

lemma mmu_boot_root [simp]: "mmu (kern_pml4 boot_tables) = 0x200000"
  by (simp add: mmu_def boot_tables_def kernel_vma_start_def KERNEL_PHYS_def)

lemma tbl_at_empty: "tbl_at (\<lambda>_. 0) root p = (if p = [] then Some root else None)"
  by (cases p) (simp_all add: tbl_at.simps)

lemma boot_tree_empty: "boot_tree boot_map {0x200} 0x200000 empty_kmem"
proof -
  have "kinv boot_map {0x200} empty_kmem"
    using boot_map_ok boot_pool_inv by (simp add: kinv_def empty_kmem_def PHYS_LIMIT_def) (simp add: boot_pool_def)
  moreover have "pt_ok (pmem empty_kmem) 0x200000 (kowned boot_map {0x200} empty_kmem)"
    by (auto simp: pt_ok_def no_huge_def empty_kmem_def tbl_at_empty kowned_def page_aligned_def split: if_splits)
  ultimately show ?thesis by (simp add: boot_tree_def tree_ok_def empty_kmem_def)
qed

text \<open>
  Claim C12. While the boot allocator backs the page tables, \<^verbatim>\<open>vmm_map\<close> always returns, whatever state the tree is in and however
  many tables it has to create. The tree stays well formed (tables in distinct page-aligned frames the kernel owns), no existing translation is
  changed, no translation appears outside the pages of the range, the failed bytes are at most the size, and when none failed
  every address of the range translates to its physical counterpart with exactly the requested flags.
\<close>

theorem vmm_map_correct:
  assumes p: "pml4 = (if pml4_0 = KERN_PML4 then kern_pml4 ts else pml4_0)" "pml4 \<noteq> 0" "pml4 mod 0x1000 = 0"
    and ok: "tree_ok es K (mmu pml4) st" "vstate st \<noteq> VMM_READY" and fl: "flags_ok flags"
    and lim: "unat virt + unat sz + 0x200000 \<le> 2 ^ 64" "unat phys + unat sz + 0x200000 \<le> 2 ^ 63"
  shows "\<exists>f st'. vmm_map ts es pml4_0 virt phys sz flags st = Ok (f, st') \<and> tree_ok es K (mmu pml4) st' \<and>
    (\<forall>w x. translate (pmem st) (mmu pml4) w = Some x \<longrightarrow> translate (pmem st') (mmu pml4) w = Some x) \<and>
    (\<forall>w. translate (pmem st) (mmu pml4) w = None \<and> translate (pmem st') (mmu pml4) w \<noteq> None \<longrightarrow> w \<in> region (unat virt) (unat virt + unat sz)) \<and>
    unat f \<le> unat sz \<and>
    (f = 0 \<longrightarrow> (\<forall>w. unat virt \<le> unat w \<and> unat w < unat virt + unat sz \<longrightarrow>
       maps_to st' (mmu pml4) w (phys + (w - virt)) flags))"
proof -
  have "boot_tree es K (mmu pml4) st" using ok by (simp add: boot_tree_def)
  then obtain f st' where r: "vmm_map ts es pml4_0 virt phys sz flags st = Ok (f, st')" using vmm_map_total [OF _ p(1)] by blast
  have ff: "flags_fit flags" "present flags" using fl by (simp_all add: flags_fit_def flags_ok_def)
  have R: "range_result es K (mmu pml4) virt phys (unat sz) flags st f st'" by (rule vmm_map_spec [OF p ok(1) ff(1) lim r])
  then have e: "extends es K (mmu pml4) st st' (region (unat virt) (unat virt + unat sz))" using ff(2) by (simp add: range_result_def touched_def)
  have "w \<in> region (unat virt) (unat virt + unat sz)"
    if "translate (pmem st) (mmu pml4) w = None" "translate (pmem st') (mmu pml4) w \<noteq> None" for w
    using e that unfolding extends_def by metis
  then show ?thesis using r R ff(2) extends_ok [OF e] extends_keeps [OF e] unfolding range_result_def by blast
qed

theorem vmm_map_correct_witness:
  "\<exists>f st'. vmm_map boot_tables boot_map KERN_PML4 0xFFFFEA0000000000 0x250000 0x3000 (PT_PRESENT OR PT_WRITABLE) empty_kmem = Ok (f, st') \<and>
     tree_ok boot_map {0x200} 0x200000 st' \<and> unat f \<le> 0x3000"
proof -
  have fl: "flags_ok (PT_PRESENT OR PT_WRITABLE)" by (simp add: flags_ok_def PT_PRESENT_def PT_WRITABLE_def FLAGS_MASK_def PT_PSE_def)
  have t: "tree_ok boot_map {0x200} (mmu (kern_pml4 boot_tables)) empty_kmem" "vstate empty_kmem \<noteq> VMM_READY"
    using boot_tree_empty by (simp_all add: boot_tree_def)
  have "kern_pml4 boot_tables = (if KERN_PML4 = KERN_PML4 then kern_pml4 boot_tables else KERN_PML4)"
    "kern_pml4 boot_tables \<noteq> 0" "kern_pml4 boot_tables mod 0x1000 = 0" by (simp_all add: boot_tables_def)
  from vmm_map_correct [OF this t fl, of "0xFFFFEA0000000000" "0x3000" "0x250000"] show ?thesis by auto
qed

text \<open>
  Claim C13. The scan for existing mappings terminates and is exact: on a page-aligned range that stays 512 GiB away from the end of the
  address space \<^verbatim>\<open>vmm_virt_range_has_mapping\<close> returns 1 exactly when some address of the range translates, and 0 otherwise.
\<close>

theorem vmm_virt_range_has_mapping_exact:
  assumes "pml4 = (if pml4_0 = KERN_PML4 then kern_pml4 ts else pml4_0)" "pml4 \<noteq> 0" "pml4 mod 0x1000 = 0"
    and "tree_ok es K (mmu pml4) st"
    and "page_aligned virt" and "unat virt + unat sz + 2 ^ 39 < 2 ^ 64"
  shows "vmm_virt_range_has_mapping ts st pml4_0 virt sz =
    Some (if \<exists>w. unat virt \<le> unat w \<and> unat w < unat virt + unat sz \<and> translate (pmem st) (mmu pml4) w \<noteq> None then 1 else 0)"
proof -
  have "unat (virt + sz) = unat virt + unat sz" using assms(6) by (intro unat_add_lt) simp
  then show ?thesis
    using scan_range_exact [OF assms(4) refl, of "virt + sz" virt] assms(2,3,5,6)
    by (simp add: vmm_virt_range_has_mapping_def Let_def assms(1) [symmetric])
qed

theorem vmm_virt_range_has_mapping_exact_witness:
  "vmm_virt_range_has_mapping boot_tables empty_kmem KERN_PML4 0xFFFFEA0000000000 0x3000 = Some 0"
proof -
  have t: "tree_ok boot_map {0x200} (mmu (kern_pml4 boot_tables)) empty_kmem" using boot_tree_empty by (simp add: boot_tree_def)
  have r: "kern_pml4 boot_tables = (if KERN_PML4 = KERN_PML4 then kern_pml4 boot_tables else KERN_PML4)"
    "kern_pml4 boot_tables \<noteq> 0" "kern_pml4 boot_tables mod 0x1000 = 0" by (simp_all add: boot_tables_def)
  have "translate (pmem empty_kmem) (mmu (kern_pml4 boot_tables)) w = None" for w
    by (simp add: translate_def empty_kmem_def tbl_at_empty)
  with vmm_virt_range_has_mapping_exact [OF r t, of "0xFFFFEA0000000000" "0x3000"] show ?thesis
    by (simp add: page_aligned_def)
qed

text \<open>The scan of an address space without mappings jumps from one top-level entry to the next, for ever when the end lies in the last one.\<close>

lemma scan_range_diverges:
  assumes none: "\<And>w. tload st pml4 (pt_index 39 w) AND PT_PRESENT = 0" and e: "2 ^ 64 - 2 ^ 39 < unat e" and v: "v < e"
  shows "scan_range st pml4 v e = None"
proof (rule ccontr)
  have next_lt: "ROUND_DOWN w 0x8000000000 + 0x8000000000 < e" for w
  proof -
    define n where "n = unat (ROUND_DOWN w 0x8000000000 + 0x8000000000)"
    have "n = (unat w div 2 ^ 39 * 2 ^ 39 + 2 ^ 39) mod 2 ^ 64" by (simp add: n_def unat_word_ariths unat_ROUND_DOWN)
    then have "2 ^ 39 dvd n" by (simp add: dvd_mod)
    moreover have "n < 2 ^ 64" by (simp add: n_def)
    ultimately have "n \<le> 2 ^ 64 - 2 ^ 39" by (elim dvdE) simp
    then show ?thesis using e by (simp add: n_def word_less_nat_alt)
  qed
  assume "scan_range st pml4 v e \<noteq> None"
  then obtain r where "scan_range st pml4 v e = Some r" by blast
  then have "st = st \<and> pml4 = pml4 \<and> e = e \<and> v < e \<longrightarrow> False"
  proof (rule scan_range.raw_induct [of "\<lambda>st' p v e' r. st' = st \<and> p = pml4 \<and> e' = e \<and> v < e' \<longrightarrow> False", rotated])
    fix f st' p w e' r
    assume IH: "\<And>st' p w e' r. f st' p w e' = Some r \<Longrightarrow> st' = st \<and> p = pml4 \<and> e' = e \<and> w < e' \<longrightarrow> False"
      and r: "(if w < e' then case scan_step st' p w of Inl r \<Rightarrow> Some r | Inr virt' \<Rightarrow> f st' p virt' e' else Some 0) = Some r"
    show "st' = st \<and> p = pml4 \<and> e' = e \<and> w < e' \<longrightarrow> False"
      using IH [of st' p _ e'] r none [of w] next_lt [of w] by (auto simp: scan_step_def)
  qed
  then show False using v by blast
qed

text \<open>
  Claim C14. In an address space whose top-level entries are all absent the scan of a range that reaches into the last 512 GiB does not
  end: skipping the last top-level entry wraps the address around to zero, below the end again, and no entry stops the next round.
\<close>

theorem has_mapping_diverges:
  assumes "pml4 \<noteq> KERN_PML4" "pml4 \<noteq> 0" "pml4 mod 0x1000 = 0"
    and "\<And>w. tload st pml4 (pt_index 39 w) AND PT_PRESENT = 0"
    and "unat virt + unat sz < 2 ^ 64" and "0 < sz" and "2 ^ 64 - 2 ^ 39 < unat virt + unat sz"
  shows "vmm_virt_range_has_mapping ts st pml4 virt sz = None"
proof -
  have e: "unat (virt + sz) = unat virt + unat sz" using assms(5) by (intro unat_add_lt) simp
  have "virt < virt + sz" using assms(6) by (simp add: word_less_nat_alt e)
  then show ?thesis
    using scan_range_diverges [OF assms(4), where e = "virt + sz" and v = virt] assms(1-3,7)
    by (simp add: vmm_virt_range_has_mapping_def e)
qed

theorem has_mapping_diverges_witness:
  "vmm_virt_range_has_mapping boot_tables empty_kmem 0x250000 0xFFFFFFFFC0000000 0x3000 = None"
  using has_mapping_diverges [of "0x250000" empty_kmem "0xFFFFFFFFC0000000" "0x3000" boot_tables]
  by (simp add: KERN_PML4_def tload_def empty_kmem_def)

end
