(* ===== verification/Vmm_Space.thy ===== *)
theory Vmm_Space
  imports Vmm_Correct
begin

text \<open>
  Address spaces as a whole: the boot address space that \<^verbatim>\<open>vmm_init\<close> builds in the static tables, its
  low half after \<^verbatim>\<open>vmm_unmap_low_identity\<close>, and the user address spaces of \<^verbatim>\<open>vmm_create_user_pml4\<close>,
  which share the kernel half.
\<close>

section \<open>Static tables\<close>

text \<open>The linker places the static tables page aligned in the kernel image, whose frames are \<open>K\<close>.\<close>

definition static_list :: "tables \<Rightarrow> u64 list" where
  "static_list ts = [kern_pml4 ts, pdpt_low ts, pd_low ts, pdpt_kern ts, pd_kern ts]"

definition static_tables :: "tables \<Rightarrow> nat set \<Rightarrow> bool" where
  "static_tables ts K \<longleftrightarrow> distinct (static_list ts) \<and>
     (\<forall>t \<in> set (static_list ts). kernel_vma_start \<le> t \<and> page_aligned t \<and> unat (mmu t) div 4096 \<in> K)"

text \<open>They lie in the zeroed \<^verbatim>\<open>.bss\<close>.\<close>

definition static_zero :: "tables \<Rightarrow> (u64 \<Rightarrow> u64) \<Rightarrow> bool" where
  "static_zero ts m \<longleftrightarrow> (\<forall>t \<in> set (static_list ts). \<forall>i < 512. m (mmu t + 8 * i) = 0)"

lemma kernel_table:
  assumes "kernel_vma_start \<le> t" and "page_aligned t"
  shows "virt_to_phys t = mmu t" and "page_aligned (mmu t)" and "unat (mmu t) = unat t - unat kernel_vma_start + 0x200000"
    and "unat (mmu t) < 4294967296"
proof -
  have t: "unat kernel_vma_start \<le> unat t" "unat t < 2 ^ LENGTH(64)" using assms(1) unsigned_less [of t] by (simp_all only: word_le_nat_alt)
  have d: "unat (t - kernel_vma_start) = unat t - unat kernel_vma_start" using assms(1) by (rule unat_sub_le)
  have k: "unat kernel_vma_start = 0xFFFFFFFF80000000" "unat KERNEL_PHYS = 0x200000" by (simp_all add: kernel_vma_start_def KERNEL_PHYS_def)
  have m: "mmu t = (t - kernel_vma_start) + KERNEL_PHYS" using assms(1) by (simp add: mmu_def)
  have "(2 :: nat) ^ LENGTH(64) = 18446744073709551616" by simp
  then have lt: "unat (t - kernel_vma_start) + unat KERNEL_PHYS < 2 ^ LENGTH(64)"
    unfolding d k using unat_lt_u64 [of t] t(1) k(1) by linarith
  show "virt_to_phys t = mmu t" using assms(1) by (simp add: virt_to_phys_def m)
  show u: "unat (mmu t) = unat t - unat kernel_vma_start + 0x200000"
    unfolding m using d lt by (subst unat_add_lt) (simp_all only: k)
  show "unat (mmu t) < 4294967296" unfolding u k using unat_lt_u64 [of t] t(1) k(1) by linarith
  show "page_aligned (mmu t)" using assms(2) t(1) unfolding page_aligned_def u k by (simp add: mod_eq_0_iff_dvd dvd_diff_nat)
qed

lemma mmu_kernel_inj: "kernel_vma_start \<le> t \<Longrightarrow> kernel_vma_start \<le> t' \<Longrightarrow> mmu t = mmu t' \<longleftrightarrow> t = t'"
  by (simp add: mmu_def)

text \<open>Stores into consecutive entries of one table.\<close>

lemma fold_tstore_rest: "\<exists>m. fold (\<lambda>i. tstore t (of_nat i) (f i)) is st = st\<lparr>pmem := m\<rparr>"
proof (induction "is" arbitrary: st)
  case (Cons i "is")
  show ?case using Cons.IH [of "tstore t (of_nat i) (f i) st"] by (auto simp: tstore_def)
next
  case Nil
  show ?case by (rule exI [of _ "pmem st"]) (cases st, simp)
qed

lemma fold_tstore_keeps:
  "vstate (fold (\<lambda>i. tstore t (of_nat i) (f i)) is st) = vstate st" "efer (fold (\<lambda>i. tstore t (of_nat i) (f i)) is st) = efer st"
  "cr4 (fold (\<lambda>i. tstore t (of_nat i) (f i)) is st) = cr4 st" "k_bm (fold (\<lambda>i. tstore t (of_nat i) (f i)) is st) = k_bm st"
  "k_bd (fold (\<lambda>i. tstore t (of_nat i) (f i)) is st) = k_bd st"
  using fold_tstore_rest [of t f "is" st] by auto

lemma fold_tstore_cell:
  assumes al: "page_aligned (mmu t)" and i: "i < 512" and "n \<le> 512"
  shows "pmem (fold (\<lambda>i. tstore t (of_nat i) (f i)) [l..<n] st) (mmu t + 8 * i) =
      (if l \<le> unat i \<and> unat i < n then f (unat i) else pmem st (mmu t + 8 * i))"
  using assms(3)
proof (induction n)
  case (Suc n)
  have n: "of_nat n < (512 :: u64)" "unat (of_nat n :: u64) = n"
    using Suc.prems by (simp_all add: word_less_nat_alt unat_of_nat)
  have "i = of_nat n \<longleftrightarrow> unat i = n" using n(2) by (auto simp: word_unat_eq_iff)
  then show ?case using Suc.IH Suc.prems cell_eq [OF al i al n(1)] by (auto simp: tstore_def)
qed simp

lemma fold_tstore_other:
  assumes "\<And>i. i < 512 \<Longrightarrow> a \<noteq> mmu t + 8 * i" and "n \<le> 512"
  shows "pmem (fold (\<lambda>i. tstore t (of_nat i) (f i)) [l..<n] st) a = pmem st a"
  using assms(2)
proof (induction n)
  case (Suc n)
  then have "of_nat n < (512 :: u64)" by (simp add: word_less_nat_alt unat_of_nat)
  then show ?case using Suc assms(1) by (auto simp: tstore_def)
qed simp

lemma tstore_pmem: "pmem (tstore t i v st) = (pmem st)(mmu t + 8 * i := v)"
  by (simp add: tstore_def)

lemma link_entry:
  assumes "page_aligned a \<and> unat a < 2 ^ 63"
  shows "present (a OR PT_PRESENT OR PT_WRITABLE)" "\<not> pse (a OR PT_PRESENT OR PT_WRITABLE)" "addr_of (a OR PT_PRESENT OR PT_WRITABLE) = a"
proof -
  have "addr_of (a OR PT_PRESENT OR PT_WRITABLE) = addr_of a"
    by (auto simp: u64_eq_iff bit_and_iff bit_or_iff bit_not_iff bit_FLAGS_MASK)
  then show "addr_of (a OR PT_PRESENT OR PT_WRITABLE) = a" using addr_of_aligned assms by simp
  show "present (a OR PT_PRESENT OR PT_WRITABLE)" "\<not> pse (a OR PT_PRESENT OR PT_WRITABLE)"
    using assms unfolding present_bit pse_bit by (auto simp: bit_or_iff page_aligned_bits)
qed

lemma bit_PT_GLOBAL [simp]: "bit PT_GLOBAL n \<longleftrightarrow> n = 8"
proof -
  have E: "PT_GLOBAL = push_bit 8 1" by (simp add: PT_GLOBAL_def)
  show ?thesis unfolding E bit_pow_u64 by simp
qed

section \<open>The boot address space\<close>

lemma kernel_index [simp]: "pt_index 39 kernel_vma_start = 511" "pt_index 30 kernel_vma_start = 510" "pt_index 21 kernel_vma_start = 0"
  by (simp_all add: pt_index_def kernel_vma_start_def drop_bit_eq_div)

lemma vmm_init_mem:
  fixes ts
  defines "P \<equiv> mmu (kern_pml4 ts)" and "L \<equiv> mmu (pdpt_low ts)" and "D \<equiv> mmu (pd_low ts)"
    and "Q \<equiv> mmu (pdpt_kern ts)" and "E \<equiv> mmu (pd_kern ts)"
  assumes s: "static_tables ts K" and i: "i < 512"
  shows "pmem (vmm_init ts st) (P + 8 * i) = (if i = 0 then L OR PT_PRESENT OR PT_WRITABLE
      else if i = 511 then Q OR PT_PRESENT OR PT_WRITABLE else pmem st (P + 8 * i))"
    and "pmem (vmm_init ts st) (L + 8 * i) = (if i = 0 then D OR PT_PRESENT OR PT_WRITABLE else pmem st (L + 8 * i))"
    and "pmem (vmm_init ts st) (D + 8 * i) = (i * 0x200000) OR PT_PRESENT OR PT_WRITABLE OR PT_PSE"
    and "pmem (vmm_init ts st) (Q + 8 * i) = (if i = 510 then E OR PT_PRESENT OR PT_WRITABLE else pmem st (Q + 8 * i))"
    and "pmem (vmm_init ts st) (E + 8 * i) = (if i = 0 then KERNEL_PHYS OR PT_PRESENT OR PT_WRITABLE OR PT_PSE OR PT_GLOBAL
      else pmem st (E + 8 * i))"
proof -
  have T: "virt_to_phys (pdpt_low ts) = L" "virt_to_phys (pd_low ts) = D" "virt_to_phys (pdpt_kern ts) = Q" "virt_to_phys (pd_kern ts) = E"
    using s kernel_table(1) by (auto simp: static_tables_def static_list_def L_def D_def Q_def E_def)
  have al: "page_aligned P" "page_aligned L" "page_aligned D" "page_aligned Q" "page_aligned E"
    using s kernel_table(2) by (auto simp: static_tables_def static_list_def P_def L_def D_def Q_def E_def)
  have ne: "P \<noteq> L" "P \<noteq> D" "P \<noteq> Q" "P \<noteq> E" "L \<noteq> D" "L \<noteq> Q" "L \<noteq> E" "D \<noteq> Q" "D \<noteq> E" "Q \<noteq> E"
    using s by (auto simp: static_tables_def static_list_def P_def L_def D_def Q_def E_def mmu_kernel_inj)
  let ?fold = "\<lambda>st0. fold (\<lambda>i. tstore (pd_low ts) (of_nat i) ((of_nat i * 0x200000) OR PT_PRESENT OR PT_WRITABLE OR PT_PSE)) [0..<512] st0"
  have lt: "(0 :: u64) < 512" "(511 :: u64) < 512" "(510 :: u64) < 512" by simp_all
  have eqs: "T + 8 * j = T' + 8 * k \<longleftrightarrow> T = T' \<and> j = k"
    if "page_aligned T" "page_aligned T'" "j < 512" "k < 512" for T T' j k
    using cell_eq that by blast
  have c: "T + 8 * i = P \<longleftrightarrow> T = P \<and> i = 0" "T + 8 * i = L \<longleftrightarrow> T = L \<and> i = 0" "T + 8 * i = E \<longleftrightarrow> T = E \<and> i = 0"
    "T + 8 * i = P + 4088 \<longleftrightarrow> T = P \<and> i = 511" "T + 8 * i = Q + 4080 \<longleftrightarrow> T = Q \<and> i = 510" if "page_aligned T" for T
    using eqs [OF that al(1) i lt(1)] eqs [OF that al(2) i lt(1)] eqs [OF that al(5) i lt(1)] eqs [OF that al(1) i lt(2)] eqs [OF that al(4) i lt(3)]
    by simp_all
  have fd: "pmem (?fold st0) (T + 8 * i) = (if T = D then (i * 0x200000) OR PT_PRESENT OR PT_WRITABLE OR PT_PSE else pmem st0 (T + 8 * i))"
    if "page_aligned T" for T st0
  proof (cases "T = D")
    case True
    then show ?thesis using fold_tstore_cell [of "pd_low ts" i 512, folded D_def, OF al(3) i] i by (simp add: word_less_nat_alt)
  next
    case False
    then show ?thesis using fold_tstore_other [of "T + 8 * i" "pd_low ts" 512, folded D_def] eqs [OF that al(3) i] by simp
  qed
  have "pmem (vmm_init ts st) (T + 8 * i) = (if T = E \<and> i = 0 then KERNEL_PHYS OR PT_PRESENT OR PT_WRITABLE OR PT_PSE OR PT_GLOBAL
      else if T = Q \<and> i = 510 then E OR PT_PRESENT OR PT_WRITABLE
      else if T = P \<and> i = 511 then Q OR PT_PRESENT OR PT_WRITABLE
      else if T = D then (i * 0x200000) OR PT_PRESENT OR PT_WRITABLE OR PT_PSE
      else if T = L \<and> i = 0 then D OR PT_PRESENT OR PT_WRITABLE
      else if T = P \<and> i = 0 then L OR PT_PRESENT OR PT_WRITABLE
      else pmem st (T + 8 * i))" if a: "page_aligned T" for T
    unfolding vmm_init_def map_kernel_def map_low_identity_def Let_def
    by (simp add: set_cr3_def tstore_pmem T P_def [symmetric] L_def [symmetric] Q_def [symmetric] E_def [symmetric] c [OF a] fd [OF a]
      enable_nxe_def enable_pge_def split del: if_split cong: if_cong)
  from this [OF al(1)] this [OF al(2)] this [OF al(3)] this [OF al(4)] this [OF al(5)] show
    "pmem (vmm_init ts st) (P + 8 * i) = (if i = 0 then L OR PT_PRESENT OR PT_WRITABLE
      else if i = 511 then Q OR PT_PRESENT OR PT_WRITABLE else pmem st (P + 8 * i))"
    "pmem (vmm_init ts st) (L + 8 * i) = (if i = 0 then D OR PT_PRESENT OR PT_WRITABLE else pmem st (L + 8 * i))"
    "pmem (vmm_init ts st) (D + 8 * i) = (i * 0x200000) OR PT_PRESENT OR PT_WRITABLE OR PT_PSE"
    "pmem (vmm_init ts st) (Q + 8 * i) = (if i = 510 then E OR PT_PRESENT OR PT_WRITABLE else pmem st (Q + 8 * i))"
    "pmem (vmm_init ts st) (E + 8 * i) = (if i = 0 then KERNEL_PHYS OR PT_PRESENT OR PT_WRITABLE OR PT_PSE OR PT_GLOBAL
      else pmem st (E + 8 * i))"
    using ne by simp_all
qed

text \<open>Every path through the boot tables.\<close>

lemma vmm_init_paths:
  fixes ts
  defines "P \<equiv> mmu (kern_pml4 ts)" and "L \<equiv> mmu (pdpt_low ts)" and "D \<equiv> mmu (pd_low ts)"
    and "Q \<equiv> mmu (pdpt_kern ts)" and "E \<equiv> mmu (pd_kern ts)"
  assumes s: "static_tables ts K" and z: "static_zero ts (pmem st)" and p: "path_ok p"
  shows "tbl_at (pmem (vmm_init ts st)) P p =
    (if p = [] then Some P else if p = [0] then Some L else if p = [0, 0] then Some D
     else if p = [511] then Some Q else if p = [511, 510] then Some E else None)"
proof -
  let ?m = "pmem (vmm_init ts st)"
  note M = vmm_init_mem [OF s, where st = st, folded P_def L_def D_def Q_def E_def]
  have z': "\<And>i. i < 512 \<Longrightarrow> pmem st (P + 8 * i) = 0" "\<And>i. i < 512 \<Longrightarrow> pmem st (L + 8 * i) = 0"
    "\<And>i. i < 512 \<Longrightarrow> pmem st (Q + 8 * i) = 0" "\<And>i. i < 512 \<Longrightarrow> pmem st (E + 8 * i) = 0"
    using z by (simp_all add: static_zero_def static_list_def P_def L_def Q_def E_def)
  have al: "page_aligned T \<and> unat T < 2 ^ 63" if "T \<in> {L, D, Q, E}" for T
    using s that kernel_table(2,4) by (fastforce simp: static_tables_def static_list_def L_def D_def Q_def E_def)
  have ent: "present (T OR PT_PRESENT OR PT_WRITABLE)" "\<not> pse (T OR PT_PRESENT OR PT_WRITABLE)"
    "addr_of (T OR PT_PRESENT OR PT_WRITABLE) = T" if "T \<in> {L, D, Q, E}" for T
    using link_entry al [OF that] by blast+
  have step: "tbl_at ?m T (i # q) = (if present (?m (T + 8 * i)) \<and> \<not> pse (?m (T + 8 * i)) then tbl_at ?m (addr_of (?m (T + 8 * i))) q else None)" for T i q
    by (simp add: tbl_at.simps Let_def)
  have large: "tbl_at ?m D (i # q) = None" "tbl_at ?m E (i # q) = None" if "i < 512" for i q
    using that by (simp_all add: step M z' pse_bit bit_or_iff)
  have low: "tbl_at ?m L (i # q) = (if i = 0 then tbl_at ?m D q else None)" "tbl_at ?m Q (i # q) = (if i = 510 then tbl_at ?m E q else None)"
    "tbl_at ?m P (i # q) = (if i = 0 then tbl_at ?m L q else if i = 511 then tbl_at ?m Q q else None)"
    if "i < 512" for i q
    unfolding step M(1) [OF that] M(2) [OF that] M(4) [OF that] using that ent by (simp_all add: z')
  have p': "p = [] \<or> (\<exists>i q. p = i # q \<and> i < 512 \<and> (q = [] \<or> (\<exists>j r. q = j # r \<and> j < 512 \<and> (r = [] \<or> (\<exists>k. r = [k] \<and> k < 512)))))"
    using p unfolding path_ok_def by (cases p rule: list.exhaust; cases "tl p" rule: list.exhaust; cases "tl (tl p)" rule: list.exhaust) auto
  then show ?thesis by (elim disjE exE conjE) (simp_all add: tbl_at.simps(1) low large)
qed

lemma large_entry:
  assumes "unat (a :: u64) mod 0x200000 = 0" and "unat a < 2 ^ 63"
    and "fl = PT_PRESENT OR PT_WRITABLE OR PT_PSE \<or> fl = PT_PRESENT OR PT_WRITABLE OR PT_PSE OR PT_GLOBAL"
  shows "present (a OR fl)" and "pse (a OR fl)" and "(a OR fl) AND NOT LARGE_FLAGS_MASK = a"
proof -
  have f: "bit fl 0" "bit fl 7" "\<And>n. bit fl n \<Longrightarrow> n < 12"
    using assms(3) by (auto simp: bit_or_iff bit_PT_GLOBAL)
  then show "present (a OR fl)" "pse (a OR fl)" by (auto simp: present_bit pse_bit bit_or_iff)
  have "\<not> bit a 63" using small_bits [of a 63 63] assms(2) by simp
  then show "(a OR fl) AND NOT LARGE_FLAGS_MASK = a"
    using large_aligned_bits [OF assms(1)] by (auto simp: u64_eq_iff bit_and_iff bit_or_iff bit_not_iff bit_LARGE_FLAGS_MASK dest!: f(3))
qed

lemma unat_pt_index: "unat (pt_index sh v) = unat v div 2 ^ sh mod 512"
proof -
  have "pt_index sh v = take_bit 9 (drop_bit sh v)" by (simp add: pt_index_def take_bit_eq_mask mask_eq_exp_minus_1)
  then have "unat (pt_index sh v) = take_bit 9 (drop_bit sh (unat v))" by (simp only: unsigned_take_bit_eq unat_drop_bit_eq)
  then show ?thesis by (simp add: take_bit_eq_mod drop_bit_eq_div)
qed

lemma large_offset: "pt_index 21 v * 0x200000 + (v AND (LARGE_PAGE_SIZE - 1)) = take_bit 30 v"
proof -
  have i: "unat (pt_index 21 v) < 512" by (simp add: unat_pt_index)
  have m: "unat (pt_index 21 v * 0x200000) = unat (pt_index 21 v) * 0x200000" using i by (subst unat_mult_lt) simp_all
  have t: "unat (take_bit 21 v) < 0x200000" by (simp add: unat_take_bit)
  have "unat (pt_index 21 v * 0x200000 + take_bit 21 v) = unat (pt_index 21 v) * 0x200000 + unat v mod 0x200000"
    using i m t by (subst unat_add_lt) (simp_all add: unat_take_bit)
  also have "\<dots> = unat v mod (0x200000 * 512)" unfolding unat_pt_index by (subst mod_mult2_eq) simp
  finally show ?thesis unfolding large_off word_unat_eq_iff by (simp add: unat_take_bit)
qed

text \<open>The last two levels of a walk.\<close>

definition leaf_of :: "(u64 \<Rightarrow> u64) \<Rightarrow> u64 \<Rightarrow> u64 \<Rightarrow> (u64 \<times> u64) option" where
  "leaf_of m pd v =
     (let e = m (pd + 8 * pt_index 21 v)
      in if \<not> present e then None
         else if pse e then Some ((e AND NOT LARGE_FLAGS_MASK) + (v AND (LARGE_PAGE_SIZE - 1)), e)
         else
           let e' = m (addr_of e + 8 * pt_index 12 v)
           in if present e' then Some (addr_of e' + (v AND (PAGE_SIZE - 1)), e') else None)"

lemma translate_leaf: "translate m root v =
    (case tbl_at m root [pt_index 39 v, pt_index 30 v] of None \<Rightarrow> None | Some pd \<Rightarrow> leaf_of m pd v)"
  unfolding translate_def leaf_of_def ..

text \<open>The boot translation: exactly the low gigabyte one to one and the kernel's 2 MiB.\<close>

lemma vmm_init_translate:
  assumes s: "static_tables ts K" and z: "static_zero ts (pmem st)"
  shows "map_option fst (translate (pmem (vmm_init ts st)) (mmu (kern_pml4 ts)) v) =
    (if pt_index 39 v = 0 \<and> pt_index 30 v = 0 then Some (take_bit 30 v)
     else if pt_index 39 v = 511 \<and> pt_index 30 v = 510 \<and> pt_index 21 v = 0 then Some (KERNEL_PHYS + take_bit 21 v)
     else None)"
proof -
  let ?m = "pmem (vmm_init ts st)" and ?i = "pt_index 21 v"
  have i: "?i < 512" by simp
  note M = vmm_init_mem [OF s i, where st = st]
  have z': "pmem st (mmu (pd_kern ts) + 8 * ?i) = 0" using z by (simp add: static_zero_def static_list_def)
  have ui: "unat (?i * 0x200000) = unat ?i * 0x200000" "unat ?i < 512"
    using i by (simp_all add: word_less_nat_alt unat_word_ariths)
  note low = large_entry [of "?i * 0x200000" "PT_PRESENT OR PT_WRITABLE OR PT_PSE", unfolded ui(1)]
  note kern = large_entry [of KERNEL_PHYS "PT_PRESENT OR PT_WRITABLE OR PT_PSE OR PT_GLOBAL"]
  have sum: "?i * 0x200000 + (v AND (LARGE_PAGE_SIZE - 1)) = take_bit 30 v" by (rule large_offset)
  define d where "d = ?m (mmu (pd_low ts) + 8 * ?i)"
  define k where "k = ?m (mmu (pd_kern ts) + 8 * ?i)"
  have D: "present d" "pse d" "(d AND NOT LARGE_FLAGS_MASK) + (v AND (LARGE_PAGE_SIZE - 1)) = take_bit 30 v"
    unfolding d_def M(3) using low ui(2) sum by simp_all
  have K: "present k \<longleftrightarrow> ?i = 0" "?i = 0 \<Longrightarrow> pse k" "?i = 0 \<Longrightarrow> k AND NOT LARGE_FLAGS_MASK = KERNEL_PHYS"
    unfolding k_def M(5) z' using kern by (simp_all add: KERNEL_PHYS_def)
  have "leaf_of ?m (mmu (pd_low ts)) v = Some ((d AND NOT LARGE_FLAGS_MASK) + (v AND (LARGE_PAGE_SIZE - 1)), d)"
    unfolding leaf_of_def d_def [symmetric] Let_def using D(1,2) by simp
  moreover have "leaf_of ?m (mmu (pd_kern ts)) v =
      (if ?i = 0 then Some ((k AND NOT LARGE_FLAGS_MASK) + (v AND (LARGE_PAGE_SIZE - 1)), k) else None)"
    unfolding leaf_of_def k_def [symmetric] Let_def using K(1,2) by simp
  ultimately have "translate ?m (mmu (kern_pml4 ts)) v =
      (if pt_index 39 v = 0 \<and> pt_index 30 v = 0 then Some ((d AND NOT LARGE_FLAGS_MASK) + (v AND (LARGE_PAGE_SIZE - 1)), d)
       else if pt_index 39 v = 511 \<and> pt_index 30 v = 510 \<and> ?i = 0 then Some ((k AND NOT LARGE_FLAGS_MASK) + (v AND (LARGE_PAGE_SIZE - 1)), k)
       else None)"
    unfolding translate_leaf vmm_init_paths [OF s z path_ok_v(2)] by simp
  then show ?thesis using D(3) K(3) by (simp add: large_off)
qed

lemma unat_split:
  "unat w = unat w div 2 ^ 48 * 2 ^ 48 + unat (pt_index 39 w) * 2 ^ 39 + unat (pt_index 30 w) * 2 ^ 30 + unat (pt_index 21 w) * 2 ^ 21 + unat w mod 2 ^ 21"
proof -
  define a where "a = unat w div 2 ^ 21"
  have d: "unat w div 2 ^ 30 = a div 512" "unat w div 2 ^ 39 = a div 512 div 512" "unat w div 2 ^ 48 = a div 512 div 512 div 512"
    by (simp_all add: a_def div_mult2_eq [symmetric])
  have "unat w = a * 2 ^ 21 + unat w mod 2 ^ 21" unfolding a_def by (rule div_mult_mod_eq [symmetric])
  moreover have q: "a = a div 512 * 512 + a mod 512" "a div 512 = a div 512 div 512 * 512 + a div 512 mod 512"
    "a div 512 div 512 = a div 512 div 512 div 512 * 512 + a div 512 div 512 mod 512" by (rule div_mult_mod_eq [symmetric])+
  moreover have p: "(2 :: nat) ^ 48 = 0x1000000000000" "(2 :: nat) ^ 39 = 0x8000000000" "(2 :: nat) ^ 30 = 0x40000000" "(2 :: nat) ^ 21 = 0x200000"
    by simp_all
  ultimately show ?thesis unfolding unat_pt_index d a_def [symmetric] unfolding p by linarith
qed

text \<open>Canonical addresses: bits 48 to 63 repeat bit 47.\<close>

definition canonical :: "u64 \<Rightarrow> bool" where
  "canonical w \<longleftrightarrow> unat w < 2 ^ 47 \<or> 2 ^ 64 - 2 ^ 47 \<le> unat w"

lemma low_window: "canonical w \<Longrightarrow> pt_index 39 w = 0 \<and> pt_index 30 w = 0 \<longleftrightarrow> unat w < 2 ^ 30"
proof -
  assume c: "canonical w"
  have i: "unat (pt_index 21 w) < 512" "unat w mod 2 ^ 21 < 2 ^ 21" by (simp_all add: unat_pt_index)
  show ?thesis
  proof
    assume z: "pt_index 39 w = 0 \<and> pt_index 30 w = 0"
    have lt: "unat w < unat w div 2 ^ 48 * 2 ^ 48 + 2 ^ 30" using unat_split [of w] z i by simp
    have "unat w div 2 ^ 48 = 0"
    proof (rule ccontr)
      assume n: "unat w div 2 ^ 48 \<noteq> 0"
      then have "2 ^ 64 - 2 ^ 47 \<le> unat w" using c by (auto simp: canonical_def)
      moreover have "unat w div 2 ^ 48 \<le> 65535" using div_le_mono [of "unat w" "2 ^ 64 - 1" "2 ^ 48"] unat_lt_u64 [of w] by simp
      ultimately show False using lt by simp
    qed
    then show "unat w < 2 ^ 30" using lt by simp
  next
    assume "unat w < 2 ^ 30"
    then show "pt_index 39 w = 0 \<and> pt_index 30 w = 0" by (simp add: word_unat_eq_iff unat_pt_index)
  qed
qed

lemma kernel_window:
  assumes c: "canonical w"
  shows "pt_index 39 w = 511 \<and> pt_index 30 w = 510 \<and> pt_index 21 w = 0 \<longleftrightarrow>
    unat kernel_vma_start \<le> unat w \<and> unat w < unat kernel_vma_start + 0x200000"
proof -
  have k: "unat kernel_vma_start = 0xFFFFFFFF80000000" by (simp add: kernel_vma_start_def)
  have u: "unat w div 2 ^ 48 \<le> 65535" using div_le_mono [of "unat w" "2 ^ 64 - 1" "2 ^ 48"] unat_lt_u64 [of w] by simp
  show ?thesis
  proof
    assume z: "pt_index 39 w = 511 \<and> pt_index 30 w = 510 \<and> pt_index 21 w = 0"
    then have e: "unat w = unat w div 2 ^ 48 * 2 ^ 48 + 511 * 2 ^ 39 + 510 * 2 ^ 30 + unat w mod 2 ^ 21" using unat_split [of w] by simp
    then have "\<not> unat w < 2 ^ 47" by simp
    then have "2 ^ 64 - 2 ^ 47 \<le> unat w" using c by (auto simp: canonical_def)
    then have "unat w div 2 ^ 48 = 65535" using e u mod_less_divisor [of "2 ^ 21" "unat w"] by simp
    then show "unat kernel_vma_start \<le> unat w \<and> unat w < unat kernel_vma_start + 0x200000"
      unfolding k using e mod_less_divisor [of "2 ^ 21" "unat w"] by simp
  next
    assume w: "unat kernel_vma_start \<le> unat w \<and> unat w < unat kernel_vma_start + 0x200000"
    have "unat w div 2 ^ 21 = 0x7FFFFFFFC00" using w unfolding k by (intro div_nat_eqI) simp_all
    then have a: "unat w div 2 ^ 21 mod 512 = 0" "unat w div 2 ^ 21 div 512 mod 512 = 510" "unat w div 2 ^ 21 div 512 div 512 mod 512 = 511" by simp_all
    then show "pt_index 39 w = 511 \<and> pt_index 30 w = 510 \<and> pt_index 21 w = 0"
      by (simp add: word_unat_eq_iff unat_pt_index div_mult2_eq [symmetric])
  qed
qed

lemma vmm_init_pt_ok:
  assumes s: "static_tables ts K" and z: "static_zero ts (pmem st)"
  shows "pt_ok (pmem (vmm_init ts st)) (mmu (kern_pml4 ts)) K"
proof -
  let ?P = "mmu (kern_pml4 ts)" and ?m = "pmem (vmm_init ts st)"
  have T: "page_aligned (mmu t) \<and> unat (mmu t) div 4096 \<in> K" if "t \<in> set (static_list ts)" for t
    using s that kernel_table(2) by (auto simp: static_tables_def)
  have inj: "mmu t = mmu t' \<longleftrightarrow> t = t'" if "t \<in> set (static_list ts)" "t' \<in> set (static_list ts)" for t t'
    using s that mmu_kernel_inj by (auto simp: static_tables_def)
  let ?ps = "zip [[], [0], [0, 0], [511], [511, 510]] (map mmu (static_list ts))"
  have "distinct (map mmu (static_list ts))" using s inj by (simp add: static_tables_def distinct_map inj_on_def)
  then have inj: "inj_on snd (set ?ps)" by (intro distinct_map [THEN iffD1, THEN conjunct2]) (simp add: static_list_def)
  have mem: "(p, t) \<in> set ?ps" if "path_ok p" "tbl_at ?m ?P p = Some t" for p t
    using that(2) unfolding vmm_init_paths [OF s z that(1)] by (simp add: static_list_def split: if_splits)
  have al: "page_aligned t \<and> unat t div 4096 \<in> K" if "path_ok p" "tbl_at ?m ?P p = Some t" for p t
    using T mem [OF that] by (auto dest!: set_zip_rightD)
  have uniq: "p = q" if "path_ok p" "path_ok q" "tbl_at ?m ?P p = Some t" "tbl_at ?m ?P q = Some t" for p q t
    using inj_onD [OF inj, of "(p, t)" "(q, t)"] mem that by simp
  have "pse (?m (t + 8 * i)) \<Longrightarrow> present (?m (t + 8 * i)) \<Longrightarrow> tbl_at ?m ?P p = Some t \<Longrightarrow> path_ok (p @ [i]) \<Longrightarrow> length p \<le> 1 \<Longrightarrow> False" for p t i
  proof -
    assume a: "pse (?m (t + 8 * i))" "present (?m (t + 8 * i))" "tbl_at ?m ?P p = Some t" "path_ok (p @ [i])" "length p \<le> 1"
    have i: "path_ok p" "i < 512" using a(4) by (auto simp: path_ok_snoc)
    have t: "t = ?P \<or> t = mmu (pdpt_low ts) \<or> t = mmu (pdpt_kern ts)"
      using a(3,5) by (auto simp: vmm_init_paths [OF s z i(1)] split: if_splits)
    have z': "pmem st (mmu t + 8 * i) = 0" if "t \<in> set (static_list ts)" for t using z i(2) that by (simp add: static_zero_def)
    have al: "page_aligned (mmu t') \<and> unat (mmu t') < 2 ^ 63" if "t' \<in> set (static_list ts)" for t'
      using s that kernel_table(2,4) by (fastforce simp: static_tables_def)
    have l: "\<not> pse (mmu t' OR PT_PRESENT OR PT_WRITABLE)" if "t' \<in> set (static_list ts)" for t' using link_entry(2) [OF al [OF that]] .
    have "\<not> pse (?m (?P + 8 * i))"
      unfolding vmm_init_mem(1) [OF s i(2)] using l [of "pdpt_low ts"] l [of "pdpt_kern ts"] z' [of "kern_pml4 ts"] by (simp add: static_list_def)
    moreover have "\<not> pse (?m (mmu (pdpt_low ts) + 8 * i))"
      unfolding vmm_init_mem(2) [OF s i(2)] using l [of "pd_low ts"] z' [of "pdpt_low ts"] by (simp add: static_list_def)
    moreover have "\<not> pse (?m (mmu (pdpt_kern ts) + 8 * i))"
      unfolding vmm_init_mem(4) [OF s i(2)] using l [of "pd_kern ts"] z' [of "pdpt_kern ts"] by (simp add: static_list_def)
    ultimately show False using t a(1) by blast
  qed
  then have "no_huge ?m ?P" unfolding no_huge_def by blast
  then show ?thesis unfolding pt_ok_def using al uniq by blast
qed

lemma vmm_init_state:
  "vstate (vmm_init ts st) = VMM_IDENTITY" "low_map_end (vmm_init ts st) = 0x40000000" "cr3 (vmm_init ts st) = virt_to_phys (kern_pml4 ts)"
  "efer (vmm_init ts st) = efer st OR push_bit 11 1" "cr4 (vmm_init ts st) = cr4 st OR push_bit 7 1"
  "k_bm (vmm_init ts st) = k_bm st" "k_bd (vmm_init ts st) = k_bd st"
proof -
  note defs = vmm_init_def map_kernel_def map_low_identity_def set_cr3_def enable_nxe_def enable_pge_def Let_def
  show "vstate (vmm_init ts st) = VMM_IDENTITY" "low_map_end (vmm_init ts st) = 0x40000000" "cr3 (vmm_init ts st) = virt_to_phys (kern_pml4 ts)"
    by (simp_all add: defs tstore_def)
  show "efer (vmm_init ts st) = efer st OR push_bit 11 1" "cr4 (vmm_init ts st) = cr4 st OR push_bit 7 1"
    "k_bm (vmm_init ts st) = k_bm st" "k_bd (vmm_init ts st) = k_bd st"
    unfolding defs by (simp_all add: tstore_def [where t = "kern_pml4 ts"] tstore_def [where t = "pdpt_low ts"]
      tstore_def [where t = "pdpt_kern ts"] tstore_def [where t = "pd_kern ts"] fold_tstore_keeps)
qed

lemma vmm_init_windows:
  assumes s: "static_tables ts K" and z: "static_zero ts (pmem st)" and c: "canonical w"
  shows "map_option fst (translate (pmem (vmm_init ts st)) (mmu (kern_pml4 ts)) w) =
      (if unat w < 2 ^ 30 then Some w
       else if unat kernel_vma_start \<le> unat w \<and> unat w < unat kernel_vma_start + 0x200000 then Some (w - kernel_vma_start + KERNEL_PHYS)
       else None)"
proof -
  have "take_bit 30 w = w" if "unat w < 2 ^ 30"
    using that by (simp add: word_unat_eq_iff unat_take_bit)
  moreover have "KERNEL_PHYS + take_bit 21 w = w - kernel_vma_start + KERNEL_PHYS"
    if w: "unat kernel_vma_start \<le> unat w \<and> unat w < unat kernel_vma_start + 0x200000"
  proof -
    have k: "unat kernel_vma_start mod 0x200000 = 0" by (simp add: kernel_vma_start_def)
    obtain c where c: "unat w = unat kernel_vma_start + c" "c < 0x200000" using w by (auto simp: le_iff_add)
    have "(unat kernel_vma_start + c) mod 0x200000 = c" using c(2) by (subst mod_add_left_eq [symmetric]) (simp add: k)
    then have "unat w mod 0x200000 = unat w - unat kernel_vma_start" by (simp add: c(1))
    then have "take_bit 21 w = w - kernel_vma_start"
      using w by (simp add: word_unat_eq_iff unat_take_bit unat_sub_le word_le_nat_alt)
    then show ?thesis by simp
  qed
  ultimately show ?thesis
    unfolding vmm_init_translate [OF s z] low_window [OF c] kernel_window [OF c] by simp
qed

text \<open>
  Claim C15. \<^verbatim>\<open>vmm_init\<close> turns the zeroed static tables into a well-formed tree that translates, among all canonical
  addresses, exactly the low gigabyte one to one and the 2 MiB window of the kernel image to its physical load address. It enters
  \<^verbatim>\<open>VMM_IDENTITY\<close>, loads the physical address of the root into \<^verbatim>\<open>CR3\<close> and sets the no-execute and global-page enable bits.
\<close>

theorem vmm_init_correct:
  assumes s: "static_tables ts K" and z: "static_zero ts (pmem st)"
  defines "st' \<equiv> vmm_init ts st" and "root \<equiv> mmu (kern_pml4 ts)"
  shows "vstate st' = VMM_IDENTITY \<and> cr3 st' = root \<and> vmm_get_low_map_end st' = 0x40000000 \<and> bit (efer st') 11 \<and> bit (cr4 st') 7 \<and>
    pt_ok (pmem st') root K \<and>
    (\<forall>w. canonical w \<longrightarrow> map_option fst (translate (pmem st') root w) =
      (if unat w < 2 ^ 30 then Some w
       else if unat kernel_vma_start \<le> unat w \<and> unat w < unat kernel_vma_start + 0x200000 then Some (w - kernel_vma_start + KERNEL_PHYS)
       else None))"
proof -
  have "virt_to_phys (kern_pml4 ts) = root" using s kernel_table(1) by (simp add: static_tables_def static_list_def root_def)
  then show ?thesis
    using vmm_init_pt_ok [OF s z] vmm_init_windows [OF s z]
    by (auto simp: st'_def root_def vmm_init_state vmm_get_low_map_end_def bit_or_iff bit_pow_u64)
qed

lemma boot_tables_static: "static_tables boot_tables {0x200..<0x240}"
  by (simp add: static_tables_def static_list_def boot_tables_def kernel_vma_start_def page_aligned_def mmu_def KERNEL_PHYS_def)

theorem vmm_init_correct_witness:
  "vstate (vmm_init boot_tables empty_kmem) = VMM_IDENTITY \<and>
   map_option fst (translate (pmem (vmm_init boot_tables empty_kmem)) 0x200000 0xFFFFFFFF80001234) = Some 0x201234"
proof -
  have z: "static_zero boot_tables (pmem empty_kmem)" by (simp add: static_zero_def empty_kmem_def)
  have "canonical 0xFFFFFFFF80001234" by (simp add: canonical_def)
  then show ?thesis
    using vmm_init_correct [OF boot_tables_static z] by (simp add: kernel_vma_start_def KERNEL_PHYS_def)
qed

end
