(* ===== verification/Vmm_User.thy ===== *)
theory Vmm_User
  imports Vmm_Space
begin

text \<open>
  User address spaces (\<^verbatim>\<open>vmm_create_user_pml4\<close>), the removal of the low identity map
  (\<^verbatim>\<open>vmm_unmap_low_identity\<close>) and the state machine of \<^verbatim>\<open>arch/x86/vmm.c\<close>.
\<close>

section \<open>Frames outside a tree\<close>

lemma cell_frame: "page_aligned t \<Longrightarrow> j < 512 \<Longrightarrow> unat (t + 8 * j) div 4096 = unat t div 4096"
  using unat_cell [of t j] by (auto simp: page_aligned_def word_less_nat_alt elim!: dvdE)

lemma translate_frame_other:
  assumes ok: "pt_ok m root R" and f: "f \<notin> R" and same: "\<And>a. unat a div 4096 \<noteq> f \<Longrightarrow> m' a = m a"
  shows "translate m' root v = translate m root v"
proof (rule translate_cong)
  have keep: "m' (t + 8 * i) = m (t + 8 * i)" if "path_ok p" "tbl_at m root p = Some t" "i < 512" for p t i
    using same cell_frame pt_okD(1,2) [OF ok that(1,2)] that(3) f by metis
  show "tbl_at m' root [pt_index 39 v, pt_index 30 v] = tbl_at m root [pt_index 39 v, pt_index 30 v]"
    by (rule tbl_at_frame_other [OF ok f same]) simp_all
  show "m' (pd + 8 * pt_index 21 v) = m (pd + 8 * pt_index 21 v)" if "tbl_at m root [pt_index 39 v, pt_index 30 v] = Some pd" for pd
    using keep [OF _ that] by simp
  show "m' (pt + 8 * pt_index 12 v) = m (pt + 8 * pt_index 12 v)" if "tbl_at m root (vpath v) = Some pt" for pt
    using keep [OF _ that] by simp
qed

section \<open>Creating a user address space\<close>

text \<open>The copy loop reads the kernel's table while it writes another frame.\<close>

lemma copy_fold:
  assumes "\<And>i j. i < 512 \<Longrightarrow> j < 512 \<Longrightarrow> mmu k + 8 * i \<noteq> mmu t + 8 * j" and "\<And>i. i \<in> set is \<Longrightarrow> of_nat i < (512 :: u64)"
  shows "fold (\<lambda>i st. tstore t (of_nat i) (tload st k (of_nat i)) st) is st =
    fold (\<lambda>i. tstore t (of_nat i) (tload st k (of_nat i))) is st"
  using assms(2)
proof (induction "is" arbitrary: st)
  case (Cons j "is")
  define st1 where "st1 = tstore t (of_nat j) (tload st k (of_nat j)) st"
  have "tload st1 k (of_nat i) = tload st k (of_nat i)" if "i \<in> set is" for i
    using assms(1) [of "of_nat i" "of_nat j"] Cons.prems that by (simp add: st1_def tload_def tstore_def)
  then have "fold (\<lambda>i. tstore t (of_nat i) (tload st1 k (of_nat i))) is st1 = fold (\<lambda>i. tstore t (of_nat i) (tload st k (of_nat i))) is st1"
    by (intro fold_cong) simp_all
  moreover have "fold (\<lambda>i st. tstore t (of_nat i) (tload st k (of_nat i)) st) is st1 = fold (\<lambda>i. tstore t (of_nat i) (tload st1 k (of_nat i))) is st1"
    using Cons by simp
  ultimately show ?case by (simp add: st1_def)
qed simp

text \<open>A table whose lower half is empty and whose upper half equals that of the kernel's root.\<close>

definition user_root :: "(u64 \<Rightarrow> u64) \<Rightarrow> u64 \<Rightarrow> u64 \<Rightarrow> bool" where
  "user_root m root t \<longleftrightarrow> (\<forall>i < 512. m (t + 8 * i) = (if i < 256 then 0 else m (root + 8 * i)))"

lemma user_root_path:
  assumes "user_root m root t" and "i < 512"
  shows "tbl_at m t (i # p) = (if i < 256 then None else tbl_at m root (i # p))"
  using assms by (simp add: user_root_def tbl_at.simps Let_def)

lemma user_root_translate:
  assumes "user_root m root t"
  shows "translate m t v = (if pt_index 39 v < 256 then None else translate m root v)"
  unfolding translate_leaf user_root_path [OF assms pt_index_less] by simp

lemma user_root_pt_ok:
  assumes u: "user_root m root t" and ok: "pt_ok m root R" and t: "page_aligned t" "unat t div 4096 \<notin> R"
  shows "pt_ok m t (insert (unat t div 4096) R)"
proof -
  have path: "path_ok p \<Longrightarrow> tbl_at m t p = Some x \<Longrightarrow> (p = [] \<and> x = t) \<or> (p \<noteq> [] \<and> tbl_at m root p = Some x)" for p x
    by (cases p) (auto simp: user_root_path [OF u] path_ok_def tbl_at.simps(1) split: if_splits)
  have old: "x \<noteq> t" if "path_ok p" "tbl_at m root p = Some x" for p x using pt_okD(2) [OF ok that] t(2) by blast
  show ?thesis
    unfolding pt_ok_def
  proof (intro conjI allI impI; (elim conjE)?)
    fix p x assume "path_ok p" "tbl_at m t p = Some x"
    then show "page_aligned x" "unat x div 4096 \<in> insert (unat t div 4096) R"
      using path [of p x] pt_okD(1,2) [OF ok, of p x] t(1) by auto
  next
    fix p q x assume h: "path_ok p" "path_ok q" "tbl_at m t p = Some x" "tbl_at m t q = Some x"
    show "p = q"
    proof (cases "x = t")
      case True
      then show ?thesis using path [OF h(1,3)] path [OF h(2,4)] old [OF h(1)] old [OF h(2)] by blast
    next
      case False
      then have "tbl_at m root p = Some x" "tbl_at m root q = Some x" using path [OF h(1,3)] path [OF h(2,4)] by blast+
      then show ?thesis using pt_okD(3) [OF ok h(1) _ h(2)] by blast
    qed
  next
    have "pse (m (x + 8 * i)) \<Longrightarrow> present (m (x + 8 * i)) \<Longrightarrow> length p \<le> 1 \<Longrightarrow> path_ok (p @ [i]) \<Longrightarrow> tbl_at m t p = Some x \<Longrightarrow> False" for p x i
    proof -
      assume h: "pse (m (x + 8 * i))" "present (m (x + 8 * i))" "length p \<le> 1" "path_ok (p @ [i])" "tbl_at m t p = Some x"
      have i: "path_ok p" "i < 512" using h(4) by (simp_all add: path_ok_snoc)
      note huge = pt_ok_huge [OF ok, unfolded no_huge_def, rule_format, of p i]
      show False
      proof (cases "p = []")
        case True
        then have "m (root + 8 * i) = m (x + 8 * i)" using h(2,5) u i(2) by (auto simp: user_root_def tbl_at.simps(1) split: if_splits)
        then show ?thesis using huge [of root] h True by (simp add: tbl_at.simps(1))
      next
        case False
        then show ?thesis using huge [of x] h path [OF i(1) h(5)] by simp
      qed
    qed
    then show "no_huge m t" unfolding no_huge_def by blast
  qed
qed

lemma create_user_spec:
  assumes ok: "tree_ok es K (mmu (kern_pml4 ts)) st" and r: "vmm_create_user_pml4 ts es st = Ok (a, st')" and a: "a \<noteq> 0"
  defines "root \<equiv> mmu (kern_pml4 ts)"
  shows "new_frame es K st a st'" and "tree_ok es K root st'" and "tree_ok es K (mmu a) st'"
    and "user_root (pmem st') root (mmu a)" and "translate (pmem st') root v = translate (pmem st) root v"
    and "vstate st' = vstate st" and "unat x div 4096 \<noteq> unat (mmu a) div 4096 \<Longrightarrow> pmem st' x = pmem st x"
    and "\<exists>st1 m. alloc_table es st = Ok (a, st1) \<and> st' = st1\<lparr>pmem := m\<rparr>"
proof -
  have k: "kinv es K st" and pt: "pt_ok (pmem st) root (kowned es K st)" using ok by (auto simp: tree_ok_def root_def)
  obtain st1 where al: "alloc_table es st = Ok (a, st1)"
    and st': "st' = fold (\<lambda>i st. tstore a (of_nat i) (tload st (kern_pml4 ts) (of_nat i)) st) [256..<512] (tzero a st1)"
    using r a by (auto simp: vmm_create_user_pml4_def simp del: upt_rec_numeral split: if_splits)
  note A = alloc_table_spec [OF k al]
  have F: "new_frame es K st a st1" by (rule A(3) [OF a])
  have st1: "pmem st1 = pmem st" "vstate st1 = vstate st" using A(4) by (metis kmem.select_convs(1,2) kmem.surjective kmem.update_convs(7,8))+
  define f where "f = unat (mmu a) div 4096"
  have pa: "page_aligned (mmu a)" and fR: "f \<notin> kowned es K st" using F by (simp_all add: new_frame_def f_def)
  have rt: "page_aligned root" "unat root div 4096 \<in> kowned es K st" using pt_okD [OF pt, of "[]" root] by (simp_all add: tbl_at.simps(1))
  have ne: "root + 8 * i \<noteq> mmu a + 8 * j" if "i < 512" "j < 512" for i j
    using cell_eq [OF rt(1) that(1) pa that(2)] rt(2) fR f_def by auto
  have Z: "mmu a \<le> x \<and> x < mmu a + PAGE_SIZE \<longleftrightarrow> unat x div 4096 = f" for x
    using F unfolding f_def by (intro tzero_cells) (auto simp: new_frame_def)
  define st2 where "st2 = tzero a st1"
  have m2: "pmem st2 x = (if unat x div 4096 = f then 0 else pmem st x)" for x by (simp add: st2_def tzero_def Z st1)
  have st2: "st' = fold (\<lambda>i. tstore a (of_nat i) (tload st2 (kern_pml4 ts) (of_nat i))) [256..<512] st2"
    unfolding st' st2_def using ne by (intro copy_fold) (auto simp: root_def word_less_nat_alt unat_of_nat)
  have other: "pmem st' x = pmem st x" if "unat x div 4096 \<noteq> f" for x
  proof -
    have "x \<noteq> mmu a + 8 * i" if "i < 512" for i using cell_frame [OF pa that] \<open>unat x div 4096 \<noteq> f\<close> f_def by auto
    then show ?thesis unfolding st2 using that by (subst fold_tstore_other) (auto simp: m2)
  qed
  have cell: "pmem st' (mmu a + 8 * i) = (if 256 \<le> unat i then pmem st (root + 8 * i) else 0)" if "i < 512" for i
  proof -
    have "unat i < 512" "of_nat (unat i) = i" using that by (simp_all add: word_less_nat_alt)
    moreover have "unat (root + 8 * i) div 4096 \<noteq> f" using cell_frame [OF rt(1) that] rt(2) fR by metis
    moreover have "unat (mmu a + 8 * i) div 4096 = f" using cell_frame [OF pa that] f_def by simp
    ultimately show ?thesis unfolding st2 by (subst fold_tstore_cell [OF pa that]) (auto simp: m2 tload_def root_def)
  qed
  show "user_root (pmem st') root (mmu a)"
    unfolding user_root_def
  proof (intro allI impI)
    fix i :: u64 assume i: "i < 512"
    have "unat (root + 8 * i) div 4096 \<noteq> f" using cell_frame [OF rt(1) i] rt(2) fR by metis
    then show "pmem st' (mmu a + 8 * i) = (if i < 256 then 0 else pmem st' (root + 8 * i))"
      using cell [OF i] other by (simp add: word_less_nat_alt)
  qed
  note U = this
  obtain m where m: "st' = st1\<lparr>pmem := m\<rparr>"
    using fold_tstore_rest [of a "\<lambda>i. tload st2 (kern_pml4 ts) (of_nat i)" "[256..<512]" st2] by (auto simp: st2 st2_def tzero_def)
  have own: "kowned es K st' = insert f (kowned es K st)" "kinv es K st'" using F A(1) by (simp_all add: m new_frame_def f_def)
  show "new_frame es K st a st'" using F by (simp add: new_frame_def m)
  show "vstate st' = vstate st" by (simp add: m st1)
  show "unat x div 4096 \<noteq> unat (mmu a) div 4096 \<Longrightarrow> pmem st' x = pmem st x" using other by (simp add: f_def)
  show "\<exists>st1 m. alloc_table es st = Ok (a, st1) \<and> st' = st1\<lparr>pmem := m\<rparr>" using al m by blast
  show "translate (pmem st') root v = translate (pmem st) root v" by (rule translate_frame_other [OF pt fR other])
  have path: "tbl_at (pmem st') root p = tbl_at (pmem st) root p" if "path_ok p" for p
    by (rule tbl_at_frame_other [OF pt fR other that])
  have "pmem st' (t + 8 * i) = pmem st (t + 8 * i)" if "path_ok q" "tbl_at (pmem st) root q = Some t" "i < 512" for q t i
    using cell_frame pt_okD(1,2) [OF pt that(1,2)] that(3) fR by (intro other) metis
  then have pt': "pt_ok (pmem st') root (kowned es K st)" by (intro pt_ok_cong [OF pt path]) blast+
  then show "tree_ok es K root st'" using own by (auto simp: tree_ok_def pt_ok_def)
  show "tree_ok es K (mmu a) st'" using user_root_pt_ok [OF U pt' pa] own fR by (simp add: tree_ok_def f_def)
qed

text \<open>Once the buddy allocator backs the tables, allocation hinges on a free block.\<close>

lemma alloc_table_ready:
  assumes k: "kinv es K st" and s: "vstate st = VMM_READY"
  shows "free_blocks (k_bd st) = {} \<Longrightarrow> alloc_table es st = Err NullDeref"
    and "free_blocks (k_bd st) \<noteq> {} \<Longrightarrow> \<exists>a st'. alloc_table es st = Ok (a, st') \<and> a \<noteq> 0"
proof -
  have inv: "buddy_inv (k_bd st)" using k s by (simp add: kinv_def)
  note A = alloc_pages_spec [OF inv, of 0]
  show "alloc_table es st = Err NullDeref" if "free_blocks (k_bd st) = {}"
    using A that s by (auto simp: alloc_table_def page_to_hhdm_def)
  show "\<exists>a st'. alloc_table es st = Ok (a, st') \<and> a \<noteq> 0" if ne: "free_blocks (k_bd st) \<noteq> {}"
  proof -
    obtain p bd where p: "alloc_pages (k_bd st) 0 = Ok (Some p, bd)" using A ne by (auto split: prod.splits)
    have "of_nat p * PAGE_SIZE + HHDM_BASE \<noteq> 0" using ready_frame(1) [OF k s p refl] by (simp add: new_frame_def)
    then show ?thesis using p s by (simp add: alloc_table_def page_to_hhdm_def)
  qed
qed

definition ready_kmem :: kmem where
  "ready_kmem = empty_kmem\<lparr>vstate := VMM_READY, k_bd := two_pages\<rparr>"

lemma ready_tree: "tree_ok boot_map {0x200} 0x200000 ready_kmem"
proof -
  have o: "bm_owned boot_map boot_pool = {}" by (auto simp: bm_owned_def boot_pool_def usable_def)
  have "free_frames two_pages = {0, 1}" by (auto simp: free_frames_def two_pages_blocks)
  then have "kinv boot_map {0x200} ready_kmem"
    using boot_map_ok two_pages_inv o by (simp add: kinv_def ready_kmem_def empty_kmem_def PHYS_LIMIT_def) (simp add: boot_pool_def two_pages_def)
  moreover have "pt_ok (pmem ready_kmem) 0x200000 (kowned boot_map {0x200} ready_kmem)"
    by (auto simp: pt_ok_def no_huge_def ready_kmem_def empty_kmem_def tbl_at_empty kowned_def page_aligned_def split: if_splits)
  ultimately show ?thesis by (simp add: tree_ok_def)
qed

text \<open>
  Claim C16. In the running kernel \<^verbatim>\<open>vmm_create_user_pml4\<close> returns, as long as a page is free, a new address space in a frame nobody
  owned before. Its user half is empty, its kernel half translates every address as the kernel's own table does, the kernel's translations
  are unchanged, and both trees are well formed, so that \<^verbatim>\<open>vmm_map\<close> can be applied to either.
\<close>

theorem vmm_create_user_pml4_correct:
  assumes ok: "tree_ok es K (mmu (kern_pml4 ts)) st" and s: "vstate st = VMM_READY" and free: "free_blocks (k_bd st) \<noteq> {}"
  shows "\<exists>a st'. vmm_create_user_pml4 ts es st = Ok (a, st') \<and> a \<noteq> 0 \<and>
    unat (mmu a) div 4096 \<notin> kowned es K st \<and> unat (mmu a) div 4096 \<in> kowned es K st' \<and>
    (\<forall>v. translate (pmem st') (mmu a) v =
      (if pt_index 39 v < 256 then None else translate (pmem st) (mmu (kern_pml4 ts)) v)) \<and>
    (\<forall>v. translate (pmem st') (mmu (kern_pml4 ts)) v = translate (pmem st) (mmu (kern_pml4 ts)) v) \<and>
    tree_ok es K (mmu (kern_pml4 ts)) st' \<and> tree_ok es K (mmu a) st'"
proof -
  have k: "kinv es K st" using ok by (simp add: tree_ok_def)
  obtain a st1 where al: "alloc_table es st = Ok (a, st1)" "a \<noteq> 0" using alloc_table_ready(2) [OF k s free] by blast
  then obtain st' where r: "vmm_create_user_pml4 ts es st = Ok (a, st')" by (simp add: vmm_create_user_pml4_def del: upt_rec_numeral)
  note C = create_user_spec [OF ok r al(2)]
  show ?thesis
    using r al(2) C(2,3) C(1) user_root_translate [OF C(4)] C(5) by (auto simp: new_frame_def)
qed

theorem vmm_create_user_pml4_correct_witness:
  "\<exists>a st'. vmm_create_user_pml4 boot_tables boot_map ready_kmem = Ok (a, st') \<and> a \<noteq> 0 \<and>
     (\<forall>v. translate (pmem st') (mmu a) v = None)"
proof -
  have t: "tree_ok boot_map {0x200} (mmu (kern_pml4 boot_tables)) ready_kmem" using ready_tree by simp
  have v: "vstate ready_kmem = VMM_READY" "free_blocks (k_bd ready_kmem) \<noteq> {}" by (simp_all add: ready_kmem_def two_pages_blocks)
  have "translate (pmem ready_kmem) (mmu (kern_pml4 boot_tables)) v = None" for v
    by (simp add: translate_def ready_kmem_def empty_kmem_def tbl_at_empty)
  with vmm_create_user_pml4_correct [OF t v] show ?thesis by fastforce
qed

text \<open>
  Claim C17. The running kernel does not check the result of \<^verbatim>\<open>alloc_pages\<close> before it converts it to an address: with no
  free page left, creating an address space takes the address of a NULL page descriptor.
\<close>

theorem create_user_out_of_memory:
  assumes "kinv es K st" and "vstate st = VMM_READY" and "free_blocks (k_bd st) = {}"
  shows "vmm_create_user_pml4 ts es st = Err NullDeref"
  using alloc_table_ready(1) [OF assms] by (simp add: vmm_create_user_pml4_def)

lemma reserved_inv:
  assumes "all_reserved st"
  shows "buddy_inv st" and "free_blocks st = {}"
proof -
  have "pages_upd {} to_free st = st" by (simp add: pages_upd_def map_nth)
  then have g: "group_inv {} 0 st" using group_inv_start [OF assms, of "{}"] by simp
  then show "buddy_inv st" by (auto simp: group_inv_def buddy_inv_def inv_except_def)
  have "free_frames st = {}" using g by (simp add: group_inv_def)
  moreover have "x \<in> free_frames st" if "(x, k) \<in> free_blocks st" for x k using that by (force simp: free_frames_def)
  ultimately show "free_blocks st = {}" by fast
qed

theorem create_user_out_of_memory_witness:
  "vmm_create_user_pml4 boot_tables boot_map (ready_kmem\<lparr>k_bd := boot_buddy\<rparr>) = Err NullDeref"
proof -
  have r: "all_reserved boot_buddy" by (simp add: boot_buddy_def all_reserved_def)
  have f: "free_frames boot_buddy = {}" using reserved_inv(2) [OF r] by (simp add: free_frames_def)
  have "kinv boot_map {0x200} (ready_kmem\<lparr>k_bd := boot_buddy\<rparr>)"
    using boot_map_ok reserved_inv(1) [OF r] f by (simp add: kinv_def ready_kmem_def empty_kmem_def PHYS_LIMIT_def) (simp add: boot_pool_def boot_buddy_def)
  then show ?thesis using create_user_out_of_memory reserved_inv(2) [OF r] by (auto simp: ready_kmem_def)
qed

section \<open>Removing the low identity map\<close>

lemma unmap_low_spec:
  assumes ok: "tree_ok es K (mmu (kern_pml4 ts)) st" and r: "vmm_unmap_low_identity ts st = (rc, st')"
    and s: "vstate st = VMM_TRANSITION"
  defines "root \<equiv> mmu (kern_pml4 ts)"
  shows "rc = 0" and "vstate st' = VMM_VIRTUAL_ONLY" and "tree_ok es K root st'"
    and "translate (pmem st') root v = (if pt_index 39 v = 0 then None else translate (pmem st) root v)"
proof -
  have pt: "pt_ok (pmem st) root (kowned es K st)" and k: "kinv es K st" using ok by (simp_all add: tree_ok_def root_def)
  have st': "st' = st\<lparr>pmem := (pmem st)(root := 0), cr3 := cr3 st, vstate := VMM_VIRTUAL_ONLY\<rparr>" and "rc = 0"
    using r s by (auto simp: vmm_unmap_low_identity_def set_cr3_def get_cr3_def tstore_def root_def)
  show "rc = 0" "vstate st' = VMM_VIRTUAL_ONLY" using \<open>rc = 0\<close> by (simp_all add: st')
  have m': "pmem st' root = 0" "\<And>a. a \<noteq> root + 8 * 0 \<Longrightarrow> pmem st' a = pmem st a" by (simp_all add: st')
  have other: "tbl_at (pmem st') root q = tbl_at (pmem st) root q" if "path_ok q" "\<not> (\<exists>r. q = 0 # r)" for q
    using tbl_at_store_other [OF pt _ _ _ m'(2), of "[]" root 0 q] that by (simp add: tbl_at.simps(1))
  have zero: "tbl_at (pmem st') root (0 # q) = None" for q by (simp add: tbl_at.simps m'(1))
  have sub: "tbl_at (pmem st) root q = Some t" if "path_ok q" "tbl_at (pmem st') root q = Some t" for q t
    using that other [OF that(1)] zero by (cases "\<exists>r. q = 0 # r") auto
  have "no_huge (pmem st') root"
    using pt_ok_huge [OF pt]
  proof (rule no_huge_mono)
    fix p t i assume h: "path_ok (p @ [i])" "tbl_at (pmem st') root p = Some t" "present (pmem st' (t + 8 * i))"
    then have "tbl_at (pmem st) root p = Some t" "t + 8 * i \<noteq> root" using sub m'(1) by (auto simp: path_ok_snoc)
    then show "tbl_at (pmem st) root p = Some t \<and> pmem st (t + 8 * i) = pmem st' (t + 8 * i)" using m'(2) by simp
  qed
  then have "pt_ok (pmem st') root (kowned es K st)" using pt sub unfolding pt_ok_def by blast
  moreover have "kowned es K st' = kowned es K st" using s by (simp add: kowned_def st')
  moreover have "kinv es K st'" using k s by (simp add: kinv_def st')
  ultimately show "tree_ok es K root st'" by (simp add: tree_ok_def)
  show "translate (pmem st') root v = (if pt_index 39 v = 0 then None else translate (pmem st) root v)"
  proof (cases "pt_index 39 v = 0")
    case True
    then show ?thesis by (simp add: translate_def zero)
  next
    case False
    have cell: "pmem st' (t + 8 * i) = pmem st (t + 8 * i)" if "path_ok p" "tbl_at (pmem st) root p = Some t" "i < 512" "p \<noteq> []" for p t i
    proof (rule m'(2))
      note T = pt_okD [OF pt that(1,2)] and R = pt_okD [OF pt path_ok_v(4), of root, unfolded tbl_at.simps(1), OF refl]
      have "t \<noteq> root" using T(3) [of "[]"] that(2,4) by (auto simp: tbl_at.simps(1))
      then show "t + 8 * i \<noteq> root + 8 * 0" using cell_eq [OF T(1) that(3) R(1), of 0] by simp
    qed
    have "translate (pmem st') root v = translate (pmem st) root v"
      using other [of "[pt_index 39 v, pt_index 30 v]"] False cell [OF path_ok_v(2)] cell [OF path_ok_v(1)]
      by (intro translate_cong) simp_all
    then show ?thesis using False by simp
  qed
qed

text \<open>
  Removing the low identity map succeeds exactly in the transition state; it clears the translation of every address under the
  first top-level entry, the user half's low 512 GiB, leaves every other translation alone and keeps the tree well formed.
\<close>

theorem vmm_unmap_low_identity_correct:
  assumes "tree_ok es K (mmu (kern_pml4 ts)) st" and "vmm_unmap_low_identity ts st = (rc, st')"
  shows "if vstate st = VMM_TRANSITION
    then rc = 0 \<and> vstate st' = VMM_VIRTUAL_ONLY \<and> tree_ok es K (mmu (kern_pml4 ts)) st' \<and>
      (\<forall>v. translate (pmem st') (mmu (kern_pml4 ts)) v = (if pt_index 39 v = 0 then None else translate (pmem st) (mmu (kern_pml4 ts)) v))
    else rc = -1 \<and> st' = st"
  using unmap_low_spec [OF assms] assms(2) by (auto simp: vmm_unmap_low_identity_def)

theorem vmm_unmap_low_identity_correct_witness:
  "\<exists>st'. vmm_unmap_low_identity boot_tables (empty_kmem\<lparr>vstate := VMM_TRANSITION\<rparr>) = (0, st') \<and> vstate st' = VMM_VIRTUAL_ONLY"
proof -
  obtain rc st' where r: "vmm_unmap_low_identity boot_tables (empty_kmem\<lparr>vstate := VMM_TRANSITION\<rparr>) = (rc, st')" by force
  have "tree_ok boot_map {0x200} (mmu (kern_pml4 boot_tables)) (empty_kmem\<lparr>vstate := VMM_TRANSITION\<rparr>)"
    using boot_tree_empty by (simp add: boot_tree_def tree_ok_def kinv_def kowned_def empty_kmem_def)
  from vmm_unmap_low_identity_correct [OF this r] r show ?thesis by simp
qed

end
