(* ===== verification/Vmm_Order.thy ===== *)
theory Vmm_Order
  imports Vmm_User
begin

text \<open>
  The state machine of \<^verbatim>\<open>arch/x86/vmm.c\<close> as a step relation: after \<^verbatim>\<open>vmm_init\<close> any sequence of calls of its public operations,
  in any order, moves through the states one by one and never back.
\<close>

section \<open>Relations kept by the mapping operations\<close>

text \<open>
  The mapping operations change the memory subsystem only by taking tables from the allocator and by storing to tables. A reflexive
  and transitive relation that holds for these two holds for all of them.
\<close>

locale table_client =
  fixes es :: "e820_entry list" and R :: "kmem \<Rightarrow> kmem \<Rightarrow> bool"
  assumes refl: "R st st" and trans: "R st st1 \<Longrightarrow> R st1 st2 \<Longrightarrow> R st st2"
    and alloc: "alloc_table es st = Ok (a, st') \<Longrightarrow> R st st'"
    and store: "R st (tstore t i v st)" and zero: "R st (tzero t st)"
begin

lemma stored: "R st st' \<Longrightarrow> R st (tstore t i v st')" "R st st' \<Longrightarrow> R st (tzero t st')"
  by (blast intro: trans store zero)+

lemmas R_intros = refl stored trans

lemma get_or_create_table_R: "get_or_create_table es t i st = Ok (s, st') \<Longrightarrow> R st st'"
  by (auto simp: get_or_create_table_def Let_def refl dest!: alloc intro: stored split: if_splits)

lemma get_or_create_pd_R: "get_or_create_pd es p v st = Ok (s, st') \<Longrightarrow> R st st'"
  by (auto simp: get_or_create_pd_def dest!: get_or_create_table_R intro: trans split: if_splits)

lemma get_or_create_pt_R: "get_or_create_pt es p v st = Ok (s, st') \<Longrightarrow> R st st'"
  by (auto simp: get_or_create_pt_def dest!: get_or_create_table_R intro: trans split: if_splits)

lemma set_page_R: "set_page es p v ph fl ow st = Ok (rc, st') \<Longrightarrow> R st st'"
  by (auto simp: set_page_def Let_def refl dest!: get_or_create_pt_R intro: stored split: if_splits)

lemma set_large_page_R: "set_large_page es p v ph fl ow st = Ok (rc, st') \<Longrightarrow> R st st'"
  by (auto simp: set_large_page_def Let_def refl dest!: get_or_create_pd_R intro: stored split: if_splits)

lemma set_pages_loop_R:
  assumes "\<And>i st rc st'. set_one i st = Ok (rc, st') \<Longrightarrow> R st st'"
  shows "set_pages_loop set_one step n i failed st = Ok (f, st') \<Longrightarrow> R st st'"
  by (induction n arbitrary: i failed st) (auto simp: refl dest!: assms intro: trans)

lemma set_pages_R: "set_pages es p v ph sz fl ow st = Ok (f, st') \<Longrightarrow> R st st'"
  by (auto simp: set_pages_def refl dest: set_pages_loop_R [rotated] set_page_R split: if_splits)

lemma set_large_pages_R: "set_large_pages es p v ph sz fl ow st = Ok (f, st') \<Longrightarrow> R st st'"
  by (auto simp: set_large_pages_def refl dest: set_pages_loop_R [rotated] set_large_page_R split: if_splits)

lemma set_range_R: "set_range es p v ph sz fl ow st = Ok (f, st') \<Longrightarrow> R st st'"
  unfolding set_range_def Let_def
  by (auto simp: refl dest!: set_pages_R set_large_pages_R intro: trans split: if_splits prod.splits)

lemma vmm_map_R: "vmm_map ts es p v ph sz fl st = Ok (f, st') \<Longrightarrow> R st st'"
  unfolding vmm_map_def Let_def
  by (auto simp: refl dest: set_pages_R set_range_R split: if_splits prod.splits)

lemma map_hhdm_entries_R: "map_hhdm_entries es p rest failed st = Ok (f, st') \<Longrightarrow> R st st'"
  by (induction rest arbitrary: failed st) (auto simp: refl dest!: set_range_R intro: trans)

end

section \<open>Operations that keep the state\<close>

text \<open>Until the switch to the buddy allocator the mapping operations leave its state alone, too.\<close>

definition kept :: "kmem \<Rightarrow> kmem \<Rightarrow> bool" where
  "kept st st' \<longleftrightarrow> vstate st' = vstate st \<and> low_map_end st' = low_map_end st \<and> (vstate st \<noteq> VMM_READY \<longrightarrow> k_bd st' = k_bd st)"

lemma alloc_table_vstate: "alloc_table es st = Ok (a, st') \<Longrightarrow> kept st st'"
  by (auto simp: alloc_table_def kept_def split: if_splits)

lemma tstore_vstate [simp]: "vstate (tstore t i v st) = vstate st" "vstate (tzero t st) = vstate st"
  by (simp_all add: tstore_def tzero_def)

interpretation kp: table_client es kept
  by unfold_locales (auto simp: kept_def tstore_def tzero_def dest: alloc_table_vstate)

lemmas vmm_map_vstate = kp.vmm_map_R and map_hhdm_entries_vstate = kp.map_hhdm_entries_R
  and set_range_vstate = kp.set_range_R

text \<open>The boot pool grows by usable frames, and its end is the end of the last of them.\<close>

definition pool_grows :: "e820_entry list \<Rightarrow> kmem \<Rightarrow> kmem \<Rightarrow> bool" where
  "pool_grows es st st' \<longleftrightarrow> (bm_inv es (k_bm st) \<longrightarrow> bm_inv es (k_bm st') \<and> unat (pool_end (k_bm st)) \<le> unat (pool_end (k_bm st')) \<and>
     (pool_end (k_bm st') = pool_end (k_bm st) \<or>
      (\<exists>f \<in> usable es (unat (pool_end (k_bm st))). unat (pool_end (k_bm st')) = 4096 * f + 4096)))"

lemma bootmem_page_grows:
  assumes "bm_inv es bm" and "bootmem_alloc_page_phys es bm = Ok (a, bm')"
  shows "bm_inv es bm' \<and> unat (pool_end bm) \<le> unat (pool_end bm') \<and>
     (pool_end bm' = pool_end bm \<or> (\<exists>f \<in> usable es (unat (pool_end bm)). unat (pool_end bm') = 4096 * f + 4096))"
proof -
  obtain a' b' where r: "bootmem_alloc_page_phys es bm = Ok (a', b')" "bm_inv es b'" "a' = 0 \<Longrightarrow> b' = bm"
    "a' \<noteq> 0 \<Longrightarrow> bm_grab es bm = Some (unat a' div 4096, b')"
    using bootmem_page_total [OF assms(1)] by metis
  show ?thesis
  proof (cases "a' = 0")
    case True
    then show ?thesis using r assms by simp
  next
    case False
    note G = bm_grab_cases [OF assms(1) r(4) [OF False]]
    show ?thesis using G(2,4) r(1,2) assms(2) by (auto simp: usable_def)
  qed
qed

lemma usable_mono: "f \<in> usable es hi \<Longrightarrow> lo \<le> hi \<Longrightarrow> f \<in> usable es lo"
  by (auto simp: usable_def)

lemma pool_grows_trans:
  assumes a: "pool_grows es st st1" and b: "pool_grows es st1 st2"
  shows "pool_grows es st st2"
  unfolding pool_grows_def
proof (intro impI)
  assume i: "bm_inv es (k_bm st)"
  note A = mp [OF a [unfolded pool_grows_def] i]
  note B = mp [OF b [unfolded pool_grows_def] conjunct1 [OF A]]
  have le: "unat (pool_end (k_bm st)) \<le> unat (pool_end (k_bm st1))" "unat (pool_end (k_bm st1)) \<le> unat (pool_end (k_bm st2))"
    using A B by auto
  have "pool_end (k_bm st2) = pool_end (k_bm st) \<or>
      (\<exists>f \<in> usable es (unat (pool_end (k_bm st))). unat (pool_end (k_bm st2)) = 4096 * f + 4096)"
  proof (cases "pool_end (k_bm st2) = pool_end (k_bm st1)")
    case True
    then show ?thesis using A by auto
  next
    case False
    then obtain f where "f \<in> usable es (unat (pool_end (k_bm st1)))" "unat (pool_end (k_bm st2)) = 4096 * f + 4096"
      using B by blast
    then show ?thesis using usable_mono [OF _ le(1)] by blast
  qed
  then show "bm_inv es (k_bm st2) \<and> unat (pool_end (k_bm st)) \<le> unat (pool_end (k_bm st2)) \<and>
     (pool_end (k_bm st2) = pool_end (k_bm st) \<or>
      (\<exists>f \<in> usable es (unat (pool_end (k_bm st))). unat (pool_end (k_bm st2)) = 4096 * f + 4096))"
    using B le by auto
qed

interpretation pg: table_client es "pool_grows es"
proof unfold_locales
  show "pool_grows es st st'" if "alloc_table es st = Ok (a, st')" for st a st'
    using that bootmem_page_grows [of es "k_bm st"]
    by (auto simp: alloc_table_def pool_grows_def bootmem_alloc_page_def split: if_splits)
  show "pool_grows es st st2" if "pool_grows es st st1" "pool_grows es st1 st2" for st st1 st2
    using that by (rule pool_grows_trans)
qed (simp_all add: pool_grows_def tstore_def tzero_def)

lemma rfold_vstate:
  assumes "\<And>x st st'. f x st = Ok st' \<Longrightarrow> vstate st' = vstate st"
  shows "rfold f xs st = Ok st' \<Longrightarrow> vstate st' = vstate st"
  by (induction xs arbitrary: st) (auto dest: assms)

lemma free_at_vstate: "free_at a st = Ok st' \<Longrightarrow> vstate st' = vstate st"
  by (auto simp: free_at_def)

lemma destroy_vstate:
  "destroy_pt t st = Ok st' \<Longrightarrow> vstate st' = vstate st"
  "destroy_pd t st = Ok st' \<Longrightarrow> vstate st' = vstate st"
  "destroy_pdpt t st = Ok st' \<Longrightarrow> vstate st' = vstate st"
proof -
  show pt: "destroy_pt t st = Ok st' \<Longrightarrow> vstate st' = vstate st" for t st st'
    unfolding destroy_pt_def by (auto dest!: free_at_vstate elim!: rfold_vstate [rotated] simp: Let_def split: if_splits)
  show pd: "destroy_pd t st = Ok st' \<Longrightarrow> vstate st' = vstate st" for t st st'
    unfolding destroy_pd_def by (auto dest!: free_at_vstate pt elim!: rfold_vstate [rotated] simp: Let_def split: if_splits)
  show "destroy_pdpt t st = Ok st' \<Longrightarrow> vstate st' = vstate st"
    unfolding destroy_pdpt_def by (auto dest!: free_at_vstate pd elim!: rfold_vstate [rotated] simp: Let_def split: if_splits)
qed

lemma vmm_destroy_vstate: "vmm_destroy_user_pml4 ts p st = Ok (rc, st') \<Longrightarrow> vstate st' = vstate st"
  unfolding vmm_destroy_user_pml4_def Let_def
  by (auto dest!: free_at_vstate destroy_vstate rfold_vstate [rotated] simp: set_cr3_def split: if_splits)

lemma copy_vstate: "vstate (fold (\<lambda>i st. tstore t (of_nat i) (tload st k (of_nat i)) st) is st) = vstate st"
  by (induction "is" arbitrary: st) simp_all

lemma vmm_create_vstate: "vmm_create_user_pml4 ts es st = Ok (a, st') \<Longrightarrow> vstate st' = vstate st"
  by (auto simp: vmm_create_user_pml4_def copy_vstate kept_def simp del: upt_rec_numeral dest!: alloc_table_vstate split: if_splits)

section \<open>Steps\<close>

inductive vmm_step :: "tables \<Rightarrow> e820_entry list \<Rightarrow> kmem \<Rightarrow> kmem \<Rightarrow> bool" for ts es where
  step_hhdm: "vmm_map_hhdm ts es st = Ok (rc, st') \<Longrightarrow> vmm_step ts es st st'"
| step_unmap: "vmm_unmap_low_identity ts st = (rc, st') \<Longrightarrow> vmm_step ts es st st'"
| step_map: "vmm_map ts es p v ph sz fl st = Ok (f, st') \<Longrightarrow> vmm_step ts es st st'"
| step_ready: "vmm_use_alloc_pages st = (rc, st') \<Longrightarrow> vmm_step ts es st st'"
| step_create: "vmm_create_user_pml4 ts es st = Ok (a, st') \<Longrightarrow> vmm_step ts es st st'"
| step_destroy: "vmm_destroy_user_pml4 ts p st = Ok (rc, st') \<Longrightarrow> vmm_step ts es st st'"
| step_load: "vmm_step ts es st (vmm_set_table p st)"

lemma vmm_step_rank:
  assumes "vmm_step ts es st st'"
  shows "vstate st' = vstate st \<or> vmm_rank (vstate st') = Suc (vmm_rank (vstate st))"
  using assms
proof cases
  case (step_hhdm rc)
  then show ?thesis
    by (auto simp: vmm_map_hhdm_def Let_def kept_def dest!: map_hhdm_entries_vstate set_range_vstate split: if_splits)
next
  case (step_unmap rc)
  then show ?thesis by (auto simp: vmm_unmap_low_identity_def split: if_splits)
next
  case (step_ready rc)
  then show ?thesis
    by (cases "vstate st") (auto simp: vmm_use_alloc_pages_def less_vmm_state_def split: if_splits)
qed (auto dest!: vmm_map_vstate vmm_create_vstate vmm_destroy_vstate simp: vmm_set_table_def set_cr3_def kept_def)

lemma vmm_rank_inj: "vmm_rank a = vmm_rank b \<longleftrightarrow> a = b"
  by (cases a; cases b) simp_all

lemma vmm_steps_rank: "(vmm_step ts es)\<^sup>*\<^sup>* st st' \<Longrightarrow> vmm_rank (vstate st) \<le> vmm_rank (vstate st')"
  by (induction rule: rtranclp_induct) (auto dest!: vmm_step_rank)

lemma vmm_state_path:
  assumes run: "(vmm_step ts es)\<^sup>*\<^sup>* (vmm_init ts st0) st" and s: "VMM_IDENTITY \<le> s" "s \<le> vstate st"
  shows "\<exists>mid. (vmm_step ts es)\<^sup>*\<^sup>* (vmm_init ts st0) mid \<and> (vmm_step ts es)\<^sup>*\<^sup>* mid st \<and> vstate mid = s"
  using run s(2)
proof (induction rule: rtranclp_induct)
  case base
  then have "vstate (vmm_init ts st0) = s" using s(1) by (simp add: vmm_init_state(1))
  then show ?case by blast
next
  case (step y z)
  have "s \<le> vstate y \<or> s = vstate z"
    using vmm_step_rank [OF step.hyps(2)] step.prems by (auto simp: less_eq_vmm_state_def vmm_rank_inj [symmetric])
  then consider "s \<le> vstate y" | "s = vstate z" by blast
  then show ?case
  proof cases
    case 1
    then show ?thesis using step.IH step.hyps(2) by (meson rtranclp.rtrancl_into_rtrancl)
  next
    case 2
    have "(vmm_step ts es)\<^sup>*\<^sup>* (vmm_init ts st0) z" using step.hyps by (rule rtranclp.rtrancl_into_rtrancl)
    then show ?thesis using 2 by blast
  qed
qed

text \<open>
  Claim C18. After \<^verbatim>\<open>vmm_init\<close>, whatever public operations are called in whatever order, the state never moves back (every configuration that
  the run can still reach is in the same or a later state) and skips none: it is at least \<^verbatim>\<open>VMM_IDENTITY\<close>, and for every state from
  \<^verbatim>\<open>VMM_IDENTITY\<close> up to the current one the run passed through a configuration in that state. In particular the
  kernel is only ready after the direct map was built and the low map removed.
\<close>

theorem vmm_state_order:
  assumes run: "(vmm_step ts es)\<^sup>*\<^sup>* (vmm_init ts st0) st"
  shows "VMM_IDENTITY \<le> vstate st \<and> (\<forall>later. (vmm_step ts es)\<^sup>*\<^sup>* st later \<longrightarrow> vstate st \<le> vstate later) \<and>
    (\<forall>s. VMM_IDENTITY \<le> s \<and> s \<le> vstate st \<longrightarrow>
       (\<exists>mid. (vmm_step ts es)\<^sup>*\<^sup>* (vmm_init ts st0) mid \<and> (vmm_step ts es)\<^sup>*\<^sup>* mid st \<and> vstate mid = s))"
  using vmm_steps_rank [OF run] vmm_steps_rank [of ts es st] vmm_state_path [OF run]
  by (auto simp: less_eq_vmm_state_def vmm_init_state(1))

theorem vmm_state_order_witness:
  "\<exists>st mid. (vmm_step boot_tables boot_map)\<^sup>*\<^sup>* (vmm_init boot_tables empty_kmem) st \<and> cr3 st = 0x250000 \<and>
     (\<forall>later. (vmm_step boot_tables boot_map)\<^sup>*\<^sup>* st later \<longrightarrow> VMM_IDENTITY \<le> vstate later) \<and>
     (vmm_step boot_tables boot_map)\<^sup>*\<^sup>* mid st \<and> vstate mid = VMM_IDENTITY"
proof -
  define st where "st = vmm_set_table 0x250000 (vmm_init boot_tables empty_kmem)"
  have run: "(vmm_step boot_tables boot_map)\<^sup>*\<^sup>* (vmm_init boot_tables empty_kmem) st"
    unfolding st_def using step_load by (rule r_into_rtranclp)
  have st: "vstate st = VMM_IDENTITY" "cr3 st = 0x250000"
    by (simp_all add: st_def vmm_set_table_def set_cr3_def vmm_init_state(1) virt_to_phys_def HHDM_BASE_def kernel_vma_start_def FLAGS_MASK_def)
  show ?thesis using vmm_state_order [OF run] run st by metis
qed

end
