(* ===== verification/Vmm_Hhdm.thy ===== *)
theory Vmm_Hhdm
  imports Vmm_Order
begin

text \<open>
  The direct map (\<^verbatim>\<open>vmm_map_hhdm\<close> of \<^verbatim>\<open>arch/x86/vmm.c\<close>): every entry of the memory map is mapped at \<^verbatim>\<open>HHDM_BASE\<close>, with flags
  that depend on its type.
\<close>

section \<open>Flags\<close>

lemma hhdm_flags_eq:
  "hhdm_flags t = (if t = E820_TYPE_RAM then 0x8000000000000103
    else if t = E820_TYPE_NVS \<or> t = E820_TYPE_ACPI then 0x8000000000000101 else 0x18)"
  by (simp add: hhdm_flags_def Let_def PT_PRESENT_def PT_GLOBAL_def PT_NX_def PT_WRITABLE_def PT_PCD_def PT_PWT_def)

definition hhdm_type :: "u32 \<Rightarrow> bool" where
  "hhdm_type t \<longleftrightarrow> t = E820_TYPE_RAM \<or> t = E820_TYPE_NVS \<or> t = E820_TYPE_ACPI"

lemma hhdm_flags_ok: "hhdm_type t \<Longrightarrow> flags_ok (hhdm_flags t)"
  by (auto simp: hhdm_type_def hhdm_flags_eq flags_ok_def FLAGS_MASK_def PT_PRESENT_def PT_PSE_def)

lemma hhdm_flags_present: "present (hhdm_flags t) \<longleftrightarrow> hhdm_type t"
  by (simp add: hhdm_type_def hhdm_flags_eq PT_PRESENT_def)

lemma hhdm_flags_fit: "flags_fit (hhdm_flags t)"
  using hhdm_flags_ok hhdm_flags_present by (auto simp: flags_fit_def)

section \<open>The loop over the memory map\<close>

definition hhdm_region :: "e820_entry list \<Rightarrow> u64 set" where
  "hhdm_region es = (\<Union>e \<in> {e \<in> set es. hhdm_type (e_type e)}. region (unat HHDM_BASE + e_lo e) (unat HHDM_BASE + e_hi e))"

definition hhdm_mapped :: "e820_entry list \<Rightarrow> u64 \<Rightarrow> kmem \<Rightarrow> bool" where
  "hhdm_mapped es root st \<longleftrightarrow> (\<forall>e \<in> set es. hhdm_type (e_type e) \<longrightarrow>
     (\<forall>a. e_lo e \<le> unat a \<and> unat a < e_hi e \<longrightarrow> maps_to st root (HHDM_BASE + a) a (hhdm_flags (e_type e))))"

abbreviation total_size :: "e820_entry list \<Rightarrow> nat" where
  "total_size es \<equiv> (\<Sum>e \<leftarrow> es. unat (e_size e))"

lemma unat_HHDM: "unat HHDM_BASE = 0xFFFF888000000000"
  by (simp add: HHDM_BASE_def)

lemma hhdm_entry:
  assumes ok: "tree_ok es K root st" and root: "mmu pml4 = root" and fit: "e_hi e \<le> PHYS_LIMIT"
    and r: "set_range es pml4 (HHDM_BASE + e_addr e) (e_addr e) (e_size e) (hhdm_flags (e_type e)) False st = Ok (f, st')"
  shows "extends es K root st st' (hhdm_region [e])" and "unat f \<le> unat (e_size e)" and "f = 0 \<Longrightarrow> hhdm_mapped [e] root st'"
proof -
  have lo: "e_lo e \<le> PHYS_LIMIT" using fit by (simp add: e_lo_def e_hi_def)
  have u: "unat (HHDM_BASE + e_addr e) = unat HHDM_BASE + e_lo e"
    using lo by (subst unat_add_lt) (simp_all add: unat_HHDM e_lo_def PHYS_LIMIT_def)
  have "range_result es K root (HHDM_BASE + e_addr e) (e_addr e) (unat (e_size e)) (hhdm_flags (e_type e)) st f st'"
    using fit by (intro set_range_spec [OF ok root hhdm_flags_fit _ _ r]) (simp_all add: u unat_HHDM e_hi_def e_lo_def PHYS_LIMIT_def)
  note R = this [unfolded range_result_def u touched_def hhdm_flags_present]
  have hi: "e_hi e = e_lo e + unat (e_size e)" by (simp add: e_hi_def e_lo_def)
  show "unat f \<le> unat (e_size e)" using R by simp
  show "extends es K root st st' (hhdm_region [e])"
    by (rule extends_mono [OF conjunct1 [OF R]]) (auto simp: hhdm_region_def hi add.assoc)
  show "hhdm_mapped [e] root st'" if f: "f = 0"
    unfolding hhdm_mapped_def
  proof (intro ballI impI allI)
    fix e' and a :: u64 assume e': "e' \<in> set [e]" "hhdm_type (e_type e')" and a: "e_lo e' \<le> unat a \<and> unat a < e_hi e'"
    have ua: "unat (HHDM_BASE + a) = unat HHDM_BASE + unat a" using a e' fit by (intro unat_add_lt) (simp add: unat_HHDM PHYS_LIMIT_def)
    have "maps_to st' root (HHDM_BASE + a) (e_addr e + ((HHDM_BASE + a) - (HHDM_BASE + e_addr e))) (hhdm_flags (e_type e))"
    proof -
      have w: "unat HHDM_BASE + e_lo e \<le> unat (HHDM_BASE + a)" "unat (HHDM_BASE + a) < unat HHDM_BASE + e_lo e + unat (e_size e)"
        using a e'(1) by (simp_all add: ua hi)
      have "hhdm_type (e_type e)" using e' by simp
      then show ?thesis using R f w by blast
    qed
    then show "maps_to st' root (HHDM_BASE + a) a (hhdm_flags (e_type e'))" using e'(1) by simp
  qed
qed

lemma hhdm_mapped_keeps: "hhdm_mapped es' root st \<Longrightarrow> extends es K root st st' A \<Longrightarrow> hhdm_mapped es' root st'"
  unfolding hhdm_mapped_def using maps_to_keeps by blast

lemma map_hhdm_entries_spec:
  assumes ok: "tree_ok es K root st" and root: "mmu pml4 = root" and fit: "\<forall>e \<in> set rest. e_hi e \<le> PHYS_LIMIT"
    and sum: "unat failed + total_size rest < 2 ^ 64" and r: "map_hhdm_entries es pml4 rest failed st = Ok (f, st')"
  shows "extends es K root st st' (hhdm_region rest) \<and> unat failed \<le> unat f \<and> (f = failed \<longrightarrow> hhdm_mapped rest root st')"
  using ok fit sum r
proof (induction rest arbitrary: failed st)
  case Nil
  then show ?case by (simp add: extends_refl hhdm_mapped_def)
next
  case (Cons e rest)
  obtain f1 st1 where a: "set_range es pml4 (HHDM_BASE + e_addr e) (e_addr e) (e_size e) (hhdm_flags (e_type e)) False st = Ok (f1, st1)"
    and rest: "map_hhdm_entries es pml4 rest (failed + f1) st1 = Ok (f, st')" using Cons.prems(4) by auto
  note H = hhdm_entry [OF Cons.prems(1) root _ a]
  have fit: "e_hi e \<le> PHYS_LIMIT" "\<forall>e \<in> set rest. e_hi e \<le> PHYS_LIMIT" using Cons.prems(2) by simp_all
  have u: "unat (failed + f1) = unat failed + unat f1" using H(2) [OF fit(1)] Cons.prems(3) by (intro unat_add_lt) simp
  have IH: "extends es K root st1 st' (hhdm_region rest)" "unat (failed + f1) \<le> unat f" "f = failed + f1 \<longrightarrow> hhdm_mapped rest root st'"
    using Cons.IH [OF extends_ok [OF H(1) [OF fit(1)]] fit(2) _ rest] u H(2) [OF fit(1)] Cons.prems(3) by auto
  have "extends es K root st st' (hhdm_region (e # rest))"
    by (rule extends_mono [OF extends_trans [OF H(1) [OF fit(1)] IH(1)]]) (auto simp: hhdm_region_def)
  moreover have "hhdm_mapped (e # rest) root st'" if f: "f = failed"
  proof -
    have "unat f1 = 0" using f u IH(2) by simp
    then have z: "f1 = 0" by (simp only: unat_eq_zero)
    have "hhdm_mapped [e] root st'" by (rule hhdm_mapped_keeps [OF H(3) [OF fit(1) z] IH(1)])
    then show ?thesis using IH(3) f z by (simp add: hhdm_mapped_def)
  qed
  ultimately show ?case using u IH(2) by simp
qed

lemma total_size_sorted:
  assumes "table_sorted es" and "\<forall>e \<in> set es. e_hi e \<le> B" and "es \<noteq> [] \<Longrightarrow> lo \<le> e_lo (hd es)" and "lo \<le> B"
  shows "total_size es + lo \<le> B"
  using assms
proof (induction es arbitrary: lo)
  case (Cons e es)
  have s: "table_sorted es" "\<forall>f \<in> set es. e_hi e \<le> e_lo f" using Cons.prems(1) by (auto simp: table_sorted_def)
  have "total_size es + e_hi e \<le> B" using Cons.IH [OF s(1), of "e_hi e"] Cons.prems(2) s(2) by (cases es) auto
  then show ?case using Cons.prems(3) by (simp add: e_hi_def e_lo_def)
qed simp

section \<open>The whole operation\<close>

definition VGA_FLAGS :: u64 where
  "VGA_FLAGS = PT_PRESENT OR PT_WRITABLE OR PT_GLOBAL OR PT_NX OR PT_PCD OR PT_PWT"

lemma vga_flags_ok: "flags_ok VGA_FLAGS"
  by (simp add: VGA_FLAGS_def flags_ok_def FLAGS_MASK_def PT_PRESENT_def PT_PSE_def PT_WRITABLE_def PT_GLOBAL_def PT_NX_def PT_PCD_def PT_PWT_def)

definition vga_region :: "u64 set" where
  "vga_region = region (unat HHDM_BASE + 0xA0000) (unat HHDM_BASE + 0xC0000)"

lemma identity_fault_usable:
  assumes inv: "bm_inv es (k_bm st)" and g: "pool_grows es st st'" and f: "identity_fault st st'" and l: "low_map_end st' = low_map_end st"
  shows "\<exists>f \<in> usable es (unat (pool_end (k_bm st))). unat (low_map_end st) < 4096 * f + 4096"
proof -
  have "pool_end (k_bm st') \<noteq> pool_end (k_bm st)" "unat (low_map_end st) < unat (pool_end (k_bm st'))"
    using f l by (auto simp: identity_fault_def word_less_nat_alt)
  then show ?thesis using g inv unfolding pool_grows_def by metis
qed

lemma vmm_map_hhdm_spec:
  assumes ok: "tree_ok es K (mmu (kern_pml4 ts)) st" and s: "vstate st = VMM_IDENTITY" and fit: "\<forall>e \<in> set es. e_hi e \<le> PHYS_LIMIT"
  defines "root \<equiv> mmu (kern_pml4 ts)"
  shows "case vmm_map_hhdm ts es st of
      Err e \<Rightarrow> e = page_fault \<and> (\<exists>f \<in> usable es (unat (pool_end (k_bm st))). unat (low_map_end st) < 4096 * f + 4096)
    | Ok (rc, st') \<Rightarrow> vstate st' = VMM_TRANSITION \<and> tree_ok es K root st' \<and>
        (pool_end (k_bm st') = pool_end (k_bm st) \<or> pool_end (k_bm st') \<le> low_map_end st) \<and>
        (\<forall>w. translate (pmem st') root w \<noteq> translate (pmem st) root w \<longrightarrow> translate (pmem st) root w = None \<and> w \<in> hhdm_region es \<union> vga_region) \<and>
        (rc = 0 \<longrightarrow> hhdm_mapped es root st')"
proof -
  have ok: "tree_ok es K root st" and rt: "mmu (kern_pml4 ts) = root" using ok by (simp_all add: root_def)
  have b: "boot_tree es K root st" using ok s by (simp add: boot_tree_def)
  have ts: "table_sorted es" using ok by (auto simp: tree_ok_def kinv_def map_ok_def)
  have tot: "unat (0 :: u64) + total_size es < 2 ^ 64"
    using total_size_sorted [OF ts fit, of 0] by (simp add: PHYS_LIMIT_def)
  have loop_total: "boot_tree es K root st \<Longrightarrow> \<exists>f st'. map_hhdm_entries es (kern_pml4 ts) rest failed st = Ok (f, st') \<and> boot_tree es K root st'" for rest failed st
  proof (induction rest arbitrary: failed st)
    case (Cons e rest)
    obtain f1 st1 where a: "set_range es (kern_pml4 ts) (HHDM_BASE + e_addr e) (e_addr e) (e_size e) (hhdm_flags (e_type e)) False st = Ok (f1, st1)"
      and b1: "boot_tree es K root st1" using set_range_total [OF Cons.prems rt] by blast
    then show ?case using Cons.IH [OF b1] by simp
  qed simp
  obtain f st1 where l: "map_hhdm_entries es (kern_pml4 ts) es 0 st = Ok (f, st1)" and b1: "boot_tree es K root st1" using loop_total [OF b] by blast
  have L: "extends es K root st st1 (hhdm_region es)" "f = 0 \<longrightarrow> hhdm_mapped es root st1"
    using map_hhdm_entries_spec [OF ok rt fit tot l] by auto
  obtain g st2 where v: "set_range es (kern_pml4 ts) (HHDM_BASE + 0xA0000) 0xA0000 0x20000 VGA_FLAGS False st1 = Ok (g, st2)"
    using set_range_total [OF b1 rt] by blast
  have "unat (HHDM_BASE + 0xA0000) = unat HHDM_BASE + 0xA0000" by (simp add: HHDM_BASE_def)
  then have R: "range_result es K root (HHDM_BASE + 0xA0000) 0xA0000 (unat (0x20000 :: u64)) VGA_FLAGS st1 g st2"
    using vga_flags_ok by (intro set_range_spec [OF extends_ok [OF L(1)] rt _ _ _ v]) (simp_all add: unat_HHDM flags_fit_def)
  then have V: "extends es K root st1 st2 vga_region"
    using vga_flags_ok by (simp add: range_result_def touched_def vga_region_def HHDM_BASE_def flags_ok_def)
  have E: "extends es K root st st2 (hhdm_region es \<union> vga_region)" by (rule extends_trans [OF L(1) V])
  have inv: "bm_inv es (k_bm st)" using ok s by (simp add: tree_ok_def kinv_def)
  have g: "pool_grows es st st2" by (rule pool_grows_trans [OF pg.map_hhdm_entries_R [OF l] pg.set_range_R [OF v]])
  have low: "low_map_end st2 = low_map_end st" using map_hhdm_entries_vstate [OF l] set_range_vstate [OF v] by (simp add: kept_def)
  define st' where "st' = st2\<lparr>vstate := VMM_TRANSITION\<rparr>"
  have res: "vmm_map_hhdm ts es st = (if identity_fault st st2 then Err page_fault else Ok (if f \<noteq> 0 then -1 else 0, st'))"
    using s l v by (simp add: vmm_map_hhdm_def VGA_FLAGS_def st'_def)
  show ?thesis
  proof (cases "identity_fault st st2")
    case True
    then show ?thesis using res identity_fault_usable [OF inv g True low] by simp
  next
    case False
    then have "pool_end (k_bm st') = pool_end (k_bm st) \<or> pool_end (k_bm st') \<le> low_map_end st"
      by (auto simp: st'_def identity_fault_def low)
    moreover have "tree_ok es K root st'"
      using extends_ok [OF E] E s by (simp add: tree_ok_def kinv_def kowned_def extends_def st'_def)
    moreover have "hhdm_mapped es root st'" if "f = 0"
      using hhdm_mapped_keeps [OF _ V] L(2) that by (simp add: hhdm_mapped_def maps_to_def st'_def)
    ultimately show ?thesis using E res False by (auto simp: extends_def st'_def)
  qed
qed

text \<open>
  Claim C19. Called with the low identity map active, \<^verbatim>\<open>vmm_map_hhdm\<close> comes to an end. When it returns, the tree is well formed, every
  translation is kept, the tables it created lie below the end of the identity map, and translations were added only in the
  direct-map windows of the RAM, ACPI and NVS entries and of the VGA memory; when it reports success, every address of those entries is
  mapped at its direct-map address with the flags of its type, so that the kernel can switch to direct-map pointers. Otherwise it ends in a
  page fault (a panic), and then the boot pool can reach a usable frame behind the end of the identity map. On a machine whose usable memory above
  the pool ends below the identity map it therefore returns.
\<close>

theorem vmm_map_hhdm_correct:
  assumes "tree_ok es K (mmu (kern_pml4 ts)) st" and "vstate st = VMM_IDENTITY" and "\<forall>e \<in> set es. e_hi e \<le> PHYS_LIMIT"
  shows "case vmm_map_hhdm ts es st of
      Err e \<Rightarrow> e = page_fault \<and> (\<exists>f \<in> usable es (unat (pool_end (k_bm st))). unat (low_map_end st) < 4096 * f + 4096)
    | Ok (rc, st') \<Rightarrow> vstate st' = VMM_TRANSITION \<and> tree_ok es K (mmu (kern_pml4 ts)) st' \<and>
        (pool_end (k_bm st') = pool_end (k_bm st) \<or> pool_end (k_bm st') \<le> low_map_end st) \<and>
        (\<forall>w. translate (pmem st') (mmu (kern_pml4 ts)) w \<noteq> translate (pmem st) (mmu (kern_pml4 ts)) w \<longrightarrow>
           translate (pmem st) (mmu (kern_pml4 ts)) w = None \<and> w \<in> hhdm_region es \<union> vga_region) \<and>
        (rc = 0 \<longrightarrow> hhdm_mapped es (mmu (kern_pml4 ts)) st')"
  using assms by (rule vmm_map_hhdm_spec)

theorem vmm_map_hhdm_correct_witness:
  "\<exists>rc st'. vmm_map_hhdm boot_tables boot_map empty_kmem = Ok (rc, st') \<and> vstate st' = VMM_TRANSITION"
proof -
  have t: "tree_ok boot_map {0x200} (mmu (kern_pml4 boot_tables)) empty_kmem" "vstate empty_kmem = VMM_IDENTITY"
    using boot_tree_empty by (simp_all add: boot_tree_def) (simp add: empty_kmem_def)
  have fit: "\<forall>e \<in> set boot_map. e_hi e \<le> PHYS_LIMIT" by (simp add: boot_map_def e_hi_def PHYS_LIMIT_def)
  have "\<not> (\<exists>f \<in> usable boot_map (unat (pool_end (k_bm empty_kmem))). unat (low_map_end empty_kmem) < 4096 * f + 4096)"
    using boot_pool_usable by (simp add: empty_kmem_def boot_pool_def)
  then show ?thesis using vmm_map_hhdm_correct [OF t fit] by (auto split: kres.splits)
qed

text \<open>
  Claim C20. An entry of any other type (reserved, unusable) never becomes accessible through the direct map, although its size counts
  as mapped: its flags lose the present bit, so that mapping it changes no translation at all.
\<close>

theorem reserved_not_mapped:
  assumes "tree_ok es K (mmu (kern_pml4 ts)) st" and "e_hi e \<le> PHYS_LIMIT" and "\<not> hhdm_type (e_type e)"
    and "set_range es (kern_pml4 ts) (HHDM_BASE + e_addr e) (e_addr e) (e_size e) (hhdm_flags (e_type e)) False st = Ok (f, st')"
  shows "translate (pmem st') (mmu (kern_pml4 ts)) w = translate (pmem st) (mmu (kern_pml4 ts)) w"
  using hhdm_entry(1) [OF assms(1) refl assms(2,4)] assms(3) by (auto simp: hhdm_region_def extends_def)

theorem reserved_not_mapped_witness:
  "\<exists>f st'. set_range boot_map (kern_pml4 boot_tables) (HHDM_BASE + 0xF0000) 0xF0000 0x10000 (hhdm_flags E820_TYPE_RESERVED) False empty_kmem = Ok (f, st') \<and>
     translate (pmem st') 0x200000 (HHDM_BASE + 0xF0000) = None"
proof -
  define e where "e = \<lparr>e_addr = 0xF0000, e_size = 0x10000, e_type = E820_TYPE_RESERVED\<rparr>"
  have t: "tree_ok boot_map {0x200} (mmu (kern_pml4 boot_tables)) empty_kmem" using boot_tree_empty by (simp add: boot_tree_def)
  obtain f st' where r: "set_range boot_map (kern_pml4 boot_tables) (HHDM_BASE + e_addr e) (e_addr e) (e_size e) (hhdm_flags (e_type e)) False empty_kmem = Ok (f, st')"
    using set_range_total [OF boot_tree_empty mmu_boot_root] by blast
  have h: "e_hi e \<le> PHYS_LIMIT" "\<not> hhdm_type (e_type e)"
    by (simp_all add: e_def e_hi_def PHYS_LIMIT_def hhdm_type_def E820_TYPE_RAM_def E820_TYPE_RESERVED_def E820_TYPE_NVS_def E820_TYPE_ACPI_def)
  have "translate (pmem empty_kmem) 0x200000 w = None" for w by (simp add: translate_def empty_kmem_def tbl_at_empty)
  then show ?thesis using reserved_not_mapped [OF t h r] r by (auto simp: e_def)
qed

end
