(* ===== verification/Mem_Init.thy ===== *)
theory Mem_Init
  imports Vmm_Hhdm
begin

text \<open>
  Mapped boot allocations (\<^verbatim>\<open>bootmem_alloc_mapped\<close> of \<^verbatim>\<open>arch/x86/bootmem.c\<close>), the page descriptor array
  (\<^verbatim>\<open>mem_init\<close> of \<^verbatim>\<open>mm/mem.c\<close>) and the start-up order of the memory subsystem in \<^verbatim>\<open>entry\<close> of \<^verbatim>\<open>kernel/entry.c\<close>.
  A computation that may not return has the value \<open>None\<close>.
\<close>

section \<open>Operations\<close>

fun map_segments :: "tables \<Rightarrow> e820_entry list \<Rightarrow> u64 \<Rightarrow> u64 \<Rightarrow> (u64 \<times> u64) list \<Rightarrow> u64 \<Rightarrow> u64 \<Rightarrow> kmem \<Rightarrow> (u64 \<times> u64 \<times> kmem) kres" where
  "map_segments ts es virt flags [] offset failed st = Ok (failed, offset, st)"
| "map_segments ts es virt flags ((phys, sz) # segs) offset failed st =
     rbind (vmm_map ts es KERN_PML4 (virt + offset) phys sz flags st) (\<lambda>(failed', st1).
       map_segments ts es virt flags segs (offset + sz) failed' st1)"

definition bootmem_alloc_mapped :: "tables \<Rightarrow> e820_entry list \<Rightarrow> u64 \<Rightarrow> u64 \<Rightarrow> u64 \<Rightarrow> kmem \<Rightarrow> (u64 \<times> kmem) kres option" where
  "bootmem_alloc_mapped ts es virt bytes0 flags st =
     (if bm_state (k_bm st) \<noteq> ENABLED then Some (Ok (0, st))
      else if virt = 0 then Some (Ok (0, st))
      else if bytes0 = 0 then Some (Ok (0, st))
      else
        let bytes = ROUND_UP bytes0 PAGE_SIZE
        in case vmm_virt_range_has_mapping ts st KERN_PML4 virt bytes of
             None \<Rightarrow> None
           | Some r \<Rightarrow>
               if r \<noteq> 0 then Some (Ok (0, st))
               else
                 let (segs, bm) = bootmem_alloc_segs es bytes (k_bm st);
                     st1 = st\<lparr>k_bm := bm\<rparr>
                 in if segs = [] then Some (Ok (0, st1))
                    else Some (rbind (map_segments ts es virt flags segs 0 0 st1) (\<lambda>(failed, offset, st2).
                      if failed \<noteq> 0 then Err (Panic ''Bootmem map alloc failed'')
                      else if offset \<noteq> bytes then Err (Panic ''Bootmem map alloc failed'')
                      else Ok (virt, st2))))"

definition MEM_MAP_ADDR :: u64 where
  "MEM_MAP_ADDR = 0xFFFFEA0000000000"

definition sizeof_page :: u64 where
  "sizeof_page = 24"

definition reserved_page :: page where
  "reserved_page = \<lparr>pg_state = PG_RESERVED, pg_order = 0, pg_prev = None, pg_next = None\<rparr>"

text \<open>
  The array is cleared through \<^verbatim>\<open>MEM_MAP_ADDR\<close>, that is through the tables in CR3: a page of it that is not mapped is a page fault.
\<close>

definition range_mapped :: "kmem \<Rightarrow> u64 \<Rightarrow> u64 \<Rightarrow> bool" where
  "range_mapped st virt bytes \<longleftrightarrow>
     list_all (\<lambda>i. translate (pmem st) (get_cr3 st) (virt + of_nat i * PAGE_SIZE) \<noteq> None) [0..<unat (DIV_UP bytes PAGE_SIZE)]"

definition mem_init :: "tables \<Rightarrow> e820_entry list \<Rightarrow> u64 \<Rightarrow> kmem \<Rightarrow> (int \<times> kmem) kres option" where
  "mem_init ts es last_addr st =
     (let nr = last_addr div PAGE_SIZE
      in case bootmem_alloc_mapped ts es MEM_MAP_ADDR (nr * sizeof_page) (PT_PRESENT OR PT_GLOBAL OR PT_NX OR PT_WRITABLE) st of
           None \<Rightarrow> None
         | Some r \<Rightarrow> Some (rbind r (\<lambda>(a, st1).
             if a = 0 then Err (Panic ''Memory map module failed to allocate'')
             else if \<not> range_mapped st1 MEM_MAP_ADDR (nr * sizeof_page) then Err page_fault
             else Ok (0, st1\<lparr>k_bd := (k_bd st1)\<lparr>mem_map := replicate (unat nr) reserved_page\<rparr>\<rparr>))))"

text \<open>The calls of \<^verbatim>\<open>entry\<close> from \<^verbatim>\<open>vmm_init\<close> to \<^verbatim>\<open>vmm_use_alloc_pages\<close>; it ignores their results.\<close>

definition boot_memory :: "tables \<Rightarrow> e820_entry list \<Rightarrow> u64 \<Rightarrow> kmem \<Rightarrow> (e820_entry list \<times> kmem) kres option" where
  "boot_memory ts raw kend st =
     (let st1 = vmm_init ts st
      in case rbind (e820_init raw e820_table_init) (\<lambda>(tab, last_addr).
              rbind (bootmem_init kend (vmm_get_low_map_end st1) (table_list tab) (k_bm st1)) (\<lambda>(_, bm).
              rbind (vmm_map_hhdm ts (table_list tab) (st1\<lparr>k_bm := bm\<rparr>)) (\<lambda>(_, st2).
                Ok (table_list tab, last_addr, snd (vmm_unmap_low_identity ts st2))))) of
           Err e \<Rightarrow> Some (Err e)
         | Ok (es, last_addr, st3) \<Rightarrow>
             case mem_init ts es last_addr st3 of
               None \<Rightarrow> None
             | Some r \<Rightarrow> Some (rbind r (\<lambda>(_, st4).
                 rbind (buddy_init KERNEL_PHYS es (k_bm st4) (k_bd st4)) (\<lambda>(_, bm, bd).
                   Ok (es, snd (vmm_use_alloc_pages (st4\<lparr>k_bm := bm, k_bd := bd\<rparr>)))))))"

section \<open>Mapping the segments of an allocation\<close>

lemma pt_ok_mono: "pt_ok m root R \<Longrightarrow> R \<subseteq> R' \<Longrightarrow> pt_ok m root R'"
  unfolding pt_ok_def by blast

definition last_mapped :: "kmem \<Rightarrow> u64 \<Rightarrow> u64 \<Rightarrow> u64 \<Rightarrow> (u64 \<times> u64) list \<Rightarrow> bool" where
  "last_mapped st root virt flags segs \<longleftrightarrow>
     (let start = virt + of_nat (seg_bytes (butlast segs)); (p, s) = last segs
      in \<forall>w. unat start \<le> unat w \<and> unat w < unat start + unat s \<longrightarrow> maps_to st root w (p + (w - start)) flags)"

lemma map_segments_spec:
  assumes b: "boot_tree es K (mmu (kern_pml4 ts)) st" and k: "kern_pml4 ts \<noteq> 0" "kern_pml4 ts mod 0x1000 = 0" and fl: "flags_ok flags"
    and lim: "unat virt + unat offset + seg_bytes segs + 0x200000 \<le> 2 ^ 64"
    and phys: "\<forall>(p, s) \<in> set segs. unat p + unat s \<le> PHYS_LIMIT"
  defines "root \<equiv> mmu (kern_pml4 ts)"
  shows "\<exists>f st'. map_segments ts es virt flags segs offset failed st = Ok (f, offset + of_nat (seg_bytes segs), st') \<and>
    boot_tree es K root st' \<and> extends es K root st st' UNIV \<and>
    (segs = [] \<longrightarrow> f = failed) \<and> (segs \<noteq> [] \<and> f = 0 \<longrightarrow> last_mapped st' root (virt + offset) flags segs)"
  using b lim phys
proof (induction segs arbitrary: offset failed st)
  case Nil
  then show ?case by (simp add: extends_refl boot_tree_def root_def)
next
  case (Cons x segs)
  obtain p s where x: "x = (p, s)" by force
  have p: "kern_pml4 ts = (if KERN_PML4 = KERN_PML4 then kern_pml4 ts else KERN_PML4)" by simp
  have ok: "tree_ok es K root st" using Cons.prems(1) by (simp add: boot_tree_def root_def)
  obtain f1 st1 where a: "vmm_map ts es KERN_PML4 (virt + offset) p s flags st = Ok (f1, st1)"
    and b1: "boot_tree es K (mmu (kern_pml4 ts)) st1"
    using vmm_map_total [OF Cons.prems(1) p] by blast
  have u: "unat (virt + offset) = unat virt + unat offset" "unat (offset + s) = unat offset + unat s"
    by (rule unat_add_lt, use Cons.prems(2) x in simp)+
  have R: "range_result es K root (virt + offset) p (unat s) flags st f1 st1"
    unfolding root_def
  proof (rule vmm_map_spec [OF p k ok [unfolded root_def] _ _ _ a])
    show "flags_fit flags" using fl by (simp add: flags_fit_def)
    show "unat (virt + offset) + unat s + 0x200000 \<le> 2 ^ 64" using Cons.prems(2) by (simp add: u x)
    show "unat p + unat s + 0x200000 \<le> 2 ^ 63" using Cons.prems(3) by (simp add: x PHYS_LIMIT_def)
  qed
  have E1: "extends es K root st st1 UNIV" using R by (auto simp: range_result_def intro: extends_mono)
  have IH: "\<exists>f st'. map_segments ts es virt flags segs (offset + s) f1 st1 = Ok (f, offset + s + of_nat (seg_bytes segs), st') \<and>
      boot_tree es K root st' \<and> extends es K root st1 st' UNIV \<and> (segs = [] \<longrightarrow> f = f1) \<and>
      (segs \<noteq> [] \<and> f = 0 \<longrightarrow> last_mapped st' root (virt + (offset + s)) flags segs)"
    using Cons.IH [OF b1, of "offset + s" f1] Cons.prems(2,3) by (simp add: u x root_def)
  then obtain f st' where I: "map_segments ts es virt flags segs (offset + s) f1 st1 = Ok (f, offset + s + of_nat (seg_bytes segs), st')"
      "boot_tree es K root st'" "extends es K root st1 st' UNIV" "segs = [] \<Longrightarrow> f = f1"
      "segs \<noteq> [] \<and> f = 0 \<Longrightarrow> last_mapped st' root (virt + (offset + s)) flags segs" by blast
  have "last_mapped st' root (virt + offset) flags (x # segs)" if f: "f = 0"
  proof (cases "segs = []")
    case True
    have "maps_to st1 root w (p + (w - (virt + offset))) flags"
      if "unat (virt + offset) \<le> unat w" "unat w < unat (virt + offset) + unat s" for w
      using R I(4) True f fl that by (auto simp: range_result_def flags_ok_def)
    then show ?thesis using True maps_to_keeps [OF I(3)] by (auto simp: last_mapped_def x)
  next
    case False
    then show ?thesis using I(5) f by (simp add: last_mapped_def x add.assoc)
  qed
  moreover have "extends es K root st st' UNIV" using extends_trans [OF E1 I(3)] by simp
  ultimately show ?case using a I(1,2) by (simp add: x add.assoc)
qed

section \<open>Mapped allocations\<close>

lemma boot_bm_inv: "boot_tree es K root st \<Longrightarrow> bm_inv es (k_bm st) \<and> (\<forall>f \<in> K. 4096 * f < unat (pool_start (k_bm st)))"
  by (auto simp: boot_tree_def tree_ok_def kinv_def split: vmm_state.splits)

lemma boot_tree_bm:
  assumes b: "boot_tree es K root st" and bm: "bm_inv es bm" "pool_start bm = pool_start (k_bm st)" "bm_owned es (k_bm st) \<subseteq> bm_owned es bm"
  shows "boot_tree es K root (st\<lparr>k_bm := bm\<rparr>)"
proof -
  have s: "vstate st \<noteq> VMM_READY" "kinv es K st" "pt_ok (pmem st) root (kowned es K st)" using b by (auto simp: boot_tree_def tree_ok_def)
  have "kinv es K (st\<lparr>k_bm := bm\<rparr>)" using s(1,2) bm(1,2) by (auto simp: kinv_def split: vmm_state.splits)
  moreover have "pt_ok (pmem st) root (kowned es K (st\<lparr>k_bm := bm\<rparr>))" using bm(3) s(1) by (intro pt_ok_mono [OF s(3)]) (auto simp: kowned_def)
  ultimately show ?thesis using s(1) by (simp add: boot_tree_def tree_ok_def)
qed

lemma segs_phys: "map_ok es \<Longrightarrow> segs_ok es lo segs \<Longrightarrow> \<forall>(p, s) \<in> set segs. unat p + unat s \<le> PHYS_LIMIT"
  unfolding segs_ok_def map_ok_def by fastforce

lemma alloc_mapped_spec:
  assumes b: "boot_tree es K (mmu (kern_pml4 ts)) st" and k: "kern_pml4 ts \<noteq> 0" "kern_pml4 ts mod 0x1000 = 0" and fl: "flags_ok flags"
    and virt: "page_aligned virt" "virt \<noteq> 0" and n: "0 < bytes" "unat bytes \<le> 2 ^ 61"
    and lim: "unat virt + unat bytes + 4096 + 2 ^ 39 < 2 ^ 64"
  defines "root \<equiv> mmu (kern_pml4 ts)"
  shows "\<exists>r. bootmem_alloc_mapped ts es virt bytes flags st = Some r \<and>
    (case r of Err e \<Rightarrow> e = Panic ''Bootmem map alloc failed''
     | Ok (a, st') \<Rightarrow> boot_tree es K root st' \<and> extends es K root st st' UNIV \<and>
         (a = 0 \<and> st' = st \<or> a = virt \<and>
            last_mapped st' root virt flags (fst (bootmem_alloc_segs es (ROUND_UP bytes PAGE_SIZE) (k_bm st)))))"
proof -
  have ok: "tree_ok es K (mmu (kern_pml4 ts)) st" using b by (simp add: boot_tree_def)
  have bi: "bm_inv es (k_bm st)" using boot_bm_inv [OF b] by blast
  define B where "B = ROUND_UP bytes PAGE_SIZE"
  have uB: "unat B = (unat bytes + 4095) div 4096 * 4096" unfolding B_def using n(2) by (subst unat_ROUND_UP) simp_all
  have pos: "0 < unat bytes" using n(1) by (simp add: word_less_nat_alt)
  have B: "4096 dvd unat B" "unat B < unat bytes + 4096" "unat bytes \<le> unat B"
    using up_props [of 4096 "unat bytes"] by (simp_all add: uB)
  have nz: "B \<noteq> 0" "unat B \<le> 2 ^ 62" using B pos n(2) by (auto simp: word_unat_eq_iff)
  have sb: "unat virt + unat B + 2 ^ 39 < 2 ^ 64" using B(2) lim by linarith
  have p: "kern_pml4 ts = (if KERN_PML4 = KERN_PML4 then kern_pml4 ts else KERN_PML4)" by simp
  obtain r where h: "vmm_virt_range_has_mapping ts st KERN_PML4 virt B = Some r"
    using scan_range_exact [OF ok refl _ virt(1), of "virt + B"] sb k
    by (auto simp: vmm_virt_range_has_mapping_def unat_add_lt)
  have en: "bm_state (k_bm st) = ENABLED" using bi by (simp add: bm_inv_def)
  have same: "extends es K root st st UNIV" using ok by (simp add: extends_refl root_def)
  obtain segs bm where g: "bootmem_alloc_segs es B (k_bm st) = (segs, bm)" by force
  note S = bootmem_alloc_segs_spec [OF bi B(1) nz(2,1) g]
  have nb: "bytes \<noteq> 0" using n(1) by auto
  note unf = bootmem_alloc_mapped_def en virt(2) nb B_def [symmetric] Let_def h g
  consider "r \<noteq> 0" | "r = 0" "4096 * card (usable es (unat (pool_end (k_bm st)))) < unat B"
    | "r = 0" "unat B \<le> 4096 * card (usable es (unat (pool_end (k_bm st))))" by linarith
  then show ?thesis
  proof cases
    case 1
    then show ?thesis using n(1) b same by (simp add: unf root_def)
  next
    case 2
    have "st\<lparr>k_bm := k_bm st\<rparr> = st" by (cases st) simp
    then show ?thesis using 2 n(1) b same S(3) by (simp add: unf root_def)
  next
    case 3
    note R = S(2) [OF 3(2), unfolded seg_result_def]
    have b1: "boot_tree es K (mmu (kern_pml4 ts)) (st\<lparr>k_bm := bm\<rparr>)"
      using bootmem_segs_owned [OF bi B(1) nz(2,1) g 3(2)] R S(1) by (intro boot_tree_bm [OF b]) auto
    have ph: "\<forall>(p, s) \<in> set segs. unat p + unat s \<le> PHYS_LIMIT" using R bi by (intro segs_phys) (auto simp: bm_inv_def)
    have bytes: "seg_bytes segs = unat B" "segs \<noteq> []" using R by auto
    have "unat virt + unat (0 :: u64) + seg_bytes segs + 0x200000 \<le> 2 ^ 64" using sb bytes by simp
    from map_segments_spec [OF b1 k fl this ph, of 0] obtain f st' where
      m: "map_segments ts es virt flags segs 0 0 (st\<lparr>k_bm := bm\<rparr>) = Ok (f, B, st')" "boot_tree es K root st'"
        "extends es K root (st\<lparr>k_bm := bm\<rparr>) st' UNIV" "f = 0 \<Longrightarrow> last_mapped st' root virt flags segs"
      by (auto simp: bytes root_def)
    have "extends es K root st st' UNIV" using m(3) by (simp add: extends_def)
    then show ?thesis using 3(1) n(1) m bytes(2) by (simp add: unf)
  qed
qed

text \<open>
  While the boot allocator is active, \<^verbatim>\<open>bootmem_alloc_mapped\<close> always returns. It either changes nothing and returns NULL, or panics because
  the last segment could not be mapped, or returns the requested virtual address with every previous translation intact, the tree well
  formed and the last of the allocated segments mapped at its place with the requested flags; for an allocation of one segment that is the whole range.
\<close>

theorem bootmem_alloc_mapped_correct:
  assumes b: "tree_ok es K (mmu (kern_pml4 ts)) st" "vstate st \<noteq> VMM_READY" and k: "kern_pml4 ts \<noteq> 0" "kern_pml4 ts mod 0x1000 = 0"
    and fl: "flags_ok flags" and virt: "page_aligned virt" "virt \<noteq> 0" and n: "0 < bytes" "unat bytes \<le> 2 ^ 61"
    and lim: "unat virt + unat bytes + 4096 + 2 ^ 39 < 2 ^ 64"
  shows "\<exists>r. bootmem_alloc_mapped ts es virt bytes flags st = Some r \<and>
    (case r of Err e \<Rightarrow> e = Panic ''Bootmem map alloc failed''
     | Ok (a, st') \<Rightarrow> tree_ok es K (mmu (kern_pml4 ts)) st' \<and>
         (\<forall>w x. translate (pmem st) (mmu (kern_pml4 ts)) w = Some x \<longrightarrow> translate (pmem st') (mmu (kern_pml4 ts)) w = Some x) \<and>
         (a = 0 \<and> st' = st \<or> a = virt \<and>
            last_mapped st' (mmu (kern_pml4 ts)) virt flags (fst (bootmem_alloc_segs es (ROUND_UP bytes PAGE_SIZE) (k_bm st)))))"
proof -
  have bt: "boot_tree es K (mmu (kern_pml4 ts)) st" using b by (simp add: boot_tree_def)
  then obtain r where r: "bootmem_alloc_mapped ts es virt bytes flags st = Some r"
    "case r of Err e \<Rightarrow> e = Panic ''Bootmem map alloc failed''
     | Ok (a, st') \<Rightarrow> boot_tree es K (mmu (kern_pml4 ts)) st' \<and> extends es K (mmu (kern_pml4 ts)) st st' UNIV \<and>
         (a = 0 \<and> st' = st \<or> a = virt \<and>
            last_mapped st' (mmu (kern_pml4 ts)) virt flags (fst (bootmem_alloc_segs es (ROUND_UP bytes PAGE_SIZE) (k_bm st))))"
    using alloc_mapped_spec [OF _ k fl virt n lim] by blast
  then show ?thesis using extends_keeps extends_ok by (cases r) (fastforce split: prod.splits)+
qed

theorem bootmem_alloc_mapped_correct_witness:
  "\<exists>r. bootmem_alloc_mapped boot_tables boot_map MEM_MAP_ADDR 0x3000 (PT_PRESENT OR PT_WRITABLE) empty_kmem = Some r \<and>
     (\<forall>a st'. r = Ok (a, st') \<longrightarrow> a = 0 \<or> a = MEM_MAP_ADDR)"
proof -
  have fl: "flags_ok (PT_PRESENT OR PT_WRITABLE)" by (simp add: flags_ok_def PT_PRESENT_def PT_WRITABLE_def FLAGS_MASK_def PT_PSE_def)
  have t: "tree_ok boot_map {0x200} (mmu (kern_pml4 boot_tables)) empty_kmem" "vstate empty_kmem \<noteq> VMM_READY"
    using boot_tree_empty by (simp_all add: boot_tree_def)
  have k: "kern_pml4 boot_tables \<noteq> 0" "kern_pml4 boot_tables mod 0x1000 = 0" by (simp_all add: boot_tables_def)
  have v: "page_aligned MEM_MAP_ADDR" "MEM_MAP_ADDR \<noteq> 0" by (simp_all add: MEM_MAP_ADDR_def page_aligned_def)
  have "unat MEM_MAP_ADDR + unat (0x3000 :: u64) + 4096 + 2 ^ 39 < 2 ^ 64" by (simp add: MEM_MAP_ADDR_def)
  from bootmem_alloc_mapped_correct [OF t k fl v _ _ this] show ?thesis by (fastforce split: kres.splits)
qed

section \<open>The start-up of the memory subsystem\<close>

lemma mem_flags_ok: "flags_ok (PT_PRESENT OR PT_GLOBAL OR PT_NX OR PT_WRITABLE)"
  by (simp add: flags_ok_def PT_PRESENT_def PT_WRITABLE_def PT_GLOBAL_def PT_NX_def FLAGS_MASK_def PT_PSE_def)

lemma map_segments_kept: "map_segments ts es virt flags segs offset failed st = Ok (f, off', st') \<Longrightarrow> kept st st'"
proof (induction segs arbitrary: offset failed st)
  case (Cons x segs)
  then obtain p s f1 st1 where x: "vmm_map ts es KERN_PML4 (virt + offset) p s flags st = Ok (f1, st1)"
    "map_segments ts es virt flags segs (offset + s) f1 st1 = Ok (f, off', st')" by (cases x) auto
  show ?case using kp.trans [OF vmm_map_vstate [OF x(1)] Cons.IH [OF x(2)]] .
qed (simp add: kp.refl)

lemma alloc_mapped_kept:
  assumes "bootmem_alloc_mapped ts es virt bytes flags st = Some (Ok (a, st'))"
  shows "kept st st'"
proof -
  have keep: "kept st (st\<lparr>k_bm := bm\<rparr>)" "kept st st" for bm st by (simp_all add: kept_def)
  show ?thesis
    using assms unfolding bootmem_alloc_mapped_def Let_def
    by (auto dest!: map_segments_kept intro: kp.trans [OF keep(1)] keep split: if_splits option.splits prod.splits)
qed

lemma mem_init_spec:
  assumes b: "boot_tree es K (mmu (kern_pml4 ts)) st" and k: "kern_pml4 ts \<noteq> 0" "kern_pml4 ts mod 0x1000 = 0"
    and last: "unat last_addr \<le> PHYS_LIMIT" and fm: "free_matrix (k_bd st) = replicate (Suc PAGE_MAX_ORDER) None"
  defines "root \<equiv> mmu (kern_pml4 ts)"
  shows "\<exists>r. mem_init ts es last_addr st = Some r \<and>
    (case r of Err e \<Rightarrow> \<exists>m. e = Panic m
     | Ok (rc, st') \<Rightarrow> boot_tree es K root st' \<and> extends es K root st st' UNIV \<and> mem_nr_pages (k_bd st') = unat last_addr div 4096 \<and>
         all_reserved (k_bd st') \<and> vstate st' = vstate st)"
proof -
  define nr where "nr = last_addr div PAGE_SIZE"
  let ?fl = "PT_PRESENT OR PT_GLOBAL OR PT_NX OR PT_WRITABLE"
  have unr: "unat nr = unat last_addr div 4096" by (simp add: nr_def unat_div_eq)
  have "unat nr \<le> 2 ^ 34" unfolding unr using div_le_mono [OF last, of 4096] by (simp add: PHYS_LIMIT_def)
  then have ub2: "unat nr * 24 \<le> 2 ^ 39" by simp
  have ub1: "unat (nr * sizeof_page) = unat nr * 24" using ub2 by (subst unat_mult_lt) (simp_all add: sizeof_page_def)
  note ub = ub1 ub2
  have "\<exists>r. bootmem_alloc_mapped ts es MEM_MAP_ADDR (nr * sizeof_page) ?fl st = Some r \<and>
    (case r of Err e \<Rightarrow> \<exists>m. e = Panic m | Ok (a, st') \<Rightarrow> a = 0 \<or> boot_tree es K root st' \<and> extends es K root st st' UNIV)"
  proof (cases "nr * sizeof_page = 0")
    case True
    have "bm_state (k_bm st) = ENABLED" using boot_bm_inv [OF b] by (simp add: bm_inv_def)
    then show ?thesis using True by (simp add: bootmem_alloc_mapped_def MEM_MAP_ADDR_def)
  next
    case False
    have v: "page_aligned MEM_MAP_ADDR" "MEM_MAP_ADDR \<noteq> 0" by (simp_all add: MEM_MAP_ADDR_def page_aligned_def)
    have n: "0 < nr * sizeof_page" "unat (nr * sizeof_page) \<le> 2 ^ 61" using False ub by (simp_all add: word_neq_0_conv [symmetric])
    have lim: "unat MEM_MAP_ADDR + unat (nr * sizeof_page) + 4096 + 2 ^ 39 < 2 ^ 64" using ub by (simp add: MEM_MAP_ADDR_def)
    obtain r where r: "bootmem_alloc_mapped ts es MEM_MAP_ADDR (nr * sizeof_page) ?fl st = Some r"
      "case r of Err e \<Rightarrow> e = Panic ''Bootmem map alloc failed'' | Ok (a, st') \<Rightarrow> boot_tree es K root st' \<and> extends es K root st st' UNIV \<and>
         (a = 0 \<and> st' = st \<or> a = MEM_MAP_ADDR \<and>
            last_mapped st' root MEM_MAP_ADDR ?fl (fst (bootmem_alloc_segs es (ROUND_UP (nr * sizeof_page) PAGE_SIZE) (k_bm st))))"
      using alloc_mapped_spec [OF b k mem_flags_ok v n lim, folded root_def] by blast
    then show ?thesis by (cases r) auto
  qed
  then obtain r where r: "bootmem_alloc_mapped ts es MEM_MAP_ADDR (nr * sizeof_page) ?fl st = Some r"
    "case r of Err e \<Rightarrow> \<exists>m. e = Panic m | Ok (a, st') \<Rightarrow> a = 0 \<or> boot_tree es K root st' \<and> extends es K root st st' UNIV" by blast
  show ?thesis
  proof (cases "\<exists>a st'. r = Ok (a, st') \<and> a \<noteq> 0 \<and> range_mapped st' MEM_MAP_ADDR (nr * sizeof_page)")
    case False
    then show ?thesis using r by (cases r) (auto simp: mem_init_def nr_def [symmetric])
  next
    case True
    then obtain a st1 where a: "r = Ok (a, st1)" "a \<noteq> 0" "range_mapped st1 MEM_MAP_ADDR (nr * sizeof_page)" by blast
    then have T: "boot_tree es K root st1" "extends es K root st st1 UNIV" "kept st st1" using r alloc_mapped_kept by auto
    have s: "vstate st \<noteq> VMM_READY" "vstate st1 = vstate st" "k_bd st1 = k_bd st" using b T(3) by (auto simp: boot_tree_def kept_def)
    define st' where "st' = st1\<lparr>k_bd := (k_bd st1)\<lparr>mem_map := replicate (unat nr) reserved_page\<rparr>\<rparr>"
    have "mem_init ts es last_addr st = Some (Ok (0, st'))" using r(1) a by (simp add: mem_init_def nr_def [symmetric] st'_def)
    moreover have "boot_tree es K root st'"
      using T(1) s(1,2) by (simp add: st'_def boot_tree_def tree_ok_def kinv_def kowned_def split: vmm_state.splits)
    moreover have "extends es K root st st' UNIV" using T(2) \<open>boot_tree es K root st'\<close> by (simp add: st'_def extends_def boot_tree_def)
    moreover have "all_reserved (k_bd st')" using fm s(3) by (simp add: st'_def all_reserved_def reserved_page_def)
    ultimately show ?thesis using s(2) by (simp add: st'_def unr)
  qed
qed

text \<open>From the last step of the boot allocator to the running kernel.\<close>

lemma ready_spec:
  assumes b: "boot_tree es K root st" and s: "vstate st = VMM_VIRTUAL_ONLY" and K: "\<forall>f \<in> K. unat KERNEL_PHYS \<le> 4096 * f" "K \<noteq> {}"
    and r: "all_reserved (k_bd st)" "4096 * mem_nr_pages (k_bd st) \<le> PHYS_LIMIT"
  shows "\<exists>bm bd. buddy_init KERNEL_PHYS es (k_bm st) (k_bd st) = Ok (0, bm, bd) \<and> bm_state bm = LOCKED \<and> alloc_blocks bd = {} \<and>
    free_frames bd = {f \<in> usable es 0. f < mem_nr_pages (k_bd st) \<and> \<not> (unat KERNEL_PHYS div 4096 \<le> f \<and> 4096 * f < unat (pool_end bm))} \<and>
    mem_nr_pages bd = mem_nr_pages (k_bd st) \<and> tree_ok es K root (st\<lparr>k_bm := bm, k_bd := bd, vstate := VMM_READY\<rparr>) \<and>
    (\<forall>(x, k) \<in> free_blocks bd. maximal (free_frames bd) x k)"
proof -
  have bi: "bm_inv es (k_bm st)" "\<forall>f \<in> K. 4096 * f < unat (pool_start (k_bm st))" using boot_bm_inv [OF b] by auto
  have kinv: "kinv es K st" and pt: "pt_ok (pmem st) root (kowned es K st)" using b by (auto simp: boot_tree_def tree_ok_def)
  have ps: "pool_start (k_bm st) \<le> pool_end (k_bm st)" using bi(1) by (simp add: bm_inv_def)
  obtain f where "f \<in> K" using K(2) by blast
  then have ks: "unat KERNEL_PHYS \<le> unat (pool_start (k_bm st))" using K(1) bi(2) by force
  then have kp: "KERNEL_PHYS \<le> pool_end (k_bm st)" using ps by (simp add: word_le_nat_alt)
  have lim: "4096 * mem_nr_pages (k_bd st) < 2 ^ 64" using r(2) by (simp add: PHYS_LIMIT_def)
  obtain bd where B: "buddy_init KERNEL_PHYS es (k_bm st) (k_bd st) = Ok (0, bootmem_lock (k_bm st), bd)" "buddy_inv bd" "alloc_blocks bd = {}"
    "free_frames bd = {f \<in> usable es 0. f < mem_nr_pages (k_bd st) \<and> \<not> (unat KERNEL_PHYS div 4096 \<le> f \<and> 4096 * f < unat (pool_end (k_bm st)))}"
    "mem_nr_pages bd = mem_nr_pages (k_bd st)" "\<forall>(x, k) \<in> free_blocks bd. maximal (free_frames bd) x k"
    using buddy_init_spec [OF bi(1) kp r(1) lim] by blast
  let ?bm = "bootmem_lock (k_bm st)"
  have bm: "bm_owned es ?bm = bm_owned es (k_bm st)" "pool_start ?bm = pool_start (k_bm st)" "pool_end ?bm = pool_end (k_bm st)" "bm_state ?bm = LOCKED"
    by (simp_all add: bootmem_lock_def bm_owned_def)
  have ps': "unat (pool_start (k_bm st)) \<le> unat (pool_end (k_bm st))" using ps by (simp add: word_le_nat_alt)
  have low: "unat KERNEL_PHYS div 4096 \<le> f \<and> 4096 * f < unat (pool_end (k_bm st))" if "f \<in> K \<union> bm_owned es (k_bm st)" for f
  proof -
    have "unat KERNEL_PHYS \<le> f * 4096" "4096 * f < unat (pool_end (k_bm st))"
      using that K(1) bi(2) ks ps' by (auto simp: bm_owned_def usable_def mult.commute)
    then show ?thesis using div_le_mono [of "unat KERNEL_PHYS" "f * 4096" 4096] by simp
  qed
  have disj: "free_frames bd \<inter> (K \<union> bm_owned es ?bm) = {}" unfolding B(4) bm(1) using low by auto
  have "kinv es K (st\<lparr>k_bm := ?bm, k_bd := bd, vstate := VMM_READY\<rparr>)"
    using kinv B(2,5) r(2) disj bm(2) s by (simp add: kinv_def)
  moreover have "kowned es K (st\<lparr>k_bm := ?bm, k_bd := bd, vstate := VMM_READY\<rparr>) = kowned es K st"
    using B(3) s by (simp add: kowned_def bm(1) allocated_frames_def)
  ultimately have "tree_ok es K root (st\<lparr>k_bm := ?bm, k_bd := bd, vstate := VMM_READY\<rparr>)" using pt by (simp add: tree_ok_def)
  then show ?thesis using B(1,3,4,5,6) bm(3,4) by auto
qed

lemma sanitized_map:
  assumes "table_sorted es" and "\<forall>a. types_at es a = {type_spec raw a} - {0}" and "\<forall>e \<in> set raw. e_hi e \<le> PHYS_LIMIT"
  shows "\<forall>e \<in> set es. e_hi e \<le> PHYS_LIMIT" and "type_spec raw a \<noteq> 0 \<Longrightarrow> a < PHYS_LIMIT"
proof -
  have cov: "a < PHYS_LIMIT" if nz: "type_spec raw a \<noteq> 0" for a
  proof (rule ccontr)
    assume "\<not> a < PHYS_LIMIT"
    then have "{e \<in> set raw. covers e a} = {}" using assms(3) by (auto simp: covers_def)
    then have "type_spec raw a = 0" by (simp only: type_spec_def) simp
    then show False using nz by contradiction
  qed
  then show "type_spec raw a \<noteq> 0 \<Longrightarrow> a < PHYS_LIMIT" .
  show "\<forall>e \<in> set es. e_hi e \<le> PHYS_LIMIT"
  proof
    fix e assume e: "e \<in> set es"
    have lt: "e_lo e < e_hi e" using assms(1) e by (auto simp: table_sorted_def e_lo_def e_hi_def unat_gt_0)
    then have "e_type e \<in> types_at es (e_hi e - 1)" using e by (auto simp: types_at_def covers_def)
    then have "type_spec raw (e_hi e - 1) \<noteq> 0" using assms(2) by auto
    then show "e_hi e \<le> PHYS_LIMIT" using cov lt by fastforce
  qed
qed

lemma identity_tree:
  assumes s: "static_tables ts K" and z: "static_zero ts (pmem st)" and es: "map_ok es" and bm: "bm_inv es bm" "kend \<le> pool_start bm"
    and K: "\<forall>f \<in> K. unat KERNEL_PHYS \<le> 4096 * f \<and> 4096 * f < unat kend" and ke: "unat kend \<le> PHYS_LIMIT"
  shows "tree_ok es K (mmu (kern_pml4 ts)) ((vmm_init ts st)\<lparr>k_bm := bm\<rparr>)"
proof -
  let ?st = "(vmm_init ts st)\<lparr>k_bm := bm\<rparr>"
  have "pt_ok (pmem ?st) (mmu (kern_pml4 ts)) (kowned es K ?st)"
    by (rule pt_ok_mono) (use vmm_init_pt_ok [OF s z] in \<open>auto simp: kowned_def\<close>)
  moreover have "0 < f \<and> 4096 * f + 4096 \<le> PHYS_LIMIT \<and> 4096 * f < unat (pool_start bm)" if f: "f \<in> K" for f
  proof -
    have k: "0 < unat KERNEL_PHYS" by (simp add: KERNEL_PHYS_def)
    have "0 < f" using bspec [OF K f] k by (cases "f = 0") auto
    moreover have "4096 * f < 4096 * (2 ^ 34)" using K f ke by (auto simp: PHYS_LIMIT_def)
    moreover have "unat kend \<le> unat (pool_start bm)" using bm(2) by (simp add: word_le_nat_alt)
    ultimately show ?thesis using bspec [OF K f] by (auto simp: PHYS_LIMIT_def)
  qed
  ultimately show ?thesis using es bm(1) by (simp add: tree_ok_def kinv_def vmm_init_state) (simp add: bm_inv_def)
qed

text \<open>
  The memory after a start-up from the firmware map \<open>raw\<close>, with the table \<open>es\<close> it works on, the number of page descriptors and the shape of the free blocks.
\<close>

definition memory_started :: "tables \<Rightarrow> nat set \<Rightarrow> e820_entry list \<Rightarrow> e820_entry list \<Rightarrow> kmem \<Rightarrow> bool" where
  "memory_started ts K raw es st' \<longleftrightarrow> (\<forall>a. types_at es a = {type_spec raw a} - {0}) \<and> bounds es \<subseteq> bounds raw \<and>
     (\<forall>a. type_spec raw a = E820_TYPE_RAM \<longrightarrow> Suc a div 4096 \<le> mem_nr_pages (k_bd st')) \<and>
     (\<forall>(x, k) \<in> free_blocks (k_bd st'). maximal (free_frames (k_bd st')) x k) \<and> vstate st' = VMM_READY \<and> tree_ok es K (mmu (kern_pml4 ts)) st' \<and> bm_state (k_bm st') = LOCKED \<and> alloc_blocks (k_bd st') = {} \<and>
     free_frames (k_bd st') = {f \<in> usable es 0. f < mem_nr_pages (k_bd st') \<and> \<not> (unat KERNEL_PHYS div 4096 \<le> f \<and> 4096 * f < unat (pool_end (k_bm st')))} \<and>
     (\<forall>w. unat kernel_vma_start \<le> unat w \<and> unat w < unat kernel_vma_start + 0x200000 \<longrightarrow>
        map_option fst (translate (pmem st') (mmu (kern_pml4 ts)) w) = Some (w - kernel_vma_start + KERNEL_PHYS))"

text \<open>The part after the direct map: removing the identity map, the page array, the buddy allocator.\<close>

definition memory_rest :: "tables \<Rightarrow> e820_entry list \<Rightarrow> u64 \<Rightarrow> kmem \<Rightarrow> (e820_entry list \<times> kmem) kres option" where
  "memory_rest ts es last_addr st2 =
     (case mem_init ts es last_addr (snd (vmm_unmap_low_identity ts st2)) of
        None \<Rightarrow> None
      | Some r \<Rightarrow> Some (rbind r (\<lambda>(_, st4).
          rbind (buddy_init KERNEL_PHYS es (k_bm st4) (k_bd st4)) (\<lambda>(_, bm, bd).
            Ok (es, snd (vmm_use_alloc_pages (st4\<lparr>k_bm := bm, k_bd := bd\<rparr>)))))))"

lemma memory_rest_spec:
  assumes t: "tree_ok es K (mmu (kern_pml4 ts)) st2" and v: "vstate st2 = VMM_TRANSITION"
    and k: "kern_pml4 ts \<noteq> 0" "kern_pml4 ts mod 0x1000 = 0" and last: "unat last_addr \<le> PHYS_LIMIT"
    and fm: "free_matrix (k_bd st2) = replicate (Suc PAGE_MAX_ORDER) None"
    and K: "\<forall>f \<in> K. unat KERNEL_PHYS \<le> 4096 * f" "K \<noteq> {}"
  defines "root \<equiv> mmu (kern_pml4 ts)"
  shows "\<exists>r. memory_rest ts es last_addr st2 = Some r \<and>
    (case r of Err e \<Rightarrow> \<exists>m. e = Panic m
     | Ok (es', st') \<Rightarrow> es' = es \<and> mem_nr_pages (k_bd st') = unat last_addr div 4096 \<and>
         (\<forall>(x, k) \<in> free_blocks (k_bd st'). maximal (free_frames (k_bd st')) x k) \<and> vstate st' = VMM_READY \<and> tree_ok es K root st' \<and>
         bm_state (k_bm st') = LOCKED \<and> alloc_blocks (k_bd st') = {} \<and>
         free_frames (k_bd st') = {f \<in> usable es 0. f < mem_nr_pages (k_bd st') \<and> \<not> (unat KERNEL_PHYS div 4096 \<le> f \<and> 4096 * f < unat (pool_end (k_bm st')))} \<and>
         (\<forall>w x. pt_index 39 w \<noteq> 0 \<longrightarrow> translate (pmem st2) root w = Some x \<longrightarrow> translate (pmem st') root w = Some x))"
proof -
  obtain rc2 st3 where u: "vmm_unmap_low_identity ts st2 = (rc2, st3)" by force
  note U = unmap_low_spec [OF t u v]
  have b3: "boot_tree es K root st3" using U(2,3) by (simp add: boot_tree_def root_def)
  have fm3: "free_matrix (k_bd st3) = replicate (Suc PAGE_MAX_ORDER) None"
    using u fm by (auto simp: vmm_unmap_low_identity_def set_cr3_def tstore_def split: if_splits)
  obtain r where r: "mem_init ts es last_addr st3 = Some r"
    "case r of Err e \<Rightarrow> \<exists>m. e = Panic m | Ok (rc, st') \<Rightarrow> boot_tree es K root st' \<and> extends es K root st3 st' UNIV \<and>
       mem_nr_pages (k_bd st') = unat last_addr div 4096 \<and> all_reserved (k_bd st') \<and> vstate st' = vstate st3"
    using mem_init_spec [OF b3 [unfolded root_def] k last fm3] unfolding root_def by blast
  show ?thesis
  proof (cases r)
    case (Err x)
    then show ?thesis using r u by (simp add: memory_rest_def)
  next
    case (Ok p)
    then obtain rc' st4 where m: "r = Ok (rc', st4)" "boot_tree es K root st4" "extends es K root st3 st4 UNIV"
      "mem_nr_pages (k_bd st4) = unat last_addr div 4096" "all_reserved (k_bd st4)" "vstate st4 = VMM_VIRTUAL_ONLY"
      using r(2) U(2) by (cases p) auto
    have lim: "4096 * mem_nr_pages (k_bd st4) \<le> PHYS_LIMIT" using last unfolding m(4) by (metis le_trans times_div_less_eq_dividend)
    obtain bm' bd where R: "buddy_init KERNEL_PHYS es (k_bm st4) (k_bd st4) = Ok (0, bm', bd)" "bm_state bm' = LOCKED" "alloc_blocks bd = {}"
      "free_frames bd = {f \<in> usable es 0. f < mem_nr_pages (k_bd st4) \<and> \<not> (unat KERNEL_PHYS div 4096 \<le> f \<and> 4096 * f < unat (pool_end bm'))}"
      "mem_nr_pages bd = mem_nr_pages (k_bd st4)" "tree_ok es K root (st4\<lparr>k_bm := bm', k_bd := bd, vstate := VMM_READY\<rparr>)"
      "\<forall>(x, k) \<in> free_blocks bd. maximal (free_frames bd) x k"
      using ready_spec [OF m(2,6) K m(5) lim] by blast
    have res: "memory_rest ts es last_addr st2 = Some (Ok (es, st4\<lparr>k_bm := bm', k_bd := bd, vstate := VMM_READY\<rparr>))"
      using R(1) m(6) r(1) u by (simp add: memory_rest_def m(1) vmm_use_alloc_pages_def less_vmm_state_def)
    have "translate (pmem st4) root w = Some x" if "pt_index 39 w \<noteq> 0" "translate (pmem st2) root w = Some x" for w x
      using extends_keeps [OF m(3)] U(4) that by (simp add: root_def)
    then show ?thesis using res R(2-7) m(4) by simp
  qed
qed

lemma static_root:
  assumes s: "static_tables ts K"
  shows "kern_pml4 ts \<noteq> 0" and "kern_pml4 ts mod 0x1000 = 0"
proof -
  have tk: "kern_pml4 ts \<in> set (static_list ts)" by (simp add: static_list_def)
  have kp: "kernel_vma_start \<le> kern_pml4 ts" "page_aligned (kern_pml4 ts)" using s tk by (auto simp: static_tables_def)
  show "kern_pml4 ts \<noteq> 0" using kp(1) by (auto simp: kernel_vma_start_def)
  have "unat (kern_pml4 ts mod 0x1000) = 0" using kp(2) by (simp add: unat_mod page_aligned_def)
  then show "kern_pml4 ts mod 0x1000 = 0" by (simp only: unat_eq_zero)
qed

text \<open>The kernel window of \<^verbatim>\<open>vmm_init\<close> lies outside the slot of the identity map and survives additions to the tree.\<close>

lemma kernel_window_kept:
  assumes s: "static_tables ts K" and z: "static_zero ts (pmem st)" and st1: "pmem st1 = pmem (vmm_init ts st)"
    and w: "unat kernel_vma_start \<le> unat w" "unat w < unat kernel_vma_start + 0x200000"
    and keep: "\<And>w. translate (pmem st2) (mmu (kern_pml4 ts)) w \<noteq> translate (pmem st1) (mmu (kern_pml4 ts)) w \<Longrightarrow>
      translate (pmem st1) (mmu (kern_pml4 ts)) w = None"
  shows "map_option fst (translate (pmem st2) (mmu (kern_pml4 ts)) w) = Some (w - kernel_vma_start + KERNEL_PHYS) \<and> pt_index 39 w \<noteq> 0"
proof -
  have c: "canonical w" "\<not> unat w < 2 ^ 30" using w by (simp_all add: canonical_def kernel_vma_start_def)
  have "map_option fst (translate (pmem st1) (mmu (kern_pml4 ts)) w) = Some (w - kernel_vma_start + KERNEL_PHYS)"
    using vmm_init_windows [OF s z c(1)] c(2) w by (simp add: st1)
  then obtain x where x: "translate (pmem st1) (mmu (kern_pml4 ts)) w = Some x" "fst x = w - kernel_vma_start + KERNEL_PHYS" by auto
  have "translate (pmem st2) (mmu (kern_pml4 ts)) w = Some x" using keep [of w] x(1) by auto
  then show ?thesis using x(2) kernel_window [OF c(1)] w by auto
qed

lemma boot_memory_spec:
  assumes s: "static_tables ts K" and z: "static_zero ts (pmem st)"
    and K: "\<forall>f \<in> K. unat KERNEL_PHYS \<le> 4096 * f \<and> 4096 * f < unat kend" and ke: "unat kend \<le> PHYS_LIMIT"
    and raw: "2 \<le> length raw" "length raw \<le> 128" "no_wrap raw" "type_spec raw b = E820_TYPE_RAM" "\<forall>e \<in> set raw. e_hi e \<le> PHYS_LIMIT"
    and init: "bm_state (k_bm st) = DISABLED" "free_matrix (k_bd st) = replicate (Suc PAGE_MAX_ORDER) None"
  shows "\<exists>r. boot_memory ts raw kend st = Some r \<and>
    (case r of Err e \<Rightarrow> \<exists>m. e = Panic m
     | Ok (es, st') \<Rightarrow> memory_started ts K raw es st')"
proof -
  let ?root = "mmu (kern_pml4 ts)"
  obtain t last_addr where e: "e820_init raw e820_table_init = Ok (t, last_addr)" "table_sorted (table_list t)"
    "type_spec raw (unat last_addr - 1) = E820_TYPE_RAM" "\<forall>a. types_at (table_list t) a = {type_spec raw a} - {0}"
    "bounds (table_list t) \<subseteq> bounds raw" "\<forall>a. type_spec raw a = E820_TYPE_RAM \<longrightarrow> a < unat last_addr"
    using e820_init_spec [OF raw(1-4)] by blast
  define es where "es = table_list t"
  note L = sanitized_map [OF e(2,4) raw(5), folded es_def]
  have "unat last_addr - 1 < PHYS_LIMIT" using L(2) e(3) by (simp add: E820_TYPE_RAM_def)
  then have last: "unat last_addr \<le> PHYS_LIMIT" by simp
  have mo: "map_ok es" using e(2) L(1) by (simp add: map_ok_def es_def)
  have tk: "kern_pml4 ts \<in> set (static_list ts)" by (simp add: static_list_def)
  note k = static_root [OF s]
  have Kne: "K \<noteq> {}" using s tk by (auto simp: static_tables_def)
  then have kend: "0 < kend" using K by (auto simp: word_less_nat_alt)
  note B = bootmem_init_spec [OF mo kend ke, of "k_bm st" "low_map_end (vmm_init ts st)"]
  note unf = boot_memory_def Let_def e(1) es_def [symmetric] vmm_init_state(6)
  show ?thesis
  proof (cases "\<exists>bm. bootmem_init kend (vmm_get_low_map_end (vmm_init ts st)) es (k_bm st) = Ok (0, bm) \<and> bm_inv es bm \<and> kend \<le> pool_start bm")
    case False
    then have "bootmem_init kend (vmm_get_low_map_end (vmm_init ts st)) es (k_bm st) = Err (Panic ''Bootmem failed to create pool'')"
      using B init(1) by (auto simp: vmm_get_low_map_end_def split: if_splits)
    then show ?thesis by (simp add: unf)
  next
    case True
    then obtain bm where bm: "bootmem_init kend (vmm_get_low_map_end (vmm_init ts st)) es (k_bm st) = Ok (0, bm)" "bm_inv es bm" "kend \<le> pool_start bm" by blast
    define st1 where "st1 = (vmm_init ts st)\<lparr>k_bm := bm\<rparr>"
    have t1: "tree_ok es K ?root st1" unfolding st1_def by (rule identity_tree [OF s z mo bm(2,3) K ke])
    have H: "case vmm_map_hhdm ts es st1 of Err e \<Rightarrow> e = page_fault
      | Ok (rc, st2) \<Rightarrow> vstate st2 = VMM_TRANSITION \<and> tree_ok es K ?root st2 \<and>
          (\<forall>w. translate (pmem st2) ?root w \<noteq> translate (pmem st1) ?root w \<longrightarrow> translate (pmem st1) ?root w = None)"
      using vmm_map_hhdm_spec [OF t1 _ L(1)] by (auto simp: st1_def vmm_init_state split: kres.splits)
    show ?thesis
    proof (cases "vmm_map_hhdm ts es st1")
      case (Err e)
      then show ?thesis using H by (simp add: unf bm(1) st1_def)
    next
      case (Ok p2)
      then obtain rc st2 where h: "vmm_map_hhdm ts es st1 = Ok (rc, st2)" "vstate st2 = VMM_TRANSITION" "tree_ok es K ?root st2"
        "\<And>w. translate (pmem st2) ?root w \<noteq> translate (pmem st1) ?root w \<Longrightarrow> translate (pmem st1) ?root w = None"
        using H by (cases p2) auto
      have fm: "free_matrix (k_bd st2) = replicate (Suc PAGE_MAX_ORDER) None"
        using h(1) init(2) by (auto simp: st1_def vmm_init_state vmm_map_hhdm_def Let_def kept_def
          dest!: map_hhdm_entries_vstate set_range_vstate split: if_splits)
      have K': "\<forall>f \<in> K. unat KERNEL_PHYS \<le> 4096 * f" using K by blast
      note R = memory_rest_spec [OF h(3,2) k last fm K' Kne]
      have bm_eq: "boot_memory ts raw kend st = memory_rest ts es last_addr st2" using h(1) by (simp add: unf bm(1) st1_def memory_rest_def)
      have win: "map_option fst (translate (pmem st2) ?root w) = Some (w - kernel_vma_start + KERNEL_PHYS) \<and> pt_index 39 w \<noteq> 0"
        if w: "unat kernel_vma_start \<le> unat w" "unat w < unat kernel_vma_start + 0x200000" for w
        by (rule kernel_window_kept [OF s z _ w, of st1]) (use h(4) in \<open>auto simp: st1_def\<close>)
      show ?thesis
        using R win e(4-6)
        by (elim exE conjE) (intro exI conjI, simp only: bm_eq, fastforce simp: memory_started_def es_def div_le_mono Suc_leI split: kres.splits)
    qed
  qed
qed

text \<open>
  Claim C21. The start-up of the memory subsystem in the order of \<^verbatim>\<open>entry\<close>, on a firmware map with RAM below the physical limit: it always comes
  to an end, either in a panic or in the running kernel, never in an access outside a table or array. In the running kernel the page tables are well
  formed, the boot allocator is locked, the buddy allocator manages exactly the usable frames outside the kernel image and the boot
  pool, none of which holds a page table, and the kernel image is still mapped at its load address.
\<close>

theorem boot_memory_correct:
  assumes s: "static_tables ts K" and z: "static_zero ts (pmem st)"
    and K: "\<forall>f \<in> K. unat KERNEL_PHYS \<le> 4096 * f \<and> 4096 * f < unat kend" and ke: "unat kend \<le> PHYS_LIMIT"
    and raw: "2 \<le> length raw" "length raw \<le> 128" "no_wrap raw" "type_spec raw b = E820_TYPE_RAM" "\<forall>e \<in> set raw. e_hi e \<le> PHYS_LIMIT"
    and init: "bm_state (k_bm st) = DISABLED" "free_matrix (k_bd st) = replicate (Suc PAGE_MAX_ORDER) None"
  shows "\<exists>r. boot_memory ts raw kend st = Some r \<and>
    (case r of Err e \<Rightarrow> \<exists>m. e = Panic m
     | Ok (es, st') \<Rightarrow> vstate st' = VMM_READY \<and> tree_ok es K (mmu (kern_pml4 ts)) st' \<and> bm_state (k_bm st') = LOCKED \<and> alloc_blocks (k_bd st') = {} \<and>
         free_frames (k_bd st') = {f \<in> usable es 0. f < mem_nr_pages (k_bd st') \<and> \<not> (unat KERNEL_PHYS div 4096 \<le> f \<and> 4096 * f < unat (pool_end (k_bm st')))} \<and>
         (\<forall>w. unat kernel_vma_start \<le> unat w \<and> unat w < unat kernel_vma_start + 0x200000 \<longrightarrow>
            map_option fst (translate (pmem st') (mmu (kern_pml4 ts)) w) = Some (w - kernel_vma_start + KERNEL_PHYS)))"
  using boot_memory_spec [OF assms] by (elim exE) (fastforce simp: memory_started_def split: kres.splits)

lemma boot_map_raw: "2 \<le> length boot_map" "length boot_map \<le> 128" "no_wrap boot_map" "\<forall>e \<in> set boot_map. e_hi e \<le> PHYS_LIMIT"
  "type_spec boot_map 0x100000 = E820_TYPE_RAM"
proof -
  have "{e \<in> set boot_map. covers e 0x100000} = {\<lparr>e_addr = 0x100000, e_size = 0x180000, e_type = E820_TYPE_RAM\<rparr>}"
    by (auto simp: boot_map_def covers_def e_lo_def e_hi_def)
  then show "type_spec boot_map 0x100000 = E820_TYPE_RAM" by (simp add: type_spec_def E820_TYPE_RAM_def)
qed (simp_all add: boot_map_def no_wrap_def e_hi_def PHYS_LIMIT_def)

theorem boot_memory_correct_witness:
  "\<exists>r. boot_memory boot_tables boot_map 0x240000 (empty_kmem\<lparr>k_bm := bootmem_boot\<rparr>) = Some r \<and>
     (\<forall>es st'. r = Ok (es, st') \<longrightarrow> vstate st' = VMM_READY) \<and> (\<forall>e. r = Err e \<longrightarrow> (\<exists>m. e = Panic m))"
proof -
  let ?st = "empty_kmem\<lparr>k_bm := bootmem_boot\<rparr>"
  have z: "static_zero boot_tables (pmem ?st)" by (simp add: static_zero_def empty_kmem_def)
  have K: "\<forall>f \<in> {0x200..<0x240}. unat KERNEL_PHYS \<le> 4096 * f \<and> 4096 * f < unat (0x240000 :: u64)" by (simp add: KERNEL_PHYS_def)
  have ke: "unat (0x240000 :: u64) \<le> PHYS_LIMIT" by (simp add: PHYS_LIMIT_def)
  have i: "bm_state (k_bm ?st) = DISABLED" "free_matrix (k_bd ?st) = replicate (Suc PAGE_MAX_ORDER) None"
    by (simp_all add: bootmem_boot_def empty_kmem_def boot_buddy_def)
  obtain r where r: "boot_memory boot_tables boot_map 0x240000 ?st = Some r"
    "case r of Err e \<Rightarrow> \<exists>m. e = Panic m | Ok (es, st') \<Rightarrow> vstate st' = VMM_READY"
    using boot_memory_correct [OF boot_tables_static z K ke boot_map_raw(1-3,5,4) i] by (fastforce split: kres.splits)
  then show ?thesis by (intro exI [of _ r]) auto
qed

end
