(* ===== verification/Desc_Tables.thy ===== *)
theory Desc_Tables
  imports Prelude
begin

text \<open>
  The descriptor tables of the processor: segments and task state (\<^verbatim>\<open>arch/x86/gdt.c\<close>, \<^verbatim>\<open>arch/x86/tss.c\<close>, the macros of
  \<^verbatim>\<open>GDT_MACROS.h\<close>), and the interrupt gates (\<^verbatim>\<open>arch/x86/idt.c\<close>, \<^verbatim>\<open>arch/x86/isr.c\<close>). The packed structures are records of their
  fields; the addresses of the static objects and the table of assembly stubs \<^verbatim>\<open>isr_table\<close> are parameters.
\<close>

section \<open>Segments\<close>

definition GDT_KERNEL_CODE_SEGMENT :: u16 where "GDT_KERNEL_CODE_SEGMENT = 0x08"
definition GDT_KERNEL_DATA_SEGMENT :: u16 where "GDT_KERNEL_DATA_SEGMENT = 0x10"
definition GDT_TSS_SEGMENT :: u16 where "GDT_TSS_SEGMENT = 0x18"
definition GDT_USER_CODE_SEGMENT :: u16 where "GDT_USER_CODE_SEGMENT = 0x28"
definition GDT_USER_DATA_SEGMENT :: u16 where "GDT_USER_DATA_SEGMENT = 0x30"

record gdt_entry =
  limit_low :: u16
  base_low :: u16
  base_mid :: u8
  access :: u8
  limit_flags :: u8
  base_high :: u8

definition seg_A :: "u8 \<Rightarrow> u8" where "seg_A v = v AND 1"
definition seg_RW :: "u8 \<Rightarrow> u8" where "seg_RW v = push_bit 1 (v AND 1)"
definition seg_DC :: "u8 \<Rightarrow> u8" where "seg_DC v = push_bit 2 (v AND 1)"
definition seg_E :: "u8 \<Rightarrow> u8" where "seg_E v = push_bit 3 (v AND 1)"
definition seg_S :: "u8 \<Rightarrow> u8" where "seg_S v = push_bit 4 (v AND 1)"
definition seg_DPL :: "u8 \<Rightarrow> u8" where "seg_DPL v = push_bit 5 (v AND 3)"
definition seg_P :: "u8 \<Rightarrow> u8" where "seg_P v = push_bit 7 (v AND 1)"

definition LIMIT_HIGH :: "u8 \<Rightarrow> u8" where "LIMIT_HIGH v = v AND 0xF"
definition seg_L :: "u8 \<Rightarrow> u8" where "seg_L v = push_bit 5 (v AND 1)"
definition seg_DB :: "u8 \<Rightarrow> u8" where "seg_DB v = push_bit 6 (v AND 1)"
definition seg_G :: "u8 \<Rightarrow> u8" where "seg_G v = push_bit 7 (v AND 1)"

definition null_entry :: gdt_entry where
  "null_entry = \<lparr>limit_low = 0, base_low = 0, base_mid = 0, access = 0, limit_flags = 0, base_high = 0\<rparr>"

definition code_entry :: "u8 \<Rightarrow> gdt_entry" where
  "code_entry dpl = null_entry\<lparr>limit_low := 0xFFFF,
     access := seg_A 0 OR seg_RW 1 OR seg_DC 0 OR seg_E 1 OR seg_S 1 OR seg_DPL dpl OR seg_P 1,
     limit_flags := LIMIT_HIGH 0xF OR seg_L 1 OR seg_DB 0 OR seg_G 1\<rparr>"

definition data_entry :: "u8 \<Rightarrow> gdt_entry" where
  "data_entry dpl = null_entry\<lparr>limit_low := 0xFFFF,
     access := seg_A 0 OR seg_RW 1 OR seg_DC 0 OR seg_E 0 OR seg_S 1 OR seg_DPL dpl OR seg_P 1,
     limit_flags := LIMIT_HIGH 0xF OR seg_L 0 OR seg_DB 1 OR seg_G 1\<rparr>"

definition gdt :: "gdt_entry list" where
  "gdt = [null_entry, code_entry 0, data_entry 0, null_entry, null_entry, code_entry 3, data_entry 3]"

section \<open>The task state segment\<close>

record tss =
  tss_rsp :: "u64 list"
  tss_ist :: "u64 list"
  tss_iopb :: u16

definition sizeof_tss :: nat where "sizeof_tss = 104"
definition STACK_SIZE :: u64 where "STACK_SIZE = 4096"
definition NO_IST :: u8 where "NO_IST = 0"
definition EMERG_IST :: u8 where "EMERG_IST = 1"

definition tss_boot :: tss where
  "tss_boot = \<lparr>tss_rsp = [0, 0, 0], tss_ist = replicate 7 0, tss_iopb = 0\<rparr>"

text \<open>The two 32-bit words behind the descriptor fill the second half of the 16-byte TSS descriptor.\<close>

definition tss_set :: "u64 \<Rightarrow> u64 \<Rightarrow> u64 \<Rightarrow> nat \<Rightarrow> tss \<times> gdt_entry list \<Rightarrow> (tss \<times> gdt_entry list) kres" where
  "tss_set tss_addr kern_stack emergency_stack i = (\<lambda>(t, g).
     let t' = t\<lparr>tss_rsp := (tss_rsp t)[0 := kern_stack + STACK_SIZE],
                 tss_ist := (tss_ist t)[unat (EMERG_IST - 1) := emergency_stack + STACK_SIZE],
                 tss_iopb := of_nat sizeof_tss\<rparr>;
         lo = \<lparr>limit_low = of_nat sizeof_tss - 1, base_low = ucast tss_addr, base_mid = ucast (drop_bit 16 tss_addr),
               access = seg_P 1 OR seg_DPL 0 OR seg_S 0 OR seg_E 1 OR seg_DC 0 OR seg_RW 0 OR seg_A 1,
               limit_flags = 0, base_high = ucast (drop_bit 24 tss_addr)\<rparr>;
         h0 = ucast (drop_bit 32 tss_addr) :: u32;
         hi = \<lparr>limit_low = ucast h0, base_low = ucast (drop_bit 16 h0), base_mid = 0, access = 0, limit_flags = 0, base_high = 0\<rparr>
     in if i + 1 < length g then Ok (t', g[i := lo, i + 1 := hi]) else Err OutOfBounds)"

record cpu_tables =
  c_gdt :: "gdt_entry list"
  c_tss :: tss
  gdtr_limit :: u16
  gdtr_base :: u64
  cs_reg :: u16
  data_regs :: u16
  tr_reg :: u16

text \<open>\<^verbatim>\<open>gdt_init\<close> loads the table register, reloads the segment registers and the task register.\<close>

definition gdt_init :: "u64 \<Rightarrow> u64 \<Rightarrow> u64 \<Rightarrow> u64 \<Rightarrow> cpu_tables kres" where
  "gdt_init gdt_addr tss_addr kern_stack emergency_stack =
     rbind (tss_set tss_addr kern_stack emergency_stack (unat (GDT_TSS_SEGMENT div 8)) (tss_boot, gdt)) (\<lambda>(t, g).
       Ok \<lparr>c_gdt = g, c_tss = t, gdtr_limit = of_nat (8 * length g) - 1, gdtr_base = gdt_addr,
           cs_reg = GDT_KERNEL_CODE_SEGMENT, data_regs = GDT_KERNEL_DATA_SEGMENT, tr_reg = GDT_TSS_SEGMENT\<rparr>)"

section \<open>Interrupt gates\<close>

definition IDT_INTERRUPT_GATE :: u8 where "IDT_INTERRUPT_GATE = 0x0E"
definition IDT_TRAP_GATE :: u8 where "IDT_TRAP_GATE = 0x0F"

record idt_gate =
  offset_low :: u16
  gate_segment :: u16
  gate_ist :: u8
  attributes :: u8
  offset_mid :: u16
  offset_high :: u32
  gate_reserved :: u32

definition zero_gate :: idt_gate where
  "zero_gate = \<lparr>offset_low = 0, gate_segment = 0, gate_ist = 0, attributes = 0, offset_mid = 0, offset_high = 0, gate_reserved = 0\<rparr>"

definition gates_boot :: "idt_gate list" where
  "gates_boot = replicate 256 zero_gate"

definition idt_init :: "u64 \<Rightarrow> u16 \<times> u64" where
  "idt_init gates_addr = (of_nat (16 * length gates_boot - 1), gates_addr)"

definition idt_set_gate :: "u8 \<Rightarrow> u64 \<Rightarrow> u16 \<Rightarrow> u8 \<Rightarrow> u8 \<Rightarrow> u8 \<Rightarrow> bool \<Rightarrow> idt_gate list \<Rightarrow> idt_gate list kres" where
  "idt_set_gate interrupt offset segment ist type dpl p gates =
     (if offset = 0 \<and> p then Err (Panic ''Attempted to set IDT to NULL while enabled!'')
      else if segment = 0 \<or> segment mod 8 \<noteq> 0 then Err (Panic ''Attempted to set IDT segment!'')
      else if unat interrupt < length gates then
        Ok (gates[unat interrupt :=
          \<lparr>offset_low = ucast offset, gate_segment = segment, gate_ist = ist AND 0x7,
           attributes = (type AND 0x1F) OR push_bit 5 (dpl AND 3) OR push_bit 7 (of_bool p),
           offset_mid = ucast (drop_bit 16 offset), offset_high = ucast (drop_bit 32 offset), gate_reserved = 0\<rparr>])
      else Err OutOfBounds)"

definition isr_set_gate :: "(nat \<Rightarrow> u64) \<Rightarrow> u8 \<Rightarrow> u16 \<Rightarrow> u8 \<Rightarrow> u8 \<Rightarrow> u8 \<Rightarrow> bool \<Rightarrow> idt_gate list \<Rightarrow> idt_gate list kres" where
  "isr_set_gate isr_table interrupt segment ist type dpl p gates =
     (if unat interrupt \<ge> 256 then Err (Panic ''Invalid vector ID'')
      else idt_set_gate interrupt (isr_table (unat interrupt)) segment ist type dpl p gates)"

text \<open>The calls of \<^verbatim>\<open>isr_init\<close> in order: vector, stack table index and gate type.\<close>

definition isr_calls :: "(nat \<times> u8 \<times> u8) list" where
  "isr_calls =
     [(0, NO_IST, IDT_TRAP_GATE), (1, NO_IST, IDT_TRAP_GATE), (2, EMERG_IST, IDT_INTERRUPT_GATE), (3, NO_IST, IDT_TRAP_GATE),
      (4, NO_IST, IDT_TRAP_GATE), (5, NO_IST, IDT_TRAP_GATE), (6, NO_IST, IDT_TRAP_GATE), (7, NO_IST, IDT_TRAP_GATE),
      (8, EMERG_IST, IDT_INTERRUPT_GATE), (9, NO_IST, IDT_TRAP_GATE), (10, NO_IST, IDT_TRAP_GATE), (11, NO_IST, IDT_TRAP_GATE),
      (12, NO_IST, IDT_TRAP_GATE), (13, NO_IST, IDT_TRAP_GATE), (14, NO_IST, IDT_INTERRUPT_GATE), (15, NO_IST, IDT_TRAP_GATE),
      (16, NO_IST, IDT_TRAP_GATE), (17, NO_IST, IDT_TRAP_GATE), (18, EMERG_IST, IDT_INTERRUPT_GATE), (19, NO_IST, IDT_TRAP_GATE),
      (20, NO_IST, IDT_TRAP_GATE), (21, NO_IST, IDT_TRAP_GATE)]
     @ map (\<lambda>i. (i, NO_IST, IDT_TRAP_GATE)) [22..<28]
     @ [(28, NO_IST, IDT_TRAP_GATE), (29, NO_IST, IDT_TRAP_GATE), (30, NO_IST, IDT_TRAP_GATE), (31, NO_IST, IDT_TRAP_GATE)]
     @ map (\<lambda>i. (i, NO_IST, IDT_INTERRUPT_GATE)) [32..<256]"

definition isr_init :: "(nat \<Rightarrow> u64) \<Rightarrow> idt_gate list \<Rightarrow> idt_gate list kres" where
  "isr_init isr_table =
     rfold (\<lambda>(i, ist, type). isr_set_gate isr_table (of_nat i) GDT_KERNEL_CODE_SEGMENT ist type 0 True) isr_calls"

section \<open>What the processor reads\<close>

text \<open>The fields of a gate and of the descriptors as the processor decodes them.\<close>

definition gate_offset :: "idt_gate \<Rightarrow> u64" where
  "gate_offset g = ucast (offset_low g) OR push_bit 16 (ucast (offset_mid g)) OR push_bit 32 (ucast (offset_high g))"

definition gate_type :: "idt_gate \<Rightarrow> u8" where "gate_type g = attributes g AND 0x1F"
definition gate_dpl :: "idt_gate \<Rightarrow> u8" where "gate_dpl g = drop_bit 5 (attributes g) AND 3"
definition gate_present :: "idt_gate \<Rightarrow> bool" where "gate_present g = bit (attributes g) 7"

definition seg_base :: "gdt_entry \<Rightarrow> u32" where
  "seg_base d = ucast (base_low d) OR push_bit 16 (ucast (base_mid d)) OR push_bit 24 (ucast (base_high d))"

definition tss_base :: "gdt_entry \<Rightarrow> gdt_entry \<Rightarrow> u64" where
  "tss_base lo hi = ucast (seg_base lo) OR push_bit 32 (ucast (limit_low hi)) OR push_bit 48 (ucast (base_low hi))"

definition seg_dpl :: "gdt_entry \<Rightarrow> u8" where "seg_dpl d = drop_bit 5 (access d) AND 3"

lemma u64_eqI: "(\<And>n. n < 64 \<Longrightarrow> bit (a :: u64) n = bit b n) \<Longrightarrow> a = b"
  by (rule bit_word_eqI) simp

lemma u8_eqI: "(\<And>n. n < 8 \<Longrightarrow> bit (a :: u8) n = bit b n) \<Longrightarrow> a = b"
  by (rule bit_word_eqI) simp

lemmas bit_fields = bit_or_iff bit_and_iff bit_push_bit_iff bit_unsigned_iff bit_drop_bit_eq bit_mask_iff

lemma split_offset:
  fixes a :: u64
  shows "ucast (ucast a :: u16) OR push_bit 16 (ucast (ucast (drop_bit 16 a) :: u16)) OR push_bit 32 (ucast (ucast (drop_bit 32 a) :: u32)) = a"
proof (rule u64_eqI)
  fix n assume "n < (64 :: nat)"
  then show "bit (ucast (ucast a :: u16) OR push_bit 16 (ucast (ucast (drop_bit 16 a) :: u16)) OR push_bit 32 (ucast (ucast (drop_bit 32 a) :: u32)) :: u64) n = bit a n"
    by (cases "n < 16"; cases "n < 32") (auto simp: bit_fields)
qed

lemma u8_masks: "(0x1F :: u8) = mask 5" "(3 :: u8) = mask 2"
  by (simp_all add: mask_eq_exp_minus_1)

lemma gate_fields:
  fixes type dpl :: u8
  shows "((type AND 0x1F) OR push_bit 5 (dpl AND 3) OR push_bit 7 (of_bool p)) AND 0x1F = type AND 0x1F"
    and "drop_bit 5 ((type AND 0x1F) OR push_bit 5 (dpl AND 3) OR push_bit 7 (of_bool p)) AND 3 = dpl AND 3"
    and "bit ((type AND 0x1F) OR push_bit 5 (dpl AND 3) OR push_bit 7 (of_bool p)) 7 = p"
proof -
  define q :: u8 where "q = of_bool p"
  have q: "bit q n \<longleftrightarrow> n = 0 \<and> p" for n by (cases p) (auto simp: q_def bit_1_iff)
  note F = bit_fields q u8_masks
  show "((type AND 0x1F) OR push_bit 5 (dpl AND 3) OR push_bit 7 (of_bool p)) AND 0x1F = type AND 0x1F"
    unfolding q_def [symmetric] u8_masks by (rule u8_eqI) (auto simp: bit_fields q)
  show "drop_bit 5 ((type AND 0x1F) OR push_bit 5 (dpl AND 3) OR push_bit 7 (of_bool p)) AND 3 = dpl AND 3"
    unfolding q_def [symmetric] u8_masks by (rule u8_eqI) (auto simp: bit_fields q simp del: drop_bit_or drop_bit_and)
  show "bit ((type AND 0x1F) OR push_bit 5 (dpl AND 3) OR push_bit 7 (of_bool p)) 7 = p"
    unfolding q_def [symmetric] u8_masks by (auto simp: bit_fields q)
qed

definition gate_for :: "idt_gate \<Rightarrow> u64 \<Rightarrow> u16 \<Rightarrow> u8 \<Rightarrow> u8 \<Rightarrow> u8 \<Rightarrow> bool \<Rightarrow> bool" where
  "gate_for g offset segment ist type dpl p \<longleftrightarrow> gate_offset g = offset \<and> gate_segment g = segment \<and> gate_ist g = ist \<and>
     gate_type g = type \<and> gate_dpl g = dpl \<and> gate_present g = p"

lemma idt_set_gate_spec:
  assumes "length gates = 256" and "\<not> (offset = 0 \<and> p)" and "segment \<noteq> 0" "segment mod 8 = 0"
    and "ist AND 7 = ist" "type AND 0x1F = type" "dpl AND 3 = dpl"
  shows "\<exists>g. idt_set_gate interrupt offset segment ist type dpl p gates = Ok (gates[unat interrupt := g]) \<and>
    gate_for g offset segment ist type dpl p"
proof -
  have "unat interrupt < 2 ^ 8" using unsigned_less [of interrupt, where ?'a = nat] by simp
  then have i: "unat interrupt < 256" by simp
  define g where "g = \<lparr>offset_low = ucast offset, gate_segment = segment, gate_ist = ist AND 0x7,
     attributes = (type AND 0x1F) OR push_bit 5 (dpl AND 3) OR push_bit 7 (of_bool p),
     offset_mid = ucast (drop_bit 16 offset), offset_high = ucast (drop_bit 32 offset), gate_reserved = 0\<rparr>"
  have "idt_set_gate interrupt offset segment ist type dpl p gates = Ok (gates[unat interrupt := g])"
    unfolding idt_set_gate_def g_def [symmetric] using assms(1-4) i by auto
  moreover have "gate_for g offset segment ist type dpl p"
    unfolding gate_for_def gate_offset_def gate_type_def gate_dpl_def gate_present_def g_def idt_gate.simps split_offset gate_fields
    using assms(5-7) by simp
  ultimately show ?thesis by blast
qed

section \<open>The gates after start-up\<close>

definition spec_gate :: "nat \<Rightarrow> u8 \<times> u8" where
  "spec_gate i = (if i \<in> {2, 8, 18} then EMERG_IST else NO_IST,
     if i < 32 \<and> i \<notin> {2, 8, 14, 18} then IDT_TRAP_GATE else IDT_INTERRUPT_GATE)"

lemma isr_calls_eq: "isr_calls = map (\<lambda>i. (i, spec_gate i)) [0..<256]"
proof -
  have parts: "[0..<256] = [0..<22] @ [22..<28] @ [28..<32] @ [32..<256]"
    using upt_add_eq_append [of 0 22 234] upt_add_eq_append [of 22 28 228] upt_add_eq_append [of 28 32 224] by simp
  have "map (\<lambda>i. (i, spec_gate i)) [32..<256] = map (\<lambda>i. (i, NO_IST, IDT_INTERRUPT_GATE)) [32..<256]"
    "map (\<lambda>i. (i, spec_gate i)) [22..<28] = map (\<lambda>i. (i, NO_IST, IDT_TRAP_GATE)) [22..<28]"
    by (rule map_cong; auto simp: spec_gate_def simp del: upt_rec_numeral)+
  moreover have "[0..<22] = [0, 1, 2, 3, 4, 5, 6, 7, 8, 9, 10, 11, 12, 13, 14, 15, 16, 17, 18, 19, 20, 21]" "[28..<32] = [28, 29, 30, 31]"
    by (simp_all add: upt_rec)
  ultimately show ?thesis unfolding isr_calls_def parts map_append by (simp add: spec_gate_def del: upt_rec_numeral)
qed

lemma isr_init_steps:
  assumes "\<And>i. i < 256 \<Longrightarrow> tab i \<noteq> 0" and "n \<le> 256" and "length gates = 256"
  shows "\<exists>g. rfold (\<lambda>(i, ist, type). isr_set_gate tab (of_nat i) GDT_KERNEL_CODE_SEGMENT ist type 0 True) (map (\<lambda>i. (i, spec_gate i)) [0..<n]) gates = Ok g \<and>
    length g = 256 \<and> (\<forall>i < n. gate_for (g ! i) (tab i) GDT_KERNEL_CODE_SEGMENT (fst (spec_gate i)) (snd (spec_gate i)) 0 True)"
  using assms(2)
proof (induction n)
  case 0
  then show ?case using assms(3) by simp
next
  case (Suc n)
  obtain g where g: "rfold (\<lambda>(i, ist, type). isr_set_gate tab (of_nat i) GDT_KERNEL_CODE_SEGMENT ist type 0 True) (map (\<lambda>i. (i, spec_gate i)) [0..<n]) gates = Ok g"
    "length g = 256" "\<forall>i < n. gate_for (g ! i) (tab i) GDT_KERNEL_CODE_SEGMENT (fst (spec_gate i)) (snd (spec_gate i)) 0 True"
    using Suc by auto
  have n: "unat (of_nat n :: u8) = n" using Suc.prems by (simp add: unat_of_nat)
  obtain ist type where sp: "spec_gate n = (ist, type)" "ist AND 7 = ist" "type AND 0x1F = type"
    by (auto simp: spec_gate_def EMERG_IST_def NO_IST_def IDT_TRAP_GATE_def IDT_INTERRUPT_GATE_def)
  obtain x where x: "isr_set_gate tab (of_nat n) GDT_KERNEL_CODE_SEGMENT ist type 0 True g = Ok (g[n := x])"
    "gate_for x (tab n) GDT_KERNEL_CODE_SEGMENT ist type 0 True"
    using idt_set_gate_spec [OF g(2), of "tab n" True GDT_KERNEL_CODE_SEGMENT ist type 0 "of_nat n"] assms(1) Suc.prems sp
    by (auto simp: isr_set_gate_def n GDT_KERNEL_CODE_SEGMENT_def)
  have "gate_for (g[n := x] ! i) (tab i) GDT_KERNEL_CODE_SEGMENT (fst (spec_gate i)) (snd (spec_gate i)) 0 True" if "i < Suc n" for i
    using that g(2,3) x(2) sp(1) Suc.prems by (cases "i = n") auto
  then show ?case using g(1,2) x(1) sp(1) by (simp add: rfold_append)
qed

text \<open>
  Claim C22. With an assembly stub for every vector, \<^verbatim>\<open>isr_init\<close> fills all 256 gates without a panic: the processor finds the stub's address split over
  the three offset fields, the kernel code segment and privilege 0, present; the emergency stack for NMI, double fault and machine
  check, and interrupt gates (interrupts off) exactly for those three, the page fault and all vectors from 32 on.
\<close>

theorem isr_init_correct:
  assumes "\<And>i. i < 256 \<Longrightarrow> isr_table i \<noteq> 0"
  shows "\<exists>g. isr_init isr_table gates_boot = Ok g \<and> length g = 256 \<and>
    (\<forall>i < 256. gate_offset (g ! i) = isr_table i \<and> gate_segment (g ! i) = GDT_KERNEL_CODE_SEGMENT \<and> gate_present (g ! i) \<and>
       gate_dpl (g ! i) = 0 \<and> gate_ist (g ! i) = (if i \<in> {2, 8, 18} then EMERG_IST else NO_IST) \<and>
       gate_type (g ! i) = (if i < 32 \<and> i \<notin> {2, 8, 14, 18} then IDT_TRAP_GATE else IDT_INTERRUPT_GATE))"
proof -
  have "length gates_boot = 256" by (simp add: gates_boot_def)
  then obtain g where "isr_init isr_table gates_boot = Ok g" "length g = 256"
    "\<forall>i < 256. gate_for (g ! i) (isr_table i) GDT_KERNEL_CODE_SEGMENT (fst (spec_gate i)) (snd (spec_gate i)) 0 True"
    using isr_init_steps [of isr_table 256 gates_boot] assms unfolding isr_init_def isr_calls_eq by auto
  then show ?thesis by (simp add: gate_for_def spec_gate_def)
qed

theorem isr_init_correct_witness:
  "\<exists>g. isr_init (\<lambda>i. 0xFFFFFFFF80010000 + of_nat i) gates_boot = Ok g \<and> gate_ist (g ! 8) = EMERG_IST"
proof -
  have "(0xFFFFFFFF80010000 + of_nat i :: u64) \<noteq> 0" if "i < 256" for i
  proof -
    have "unat (of_nat i :: u64) = i" using that by (simp add: unat_of_nat)
    then have "unat (0xFFFFFFFF80010000 + of_nat i :: u64) = 0xFFFFFFFF80010000 + i" using that by (subst unat_add_lt) simp_all
    then show ?thesis by (metis add_is_0 unsigned_0 zero_neq_numeral)
  qed
  from isr_init_correct [of "\<lambda>i. 0xFFFFFFFF80010000 + of_nat i", OF this] show ?thesis by force
qed

text \<open>
  Claim C23. \<^verbatim>\<open>gdt_init\<close> leaves a table in which the processor reads the address of the task state segment back from the split descriptor
  fields, with a limit of its last byte; the kernel stack and the emergency stack are installed at their upper ends, and the user segments
  have privilege 3, the kernel segments privilege 0.
\<close>

theorem gdt_init_correct:
  "\<exists>c. gdt_init gdt_addr tss_addr kern_stack emergency_stack = Ok c \<and> gdtr_base c = gdt_addr \<and> unat (gdtr_limit c) + 1 = 8 * length (c_gdt c) \<and>
    tss_base (c_gdt c ! 3) (c_gdt c ! 4) = tss_addr \<and> unat (limit_low (c_gdt c ! 3)) + 1 = sizeof_tss \<and>
    tss_rsp (c_tss c) ! 0 = kern_stack + STACK_SIZE \<and> tss_ist (c_tss c) ! unat (EMERG_IST - 1) = emergency_stack + STACK_SIZE \<and>
    seg_dpl (c_gdt c ! unat (GDT_KERNEL_CODE_SEGMENT div 8)) = 0 \<and> seg_dpl (c_gdt c ! unat (GDT_KERNEL_DATA_SEGMENT div 8)) = 0 \<and>
    seg_dpl (c_gdt c ! unat (GDT_USER_CODE_SEGMENT div 8)) = 3 \<and> seg_dpl (c_gdt c ! unat (GDT_USER_DATA_SEGMENT div 8)) = 3"
proof -
  have b: "tss_base \<lparr>limit_low = l, base_low = ucast tss_addr, base_mid = ucast (drop_bit 16 tss_addr), access = x, limit_flags = f,
        base_high = ucast (drop_bit 24 tss_addr)\<rparr>
      \<lparr>limit_low = ucast (ucast (drop_bit 32 tss_addr) :: u32), base_low = ucast (drop_bit 16 (ucast (drop_bit 32 tss_addr) :: u32)),
        base_mid = 0, access = 0, limit_flags = 0, base_high = 0\<rparr> = tss_addr" for l x f
  proof (rule u64_eqI)
    fix n assume "n < (64 :: nat)"
    then show "bit (tss_base \<lparr>limit_low = l, base_low = ucast tss_addr, base_mid = ucast (drop_bit 16 tss_addr), access = x, limit_flags = f,
        base_high = ucast (drop_bit 24 tss_addr)\<rparr>
      \<lparr>limit_low = ucast (ucast (drop_bit 32 tss_addr) :: u32), base_low = ucast (drop_bit 16 (ucast (drop_bit 32 tss_addr) :: u32)),
        base_mid = 0, access = 0, limit_flags = 0, base_high = 0\<rparr>) n = bit tss_addr n"
      by (cases "n < 16"; cases "n < 24"; cases "n < 32"; cases "n < 48") (auto simp: tss_base_def seg_base_def bit_fields)
  qed
  have i: "unat (GDT_TSS_SEGMENT div 8) = 3" "unat (GDT_KERNEL_CODE_SEGMENT div 8) = 1" "unat (GDT_KERNEL_DATA_SEGMENT div 8) = 2"
    "unat (GDT_USER_CODE_SEGMENT div 8) = 5" "unat (GDT_USER_DATA_SEGMENT div 8) = 6" "unat (EMERG_IST - 1) = 0"
    by (simp_all add: GDT_TSS_SEGMENT_def GDT_KERNEL_CODE_SEGMENT_def GDT_KERNEL_DATA_SEGMENT_def GDT_USER_CODE_SEGMENT_def
        GDT_USER_DATA_SEGMENT_def EMERG_IST_def)
  have g: "length gdt = 7" "gdt ! Suc 0 = code_entry 0" "gdt ! 2 = data_entry 0" "gdt ! 5 = code_entry 3" "gdt ! 6 = data_entry 3"
    by (simp_all add: gdt_def)
  have dpl: "seg_dpl (code_entry 0) = 0" "seg_dpl (data_entry 0) = 0" "seg_dpl (code_entry 3) = 3" "seg_dpl (data_entry 3) = 3"
    by (simp_all add: seg_dpl_def code_entry_def data_entry_def seg_A_def seg_RW_def seg_DC_def seg_E_def seg_S_def seg_DPL_def seg_P_def)
  show ?thesis
    unfolding gdt_init_def tss_set_def Let_def i
    by (simp add: tss_boot_def sizeof_tss_def b dpl g)
qed

end
