(* ===== verification/Port_Io.thy ===== *)
theory Port_Io
  imports Desc_Tables
begin

text \<open>
  The port instructions of \<^verbatim>\<open>arch/x86/io.h\<close>, the interrupt controller (\<^verbatim>\<open>arch/x86/pic.c\<close>), the timer
  (\<^verbatim>\<open>arch/x86/pit.c\<close>) and the set-up of the hardware interrupts (\<^verbatim>\<open>arch/x86/irq.c\<close>). The state is the trace of the instructions issued,
  newest first; what a device answers to a read is a parameter, a function of the trace before the read and the port.
\<close>

section \<open>Port instructions\<close>

datatype io_op = OutB u16 u8 | OutW u16 u16 | OutL u16 u32 | InB u16 | InW u16 | InL u16 | Hlt | Cli | Sti

type_synonym trace = "io_op list"
type_synonym device = "trace \<Rightarrow> u16 \<Rightarrow> u32"

definition outb :: "u16 \<Rightarrow> u8 \<Rightarrow> trace \<Rightarrow> trace" where "outb port v tr = OutB port v # tr"
definition outw :: "u16 \<Rightarrow> u16 \<Rightarrow> trace \<Rightarrow> trace" where "outw port v tr = OutW port v # tr"
definition outl :: "u16 \<Rightarrow> u32 \<Rightarrow> trace \<Rightarrow> trace" where "outl port v tr = OutL port v # tr"
definition inb :: "device \<Rightarrow> u16 \<Rightarrow> trace \<Rightarrow> u8 \<times> trace" where "inb dev port tr = (ucast (dev tr port), InB port # tr)"
definition inw :: "device \<Rightarrow> u16 \<Rightarrow> trace \<Rightarrow> u16 \<times> trace" where "inw dev port tr = (ucast (dev tr port), InW port # tr)"
definition inl :: "device \<Rightarrow> u16 \<Rightarrow> trace \<Rightarrow> u32 \<times> trace" where "inl dev port tr = (dev tr port, InL port # tr)"
definition io_wait :: "trace \<Rightarrow> trace" where "io_wait tr = outb 0x80 0 tr"
definition halt :: "trace \<Rightarrow> trace" where "halt tr = Hlt # tr"
definition cli :: "trace \<Rightarrow> trace" where "cli tr = Cli # tr"
definition sti :: "trace \<Rightarrow> trace" where "sti tr = Sti # tr"

section \<open>The interrupt controller\<close>

definition PIC1_COMMAND :: u16 where "PIC1_COMMAND = 0x20"
definition PIC1_DATA :: u16 where "PIC1_DATA = 0x21"
definition PIC2_COMMAND :: u16 where "PIC2_COMMAND = 0xA0"
definition PIC2_DATA :: u16 where "PIC2_DATA = 0xA1"
definition PIC_INIT :: u8 where "PIC_INIT = 0x11"
definition MODE_8086 :: u8 where "MODE_8086 = 0x01"
definition EOI :: u8 where "EOI = 0x20"
definition PIC2_IRQ :: nat where "PIC2_IRQ = 2"

text \<open>The offsets are C \<^verbatim>\<open>int\<close>s; their differences stay far from overflow once both passed the range checks.\<close>

definition pic_remap :: "int \<Rightarrow> int \<Rightarrow> trace \<Rightarrow> trace kres" where
  "pic_remap offset1 offset2 tr =
     (if offset1 < 32 \<or> offset1 \<ge> 248 then Err (Panic ''Attemoted to remap PIC1 to IRQ'')
      else if offset2 < 32 \<or> offset2 \<ge> 248 then Err (Panic ''Attemoted to remap PIC2 to IRQ'')
      else let diff = (if offset1 > offset2 then offset1 - offset2 else offset2 - offset1)
      in if diff < 8 then Err (Panic ''Requested remap would cause PIC2 to overlap PIC1!'')
      else let
        tr = io_wait (outb PIC1_COMMAND PIC_INIT tr);
        tr = io_wait (outb PIC2_COMMAND PIC_INIT tr);
        tr = io_wait (outb PIC1_DATA (word_of_int offset1) tr);
        tr = io_wait (outb PIC2_DATA (word_of_int offset2) tr);
        tr = io_wait (outb PIC1_DATA (push_bit PIC2_IRQ 1) tr);
        tr = io_wait (outb PIC2_DATA (of_nat PIC2_IRQ) tr);
        tr = io_wait (outb PIC1_DATA MODE_8086 tr);
        tr = io_wait (outb PIC2_DATA MODE_8086 tr);
        tr = io_wait (outb PIC1_DATA (0xFF - push_bit PIC2_IRQ 1) tr);
        tr = io_wait (outb PIC2_DATA 0xFF tr)
      in Ok tr)"

definition pic_send_EOI :: "u8 \<Rightarrow> trace \<Rightarrow> trace" where
  "pic_send_EOI irq tr =
     (let tr = io_wait (outb PIC1_COMMAND EOI tr)
      in if irq \<ge> 8 then io_wait (outb PIC2_COMMAND EOI tr) else tr)"

text \<open>\<^verbatim>\<open>1 << n\<close> is computed in \<^verbatim>\<open>int\<close>: undefined from 31 on, and truncated to a byte when it is combined with the mask.\<close>

definition int_bit :: "nat \<Rightarrow> u8 kres" where
  "int_bit n = (if n < 31 then Ok (ucast (push_bit n (1 :: u32))) else Err Undefined)"

definition pic_mask :: "device \<Rightarrow> u8 \<Rightarrow> trace \<Rightarrow> trace kres" where
  "pic_mask dev irq tr =
     (if irq \<ge> 8 then
        let (mask, tr) = inb dev PIC2_DATA tr
        in rbind (int_bit (unat irq - 8)) (\<lambda>b. Ok (io_wait (outb PIC2_DATA (mask OR b) tr)))
      else
        let (mask, tr) = inb dev PIC1_DATA tr
        in rbind (int_bit (unat irq)) (\<lambda>b. Ok (io_wait (outb PIC1_DATA (mask OR b) tr))))"

definition pic_unmask :: "device \<Rightarrow> u8 \<Rightarrow> trace \<Rightarrow> trace kres" where
  "pic_unmask dev irq tr =
     (if irq \<ge> 8 then
        let (mask, tr) = inb dev PIC2_DATA tr
        in rbind (int_bit (unat irq - 8)) (\<lambda>b. Ok (io_wait (outb PIC2_DATA (mask AND NOT b) tr)))
      else
        let (mask, tr) = inb dev PIC1_DATA tr
        in rbind (int_bit (unat irq)) (\<lambda>b. Ok (io_wait (outb PIC1_DATA (mask AND NOT b) tr))))"

section \<open>The timer\<close>

definition PIT_CHANNEL0 :: u16 where "PIT_CHANNEL0 = 0x40"
definition PIT_COMMAND :: u16 where "PIT_COMMAND = 0x43"

definition pit_set_freq :: "u64 \<Rightarrow> trace \<Rightarrow> trace kres" where
  "pit_set_freq hz tr =
     (if hz = 0 then Err Undefined
      else let
        divisor = ucast (1193182 div hz) :: u16;
        tr = io_wait (outb PIT_COMMAND 0x34 tr);
        tr = outb PIT_CHANNEL0 (ucast (divisor AND 0xFF)) tr;
        tr = outb PIT_CHANNEL0 (ucast (drop_bit 8 divisor)) tr
      in Ok (io_wait tr))"

section \<open>Hardware interrupts\<close>

definition IRQ_TO_INTERRUPT_OFFSET :: nat where "IRQ_TO_INTERRUPT_OFFSET = 32"

definition irq_set_gate :: "device \<Rightarrow> (nat \<Rightarrow> u64) \<Rightarrow> u8 \<Rightarrow> u16 \<Rightarrow> u8 \<Rightarrow> u8 \<Rightarrow> u8 \<Rightarrow> bool \<Rightarrow>
    trace \<times> idt_gate list \<Rightarrow> (trace \<times> idt_gate list) kres" where
  "irq_set_gate dev isr_table irq segment ist type dpl p = (\<lambda>(tr, gates).
     rbind (if p then pic_unmask dev irq tr else pic_mask dev irq tr) (\<lambda>tr.
     rbind (isr_set_gate isr_table (of_nat (unat irq + IRQ_TO_INTERRUPT_OFFSET)) segment ist type dpl p gates) (\<lambda>gates.
       Ok (tr, gates))))"

definition irq_init :: "device \<Rightarrow> (nat \<Rightarrow> u64) \<Rightarrow> trace \<times> idt_gate list \<Rightarrow> (trace \<times> idt_gate list) kres" where
  "irq_init dev isr_table = (\<lambda>(tr, gates).
     rbind (pic_remap (int IRQ_TO_INTERRUPT_OFFSET) (int IRQ_TO_INTERRUPT_OFFSET + 8) tr) (\<lambda>tr.
     rbind (irq_set_gate dev isr_table 0 GDT_KERNEL_CODE_SEGMENT NO_IST IDT_INTERRUPT_GATE 0 True (tr, gates))
       (irq_set_gate dev isr_table 1 GDT_KERNEL_CODE_SEGMENT NO_IST IDT_INTERRUPT_GATE 0 True)))"

section \<open>The controller's side\<close>

text \<open>
  What the data sheet of the 8259A says of a chip with command port \<open>c\<close> and data port \<open>d\<close> after a trace: a command with bit 4 set
  starts the initialisation, which clears the mask and awaits three words on the data port (vector base, cascading, mode); after it a
  write to the data port sets the interrupt mask. The chip ignores the three low bits of the vector base.
\<close>

record chip =
  awaiting :: nat
  vec_base :: u8
  cascade :: u8
  icw4 :: u8
  imr :: u8

definition chip_data :: "u8 \<Rightarrow> chip \<Rightarrow> chip" where
  "chip_data v ch = (if awaiting ch = 3 then ch\<lparr>awaiting := 2, vec_base := v AND 0xF8\<rparr>
     else if awaiting ch = 2 then ch\<lparr>awaiting := 1, cascade := v\<rparr>
     else if awaiting ch = 1 then ch\<lparr>awaiting := 0, icw4 := v\<rparr>
     else ch\<lparr>imr := v\<rparr>)"

fun chip_after :: "u16 \<Rightarrow> u16 \<Rightarrow> trace \<Rightarrow> chip option" where
  "chip_after c d [] = None"
| "chip_after c d (OutB p v # tr) =
     (if p = c then if bit v 4 then Some \<lparr>awaiting = 3, vec_base = 0, cascade = 0, icw4 = 0, imr = 0\<rparr> else chip_after c d tr
      else if p = d then map_option (chip_data v) (chip_after c d tr) else chip_after c d tr)"
| "chip_after c d (_ # tr) = chip_after c d tr"

abbreviation pic1 :: "trace \<Rightarrow> chip option" where "pic1 \<equiv> chip_after PIC1_COMMAND PIC1_DATA"
abbreviation pic2 :: "trace \<Rightarrow> chip option" where "pic2 \<equiv> chip_after PIC2_COMMAND PIC2_DATA"

text \<open>The documented behaviour the mask operations rely on: an initialised chip answers a read of its data port with its mask.\<close>

definition reads_masks :: "device \<Rightarrow> bool" where
  "reads_masks dev \<longleftrightarrow> (\<forall>tr ch. (pic1 tr = Some ch \<and> awaiting ch = 0 \<longrightarrow> ucast (dev tr PIC1_DATA) = imr ch) \<and>
     (pic2 tr = Some ch \<and> awaiting ch = 0 \<longrightarrow> ucast (dev tr PIC2_DATA) = imr ch))"

definition data_sheet :: device where
  "data_sheet tr p = (let ch = if p = PIC1_DATA then pic1 tr else if p = PIC2_DATA then pic2 tr else None
     in case ch of None \<Rightarrow> 0xFF | Some ch \<Rightarrow> ucast (imr ch))"

lemma ucast_u8_u32 [simp]: "ucast (ucast (x :: u8) :: u32) = x"
  by (rule u8_eqI) (simp add: bit_fields)

lemmas pic_ports = PIC1_COMMAND_def PIC1_DATA_def PIC2_COMMAND_def PIC2_DATA_def

lemma data_sheet_reads: "reads_masks data_sheet"
  by (auto simp: reads_masks_def data_sheet_def pic_ports)

lemma pic_wait [simp]: "pic1 (io_wait tr) = pic1 tr" "pic2 (io_wait tr) = pic2 tr"
  by (simp_all add: pic_ports io_wait_def outb_def)

lemma pic_out [simp]:
  "pic1 (outb PIC1_DATA v tr) = map_option (chip_data v) (pic1 tr)" "pic2 (outb PIC1_DATA v tr) = pic2 tr"
  "pic2 (outb PIC2_DATA v tr) = map_option (chip_data v) (pic2 tr)" "pic1 (outb PIC2_DATA v tr) = pic1 tr"
  by (simp_all add: pic_ports outb_def)

lemma pic_command:
  "pic1 (outb PIC1_COMMAND v tr) = (if bit v 4 then Some \<lparr>awaiting = 3, vec_base = 0, cascade = 0, icw4 = 0, imr = 0\<rparr> else pic1 tr)"
  "pic2 (outb PIC1_COMMAND v tr) = pic2 tr" "pic1 (outb PIC2_COMMAND v tr) = pic1 tr"
  "pic2 (outb PIC2_COMMAND v tr) = (if bit v 4 then Some \<lparr>awaiting = 3, vec_base = 0, cascade = 0, icw4 = 0, imr = 0\<rparr> else pic2 tr)"
  by (simp_all add: pic_ports outb_def)

lemma init_starts: "bit PIC_INIT 4" "\<not> bit EOI 4"
  by (simp_all add: PIC_INIT_def EOI_def)

lemma vec_base_nat:
  fixes v :: u8
  shows "unat (v AND 0xF8) = 8 * (unat v div 8)"
proof -
  have "v AND 0xF8 = push_bit 3 (drop_bit 3 v)"
  proof (rule u8_eqI)
    fix n :: nat assume n: "n < 8"
    have "(0xF8 :: u8) = push_bit 3 (mask 5)" by (simp add: mask_eq_exp_minus_1)
    show "bit (v AND 0xF8) n = bit (push_bit 3 (drop_bit 3 v)) n" unfolding \<open>0xF8 = push_bit 3 (mask 5)\<close> using n by (auto simp: bit_fields)
  qed
  moreover have "unat (drop_bit 3 v) = unat v div 8" by (simp add: drop_bit_eq_div unat_div)
  moreover have "unat v < 2 ^ 8" using unsigned_less [of v, where ?'a = nat] by simp
  ultimately show ?thesis by (simp add: push_bit_eq_mult unat_mult_lt mult.commute)
qed

lemma pic_remap_spec:
  assumes "pic_remap offset1 offset2 tr = Ok tr'"
  shows "pic1 tr' = Some \<lparr>awaiting = 0, vec_base = word_of_int offset1 AND 0xF8, cascade = 4, icw4 = 1, imr = 0xFB\<rparr>"
    and "pic2 tr' = Some \<lparr>awaiting = 0, vec_base = word_of_int offset2 AND 0xF8, cascade = 2, icw4 = 1, imr = 0xFF\<rparr>"
  using assms
  by (auto simp: pic_remap_def Let_def pic_command init_starts chip_data_def PIC2_IRQ_def MODE_8086_def split: if_splits)

text \<open>
  \<^verbatim>\<open>pic_remap\<close> accepts exactly two offsets from 32 to 247 that are at least eight apart and panics on all others. After it both
  controllers have finished their initialisation, cascaded on line 2 in 8086 mode; every line except the cascade is masked, and the vectors of
  the sixteen lines lie outside the exceptions 0 to 31 and are all different, also for offsets that are not multiples of eight.
\<close>

theorem pic_remap_correct:
  "(is_Ok (pic_remap offset1 offset2 tr) \<longleftrightarrow> offset1 \<in> {32..<248} \<and> offset2 \<in> {32..<248} \<and> 8 \<le> \<bar>offset1 - offset2\<bar>) \<and>
   (\<forall>tr'. pic_remap offset1 offset2 tr = Ok tr' \<longrightarrow> (\<exists>m s. pic1 tr' = Some m \<and> pic2 tr' = Some s \<and> awaiting m = 0 \<and> awaiting s = 0 \<and>
      cascade m = 4 \<and> cascade s = 2 \<and> icw4 m = 1 \<and> icw4 s = 1 \<and> (\<forall>n < 8. bit (imr m) n \<longleftrightarrow> n \<noteq> 2) \<and> (\<forall>n < 8. bit (imr s) n) \<and>
      (let vs = map (\<lambda>n. unat (vec_base m) + n) [0..<8] @ map (\<lambda>n. unat (vec_base s) + n) [0..<8]
       in distinct vs \<and> set vs \<subseteq> {32..<256})))"
proof (intro conjI allI impI)
  show "is_Ok (pic_remap offset1 offset2 tr) \<longleftrightarrow> offset1 \<in> {32..<248} \<and> offset2 \<in> {32..<248} \<and> 8 \<le> \<bar>offset1 - offset2\<bar>"
    by (auto simp: pic_remap_def Let_def)
next
  fix tr' assume r: "pic_remap offset1 offset2 tr = Ok tr'"
  then have o: "32 \<le> offset1" "offset1 < 248" "32 \<le> offset2" "offset2 < 248" "8 \<le> \<bar>offset1 - offset2\<bar>"
    by (auto simp: pic_remap_def Let_def split: if_splits)
  have u: "unat (word_of_int x :: u8) = nat x" if "0 \<le> x" "x < 248" for x
    using that by (simp add: unsigned_of_int take_bit_eq_mod)
  have bases: "unat (word_of_int offset1 AND 0xF8 :: u8) = 8 * (nat offset1 div 8)" "unat (word_of_int offset2 AND 0xF8 :: u8) = 8 * (nat offset2 div 8)"
    using o by (simp_all add: u vec_base_nat)
  define a b where "a = nat offset1" and "b = nat offset2"
  have ab: "32 \<le> a" "a < 248" "32 \<le> b" "b < 248" "a + 8 \<le> b \<or> b + 8 \<le> a" using o unfolding a_def b_def by linarith+
  have range: "32 \<le> 8 * (a div 8)" "8 * (a div 8) + 8 \<le> 256" "32 \<le> 8 * (b div 8)" "8 * (b div 8) + 8 \<le> 256"
    using ab(1-4) div_le_mono [of 32 a 8] div_le_mono [of a 247 8] div_le_mono [of 32 b 8] div_le_mono [of b 247 8] by simp_all
  have shift: "(x + 8) div 8 = Suc (x div 8)" for x :: nat by simp
  have apart: "8 * (a div 8) + 8 \<le> 8 * (b div 8) \<or> 8 * (b div 8) + 8 \<le> 8 * (a div 8)"
    using ab(5) div_le_mono [of "a + 8" b 8] div_le_mono [of "b + 8" a 8] unfolding shift by auto
  have lines: "(\<forall>n < 8. bit (0xFB :: u8) n \<longleftrightarrow> n \<noteq> 2) \<and> (\<forall>n < 8. bit (0xFF :: u8) n)"
    by (simp add: All_less_Suc numeral_eq_Suc bit_0 flip: bit_Suc)
  show "\<exists>m s. pic1 tr' = Some m \<and> pic2 tr' = Some s \<and> awaiting m = 0 \<and> awaiting s = 0 \<and>
      cascade m = 4 \<and> cascade s = 2 \<and> icw4 m = 1 \<and> icw4 s = 1 \<and> (\<forall>n < 8. bit (imr m) n \<longleftrightarrow> n \<noteq> 2) \<and> (\<forall>n < 8. bit (imr s) n) \<and>
      (let vs = map (\<lambda>n. unat (vec_base m) + n) [0..<8] @ map (\<lambda>n. unat (vec_base s) + n) [0..<8]
       in distinct vs \<and> set vs \<subseteq> {32..<256})"
    using range apart lines unfolding pic_remap_spec [OF r]
    by (auto simp: Let_def bases a_def [symmetric] b_def [symmetric] distinct_map inj_on_def simp del: upt_rec_numeral)
qed


theorem pic_remap_correct_witness:
  "\<exists>tr' m s. pic_remap 33 41 [] = Ok tr' \<and> pic1 tr' = Some m \<and> pic2 tr' = Some s \<and> awaiting m = 0 \<and> awaiting s = 0"
proof -
  obtain tr' where "pic_remap 33 41 [] = Ok tr'" by (simp add: pic_remap_def)
  with pic_remap_correct [of 33 41 "[]"] show ?thesis by blast
qed

section \<open>Masking lines\<close>

text \<open>The mask bit of one of the sixteen lines, and that both chips are initialised.\<close>

definition line_masked :: "trace \<Rightarrow> nat \<Rightarrow> bool" where
  "line_masked tr n = (case if n < 8 then pic1 tr else pic2 tr of None \<Rightarrow> False | Some ch \<Rightarrow> bit (imr ch) (n mod 8))"

definition line_vector :: "trace \<Rightarrow> nat \<Rightarrow> nat" where
  "line_vector tr n = (case if n < 8 then pic1 tr else pic2 tr of None \<Rightarrow> 0 | Some ch \<Rightarrow> unat (vec_base ch) + n mod 8)"

definition pics_ready :: "trace \<Rightarrow> bool" where
  "pics_ready tr \<longleftrightarrow> (\<exists>m s. pic1 tr = Some m \<and> pic2 tr = Some s \<and> awaiting m = 0 \<and> awaiting s = 0)"

lemma int_bit_low: "n < 8 \<Longrightarrow> int_bit n = Ok (push_bit n 1)"
  by (auto simp: int_bit_def bit_fields bit_1_iff simp del: push_bit_of_1 intro!: u8_eqI)

lemma in_chip [simp]: "pic1 (InB p # tr) = pic1 tr" "pic2 (InB p # tr) = pic2 tr"
  by simp_all

lemma line_bits:
  fixes m :: u8
  assumes "k < 8" "n < 8"
  shows "bit (m OR push_bit k 1) n \<longleftrightarrow> n = k \<or> bit m n" and "bit (m AND NOT (push_bit k 1)) n \<longleftrightarrow> n \<noteq> k \<and> bit m n"
  using assms by (auto simp: bit_fields bit_1_iff bit_not_iff simp del: push_bit_of_1)

lemma line_masked_chips:
  assumes "pic1 tr = Some m" "pic2 tr = Some s"
  shows "line_masked tr n \<longleftrightarrow> bit (imr (if n < 8 then m else s)) (n mod 8)"
  using assms by (simp add: line_masked_def)

lemma lines_updated:
  assumes "pic1 tr = Some m" "pic2 tr = Some s" "awaiting m = 0" "awaiting s = 0" and "k < 16"
    and "pic1 tr' = Some (if k < 8 then m\<lparr>imr := f (imr m)\<rparr> else m)" "pic2 tr' = Some (if k < 8 then s else s\<lparr>imr := f (imr s)\<rparr>)"
    and f: "\<And>x n. n < 8 \<Longrightarrow> bit (f x) n \<longleftrightarrow> P (n = k mod 8) (bit x n)" and "\<And>b. P False b = b"
    and n: "n < 16"
  shows "pics_ready tr'" and "line_masked tr' n \<longleftrightarrow> P (n = k) (line_masked tr n)" and "line_vector tr' = line_vector tr"
proof -
  show "line_vector tr' = line_vector tr" using assms(1,2,6,7) by (auto simp: line_vector_def)
  show "pics_ready tr'" using assms by (simp add: pics_ready_def)
  have m8: "n mod 8 < 8" by simp
  show "line_masked tr' n \<longleftrightarrow> P (n = k) (line_masked tr n)"
  proof (cases "(n < 8) = (k < 8)")
    case True
    then have "(n mod 8 = k mod 8) = (n = k)" using n assms(5) by (auto simp: mod_if split: if_splits)
    then show ?thesis using True f [OF m8] unfolding line_masked_chips [OF assms(6,7)] line_masked_chips [OF assms(1,2)]
      by (cases "k < 8") simp_all
  next
    case False
    then have "n \<noteq> k" by blast
    then show ?thesis using False assms(9) unfolding line_masked_chips [OF assms(6,7)] line_masked_chips [OF assms(1,2)]
      by (cases "k < 8") simp_all
  qed
qed

lemma mask_lines:
  assumes "reads_masks dev" and "pics_ready tr" and "unat irq < 16"
  shows "\<exists>tr'. pic_mask dev irq tr = Ok tr' \<and> pics_ready tr' \<and> line_vector tr' = line_vector tr \<and> (\<forall>n < 16. line_masked tr' n \<longleftrightarrow> n = unat irq \<or> line_masked tr n)"
    and "\<exists>tr'. pic_unmask dev irq tr = Ok tr' \<and> pics_ready tr' \<and> line_vector tr' = line_vector tr \<and> (\<forall>n < 16. line_masked tr' n \<longleftrightarrow> n \<noteq> unat irq \<and> line_masked tr n)"
proof -
  obtain m s where c: "pic1 tr = Some m" "pic2 tr = Some s" "awaiting m = 0" "awaiting s = 0"
    using assms(2) by (auto simp: pics_ready_def)
  have rd: "ucast (dev tr PIC1_DATA) = imr m" "ucast (dev tr PIC2_DATA) = imr s"
    using assms(1) c by (auto simp: reads_masks_def)
  define k where "k = unat irq"
  have hi: "irq \<ge> 8 \<longleftrightarrow> \<not> k < 8" by (simp add: word_le_nat_alt k_def not_less)
  have km: "k mod 8 = (if k < 8 then k else k - 8)" using assms(3) by (auto simp: mod_if k_def)
  have k8: "k mod 8 < 8" by simp
  have ib: "int_bit (k mod 8) = Ok (push_bit (k mod 8) 1)" by (rule int_bit_low) simp
  note S = inb_def rd hi c chip_data_def ib [unfolded km]
  obtain tr1 where 1: "pic_mask dev irq tr = Ok tr1"
    "pic1 tr1 = Some (if k < 8 then m\<lparr>imr := imr m OR push_bit (k mod 8) 1\<rparr> else m)"
    "pic2 tr1 = Some (if k < 8 then s else s\<lparr>imr := imr s OR push_bit (k mod 8) 1\<rparr>)"
    using ib unfolding pic_mask_def k_def [symmetric] km by (cases "k < 8") (simp_all add: S del: push_bit_of_1)
  obtain tr2 where 2: "pic_unmask dev irq tr = Ok tr2"
    "pic1 tr2 = Some (if k < 8 then m\<lparr>imr := imr m AND NOT (push_bit (k mod 8) 1)\<rparr> else m)"
    "pic2 tr2 = Some (if k < 8 then s else s\<lparr>imr := imr s AND NOT (push_bit (k mod 8) 1)\<rparr>)"
    using ib unfolding pic_unmask_def k_def [symmetric] km by (cases "k < 8") (simp_all add: S del: push_bit_of_1)
  have k16: "k < 16" using assms(3) by (simp add: k_def)
  note L1 = lines_updated [OF c k16 1(2,3), where P = "\<lambda>e b. e \<or> b", OF line_bits(1) [OF k8]]
  note L2 = lines_updated [OF c k16 2(2,3), where P = "\<lambda>e b. \<not> e \<and> b", OF line_bits(2) [OF k8]]
  show "\<exists>tr'. pic_mask dev irq tr = Ok tr' \<and> pics_ready tr' \<and> line_vector tr' = line_vector tr \<and> (\<forall>n < 16. line_masked tr' n \<longleftrightarrow> n = unat irq \<or> line_masked tr n)"
    using 1(1) L1(1) [of 0] L1(3) [of 0] L1(2) by (auto simp: k_def)
  show "\<exists>tr'. pic_unmask dev irq tr = Ok tr' \<and> pics_ready tr' \<and> line_vector tr' = line_vector tr \<and> (\<forall>n < 16. line_masked tr' n \<longleftrightarrow> n \<noteq> unat irq \<and> line_masked tr n)"
    using 2(1) L2(1) [of 0] L2(3) [of 0] L2(2) by (auto simp: k_def)
qed

section \<open>Set-up of the hardware interrupts\<close>

lemma remap_lines:
  assumes "pic_remap offset1 offset2 tr = Ok tr'" and "n < 16"
  shows "pics_ready tr'" and "line_masked tr' n \<longleftrightarrow> n \<noteq> 2"
    and "line_vector tr' n = unat ((if n < 8 then word_of_int offset1 else word_of_int offset2 :: u8) AND 0xF8) + n mod 8"
proof -
  note c = pic_remap_spec [OF assms(1)]
  show "pics_ready tr'" "line_vector tr' n = unat ((if n < 8 then word_of_int offset1 else word_of_int offset2 :: u8) AND 0xF8) + n mod 8"
    using c by (simp_all add: pics_ready_def line_vector_def)
  have "(\<forall>n < 8. bit (0xFB :: u8) n \<longleftrightarrow> n \<noteq> 2) \<and> (\<forall>n < 8. bit (0xFF :: u8) n)"
    by (simp add: All_less_Suc numeral_eq_Suc bit_0 flip: bit_Suc)
  then show "line_masked tr' n \<longleftrightarrow> n \<noteq> 2"
    unfolding line_masked_chips [OF c] using assms(2) by (cases "n < 8") auto
qed

lemma irq_set_gate_spec:
  assumes "reads_masks dev" "pics_ready tr" "unat irq < 16" "length gates = 256" "isr_table (unat irq + 32) \<noteq> 0"
  shows "\<exists>tr' g. irq_set_gate dev isr_table irq GDT_KERNEL_CODE_SEGMENT NO_IST IDT_INTERRUPT_GATE 0 True (tr, gates) = Ok (tr', gates[unat irq + 32 := g]) \<and>
    pics_ready tr' \<and> line_vector tr' = line_vector tr \<and> (\<forall>n < 16. line_masked tr' n \<longleftrightarrow> n \<noteq> unat irq \<and> line_masked tr n) \<and>
    gate_for g (isr_table (unat irq + 32)) GDT_KERNEL_CODE_SEGMENT NO_IST IDT_INTERRUPT_GATE 0 True"
proof -
  have v: "unat (of_nat (unat irq + 32) :: u8) = unat irq + 32" using assms(3) by (simp add: unat_of_nat del: of_nat_add)
  obtain tr' where t: "pic_unmask dev irq tr = Ok tr'" "pics_ready tr'" "line_vector tr' = line_vector tr"
    "\<forall>n < 16. line_masked tr' n \<longleftrightarrow> n \<noteq> unat irq \<and> line_masked tr n"
    using mask_lines(2) [OF assms(1-3)] by blast
  obtain g where "idt_set_gate (of_nat (unat irq + 32)) (isr_table (unat irq + 32)) GDT_KERNEL_CODE_SEGMENT NO_IST IDT_INTERRUPT_GATE 0 True gates =
      Ok (gates[unat irq + 32 := g])"
    "gate_for g (isr_table (unat irq + 32)) GDT_KERNEL_CODE_SEGMENT NO_IST IDT_INTERRUPT_GATE 0 True"
    using idt_set_gate_spec [OF assms(4), of "isr_table (unat irq + 32)" True GDT_KERNEL_CODE_SEGMENT NO_IST IDT_INTERRUPT_GATE 0 "of_nat (unat irq + 32)"]
      assms(5) unfolding v by (auto simp: GDT_KERNEL_CODE_SEGMENT_def NO_IST_def IDT_INTERRUPT_GATE_def)
  then show ?thesis using t assms(3)
    by (auto simp: irq_set_gate_def isr_set_gate_def IRQ_TO_INTERRUPT_OFFSET_def v [simplified])
qed

lemma irq_init_spec:
  assumes "reads_masks dev" and "length gates = 256" and "isr_table 32 \<noteq> 0" "isr_table 33 \<noteq> 0"
  shows "\<exists>tr' g1 g2. irq_init dev isr_table (tr, gates) = Ok (tr', gates[32 := g1, 33 := g2]) \<and> pics_ready tr' \<and>
    (\<forall>n < 16. line_vector tr' n = 32 + n \<and> (line_masked tr' n \<longleftrightarrow> 2 < n)) \<and>
    gate_for g1 (isr_table 32) GDT_KERNEL_CODE_SEGMENT NO_IST IDT_INTERRUPT_GATE 0 True \<and>
    gate_for g2 (isr_table 33) GDT_KERNEL_CODE_SEGMENT NO_IST IDT_INTERRUPT_GATE 0 True"
proof -
  obtain t0 where r: "pic_remap 32 40 tr = Ok t0" by (simp add: pic_remap_def Let_def)
  note R = remap_lines [OF r]
  have z: "unat (0 :: u8) = 0" "unat (1 :: u8) = 1" by simp_all
  obtain t1 g1 where 1: "irq_set_gate dev isr_table 0 GDT_KERNEL_CODE_SEGMENT NO_IST IDT_INTERRUPT_GATE 0 True (t0, gates) = Ok (t1, gates[32 := g1])"
    "pics_ready t1" "line_vector t1 = line_vector t0" "\<forall>n < 16. line_masked t1 n \<longleftrightarrow> n \<noteq> 0 \<and> line_masked t0 n"
    "gate_for g1 (isr_table 32) GDT_KERNEL_CODE_SEGMENT NO_IST IDT_INTERRUPT_GATE 0 True"
    using irq_set_gate_spec [OF assms(1) R(1) [of 0], where irq = 0 and gates = gates and isr_table = isr_table] assms(2,3) unfolding z by auto
  obtain t2 g2 where 2: "irq_set_gate dev isr_table 1 GDT_KERNEL_CODE_SEGMENT NO_IST IDT_INTERRUPT_GATE 0 True (t1, gates[32 := g1]) = Ok (t2, gates[32 := g1, 33 := g2])"
    "pics_ready t2" "line_vector t2 = line_vector t1" "\<forall>n < 16. line_masked t2 n \<longleftrightarrow> n \<noteq> 1 \<and> line_masked t1 n"
    "gate_for g2 (isr_table 33) GDT_KERNEL_CODE_SEGMENT NO_IST IDT_INTERRUPT_GATE 0 True"
    using irq_set_gate_spec [OF assms(1) 1(2), where irq = 1 and gates = "gates[32 := g1]" and isr_table = isr_table] assms(2,4) unfolding z by auto
  have "line_vector t2 n = 32 + n" if "n < 16" for n
    using R(3) [OF that] that 1(3) 2(3) by (cases "n < 8") (auto simp: vec_base_nat mod_if)
  moreover have "line_masked t2 n \<longleftrightarrow> 2 < n" if "n < 16" for n
    using R(2) [OF that] 1(4) 2(4) that by auto
  moreover have "irq_init dev isr_table (tr, gates) = Ok (t2, gates[32 := g1, 33 := g2])"
    using r 1(1) 2(1) by (simp add: irq_init_def IRQ_TO_INTERRUPT_OFFSET_def)
  ultimately show ?thesis using 1(5) 2(2,5) by blast
qed

text \<open>
  Claim C24. \<^verbatim>\<open>irq_init\<close> on an interrupt table with stubs for the timer and the keyboard succeeds: the sixteen lines raise the vectors 32
  to 47, exactly the timer, the keyboard and the cascade are unmasked, the two gates lead to their stubs with interrupts off, and no
  other gate changes.
\<close>

theorem irq_init_correct:
  assumes "reads_masks dev" and "length gates = 256" and "isr_table 32 \<noteq> 0" "isr_table 33 \<noteq> 0"
  shows "\<exists>tr' gates'. irq_init dev isr_table (tr, gates) = Ok (tr', gates') \<and> pics_ready tr' \<and>
    (\<forall>n < 16. line_vector tr' n = 32 + n \<and> (line_masked tr' n \<longleftrightarrow> 2 < n)) \<and> length gates' = 256 \<and>
    (\<forall>i < 256. if i \<in> {32, 33}
       then gate_offset (gates' ! i) = isr_table i \<and> gate_present (gates' ! i) \<and> gate_type (gates' ! i) = IDT_INTERRUPT_GATE \<and> gate_dpl (gates' ! i) = 0
       else gates' ! i = gates ! i)"
  using irq_init_spec [OF assms, of tr] assms(2) by (auto simp: gate_for_def nth_list_update)

theorem irq_init_correct_witness:
  "\<exists>tr' gates'. irq_init data_sheet (\<lambda>i. 0xFFFFFFFF80010000) ([], gates_boot) = Ok (tr', gates') \<and> line_masked tr' 5"
proof -
  have "length gates_boot = 256" by (simp add: gates_boot_def)
  from irq_init_correct [OF data_sheet_reads this, of "\<lambda>i. 0xFFFFFFFF80010000" "[]"] show ?thesis by force
qed

section \<open>The timer frequency\<close>

text \<open>The value the counter is reloaded with: the last two bytes written to the channel, low byte first; 0 stands for 65536.\<close>

fun pit_reload :: "trace \<Rightarrow> nat option" where
  "pit_reload (OutB p v # tr) = (if p = PIT_CHANNEL0 then
     (case tr of OutB q w # _ \<Rightarrow> if q = PIT_CHANNEL0 then Some (unat w + 256 * unat v) else None | _ \<Rightarrow> None) else pit_reload tr)"
| "pit_reload (_ # tr) = pit_reload tr"
| "pit_reload [] = None"

lemma u16_bytes:
  fixes x :: u16
  shows "unat (ucast (x AND 0xFF) :: u8) + 256 * unat (ucast (drop_bit 8 x) :: u8) = unat x"
proof -
  have x: "unat x < 65536" using unsigned_less [of x, where ?'a = nat] by simp
  have "x AND 0xFF = take_bit 8 x" by (simp add: take_bit_eq_mask mask_eq_exp_minus_1)
  then have "unat (ucast (x AND 0xFF) :: u8) = unat x mod 256"
    by (simp add: unsigned_ucast_eq unsigned_take_bit_eq take_bit_eq_mod unat_mod)
  moreover have "unat (ucast (drop_bit 8 x) :: u8) = unat x div 256"
    using x by (simp add: unsigned_ucast_eq unsigned_drop_bit_eq take_bit_eq_mod drop_bit_eq_div unat_div)
  ultimately show ?thesis by simp
qed

lemma pit_set_freq_reload:
  assumes "hz \<noteq> 0"
  shows "\<exists>tr'. pit_set_freq hz tr = Ok tr' \<and> pit_reload tr' = Some (1193182 div unat hz mod 65536)"
proof -
  have "unat (ucast (1193182 div hz) :: u16) = 1193182 div unat hz mod 65536"
    by (simp add: unsigned_ucast_eq take_bit_eq_mod unat_div)
  then show ?thesis using assms
    by (simp add: pit_set_freq_def Let_def io_wait_def outb_def PIT_CHANNEL0_def PIT_COMMAND_def u16_bytes)
qed

lemma pit_in_range:
  assumes "19 \<le> n" "n \<le> 1193182"
  shows "1193182 div n < (65536 :: nat)" and "1 \<le> 1193182 div n" and "n * (1193182 div n) \<le> 1193182" and "1193182 < n * (1193182 div n + 1)"
proof -
  have "1193182 div n \<le> 1193182 div 19" using assms(1) by (intro div_le_mono2) simp_all
  then show "1193182 div n < 65536" by simp
  show "1 \<le> 1193182 div n" using div_le_mono [OF assms(2), of n] assms(1) by simp
  show "n * (1193182 div n) \<le> 1193182" "1193182 < n * (1193182 div n + 1)"
    using assms(1) mult_div_mod_eq [of n 1193182] mod_less_divisor [of n 1193182] by (simp_all, linarith)
qed

lemma pit_out_of_range:
  assumes "1 \<le> n" "n \<le> 18"
  shows "0 < 1193182 div n mod 65536 \<and> 1193182 div n mod 65536 < 1193182 div n \<and> 18 * (1193182 div n mod 65536) < (1193182 :: nat)"
proof -
  have "n \<in> set [1..<19]" using assms by auto
  moreover have "list_all (\<lambda>n. 0 < 1193182 div n mod 65536 \<and> 1193182 div n mod 65536 < 1193182 div n \<and> 18 * (1193182 div n mod 65536) < (1193182 :: nat)) [1..<19]"
    by (simp add: upt_rec numeral_2_eq_2 [symmetric])
  ultimately show ?thesis unfolding list_all_iff by blast
qed

text \<open>
  Claim C25. For every frequency from 19 Hz to the base frequency \<^verbatim>\<open>pit_set_freq\<close> programs a reload value between 1 and 65535, the largest one whose
  tick rate is at least the requested frequency. For 1 to 18 Hz the divisor does not fit its 16 bits and is silently truncated: the timer is
  programmed to tick more than 18 times a second, faster than requested. A frequency of zero divides by zero.
\<close>

theorem pit_set_freq_bounds:
  "pit_set_freq 0 tr = Err Undefined \<and>
   (1 \<le> unat hz \<and> unat hz \<le> 1193182 \<longrightarrow> (\<exists>tr' d. pit_set_freq hz tr = Ok tr' \<and> pit_reload tr' = Some d \<and> 1 \<le> d \<and> d \<le> 65535 \<and>
      (if 19 \<le> unat hz then unat hz * d \<le> 1193182 \<and> 1193182 < unat hz * (d + 1) else d < 1193182 div unat hz \<and> 18 * d < 1193182)))"
proof (intro conjI impI)
  assume a: "1 \<le> unat hz \<and> unat hz \<le> 1193182"
  then have "hz \<noteq> 0" by auto
  from pit_set_freq_reload [OF this, of tr] obtain tr' where t: "pit_set_freq hz tr = Ok tr'" "pit_reload tr' = Some (1193182 div unat hz mod 65536)" by blast
  show "\<exists>tr' d. pit_set_freq hz tr = Ok tr' \<and> pit_reload tr' = Some d \<and> 1 \<le> d \<and> d \<le> 65535 \<and>
      (if 19 \<le> unat hz then unat hz * d \<le> 1193182 \<and> 1193182 < unat hz * (d + 1) else d < 1193182 div unat hz \<and> 18 * d < 1193182)"
  proof (cases "19 \<le> unat hz")
    case True
    then show ?thesis using t pit_in_range [OF True] a by auto
  next
    case False
    then show ?thesis using t pit_out_of_range [of "unat hz"] a by auto
  qed
qed (simp add: pit_set_freq_def)

theorem pit_set_freq_bounds_witness:
  "(\<exists>tr' d. pit_set_freq 1024 [] = Ok tr' \<and> pit_reload tr' = Some d \<and> 1024 * d \<le> 1193182) \<and>
   (\<exists>tr' d. pit_set_freq 18 [] = Ok tr' \<and> pit_reload tr' = Some d \<and> d < 66287)"
proof
  show "\<exists>tr' d. pit_set_freq 1024 [] = Ok tr' \<and> pit_reload tr' = Some d \<and> 1024 * d \<le> 1193182"
    using pit_set_freq_bounds [of "[]" 1024] by fastforce
  show "\<exists>tr' d. pit_set_freq 18 [] = Ok tr' \<and> pit_reload tr' = Some d \<and> d < 66287"
    using pit_set_freq_bounds [of "[]" 18] by fastforce
qed

end
