(* ===== verification/Sched.thy ===== *)
theory Sched
  imports Mem_Init Port_Io
begin

text \<open>
  Tasks and the scheduler: \<^verbatim>\<open>sched/task.h\<close>, \<^verbatim>\<open>sched/sched.c\<close>, the register frame of \<^verbatim>\<open>arch/x86/interrupt.h\<close>, and the dispatch of interrupts
  (\<^verbatim>\<open>__isr_dispatch\<close>, \<^verbatim>\<open>irq_dispatch\<close>). A \<^verbatim>\<open>struct task*\<close> is the index of the task in \<^verbatim>\<open>tasks\<close>.
\<close>

section \<open>State\<close>

record regs =
  reg_rax :: u64
  reg_rbx :: u64
  reg_rcx :: u64
  reg_rdx :: u64
  reg_rsi :: u64
  reg_rdi :: u64
  reg_rbp :: u64
  reg_r8 :: u64
  reg_r9 :: u64
  reg_r10 :: u64
  reg_r11 :: u64
  reg_r12 :: u64
  reg_r13 :: u64
  reg_r4 :: u64
  reg_r15 :: u64
  vector_id :: u64
  error_code :: u64
  reg_rip :: u64
  reg_cs :: u64
  reg_rflags :: u64
  reg_rsp :: u64
  reg_ss :: u64

datatype task_state = TASK_FREE | TASK_INIT | TASK_RUNNING | TASK_DEAD

record task =
  pid :: u64
  t_state :: task_state
  ctx :: regs
  vmem :: u64
  t_pages :: "nat option"
  vtime :: u64
  priority :: u32

record sched =
  tasks :: "task list"
  next_pid :: u64
  current :: "nat option"
  clock :: u64
  s_mem :: kmem

definition TASK_SLOTS :: nat where "TASK_SLOTS = 16"

definition zero_regs :: regs where
  "zero_regs = \<lparr>reg_rax = 0, reg_rbx = 0, reg_rcx = 0, reg_rdx = 0, reg_rsi = 0, reg_rdi = 0, reg_rbp = 0, reg_r8 = 0, reg_r9 = 0,
     reg_r10 = 0, reg_r11 = 0, reg_r12 = 0, reg_r13 = 0, reg_r4 = 0, reg_r15 = 0, vector_id = 0, error_code = 0, reg_rip = 0,
     reg_cs = 0, reg_rflags = 0, reg_rsp = 0, reg_ss = 0\<rparr>"

definition zero_task :: task where
  "zero_task = \<lparr>pid = 0, t_state = TASK_FREE, ctx = zero_regs, vmem = 0, t_pages = None, vtime = 0, priority = 0\<rparr>"

definition sched_boot :: "kmem \<Rightarrow> sched" where
  "sched_boot st = \<lparr>tasks = replicate TASK_SLOTS zero_task, next_pid = 0, current = None, clock = 0, s_mem = st\<rparr>"

definition task_upd :: "nat \<Rightarrow> (task \<Rightarrow> task) \<Rightarrow> sched \<Rightarrow> sched" where
  "task_upd i f s = s\<lparr>tasks := (tasks s)[i := f (tasks s ! i)]\<rparr>"

section \<open>Operations on tasks\<close>

definition get_free_slot :: "sched \<Rightarrow> nat option" where
  "get_free_slot s = find (\<lambda>i. t_state (tasks s ! i) = TASK_FREE) [0..<TASK_SLOTS]"

definition create_task :: "tables \<Rightarrow> e820_entry list \<Rightarrow> u32 \<Rightarrow> sched \<Rightarrow> (nat option \<times> sched) kres" where
  "create_task ts es prio s =
     (case get_free_slot s of None \<Rightarrow> Ok (None, s)
      | Some i \<Rightarrow> rbind (vmm_create_user_pml4 ts es (s_mem s)) (\<lambda>(pml4, st).
          let s1 = task_upd i (\<lambda>t. t\<lparr>vmem := pml4\<rparr>) (s\<lparr>s_mem := st\<rparr>)
          in if pml4 = 0 then Ok (None, s1)
             else let s2 = task_upd i (\<lambda>t. t\<lparr>ctx := (ctx t)\<lparr>reg_rflags := 0x202, reg_cs := ucast (GDT_USER_CODE_SEGMENT OR 3),
                                                       reg_ss := ucast (GDT_USER_DATA_SEGMENT OR 3)\<rparr>,
                                           priority := prio, pid := next_pid s, t_state := TASK_INIT\<rparr>) s1
                  in Ok (Some i, s2\<lparr>next_pid := next_pid s + 1\<rparr>)))"

definition run_task :: "nat \<Rightarrow> u64 \<Rightarrow> u64 \<Rightarrow> sched \<Rightarrow> sched" where
  "run_task i entry stack_top =
     task_upd i (\<lambda>t. t\<lparr>ctx := (ctx t)\<lparr>reg_rip := entry, reg_rsp := stack_top\<rparr>, t_state := TASK_RUNNING\<rparr>)"

definition task_alloc_pages :: "nat \<Rightarrow> nat \<Rightarrow> sched \<Rightarrow> (nat option \<times> sched) kres" where
  "task_alloc_pages i ord s =
     rbind (alloc_pages (k_bd (s_mem s)) ord) (\<lambda>(page, bd).
       case page of None \<Rightarrow> Ok (None, s\<lparr>s_mem := (s_mem s)\<lparr>k_bd := bd\<rparr>\<rparr>)
       | Some p \<Rightarrow>
           let pages = t_pages (tasks s ! i)
           in rbind (page_write p (\<lambda>q. q\<lparr>pg_next := pages, pg_prev := None\<rparr>) bd) (\<lambda>bd1.
              rbind (case pages of None \<Rightarrow> Ok bd1 | Some n \<Rightarrow> page_write n (\<lambda>q. q\<lparr>pg_prev := Some p\<rparr>) bd1) (\<lambda>bd2.
                Ok (Some p, task_upd i (\<lambda>t. t\<lparr>t_pages := Some p\<rparr>) (s\<lparr>s_mem := (s_mem s)\<lparr>k_bd := bd2\<rparr>\<rparr>)))))"

section \<open>The scheduler\<close>

definition save_current :: "regs \<Rightarrow> sched \<Rightarrow> sched" where
  "save_current r s = (case current s of None \<Rightarrow> s
     | Some c \<Rightarrow> task_upd c (\<lambda>t. t\<lparr>ctx := r, vtime := vtime t + ucast (priority t)\<rparr>) s)"

definition pick_step :: "task list \<Rightarrow> nat \<Rightarrow> u64 \<times> nat option \<Rightarrow> u64 \<times> nat option" where
  "pick_step ts i = (\<lambda>(min_vtime, cur).
     if t_state (ts ! i) \<noteq> TASK_RUNNING \<or> vtime (ts ! i) \<ge> min_vtime then (min_vtime, cur) else (vtime (ts ! i), Some i))"

text \<open>\<^verbatim>\<open>UINT64_MAX\<close> is \<open>-1\<close>.\<close>

definition pick_task :: "task list \<Rightarrow> nat option \<Rightarrow> u64 \<times> nat option" where
  "pick_task ts cur = fold (pick_step ts) [0..<TASK_SLOTS] (-1, cur)"

definition rebase_vtimes :: "u64 \<Rightarrow> task list \<Rightarrow> task list" where
  "rebase_vtimes m ts = map (\<lambda>t. if t_state t = TASK_RUNNING then t\<lparr>vtime := vtime t - m\<rparr> else t) ts"

text \<open>The statistics line printed every 1024 ticks is output only.\<close>

definition schedule :: "regs \<Rightarrow> sched \<Rightarrow> regs \<times> sched" where
  "schedule r s =
     (let s1 = save_current r s;
          (min_vtime, cur) = pick_task (tasks s1) (current s1)
      in case cur of None \<Rightarrow> (r, s1)
         | Some c \<Rightarrow>
             let ts = rebase_vtimes min_vtime (tasks s1);
                 clk = clock s1 + 1
             in (ctx (ts ! c),
                 s1\<lparr>tasks := ts, current := Some c, clock := (if clk \<ge> 1024 then 0 else clk),
                    s_mem := vmm_set_table (vmem (ts ! c)) (s_mem s1)\<rparr>))"

section \<open>Interrupt dispatch\<close>

definition irq_dispatch :: "regs \<Rightarrow> sched \<times> trace \<Rightarrow> regs \<times> sched \<times> trace" where
  "irq_dispatch r = (\<lambda>(s, tr).
     let (r', s') = schedule r s
     in (r', s', pic_send_EOI (ucast (vector_id r' - of_nat IRQ_TO_INTERRUPT_OFFSET)) tr))"

definition isr_dispatch :: "regs \<Rightarrow> sched \<times> trace \<Rightarrow> (regs \<times> sched \<times> trace) kres" where
  "isr_dispatch r st =
     (if vector_id r < 32 then Err (Panic ''Unhandled exception with vector ID'')
      else if vector_id r < 256 then Ok (irq_dispatch r st)
      else Err (Panic ''IST dispatch received invalid vector ID''))"

end
