(* ===== verification/Sched_Correct.thy ===== *)
theory Sched_Correct
  imports Sched
begin

text \<open>
  Correctness of the scheduler of \<^verbatim>\<open>sched/sched.c\<close>: the invariant of the task table under every sequence of operations, what one call of
  \<^verbatim>\<open>schedule\<close> does, and that no running task starves.
\<close>

section \<open>Picking a task\<close>

abbreviation running :: "task list \<Rightarrow> nat \<Rightarrow> bool" where
  "running ts i \<equiv> t_state (ts ! i) = TASK_RUNNING"

definition first_min :: "task list \<Rightarrow> nat \<Rightarrow> nat \<Rightarrow> bool" where
  "first_min ts n k \<longleftrightarrow> k < n \<and> running ts k \<and> (\<forall>i < n. running ts i \<longrightarrow> vtime (ts ! k) \<le> vtime (ts ! i)) \<and>
     (\<forall>i < k. running ts i \<longrightarrow> vtime (ts ! k) < vtime (ts ! i))"

lemma pick_step_eq:
  "pick_step ts i (m, c) = (if \<not> running ts i \<or> vtime (ts ! i) \<ge> m then (m, c) else (vtime (ts ! i), Some i))"
  by (simp add: pick_step_def)

lemma pick_fold:
  assumes "\<And>i. i < n \<Longrightarrow> running ts i \<Longrightarrow> vtime (ts ! i) < -1"
  shows "(\<exists>k. first_min ts n k \<and> fold (pick_step ts) [0..<n] (-1, cur) = (vtime (ts ! k), Some k)) \<or>
    (\<forall>i < n. \<not> running ts i) \<and> fold (pick_step ts) [0..<n] (-1, cur) = (-1, cur)"
  using assms
proof (induction n)
  case (Suc n)
  from Suc have "(\<exists>k. first_min ts n k \<and> fold (pick_step ts) [0..<n] (-1, cur) = (vtime (ts ! k), Some k)) \<or>
    (\<forall>i < n. \<not> running ts i) \<and> fold (pick_step ts) [0..<n] (-1, cur) = (-1, cur)" by simp
  then consider (some) k where "first_min ts n k" "fold (pick_step ts) [0..<n] (-1, cur) = (vtime (ts ! k), Some k)"
    | (none) "\<forall>i < n. \<not> running ts i" "fold (pick_step ts) [0..<n] (-1, cur) = (-1, cur)" by blast
  then show ?case
  proof cases
    case some
    show ?thesis
    proof (cases "running ts n \<and> vtime (ts ! n) < vtime (ts ! k)")
      case True
      then have "first_min ts (Suc n) n" using some(1) by (force simp: first_min_def less_Suc_eq)
      then show ?thesis using True some(2) by (auto simp: pick_step_eq)
    next
      case False
      then have "first_min ts (Suc n) k" using some(1) by (auto simp: first_min_def less_Suc_eq)
      then show ?thesis using False some(2) by (auto simp: pick_step_eq not_less)
    qed
  next
    case none
    show ?thesis
    proof (cases "running ts n")
      case True
      then have "first_min ts (Suc n) n" using none(1) by (auto simp: first_min_def less_Suc_eq)
      moreover have "\<not> vtime (ts ! n) \<ge> -1" using Suc.prems [of n] True by simp
      ultimately show ?thesis using True none(2) by (auto simp: pick_step_eq)
    qed (use none in \<open>auto simp: pick_step_eq less_Suc_eq\<close>)
  qed
qed simp

lemmas pick_task_cases = pick_fold [where n = TASK_SLOTS, folded pick_task_def]

section \<open>The invariant\<close>

text \<open>Registers of interrupted user code: user selectors, and interrupts enabled, which user code cannot change.\<close>

definition user_mode :: "regs \<Rightarrow> bool" where
  "user_mode r \<longleftrightarrow> reg_cs r = ucast (GDT_USER_CODE_SEGMENT OR 3) \<and> reg_ss r = ucast (GDT_USER_DATA_SEGMENT OR 3) \<and> bit (reg_rflags r) 9"

definition used :: "sched \<Rightarrow> nat set" where
  "used s = {i. i < TASK_SLOTS \<and> t_state (tasks s ! i) \<noteq> TASK_FREE}"

definition task_ok :: "task \<Rightarrow> bool" where
  "task_ok t \<longleftrightarrow> unat (vtime t) < 2 ^ 32 \<and> (t_state t \<noteq> TASK_RUNNING \<longrightarrow> vtime t = 0) \<and> (t_state t \<noteq> TASK_FREE \<longrightarrow> user_mode (ctx t) \<and> vmem t \<noteq> 0)"

definition sched_inv :: "sched \<Rightarrow> bool" where
  "sched_inv s \<longleftrightarrow> length (tasks s) = TASK_SLOTS \<and> (\<forall>i < TASK_SLOTS. task_ok (tasks s ! i)) \<and>
     (\<forall>c. current s = Some c \<longrightarrow> c < TASK_SLOTS \<and> running (tasks s) c \<and> vtime (tasks s ! c) = 0) \<and>
     unat (next_pid s) = card (used s) \<and> inj_on (\<lambda>i. pid (tasks s ! i)) (used s) \<and> (\<forall>i \<in> used s. pid (tasks s ! i) < next_pid s) \<and>
     unat (clock s) < 1024"

section \<open>One call of the scheduler\<close>

text \<open>The virtual time of a task after the running task has been charged for the time slice that ends.\<close>

definition charged :: "sched \<Rightarrow> nat \<Rightarrow> nat" where
  "charged s i = unat (vtime (tasks s ! i)) + (if current s = Some i then unat (priority (tasks s ! i)) else 0)"

text \<open>The effect of \<^verbatim>\<open>schedule\<close> on the tasks when task \<open>c\<close> is picked.\<close>

definition switched :: "regs \<Rightarrow> sched \<Rightarrow> nat \<Rightarrow> nat \<Rightarrow> task" where
  "switched r s c i = (let t = tasks s ! i in
     t\<lparr>ctx := (if current s = Some i then r else ctx t), vtime := (if running (tasks s) i then of_nat (charged s i - charged s c) else vtime t)\<rparr>)"

lemma u32_max: "unat (p :: u32) < 2 ^ 32"
  using unsigned_less [of p, where ?'a = nat] by simp

lemma below_max: "unat (v :: u64) < 2 ^ 32 \<Longrightarrow> v < -1"
  by (simp add: word_less_nat_alt unsigned_minus_1_eq_mask mask_eq_exp_minus_1)

lemma unat_of_nat32: "k < 2 ^ 32 \<Longrightarrow> unat (of_nat k :: u64) = k"
  by (simp add: unat_of_nat)

lemma charged_less: "sched_inv s \<Longrightarrow> i < TASK_SLOTS \<Longrightarrow> charged s i < 2 ^ 32"
  using u32_max [of "priority (tasks s ! i)"] by (auto simp: charged_def sched_inv_def task_ok_def)

lemma save_current_tasks:
  assumes "sched_inv s" "i < TASK_SLOTS"
  defines "t \<equiv> tasks s ! i"
  shows "tasks (save_current r s) ! i = t\<lparr>ctx := (if current s = Some i then r else ctx t), vtime := of_nat (charged s i)\<rparr>"
    and "unat (vtime (tasks (save_current r s) ! i)) = charged s i"
proof -
  have c: "charged s i < 2 ^ 32" by (rule charged_less [OF assms(1,2)])
  show e: "tasks (save_current r s) ! i = t\<lparr>ctx := (if current s = Some i then r else ctx t), vtime := of_nat (charged s i)\<rparr>"
    using assms(1,2) by (auto simp: t_def save_current_def task_upd_def charged_def sched_inv_def split: option.split)
  have "unat (of_nat (charged s i) :: u64) = charged s i" using c by (simp add: unat_of_nat)
  then show "unat (vtime (tasks (save_current r s) ! i)) = charged s i" unfolding e by simp
qed

lemma save_current_fields [simp]:
  "current (save_current r s) = current s" "next_pid (save_current r s) = next_pid s" "clock (save_current r s) = clock s"
  "s_mem (save_current r s) = s_mem s" "length (tasks (save_current r s)) = length (tasks s)"
  by (simp_all add: save_current_def task_upd_def split: option.split)

text \<open>A running task exists: the next task is the first of those with the least charged time.\<close>

definition picks :: "sched \<Rightarrow> nat \<Rightarrow> bool" where
  "picks s c \<longleftrightarrow> c < TASK_SLOTS \<and> running (tasks s) c \<and> (\<forall>i < TASK_SLOTS. running (tasks s) i \<longrightarrow> charged s c \<le> charged s i) \<and>
     (\<forall>i < c. running (tasks s) i \<longrightarrow> charged s c < charged s i)"

lemma schedule_spec:
  assumes inv: "sched_inv s" and ex: "\<exists>i < TASK_SLOTS. running (tasks s) i"
  shows "\<exists>c. picks s c \<and> schedule r s = (ctx (switched r s c c),
     s\<lparr>tasks := map (switched r s c) [0..<TASK_SLOTS], current := Some c, clock := (if clock s + 1 \<ge> 1024 then 0 else clock s + 1),
       s_mem := vmm_set_table (vmem (tasks s ! c)) (s_mem s)\<rparr>)"
proof -
  define s1 where "s1 = save_current r s"
  note S = save_current_tasks [OF inv, of _ r, folded s1_def]
  have len: "length (tasks s) = TASK_SLOTS" using inv by (simp add: sched_inv_def)
  have st: "t_state (tasks s1 ! i) = t_state (tasks s ! i)" if "i < TASK_SLOTS" for i using S(1) [OF that] by simp
  have lt: "vtime (tasks s1 ! i) < -1" if "i < TASK_SLOTS" for i
    using S(2) [OF that] charged_less [OF inv that] by (intro below_max) simp
  have ex1: "\<not> (\<forall>i < TASK_SLOTS. \<not> running (tasks s1) i)" using ex st by auto
  obtain c where fm: "first_min (tasks s1) TASK_SLOTS c" and p: "pick_task (tasks s1) (current s1) = (vtime (tasks s1 ! c), Some c)"
    using pick_task_cases [of "tasks s1" "current s1", OF lt] ex1 by blast
  have c: "c < TASK_SLOTS" using fm by (simp add: first_min_def)
  have vle: "vtime (tasks s1 ! i) \<le> vtime (tasks s1 ! j) \<longleftrightarrow> charged s i \<le> charged s j" if "i < TASK_SLOTS" "j < TASK_SLOTS" for i j
    using S(2) [OF that(1)] S(2) [OF that(2)] by (simp add: word_le_nat_alt)
  have vlt: "vtime (tasks s1 ! i) < vtime (tasks s1 ! j) \<longleftrightarrow> charged s i < charged s j" if "i < TASK_SLOTS" "j < TASK_SLOTS" for i j
    using S(2) [OF that(1)] S(2) [OF that(2)] by (simp add: word_less_nat_alt)
  have pk: "picks s c" using fm c by (auto simp: picks_def first_min_def st vle vlt)
  have "rebase_vtimes (vtime (tasks s1 ! c)) (tasks s1) = map (switched r s c) [0..<TASK_SLOTS]"
  proof (rule nth_equalityI)
    fix i assume "i < length (rebase_vtimes (vtime (tasks s1 ! c)) (tasks s1))"
    then have i: "i < TASK_SLOTS" by (simp add: rebase_vtimes_def s1_def len)
    have "rebase_vtimes (vtime (tasks s1 ! c)) (tasks s1) ! i = switched r s c i"
    proof (cases "running (tasks s) i")
      case True
      then have "charged s c \<le> charged s i" using pk i by (simp add: picks_def)
      then have "vtime (tasks s1 ! i) - vtime (tasks s1 ! c) = of_nat (charged s i - charged s c)"
        using S(1) [OF i] S(1) [OF c] by (simp add: of_nat_diff)
      then show ?thesis using True i S(1) [OF i] st [OF i] by (simp add: rebase_vtimes_def s1_def len switched_def Let_def)
    next
      case False
      then have "vtime (tasks s ! i) = 0" "current s \<noteq> Some i" using inv i by (auto simp: sched_inv_def task_ok_def)
      then show ?thesis using False i S(1) [OF i] st [OF i] by (simp add: rebase_vtimes_def s1_def len switched_def Let_def charged_def)
    qed
    then show "rebase_vtimes (vtime (tasks s1 ! c)) (tasks s1) ! i = map (switched r s c) [0..<TASK_SLOTS] ! i" using i by simp
  qed (simp add: rebase_vtimes_def s1_def len)
  then have "schedule r s = (ctx (map (switched r s c) [0..<TASK_SLOTS] ! c),
     s1\<lparr>tasks := map (switched r s c) [0..<TASK_SLOTS], current := Some c, clock := (if clock s + 1 \<ge> 1024 then 0 else clock s + 1),
       s_mem := vmm_set_table (vmem (map (switched r s c) [0..<TASK_SLOTS] ! c)) (s_mem s)\<rparr>)"
    unfolding schedule_def s1_def [symmetric] Let_def p by (simp add: s1_def)
  moreover have "s1\<lparr>tasks := ts\<rparr> = s\<lparr>tasks := ts\<rparr>" for ts by (simp add: s1_def save_current_def task_upd_def split: option.split)
  ultimately show ?thesis using pk c by (intro exI [of _ c]) (simp add: switched_def Let_def)
qed

lemma schedule_idle:
  assumes "sched_inv s" "\<forall>i < TASK_SLOTS. \<not> running (tasks s) i"
  shows "schedule r s = (r, s)"
proof -
  have "current s = None" using assms by (cases "current s") (auto simp: sched_inv_def)
  then show ?thesis using pick_task_cases [of "tasks s" "current s"] assms(2)
    by (auto simp: schedule_def save_current_def first_min_def)
qed

section \<open>Preservation\<close>

lemma used_cong:
  assumes "\<And>i. i < TASK_SLOTS \<Longrightarrow> (t_state (tasks s' ! i) = TASK_FREE) = (t_state (tasks s ! i) = TASK_FREE)"
  shows "used s' = used s"
  using assms by (auto simp: used_def)

lemma sched_inv_tasks:
  assumes "sched_inv s" and "length (tasks s') = TASK_SLOTS" and "next_pid s' = next_pid s" and "unat (clock s') < 1024"
    and t: "\<And>i. i < TASK_SLOTS \<Longrightarrow> task_ok (tasks s' ! i) \<and> pid (tasks s' ! i) = pid (tasks s ! i) \<and>
      (t_state (tasks s' ! i) = TASK_FREE) = (t_state (tasks s ! i) = TASK_FREE)"
    and "\<And>c. current s' = Some c \<Longrightarrow> c < TASK_SLOTS \<and> running (tasks s') c \<and> vtime (tasks s' ! c) = 0"
  shows "sched_inv s'"
proof -
  have u: "used s' = used s" using t by (intro used_cong) blast
  have p: "pid (tasks s' ! i) = pid (tasks s ! i)" if "i \<in> used s" for i using t that by (simp add: used_def)
  have "inj_on (\<lambda>i. pid (tasks s' ! i)) (used s)"
    using assms(1) p unfolding sched_inv_def by (auto simp: inj_on_def)
  then show ?thesis using assms u p unfolding sched_inv_def by auto
qed

lemma task_upd_nth: "length (tasks s) = TASK_SLOTS \<Longrightarrow> j < TASK_SLOTS \<Longrightarrow> tasks (task_upd i f s) ! j = (if j = i then f (tasks s ! i) else tasks s ! j)"
  by (simp add: task_upd_def nth_list_update)

lemma task_upd_fields [simp]:
  "current (task_upd i f s) = current s" "next_pid (task_upd i f s) = next_pid s" "clock (task_upd i f s) = clock s"
  "s_mem (task_upd i f s) = s_mem s" "length (tasks (task_upd i f s)) = length (tasks s)"
  by (simp_all add: task_upd_def)

lemma task_upd_inv:
  assumes inv: "sched_inv s" and "i < TASK_SLOTS"
    and f: "task_ok (f (tasks s ! i))" "pid (f (tasks s ! i)) = pid (tasks s ! i)"
      "(t_state (f (tasks s ! i)) = TASK_FREE) = (t_state (tasks s ! i) = TASK_FREE)"
      "running (tasks s) i \<Longrightarrow> t_state (f (tasks s ! i)) = TASK_RUNNING \<and> vtime (f (tasks s ! i)) = vtime (tasks s ! i)"
  shows "sched_inv (task_upd i f s)"
proof -
  have len: "length (tasks s) = TASK_SLOTS" using inv by (simp add: sched_inv_def)
  show ?thesis
    by (rule sched_inv_tasks [OF inv]) (use inv f len in \<open>auto simp: task_upd_nth sched_inv_def\<close>)
qed

lemma s_mem_inv [simp]: "sched_inv (s\<lparr>s_mem := m\<rparr>) = sched_inv s"
  by (simp add: sched_inv_def used_def)

lemma free_slotD:
  assumes "get_free_slot s = Some i"
  shows "i < TASK_SLOTS" "t_state (tasks s ! i) = TASK_FREE"
  using assms by (auto simp: get_free_slot_def find_Some_iff)

lemma used_card: "card (used s) \<le> TASK_SLOTS" "finite (used s)"
proof -
  have "used s \<subseteq> {..<TASK_SLOTS}" by (auto simp: used_def)
  then show "card (used s) \<le> TASK_SLOTS" "finite (used s)" using card_mono [of "{..<TASK_SLOTS}" "used s"] finite_subset by auto
qed

lemma claim_slot_inv:
  assumes inv: "sched_inv s" and i: "i < TASK_SLOTS" "t_state (tasks s ! i) = TASK_FREE"
    and f: "t_state (f (tasks s ! i)) = TASK_INIT" "task_ok (f (tasks s ! i))" "pid (f (tasks s ! i)) = next_pid s"
  shows "sched_inv ((task_upd i f s)\<lparr>next_pid := next_pid s + 1\<rparr>)"
proof -
  let ?s = "(task_upd i f s)\<lparr>next_pid := next_pid s + 1\<rparr>"
  have len: "length (tasks s) = TASK_SLOTS" using inv by (simp add: sched_inv_def)
  have nth: "tasks (task_upd i f s) ! j = (if j = i then f (tasks s ! i) else tasks s ! j)" if "j < TASK_SLOTS" for j
    by (rule task_upd_nth [OF len that])
  have u: "used ?s = insert i (used s)" and iu: "i \<notin> used s" using i f(1) nth by (auto simp: used_def split: if_splits)
  have np: "unat (next_pid s) = card (used s)" "\<forall>j \<in> used s. pid (tasks s ! j) < next_pid s" "inj_on (\<lambda>j. pid (tasks s ! j)) (used s)"
    using inv by (simp_all add: sched_inv_def)
  have n1: "unat (next_pid s + 1) = Suc (card (used s))" using np(1) used_card(1) [of s] by (subst unat_add_lt) (simp_all add: TASK_SLOTS_def)
  have pids: "pid (tasks (task_upd i f s) ! j) = (if j = i then next_pid s else pid (tasks s ! j))" if "j \<in> insert i (used s)" for j
    using that i nth f(3) by (auto simp: used_def)
  have lt: "next_pid s < next_pid s + 1" using n1 np(1) by (simp add: word_less_nat_alt)
  have "inj_on (\<lambda>j. pid (tasks (task_upd i f s) ! j)) (insert i (used s))"
    using np(2,3) iu by (auto simp: inj_on_def pids)
  moreover have "\<forall>j \<in> insert i (used s). pid (tasks (task_upd i f s) ! j) < next_pid s + 1"
    using np(2) lt by (auto simp: pids)
  moreover have "\<And>c. current s = Some c \<Longrightarrow> c \<noteq> i" using inv i(2) by (auto simp: sched_inv_def)
  ultimately show ?thesis unfolding sched_inv_def u using inv len nth f(2) n1 iu used_card(2) [of s]
    by (auto simp: sched_inv_def)
qed

lemma create_task_inv:
  assumes inv: "sched_inv s" and r: "create_task ts es prio s = Ok (x, s')"
  shows "sched_inv s'"
proof (cases "get_free_slot s")
  case None
  then show ?thesis using r inv by (simp add: create_task_def)
next
  case (Some i)
  note i = free_slotD [OF Some]
  obtain pml4 st where v: "vmm_create_user_pml4 ts es (s_mem s) = Ok (pml4, st)"
    using r Some by (auto simp: create_task_def)
  define s1 where "s1 = task_upd i (\<lambda>t. t\<lparr>vmem := pml4\<rparr>) (s\<lparr>s_mem := st\<rparr>)"
  have len: "length (tasks s) = TASK_SLOTS" using inv by (simp add: sched_inv_def)
  have ok: "task_ok (tasks s ! i)" using inv i(1) by (simp add: sched_inv_def)
  have s1: "sched_inv s1" unfolding s1_def
    by (rule task_upd_inv) (use inv i ok in \<open>auto simp: task_ok_def\<close>)
  have t1: "tasks s1 ! i = (tasks s ! i)\<lparr>vmem := pml4\<rparr>" using i(1) len by (simp add: s1_def task_upd_nth)
  show ?thesis
  proof (cases "pml4 = 0")
    case True
    then show ?thesis using r Some v s1 by (auto simp: create_task_def s1_def)
  next
    case False
    define f where "f = (\<lambda>t :: task. t\<lparr>ctx := (ctx t)\<lparr>reg_rflags := 0x202, reg_cs := ucast (GDT_USER_CODE_SEGMENT OR 3),
      reg_ss := ucast (GDT_USER_DATA_SEGMENT OR 3)\<rparr>, priority := prio, pid := next_pid s, t_state := TASK_INIT\<rparr>)"
    have np: "next_pid s1 = next_pid s" by (simp add: s1_def)
    have "s' = (task_upd i f s1)\<lparr>next_pid := next_pid s1 + 1\<rparr>"
      using r Some v False unfolding np f_def s1_def by (simp add: create_task_def Let_def)
    moreover have "task_ok (f (tasks s1 ! i))" "t_state (f (tasks s1 ! i)) = TASK_INIT" "pid (f (tasks s1 ! i)) = next_pid s1"
      using ok i False by (simp_all add: t1 f_def np task_ok_def user_mode_def)
    ultimately show ?thesis using claim_slot_inv [OF s1 i(1), of f] i(2) by (simp add: t1)
  qed
qed

lemma run_task_inv:
  assumes "sched_inv s" "i < TASK_SLOTS" "t_state (tasks s ! i) \<noteq> TASK_FREE"
  shows "sched_inv (run_task i entry stack_top s)"
proof -
  have "task_ok (tasks s ! i)" using assms(1,2) by (simp add: sched_inv_def)
  then show ?thesis unfolding run_task_def
    by (intro task_upd_inv assms(1,2)) (use assms(3) in \<open>auto simp: task_ok_def user_mode_def\<close>)
qed

lemma task_alloc_pages_inv:
  assumes inv: "sched_inv s" and i: "i < TASK_SLOTS" and r: "task_alloc_pages i ord s = Ok (x, s')"
  shows "sched_inv s'"
proof -
  have ok: "task_ok (tasks s ! i)" using inv i by (simp add: sched_inv_def)
  have u: "sched_inv (task_upd i (\<lambda>t. t\<lparr>t_pages := p\<rparr>) (s\<lparr>s_mem := m\<rparr>))" for p m
    by (intro task_upd_inv i) (use inv ok in \<open>simp_all add: task_ok_def\<close>)
  obtain page bd where a: "alloc_pages (k_bd (s_mem s)) ord = Ok (page, bd)" using r by (auto simp: task_alloc_pages_def)
  show ?thesis
  proof (cases page)
    case None
    then show ?thesis using r a inv by (auto simp: task_alloc_pages_def)
  next
    case (Some p)
    then show ?thesis using r a u by (auto simp: task_alloc_pages_def Let_def)
  qed
qed

lemma clock_step: "unat c < 1024 \<Longrightarrow> unat (if c + 1 \<ge> 1024 then 0 else c + 1 :: u64) < 1024"
  by (auto simp: word_le_nat_alt not_le)

lemma schedule_inv:
  assumes inv: "sched_inv s" and r: "user_mode r"
  shows "sched_inv (snd (schedule r s))" and "user_mode (fst (schedule r s))"
proof -
  consider "\<exists>i < TASK_SLOTS. running (tasks s) i" | "\<forall>i < TASK_SLOTS. \<not> running (tasks s) i" by blast
  then have "sched_inv (snd (schedule r s)) \<and> user_mode (fst (schedule r s))"
  proof cases
    case 1
    obtain c where c: "picks s c" and e: "schedule r s = (ctx (switched r s c c),
       s\<lparr>tasks := map (switched r s c) [0..<TASK_SLOTS], current := Some c, clock := (if clock s + 1 \<ge> 1024 then 0 else clock s + 1),
         s_mem := vmm_set_table (vmem (tasks s ! c)) (s_mem s)\<rparr>)"
      using schedule_spec [OF inv 1] by blast
    have clk: "unat (clock s) < 1024" using inv by (simp add: sched_inv_def)
    have ok: "task_ok (switched r s c i)" if "i < TASK_SLOTS" for i
    proof -
      have "charged s i - charged s c < 2 ^ 32" using charged_less [OF inv that] by simp
      then have "unat (of_nat (charged s i - charged s c) :: u64) < 2 ^ 32" by (simp add: unat_of_nat)
      then show ?thesis using inv that r by (auto simp: sched_inv_def task_ok_def switched_def Let_def)
    qed
    have cc: "c < TASK_SLOTS" "running (tasks s) c" using c by (simp_all add: picks_def)
    have "sched_inv (snd (schedule r s))" unfolding e snd_conv
      by (rule sched_inv_tasks [OF inv]) (use ok cc clock_step [OF clk] in \<open>auto simp: switched_def Let_def\<close>)
    moreover have "user_mode (ctx (switched r s c c))" using ok [OF cc(1)] cc(2) by (simp add: task_ok_def switched_def Let_def)
    ultimately show ?thesis by (simp add: e)
  next
    case 2
    then show ?thesis using schedule_idle [OF inv] inv r by simp
  qed
  then show "sched_inv (snd (schedule r s))" and "user_mode (fst (schedule r s))" by simp_all
qed

section \<open>Sequences of operations\<close>

text \<open>The operations on the task table in any order: the callers start only tasks they created, and ticks interrupt user code.\<close>

inductive sched_step :: "tables \<Rightarrow> e820_entry list \<Rightarrow> sched \<Rightarrow> sched \<Rightarrow> bool" for ts es where
  Create: "create_task ts es prio s = Ok (x, s') \<Longrightarrow> sched_step ts es s s'"
| Run: "i < TASK_SLOTS \<Longrightarrow> t_state (tasks s ! i) \<noteq> TASK_FREE \<Longrightarrow> sched_step ts es s (run_task i entry stack_top s)"
| Alloc: "i < TASK_SLOTS \<Longrightarrow> task_alloc_pages i ord s = Ok (x, s') \<Longrightarrow> sched_step ts es s s'"
| Tick: "user_mode r \<Longrightarrow> sched_step ts es s (snd (schedule r s))"

lemma sched_step_inv: "sched_step ts es s s' \<Longrightarrow> sched_inv s \<Longrightarrow> sched_inv s'"
  by (induction rule: sched_step.induct) (auto intro: create_task_inv run_task_inv task_alloc_pages_inv schedule_inv)

lemma sched_boot_inv: "sched_inv (sched_boot st)"
proof -
  have "used (sched_boot st) = {}" by (auto simp: used_def sched_boot_def zero_task_def)
  then show ?thesis by (simp add: sched_inv_def) (simp add: sched_boot_def zero_task_def task_ok_def)
qed

lemma sched_reachable:
  assumes "(sched_step ts es)\<^sup>*\<^sup>* (sched_boot st) s"
  shows "sched_inv s"
  using assms by (induction rule: rtranclp_induct) (auto intro: sched_boot_inv sched_step_inv)

text \<open>
  Claim C26. Whatever the order of task creation, starting, page allocation and timer ticks from the zeroed task table: virtual times stay below \<open>2^32\<close>, so
  charging and rebasing never wrap; the current task is a running one with virtual time zero; the tasks in use have different process ids,
  whose counter never wraps; every task in use has an address space and a user-mode context.
\<close>

theorem sched_invariant:
  assumes "(sched_step ts es)\<^sup>*\<^sup>* (sched_boot st) s"
  shows "length (tasks s) = TASK_SLOTS \<and> (\<forall>i < TASK_SLOTS. unat (vtime (tasks s ! i)) < 2 ^ 32) \<and>
    (\<forall>c. current s = Some c \<longrightarrow> c < TASK_SLOTS \<and> t_state (tasks s ! c) = TASK_RUNNING \<and> vtime (tasks s ! c) = 0) \<and>
    unat (next_pid s) \<le> TASK_SLOTS \<and> inj_on (\<lambda>i. pid (tasks s ! i)) {i. i < TASK_SLOTS \<and> t_state (tasks s ! i) \<noteq> TASK_FREE} \<and>
    (\<forall>i < TASK_SLOTS. t_state (tasks s ! i) \<noteq> TASK_FREE \<longrightarrow> pid (tasks s ! i) < next_pid s \<and> vmem (tasks s ! i) \<noteq> 0 \<and> user_mode (ctx (tasks s ! i)))"
proof -
  have inv: "sched_inv s" by (rule sched_reachable [OF assms])
  then show ?thesis using used_card(1) [of s] by (auto simp: sched_inv_def task_ok_def used_def)
qed

text \<open>
  Claim C27. A tick that interrupts user code always returns to user code: in every reachable state \<^verbatim>\<open>schedule\<close> leaves a register frame with the user
  code and stack selectors and interrupts enabled.
\<close>

theorem schedule_returns_to_user:
  assumes "(sched_step ts es)\<^sup>*\<^sup>* (sched_boot st) s" and "user_mode r"
  shows "user_mode (fst (schedule r s))"
  by (rule schedule_inv(2) [OF sched_reachable [OF assms(1)] assms(2)])

text \<open>
  Claim C28. One tick: if a task is running, \<^verbatim>\<open>schedule\<close> stores the interrupted registers in the current task and charges it its priority,
  picks the first running task with the least charged virtual time, subtracts that time from all running tasks and loads the picked task's
  registers and address space; nothing else changes. If no task is running nothing happens.
\<close>

theorem schedule_correct:
  assumes "sched_inv s"
  shows "if \<exists>i < TASK_SLOTS. t_state (tasks s ! i) = TASK_RUNNING
    then \<exists>c s'. schedule r s = (ctx (tasks s' ! c), s') \<and> current s' = Some c \<and> picks s c \<and> cr3 (s_mem s') = virt_to_phys (vmem (tasks s ! c)) \<and>
      length (tasks s') = TASK_SLOTS \<and> next_pid s' = next_pid s \<and>
      (\<forall>i < TASK_SLOTS. let t = tasks s ! i; t' = tasks s' ! i in
         ctx t' = (if current s = Some i then r else ctx t) \<and> pid t' = pid t \<and> t_state t' = t_state t \<and> vmem t' = vmem t \<and>
         t_pages t' = t_pages t \<and> priority t' = priority t \<and>
         (t_state t = TASK_RUNNING \<longrightarrow> unat (vtime t') + charged s c = charged s i))
    else schedule r s = (r, s)"
proof (cases "\<exists>i < TASK_SLOTS. t_state (tasks s ! i) = TASK_RUNNING")
  case True
  obtain c where c: "picks s c" and e: "schedule r s = (ctx (switched r s c c),
     s\<lparr>tasks := map (switched r s c) [0..<TASK_SLOTS], current := Some c, clock := (if clock s + 1 \<ge> 1024 then 0 else clock s + 1),
       s_mem := vmm_set_table (vmem (tasks s ! c)) (s_mem s)\<rparr>)"
    using schedule_spec [OF assms True] by blast
  have u: "unat (of_nat (charged s i - charged s c) :: u64) + charged s c = charged s i" if "i < TASK_SLOTS" "running (tasks s) i" for i
  proof -
    have "charged s c \<le> charged s i" using c that by (simp add: picks_def)
    then show ?thesis using unat_of_nat32 [of "charged s i - charged s c"] charged_less [OF assms that(1)] by linarith
  qed
  define s' where "s' = snd (schedule r s)"
  have cc: "c < TASK_SLOTS" using c by (simp add: picks_def)
  have nth: "tasks s' ! i = switched r s c i" if "i < TASK_SLOTS" for i using that unfolding s'_def e by simp
  have fields: "schedule r s = (ctx (tasks s' ! c), s')" "current s' = Some c" "cr3 (s_mem s') = virt_to_phys (vmem (tasks s ! c))"
    "length (tasks s') = TASK_SLOTS" "next_pid s' = next_pid s"
    using cc unfolding s'_def e by (simp_all add: vmm_set_table_def set_cr3_def)
  have "\<forall>i < TASK_SLOTS. let t = tasks s ! i; t' = tasks s' ! i in
       ctx t' = (if current s = Some i then r else ctx t) \<and> pid t' = pid t \<and> t_state t' = t_state t \<and> vmem t' = vmem t \<and>
       t_pages t' = t_pages t \<and> priority t' = priority t \<and> (t_state t = TASK_RUNNING \<longrightarrow> unat (vtime t') + charged s c = charged s i)"
    using u by (auto simp: nth switched_def Let_def)
  then show ?thesis using True c fields by (simp only: if_True) blast
next
  case False
  then have "schedule r s = (r, s)" using schedule_idle [OF assms] by blast
  then show ?thesis using False by argo
qed

section \<open>No starvation\<close>

text \<open>The states after the first ticks, each with the registers of the code it interrupts.\<close>

primrec after_ticks :: "(nat \<Rightarrow> regs) \<Rightarrow> nat \<Rightarrow> sched \<Rightarrow> sched" where
  "after_ticks rs 0 s = s"
| "after_ticks rs (Suc n) s = snd (schedule (rs n) (after_ticks rs n s))"

lemma after_ticks_shift: "after_ticks (\<lambda>k. rs (Suc k)) n (snd (schedule (rs 0) s)) = after_ticks rs (Suc n) s"
  by (induction n) simp_all

text \<open>How far the other running tasks are behind task \<open>j\<close>: every tick that does not run \<open>j\<close> lowers this sum.\<close>

definition vt :: "sched \<Rightarrow> nat \<Rightarrow> nat" where
  "vt s i = unat (vtime (tasks s ! i))"

definition waiting :: "sched \<Rightarrow> nat \<Rightarrow> nat" where
  "waiting s j = (\<Sum>i \<in> {i. i < TASK_SLOTS \<and> i \<noteq> j \<and> running (tasks s) i}. vt s j + 1 - vt s i)"

definition fair :: "sched \<Rightarrow> bool" where
  "fair s \<longleftrightarrow> (\<forall>i < TASK_SLOTS. running (tasks s) i \<longrightarrow> 0 < priority (tasks s ! i))"

lemma tick_effect:
  assumes inv: "sched_inv s" and ex: "j < TASK_SLOTS" "running (tasks s) j" and r: "user_mode r"
  defines "s' \<equiv> snd (schedule r s)"
  shows "\<exists>c. picks s c \<and> current s' = Some c \<and> (\<forall>i < TASK_SLOTS. running (tasks s') i = running (tasks s) i \<and> priority (tasks s' ! i) = priority (tasks s ! i) \<and>
     (running (tasks s) i \<longrightarrow> vt s' i = charged s i - charged s c)) \<and> sched_inv s'"
proof -
  obtain c where c: "picks s c" and e: "schedule r s = (ctx (switched r s c c),
     s\<lparr>tasks := map (switched r s c) [0..<TASK_SLOTS], current := Some c, clock := (if clock s + 1 \<ge> 1024 then 0 else clock s + 1),
       s_mem := vmm_set_table (vmem (tasks s ! c)) (s_mem s)\<rparr>)"
    using schedule_spec [OF inv] ex by blast
  have "unat (of_nat (charged s i - charged s c) :: u64) = charged s i - charged s c" if "i < TASK_SLOTS" for i
    using charged_less [OF inv that] by (intro unat_of_nat32) simp
  then have "vt s' i = charged s i - charged s c" if "i < TASK_SLOTS" "running (tasks s) i" for i
    using that unfolding s'_def e by (simp add: vt_def switched_def Let_def del: of_nat_diff)
  moreover have "sched_inv s'" unfolding s'_def by (rule schedule_inv(1) [OF inv r])
  ultimately show ?thesis using c unfolding s'_def e by (intro exI [of _ c]) (simp add: switched_def Let_def)
qed

lemma waiting_decreases:
  assumes inv: "sched_inv s" and j: "j < TASK_SLOTS" "running (tasks s) j" and r: "user_mode r" and f: "fair s"
    and c: "current s = Some c" "c \<noteq> j"
  shows "waiting (snd (schedule r s)) j < waiting s j"
proof -
  define s' where "s' = snd (schedule r s)"
  obtain d where d: "picks s d" and e: "\<forall>i < TASK_SLOTS. running (tasks s') i = running (tasks s) i \<and>
     (running (tasks s) i \<longrightarrow> vt s' i = charged s i - charged s d)"
    using tick_effect [OF inv j r] unfolding s'_def by blast
  let ?A = "{i. i < TASK_SLOTS \<and> i \<noteq> j \<and> running (tasks s) i}"
  have A: "{i. i < TASK_SLOTS \<and> i \<noteq> j \<and> running (tasks s') i} = ?A" using e by blast
  have min: "charged s d \<le> charged s i" if "i < TASK_SLOTS" "running (tasks s) i" for i using d that by (simp add: picks_def)
  have cj: "charged s j = vt s j" using c by (simp add: charged_def vt_def)
  have summand: "vt s' j + 1 - vt s' i = vt s j + 1 - charged s i" if "i \<in> ?A" for i
    using that e j min [of i] min [OF j] cj by auto
  have cc: "c \<in> ?A" "vt s c = 0" and p: "0 < unat (priority (tasks s ! c))" using inv c f
    by (auto simp: sched_inv_def fair_def vt_def word_less_nat_alt)
  have "waiting s' j = (\<Sum>i \<in> ?A. vt s j + 1 - charged s i)" unfolding waiting_def A using summand by (intro sum.cong) auto
  also have "\<dots> < waiting s j" unfolding waiting_def
  proof (rule sum_strict_mono_ex1)
    show "\<forall>i \<in> ?A. vt s j + 1 - charged s i \<le> vt s j + 1 - vt s i" by (auto simp: charged_def vt_def)
    have "vt s j + 1 - charged s c < vt s j + 1 - vt s c" using cc(2) p c(1) by (simp add: charged_def vt_def)
    then show "\<exists>i \<in> ?A. vt s j + 1 - charged s i < vt s j + 1 - vt s i" using cc(1) by blast
  qed simp
  finally show ?thesis by (simp add: s'_def)
qed

lemma runs_within:
  assumes "sched_inv s" "j < TASK_SLOTS" "running (tasks s) j" "fair s" "current s = Some c" "c \<noteq> j" and r: "\<And>n. user_mode (rs n)"
  shows "\<exists>n. n \<le> waiting s j \<and> current (after_ticks rs n s) = Some j"
  using assms
proof (induction "waiting s j" arbitrary: s c rs rule: less_induct)
  case less
  define s' where "s' = snd (schedule (rs 0) s)"
  have lt: "waiting s' j < waiting s j" unfolding s'_def by (rule waiting_decreases) (use less.prems in auto)
  obtain d where d: "picks s d" "current s' = Some d" "\<forall>i < TASK_SLOTS. running (tasks s') i = running (tasks s) i \<and> priority (tasks s' ! i) = priority (tasks s ! i)"
    "sched_inv s'"
    using tick_effect [OF less.prems(1-3) less.prems(7) [of 0]] unfolding s'_def by blast
  show ?case
  proof (cases "d = j")
    case True
    then show ?thesis using d(2) lt by (intro exI [of _ 1]) (simp add: s'_def)
  next
    case False
    have "fair s'" using less.prems(4) d(3) by (simp add: fair_def)
    then obtain n where "n \<le> waiting s' j" "current (after_ticks (\<lambda>k. rs (Suc k)) n s') = Some j"
      using less.hyps [OF lt d(4) less.prems(2) _ _ d(2) False, of "\<lambda>k. rs (Suc k)"] d(3) less.prems(2,3,7) by auto
    then show ?thesis using lt after_ticks_shift [of rs n s] unfolding s'_def by (intro exI [of _ "Suc n"]) simp
  qed
qed

lemma waiting_bound:
  assumes "sched_inv s" "j < TASK_SLOTS"
  shows "waiting s j \<le> 15 * 2 ^ 32"
proof -
  let ?A = "{i. i < TASK_SLOTS \<and> i \<noteq> j \<and> running (tasks s) i}"
  have "?A \<subseteq> {..<TASK_SLOTS} - {j}" by auto
  then have c: "card ?A \<le> 15" using card_mono [of "{..<TASK_SLOTS} - {j}" ?A] assms(2) by (simp add: TASK_SLOTS_def)
  have v: "vt s j < 2 ^ 32" using assms by (simp add: sched_inv_def task_ok_def vt_def)
  have "waiting s j \<le> card ?A * 2 ^ 32" unfolding waiting_def using v
    by (intro order_trans [OF sum_bounded_above [of _ _ "2 ^ 32"]]) auto
  also have "\<dots> \<le> 15 * 2 ^ 32" using c by simp
  finally show ?thesis .
qed

text \<open>
  Claim C29. No running task starves: if every running task has a non-zero priority, then from every state of the invariant and for every sequence of
  ticks each running task becomes the current one after at most \<open>15 * 2^32 + 1\<close> ticks.
\<close>

theorem no_starvation:
  assumes "sched_inv s" and "j < TASK_SLOTS" "t_state (tasks s ! j) = TASK_RUNNING"
    and "\<forall>i < TASK_SLOTS. t_state (tasks s ! i) = TASK_RUNNING \<longrightarrow> 0 < priority (tasks s ! i)" and "\<And>n. user_mode (rs n)"
  shows "\<exists>n. 0 < n \<and> n \<le> 15 * 2 ^ 32 + 1 \<and> current (after_ticks rs n s) = Some j"
proof -
  define s' where "s' = snd (schedule (rs 0) s)"
  obtain d where d: "picks s d" "current s' = Some d" "\<forall>i < TASK_SLOTS. running (tasks s') i = running (tasks s) i \<and> priority (tasks s' ! i) = priority (tasks s ! i)"
    "sched_inv s'"
    using tick_effect [OF assms(1-3) assms(5) [of 0]] unfolding s'_def by blast
  show ?thesis
  proof (cases "d = j")
    case True
    then show ?thesis using d(2) by (intro exI [of _ 1]) (simp add: s'_def)
  next
    case False
    have "fair s'" using assms(4) d(3) by (simp add: fair_def)
    then obtain n where "n \<le> waiting s' j" "current (after_ticks (\<lambda>k. rs (Suc k)) n s') = Some j"
      using runs_within [OF d(4) assms(2) _ _ d(2) False, of "\<lambda>k. rs (Suc k)"] d(3) assms(2,3,5) by auto
    then show ?thesis using waiting_bound [OF d(4) assms(2)] after_ticks_shift [of rs n s] unfolding s'_def
      by (intro exI [of _ "Suc n"]) simp
  qed
qed

section \<open>Examples\<close>

definition user_frame :: regs where
  "user_frame = zero_regs\<lparr>vector_id := 32, reg_rip := 0x101000, reg_cs := ucast (GDT_USER_CODE_SEGMENT OR 3), reg_rflags := 0x202,
     reg_rsp := 0x101000, reg_ss := ucast (GDT_USER_DATA_SEGMENT OR 3)\<rparr>"

lemma user_frame_mode: "user_mode user_frame"
  by (simp add: user_mode_def user_frame_def)

lemma first_task:
  "\<exists>s. create_task boot_tables boot_map 1024 (sched_boot ready_kmem) = Ok (Some 0, s) \<and> t_state (tasks s ! 0) = TASK_INIT \<and>
     unat (priority (tasks s ! 0)) = 1024 \<and> current s = None \<and> (\<forall>i. 0 < i \<and> i < TASK_SLOTS \<longrightarrow> t_state (tasks s ! i) = TASK_FREE)"
proof -
  have k: "kinv boot_map {0x200} ready_kmem" using ready_tree by (simp add: tree_ok_def)
  have "vstate ready_kmem = VMM_READY" "free_blocks (k_bd ready_kmem) \<noteq> {}" by (simp_all add: ready_kmem_def two_pages_blocks)
  from alloc_table_ready(2) [OF k this] obtain a st1 where al: "alloc_table boot_map ready_kmem = Ok (a, st1)" "a \<noteq> 0" by blast
  then obtain st' where v: "vmm_create_user_pml4 boot_tables boot_map ready_kmem = Ok (a, st')"
    by (simp add: vmm_create_user_pml4_def del: upt_rec_numeral)
  have "get_free_slot (sched_boot ready_kmem) = Some 0"
    by (simp add: get_free_slot_def sched_boot_def TASK_SLOTS_def zero_task_def upt_rec)
  then show ?thesis using v al(2)
    by (simp add: create_task_def task_upd_def) (auto simp: task_upd_def sched_boot_def zero_task_def TASK_SLOTS_def nth_list_update)
qed

lemma one_running:
  "\<exists>s. (sched_step boot_tables boot_map)\<^sup>*\<^sup>* (sched_boot ready_kmem) s \<and> running (tasks s) 0 \<and> current s = None \<and> fair s"
proof -
  obtain s where s: "create_task boot_tables boot_map 1024 (sched_boot ready_kmem) = Ok (Some 0, s)" "t_state (tasks s ! 0) = TASK_INIT"
    "unat (priority (tasks s ! 0)) = 1024" "current s = None" "\<forall>i. 0 < i \<and> i < TASK_SLOTS \<longrightarrow> t_state (tasks s ! i) = TASK_FREE"
    using first_task by blast
  let ?s = "run_task 0 0x101000 0x101000 s"
  have "sched_step boot_tables boot_map (sched_boot ready_kmem) s" by (rule sched_step.Create [OF s(1)])
  moreover have "sched_step boot_tables boot_map s ?s" by (rule sched_step.Run) (simp_all add: s(2) TASK_SLOTS_def)
  ultimately have r: "(sched_step boot_tables boot_map)\<^sup>*\<^sup>* (sched_boot ready_kmem) ?s" by (meson rtranclp.rtrancl_into_rtrancl rtranclp.rtrancl_refl)
  have len: "length (tasks s) = TASK_SLOTS" using create_task_inv [OF sched_boot_inv s(1)] by (simp add: sched_inv_def)
  have "tasks ?s ! i = (if i = 0 then (tasks s ! 0)\<lparr>ctx := (ctx (tasks s ! 0))\<lparr>reg_rip := 0x101000, reg_rsp := 0x101000\<rparr>, t_state := TASK_RUNNING\<rparr> else tasks s ! i)"
    if "i < TASK_SLOTS" for i using that len by (simp add: run_task_def task_upd_nth)
  then have "running (tasks ?s) 0" "fair ?s" using s(3,5) by (auto simp: fair_def TASK_SLOTS_def word_less_nat_alt)
  moreover have "current ?s = None" using s(4) by (simp add: run_task_def)
  ultimately show ?thesis using r by blast
qed

theorem sched_invariant_witness:
  "\<exists>s. (sched_step boot_tables boot_map)\<^sup>*\<^sup>* (sched_boot ready_kmem) s \<and> t_state (tasks s ! 0) = TASK_RUNNING \<and> user_mode (ctx (tasks s ! 0))"
proof -
  obtain s where s: "(sched_step boot_tables boot_map)\<^sup>*\<^sup>* (sched_boot ready_kmem) s" "running (tasks s) 0" using one_running by blast
  from sched_invariant [OF s(1)] s show ?thesis by (intro exI [of _ s]) (simp add: TASK_SLOTS_def)
qed

theorem schedule_returns_to_user_witness:
  "\<exists>s. (sched_step boot_tables boot_map)\<^sup>*\<^sup>* (sched_boot ready_kmem) s \<and> t_state (tasks s ! 0) = TASK_RUNNING \<and> user_mode (fst (schedule user_frame s))"
proof -
  obtain s where s: "(sched_step boot_tables boot_map)\<^sup>*\<^sup>* (sched_boot ready_kmem) s" "running (tasks s) 0" using one_running by blast
  from schedule_returns_to_user [OF s(1) user_frame_mode] s show ?thesis by blast
qed

theorem schedule_correct_witness:
  "\<exists>s c s'. t_state (tasks s ! 0) = TASK_RUNNING \<and> schedule user_frame s = (ctx (tasks s' ! c), s') \<and> current s' = Some c"
proof -
  obtain s where s: "(sched_step boot_tables boot_map)\<^sup>*\<^sup>* (sched_boot ready_kmem) s" "running (tasks s) 0" using one_running by blast
  have "\<exists>i < TASK_SLOTS. running (tasks s) i" using s(2) by (intro exI [of _ 0]) (simp add: TASK_SLOTS_def)
  with schedule_correct [OF sched_reachable [OF s(1)], of user_frame] s(2) show ?thesis by (simp only: if_True) blast
qed

theorem no_starvation_witness:
  "\<exists>s n. t_state (tasks s ! 0) = TASK_RUNNING \<and> 0 < n \<and> current (after_ticks (\<lambda>_. user_frame) n s) = Some 0"
proof -
  obtain s where s: "(sched_step boot_tables boot_map)\<^sup>*\<^sup>* (sched_boot ready_kmem) s" "running (tasks s) 0" "fair s" using one_running by blast
  have "0 < TASK_SLOTS" by (simp add: TASK_SLOTS_def)
  from no_starvation [OF sched_reachable [OF s(1)] this s(2) s(3) [unfolded fair_def], of "\<lambda>_. user_frame"] user_frame_mode s(2)
  show ?thesis by blast
qed

section \<open>The first tick\<close>

text \<open>
  Claim C30. The first tick loses the interrupted registers: as long as no task is current, the result of \<^verbatim>\<open>schedule\<close> does not depend on the registers
  of the interrupted code, although \<^verbatim>\<open>enter_task\<close> has already started a task. The task is restarted from its entry point; and since the
  restored frame of a task that was never interrupted has vector 0, the acknowledgement also goes to the second controller, which raised no interrupt.
\<close>

theorem first_tick_discards:
  assumes "sched_inv s" and "current s = None" and "\<exists>i < TASK_SLOTS. t_state (tasks s ! i) = TASK_RUNNING"
  shows "schedule r s = schedule r' s \<and> (\<forall>tr. (\<forall>i < TASK_SLOTS. vector_id (ctx (tasks s ! i)) = 0) \<longrightarrow>
    (\<exists>s' q. irq_dispatch r (s, tr) = (q, s', OutB 0x80 0 # OutB PIC2_COMMAND EOI # OutB 0x80 0 # OutB PIC1_COMMAND EOI # tr)))"
proof -
  have e: "schedule r s = schedule r' s" for r r' using schedule_spec [OF assms(1,3)] assms(2,3)
  proof -
    have p: "pick_task (tasks s) None = (m, Some c) \<Longrightarrow> schedule r s = schedule r' s" for m c
      using assms(2) by (simp add: schedule_def save_current_def)
    have "vtime (tasks s ! i) < -1" if "i < TASK_SLOTS" for i
      using assms(1) that by (intro below_max) (simp add: sched_inv_def task_ok_def)
    then show ?thesis using pick_task_cases [of "tasks s" None] assms(3) p by blast
  qed
  have "\<exists>s' q. irq_dispatch r (s, tr) = (q, s', OutB 0x80 0 # OutB PIC2_COMMAND EOI # OutB 0x80 0 # OutB PIC1_COMMAND EOI # tr)"
    if v: "\<forall>i < TASK_SLOTS. vector_id (ctx (tasks s ! i)) = 0" for tr
  proof -
    obtain c where c: "picks s c" "fst (schedule r s) = ctx (switched r s c c)" using schedule_spec [OF assms(1,3), of r] by auto
    have "vector_id (fst (schedule r s)) = 0" using v c assms(2) by (simp add: switched_def Let_def picks_def)
    then show ?thesis by (simp add: irq_dispatch_def split: prod.split) (auto simp: pic_send_EOI_def io_wait_def outb_def IRQ_TO_INTERRUPT_OFFSET_def)
  qed
  then show ?thesis using e by blast
qed

theorem first_tick_discards_witness:
  "\<exists>s. t_state (tasks s ! 0) = TASK_RUNNING \<and> schedule user_frame s = schedule zero_regs s"
proof -
  obtain s where s: "(sched_step boot_tables boot_map)\<^sup>*\<^sup>* (sched_boot ready_kmem) s" "running (tasks s) 0" "current s = None" using one_running by blast
  have "\<exists>i < TASK_SLOTS. running (tasks s) i" using s(2) by (intro exI [of _ 0]) (simp add: TASK_SLOTS_def)
  from first_tick_discards [OF sched_reachable [OF s(1)] s(3) this, of user_frame zero_regs] s(2) show ?thesis by blast
qed

end
