(* ===== verification/Console.thy ===== *)
theory Console
  imports Port_Io "HOL-Library.Signed_Division"
begin

text \<open>
  The two log drivers: the text screen (\<^verbatim>\<open>driver/vga/early_vga.c\<close>) and the serial line (\<^verbatim>\<open>driver/uart/early_uart.c\<close>). The screen is the list of
  its 2000 cells; an access outside of it is the error \<^const>\<open>OutOfBounds\<close>. The two addresses of the frame buffer reach the same cells. Characters are bytes.
\<close>

section \<open>The text screen\<close>

definition WIDTH :: int where "WIDTH = 80"
definition HEIGHT :: int where "HEIGHT = 25"
definition TAB_WIDTH :: int where "TAB_WIDTH = 4"
definition DEFAULT_COLOR :: u8 where "DEFAULT_COLOR = 0x07"
definition DEFAULT_CHAR :: u16 where "DEFAULT_CHAR = push_bit 8 (ucast DEFAULT_COLOR)"

record vga =
  v_base :: u64
  v_cells :: "u16 list"
  v_cx :: int
  v_cy :: int
  v_color :: u8
  v_tr :: trace

definition cell_get :: "int \<Rightarrow> u16 list \<Rightarrow> u16 kres" where
  "cell_get i cs = (if 0 \<le> i \<and> i < int (length cs) then Ok (cs ! nat i) else Err OutOfBounds)"

definition cell_set :: "int \<Rightarrow> u16 \<Rightarrow> u16 list \<Rightarrow> u16 list kres" where
  "cell_set i v cs = (if 0 \<le> i \<and> i < int (length cs) then Ok (cs[nat i := v]) else Err OutOfBounds)"

definition set_cursor :: "int \<Rightarrow> int \<Rightarrow> vga \<Rightarrow> vga" where
  "set_cursor x y s =
     (let pos = word_of_int (y * WIDTH + x) :: u16;
          tr = io_wait (outb 0x3D4 0x0F (v_tr s));
          tr = io_wait (outb 0x3D5 (ucast (pos AND 0xFF)) tr);
          tr = io_wait (outb 0x3D4 0x0E tr);
          tr = io_wait (outb 0x3D5 (ucast (drop_bit 8 pos AND 0xFF)) tr)
      in s\<lparr>v_tr := tr, v_cx := x, v_cy := y\<rparr>)"

definition early_vga_init :: "u64 \<Rightarrow> vga \<Rightarrow> vga" where
  "early_vga_init vbuf s = s\<lparr>v_base := vbuf\<rparr>"

definition early_vga_clrscr :: "vga \<Rightarrow> vga kres" where
  "early_vga_clrscr s =
     rbind (rfold (\<lambda>i. cell_set i DEFAULT_CHAR) [0..WIDTH * HEIGHT - 1] (v_cells s)) (\<lambda>cs.
       Ok (set_cursor 0 0 (s\<lparr>v_cells := cs\<rparr>)))"

text \<open>The character is a signed \<^verbatim>\<open>char\<close> and is extended with its sign when it is combined with the colour.\<close>

definition vga_putc :: "u8 \<Rightarrow> int \<Rightarrow> int \<Rightarrow> vga \<Rightarrow> vga kres" where
  "vga_putc ch x y s =
     (let position = y * WIDTH + x
      in if position < 0 \<or> position > WIDTH * HEIGHT then Ok s
         else rbind (cell_set position (push_bit 8 (ucast (v_color s)) OR scast ch) (v_cells s)) (\<lambda>cs. Ok (s\<lparr>v_cells := cs\<rparr>)))"

definition copy_cell :: "int \<Rightarrow> int \<Rightarrow> u16 list \<Rightarrow> u16 list kres" where
  "copy_cell to from cs = rbind (cell_get from cs) (\<lambda>v. cell_set to v cs)"

definition scroll :: "int \<Rightarrow> vga \<Rightarrow> vga kres" where
  "scroll y s =
     (if y = 0 then Ok s
      else
        let total_chars = WIDTH * HEIGHT
        in rbind
          (if y > 0 then
             let shift = y * WIDTH;
                 end = (if total_chars - shift < 0 then 0 else total_chars - shift)
             in rbind (rfold (\<lambda>i. copy_cell i (i + shift)) [0..end - 1] (v_cells s))
                  (rfold (\<lambda>i. cell_set i DEFAULT_CHAR) [end..total_chars - 1])
           else
             let shift = (if - y * WIDTH > total_chars then total_chars else - y * WIDTH)
             in rbind (rfold (\<lambda>i. copy_cell i (i - shift)) (rev [shift..total_chars - 1]) (v_cells s))
                  (rfold (\<lambda>i. cell_set i DEFAULT_CHAR) [0..shift - 1]))
          (\<lambda>cs. Ok (set_cursor (v_cx s) (v_cy s - y) (s\<lparr>v_cells := cs\<rparr>))))"

definition vga_advance :: "u8 \<Rightarrow> vga \<Rightarrow> vga kres" where
  "vga_advance ch s =
     (if ch = 10 then Ok (s\<lparr>v_cx := 0, v_cy := v_cy s + 1\<rparr>)
      else if ch = 13 then Ok (s\<lparr>v_cx := 0\<rparr>)
      else if ch = 9 then Ok (s\<lparr>v_cx := v_cx s + (TAB_WIDTH - v_cx s smod TAB_WIDTH)\<rparr>)
      else rbind (vga_putc ch (v_cx s) (v_cy s) s) (\<lambda>s. Ok (s\<lparr>v_cx := v_cx s + 1\<rparr>)))"

definition early_vga_putc :: "u8 \<Rightarrow> vga \<Rightarrow> vga kres" where
  "early_vga_putc ch s0 =
     rbind (vga_advance ch s0) (\<lambda>s.
       let s = (if v_cx s \<ge> WIDTH then s\<lparr>v_cx := 0, v_cy := v_cy s + 1\<rparr> else s)
       in rbind (if v_cy s \<ge> HEIGHT then scroll 1 s else Ok s) (\<lambda>s.
          Ok (set_cursor (v_cx s) (v_cy s) s)))"

definition early_vga_write :: "u8 list \<Rightarrow> vga \<Rightarrow> vga kres" where
  "early_vga_write str = rfold early_vga_putc str"

definition get_level_color :: "int \<Rightarrow> u8" where
  "get_level_color level =
     (let colors = [0x40, 0x04, 0x0C, 0x0C, 0x0E, 0x0F]
      in if level < 0 \<or> level \<ge> int (length colors) then DEFAULT_COLOR else colors ! nat level)"

definition early_vga_log_write :: "int \<Rightarrow> u8 list \<Rightarrow> vga \<Rightarrow> vga kres" where
  "early_vga_log_write level str s =
     rbind (early_vga_write str (s\<lparr>v_color := get_level_color level\<rparr>)) (\<lambda>s. Ok (s\<lparr>v_color := DEFAULT_COLOR\<rparr>))"

section \<open>The serial line\<close>

definition UART_PORT :: u16 where "UART_PORT = 0x3F8"
definition REG_DATA :: u16 where "REG_DATA = 0"
definition REG_IER :: u16 where "REG_IER = 1"
definition REG_FCR :: u16 where "REG_FCR = 2"
definition REG_LCR :: u16 where "REG_LCR = 3"
definition REG_MCR :: u16 where "REG_MCR = 4"
definition REG_LSR :: u16 where "REG_LSR = 5"
definition BSY :: u8 where "BSY = 0x20"

record uart =
  uart_present :: bool
  u_tr :: trace

definition early_uart_init :: "device \<Rightarrow> uart \<Rightarrow> int \<times> uart" where
  "early_uart_init dev s =
     (let tr = io_wait (outb (UART_PORT + REG_IER) 0x00 (u_tr s));
          tr = io_wait (outb (UART_PORT + REG_LCR) 0x80 tr);
          tr = io_wait (outb (UART_PORT + 0) 0x03 tr);
          tr = io_wait (outb (UART_PORT + 1) 0x00 tr);
          tr = io_wait (outb (UART_PORT + REG_LCR) 0x03 tr);
          tr = io_wait (outb (UART_PORT + REG_FCR) 0xC7 tr);
          tr = io_wait (outb (UART_PORT + REG_MCR) 0x1E tr);
          tr = io_wait (outb (UART_PORT + REG_DATA) 0xAE tr);
          (v, tr) = inb dev (UART_PORT + REG_DATA) tr
      in if v = 0xAE then (0, s\<lparr>uart_present := True, u_tr := io_wait (outb (UART_PORT + REG_MCR) 0x0F tr)\<rparr>)
         else (1, s\<lparr>uart_present := False, u_tr := tr\<rparr>))"

text \<open>Polling the line status until the transmitter is empty; it never ends if the device never becomes ready.\<close>

partial_function (option) uart_wait :: "device \<Rightarrow> trace \<Rightarrow> trace option" where
  "uart_wait dev tr =
     (if fst (inb dev (UART_PORT + REG_LSR) tr) AND BSY \<noteq> 0 then Some (snd (inb dev (UART_PORT + REG_LSR) tr))
      else uart_wait dev (io_wait (snd (inb dev (UART_PORT + REG_LSR) tr))))"

definition uart_send :: "device \<Rightarrow> u8 \<Rightarrow> trace \<Rightarrow> trace option" where
  "uart_send dev ch tr = map_option (\<lambda>tr. io_wait (outb (UART_PORT + REG_DATA) ch tr)) (uart_wait dev tr)"

fun uart_send_all :: "device \<Rightarrow> u8 list \<Rightarrow> trace \<Rightarrow> trace option" where
  "uart_send_all dev [] tr = Some tr"
| "uart_send_all dev (ch # str) tr = (case uart_send dev ch tr of None \<Rightarrow> None | Some tr \<Rightarrow> uart_send_all dev str tr)"

definition with_uart :: "uart \<Rightarrow> (trace \<Rightarrow> trace option) \<Rightarrow> uart option" where
  "with_uart s f = (if \<not> uart_present s then Some s else map_option (\<lambda>tr. s\<lparr>u_tr := tr\<rparr>) (f (u_tr s)))"

definition early_uart_putc :: "device \<Rightarrow> u8 \<Rightarrow> uart \<Rightarrow> uart option" where
  "early_uart_putc dev ch s = with_uart s (uart_send dev ch)"

text \<open>The string ends at its terminator.\<close>

definition early_uart_puts :: "device \<Rightarrow> u8 list \<Rightarrow> uart \<Rightarrow> uart option" where
  "early_uart_puts dev str s = with_uart s (uart_send_all dev (takeWhile (\<lambda>ch. ch \<noteq> 0) str))"

definition early_uart_write :: "device \<Rightarrow> u8 list \<Rightarrow> nat \<Rightarrow> uart \<Rightarrow> uart option" where
  "early_uart_write dev str n s = with_uart s (uart_send_all dev (take n str))"

definition bytes :: "string \<Rightarrow> u8 list" where
  "bytes str = map (\<lambda>ch. of_nat (of_char ch)) str"

definition get_level_ansi :: "int \<Rightarrow> u8 list" where
  "get_level_ansi level =
     (if level = 0 then 27 # bytes ''[1;37;41m''
      else if level = 1 then 27 # bytes ''[1;31m''
      else if level = 2 \<or> level = 3 then 27 # bytes ''[0;91m''
      else if level = 4 then 27 # bytes ''[0;93m''
      else if level = 5 then 27 # bytes ''[0;97m''
      else 27 # bytes ''[0m'')"

definition early_uart_log_write :: "device \<Rightarrow> int \<Rightarrow> u8 list \<Rightarrow> nat \<Rightarrow> uart \<Rightarrow> uart option" where
  "early_uart_log_write dev level str n s =
     (if \<not> uart_present s \<or> n = 0 then Some s
      else case early_uart_puts dev (get_level_ansi level) s of None \<Rightarrow> None
      | Some s \<Rightarrow> case early_uart_write dev str (n - 1) s of None \<Rightarrow> None
      | Some s \<Rightarrow>
          if str ! (n - 1) = 10 then early_uart_puts dev (27 # bytes ''[0m'' @ [10]) s
          else case early_uart_putc dev (str ! (n - 1)) s of None \<Rightarrow> None
            | Some s \<Rightarrow> early_uart_puts dev (27 # bytes ''[0m'') s)"

end
