(* ===== verification/Console_Correct.thy ===== *)
theory Console_Correct
  imports Console
begin

text \<open>
  Correctness of the log drivers: the screen driver implements an abstract terminal and never writes outside the screen, the serial driver
  sends exactly the coloured text.
\<close>

section \<open>Cells\<close>

lemma fill_cells:
  assumes "\<And>i. i \<in> set xs \<Longrightarrow> 0 \<le> i \<and> i < int (length cs)"
  shows "\<exists>cs'. rfold (\<lambda>i. cell_set i v) xs cs = Ok cs' \<and> length cs' = length cs \<and> (\<forall>j < length cs. cs' ! j = (if int j \<in> set xs then v else cs ! j))"
  using assms
proof (induction xs arbitrary: cs)
  case (Cons i xs)
  have i: "0 \<le> i" "i < int (length cs)" using Cons.prems by auto
  obtain cs' where c: "rfold (\<lambda>i. cell_set i v) xs (cs[nat i := v]) = Ok cs'" "length cs' = length cs"
    "\<forall>j < length cs. cs' ! j = (if int j \<in> set xs then v else cs[nat i := v] ! j)"
    using Cons.IH [of "cs[nat i := v]"] Cons.prems by auto
  have "cs' ! j = (if int j \<in> set (i # xs) then v else cs ! j)" if "j < length cs" for j
    using c(3) that i by (cases "int j = i") (auto simp: nth_list_update)
  moreover have "cell_set i v cs = Ok (cs[nat i := v])" using i by (simp add: cell_set_def)
  ultimately show ?case using c(1,2) by simp
qed simp

lemma copy_up:
  assumes "0 \<le> d" and "int k + d \<le> int (length cs)"
  shows "\<exists>cs'. rfold (\<lambda>i. copy_cell i (i + d)) [0..int k - 1] cs = Ok cs' \<and> length cs' = length cs \<and>
    (\<forall>j < length cs. cs' ! j = (if j < k then cs ! (j + nat d) else cs ! j))"
  using assms(2)
proof (induction k)
  case (Suc k)
  obtain cs' where c: "rfold (\<lambda>i. copy_cell i (i + d)) [0..int k - 1] cs = Ok cs'" "length cs' = length cs"
    "\<forall>j < length cs. cs' ! j = (if j < k then cs ! (j + nat d) else cs ! j)" using Suc by auto
  have u: "[0..int (Suc k) - 1] = [0..int k - 1] @ [int k]" using upto_rec2 [of 0 "int k"] by simp
  have "copy_cell (int k) (int k + d) cs' = Ok (cs'[k := cs ! (k + nat d)])"
    using c(2,3) Suc.prems assms(1) by (auto simp: copy_cell_def cell_get_def cell_set_def nat_add_distrib)
  then have "rfold (\<lambda>i. copy_cell i (i + d)) [0..int (Suc k) - 1] cs = Ok (cs'[k := cs ! (k + nat d)])"
    unfolding u rfold_snoc c(1) by simp
  moreover have "cs'[k := cs ! (k + nat d)] ! j = (if j < Suc k then cs ! (j + nat d) else cs ! j)" if "j < length cs" for j
    using c(2,3) that by (cases "j = k") auto
  ultimately show ?case using c(2) by auto
qed simp

section \<open>The abstract terminal\<close>

definition blank_line :: "u16 list" where "blank_line = replicate 80 DEFAULT_CHAR"

text \<open>
  Cells, column and line of the cursor; a character goes to the cursor, a full line wraps, a full screen moves up by a line. The low byte of a
  cell is the character, the high byte its attribute: the colour for the characters below 0x80, and all bits set for the others, because the
  driver extends the sign of the character into the attribute.
\<close>

definition attribute :: "u8 \<Rightarrow> u8 \<Rightarrow> u8" where
  "attribute color ch = (if ch < 0x80 then color else 0xFF)"

definition cell_of :: "u8 \<Rightarrow> u8 \<Rightarrow> u16" where
  "cell_of color ch = push_bit 8 (ucast (attribute color ch)) OR ucast ch"

definition term_step :: "u8 \<Rightarrow> u8 \<Rightarrow> u16 list \<times> nat \<times> nat \<Rightarrow> u16 list \<times> nat \<times> nat" where
  "term_step color ch = (\<lambda>(cs, x, y).
     let (cs, x, y) = (if ch = 10 then (cs, 0, y + 1) else if ch = 13 then (cs, 0, y) else if ch = 9 then (cs, 4 * (x div 4 + 1), y)
                       else (cs[80 * y + x := cell_of color ch], x + 1, y));
         (x, y) = (if x \<ge> 80 then (0, y + 1) else (x, y))
     in if y \<ge> 25 then (drop 80 cs @ blank_line, x, y - 1) else (cs, x, y))"

definition vga_ok :: "vga \<Rightarrow> bool" where
  "vga_ok s \<longleftrightarrow> length (v_cells s) = 2000 \<and> 0 \<le> v_cx s \<and> v_cx s < WIDTH \<and> 0 \<le> v_cy s \<and> v_cy s < HEIGHT"

definition screen :: "vga \<Rightarrow> u16 list \<times> nat \<times> nat" where
  "screen s = (v_cells s, nat (v_cx s), nat (v_cy s))"

text \<open>The registers of the display controller after a trace: the index written to port 0x3D4 selects the register behind port 0x3D5.\<close>

fun crtc :: "trace \<Rightarrow> u8 \<times> (u8 \<Rightarrow> u8)" where
  "crtc [] = (0, \<lambda>_. 0)"
| "crtc (OutB p v # tr) = (let (i, f) = crtc tr in if p = 0x3D4 then (v, f) else if p = 0x3D5 then (i, f(i := v)) else (i, f))"
| "crtc (_ # tr) = crtc tr"

definition hw_cursor :: "trace \<Rightarrow> nat" where
  "hw_cursor tr = unat (snd (crtc tr) 0x0F) + 256 * unat (snd (crtc tr) 0x0E)"

lemma crtc_wait [simp]: "crtc (io_wait tr) = crtc tr"
  by (simp add: io_wait_def outb_def split: prod.split)

lemma crtc_out:
  "crtc (outb 0x3D4 v tr) = (v, snd (crtc tr))" "crtc (outb 0x3D5 v tr) = (fst (crtc tr), (snd (crtc tr))(fst (crtc tr) := v))"
  by (simp_all add: outb_def split: prod.split)

lemma byte_mask: "drop_bit 8 (p :: u16) AND 0xFF = drop_bit 8 p"
proof (rule bit_word_eqI)
  fix n assume "n < LENGTH(16)"
  moreover have "(0xFF :: u16) = mask 8" by (simp add: mask_eq_exp_minus_1)
  ultimately show "bit (drop_bit 8 p AND 0xFF) n = bit (drop_bit 8 p) n" by (simp only: bit_fields) (auto dest: bit_imp_le_length)
qed

lemma set_cursor_hw:
  assumes "0 \<le> x" "x < WIDTH" "0 \<le> y" "y < HEIGHT"
  shows "hw_cursor (v_tr (set_cursor x y s)) = nat (80 * y + x)"
proof -
  have u: "unat (word_of_int z :: u16) = nat z" if "0 \<le> z" "z < 65536" for z
    using that by (simp add: unsigned_of_int take_bit_eq_mod)
  have "unat (word_of_int (y * WIDTH + x) :: u16) = nat (80 * y + x)"
    using u [of "y * WIDTH + x"] assms by (auto simp: WIDTH_def HEIGHT_def mult.commute simp del: of_int_add of_int_mult)
  then show ?thesis by (simp add: set_cursor_def Let_def hw_cursor_def crtc_out byte_mask u16_bytes)
qed

lemma set_cursor_fields [simp]:
  "v_cells (set_cursor x y s) = v_cells s" "v_cx (set_cursor x y s) = x" "v_cy (set_cursor x y s) = y" "v_color (set_cursor x y s) = v_color s"
  by (simp_all add: set_cursor_def Let_def)

lemma scroll_one:
  assumes "length (v_cells s) = 2000"
  shows "scroll 1 s = Ok (set_cursor (v_cx s) (v_cy s - 1) (s\<lparr>v_cells := drop 80 (v_cells s) @ blank_line\<rparr>))"
proof -
  obtain cs1 where c1: "rfold (\<lambda>i. copy_cell i (i + 80)) [0..1919] (v_cells s) = Ok cs1" "length cs1 = 2000"
    "\<forall>j < 2000. cs1 ! j = (if j < 1920 then v_cells s ! (j + 80) else v_cells s ! j)"
    using copy_up [of 80 1920 "v_cells s"] assms by auto
  obtain cs2 where c2: "rfold (\<lambda>i. cell_set i DEFAULT_CHAR) [1920..1999] cs1 = Ok cs2" "length cs2 = 2000"
    "\<forall>j < 2000. cs2 ! j = (if int j \<in> {1920..1999} then DEFAULT_CHAR else cs1 ! j)"
    using fill_cells [of "[1920..1999]" cs1 DEFAULT_CHAR] c1(2) by (simp only: set_upto) auto
  have "cs2 = drop 80 (v_cells s) @ blank_line"
  proof (rule nth_equalityI)
    fix j assume j: "j < length cs2"
    then show "cs2 ! j = (drop 80 (v_cells s) @ blank_line) ! j"
      using c1(3) c2(2,3) assms by (cases "j < 1920") (auto simp: nth_append blank_line_def add.commute)
  qed (simp add: c2(2) assms blank_line_def)
  then show ?thesis using c1(1) c2(1) by (simp add: scroll_def Let_def WIDTH_def HEIGHT_def del: upto_rec_numeral)
qed

section \<open>The screen driver implements the terminal\<close>

lemma tab_stop: "0 \<le> x \<Longrightarrow> x + (TAB_WIDTH - x smod TAB_WIDTH) = 4 * (x div 4 + 1)"
  by (simp add: TAB_WIDTH_def signed_modulo_int_def) (auto simp: minus_mod_eq_mult_div [symmetric] sgn_if)

text \<open>The state after the character itself, before the checks for the end of the line and of the screen.\<close>

lemma sign_bit: "bit (ch :: u8) 7 \<longleftrightarrow> \<not> ch < 0x80"
proof -
  have "unat ch < 256" using unsigned_less [of ch] by simp
  then have "odd (unat ch div 128) \<longleftrightarrow> \<not> unat ch < 128" by (cases "unat ch < 128") (auto simp: div_if)
  moreover have "bit ch 7 \<longleftrightarrow> bit (unat ch) 7" by (simp add: bit_unsigned_iff)
  moreover have "bit (unat ch) 7 \<longleftrightarrow> odd (unat ch div 128)" by (simp add: bit_iff_odd)
  ultimately show ?thesis by (simp add: word_less_nat_alt)
qed

lemma cell_of_signed:
  fixes color ch :: u8
  shows "push_bit 8 (ucast color) OR scast ch = cell_of color ch"
proof (rule bit_word_eqI)
  fix n assume n: "n < LENGTH(16)"
  have "(0xFF :: u16) = mask 8" by (simp add: mask_eq_exp_minus_1)
  then have m: "bit (0xFF :: u16) k \<longleftrightarrow> k < 8" for k by (simp only: bit_mask_iff) auto
  show "bit (push_bit 8 (ucast color) OR scast ch :: u16) n = bit (cell_of color ch) n"
  proof (cases "n < 8")
    case True
    then have "min 7 n = n" by simp
    then show ?thesis using True by (simp add: cell_of_def bit_simps)
  next
    case False
    have "min 7 n = 7" "\<not> bit ch n" using False by (auto dest: bit_imp_le_length)
    moreover have "bit (0xFF :: u16) (n - 8)" "n - 8 < 8" "n - 8 < 16" using False n m [of "n - 8"] by auto
    ultimately show ?thesis using False n by (simp add: cell_of_def attribute_def bit_simps sign_bit)
  qed
qed

lemma vga_advance_spec:
  assumes ok: "vga_ok s"
  shows "\<exists>s1. vga_advance ch s = Ok s1 \<and> length (v_cells s1) = 2000 \<and> 0 \<le> v_cx s1 \<and> v_cx s1 \<le> 80 \<and> 0 \<le> v_cy s1 \<and> v_cy s1 \<le> 25 \<and>
    (v_cy s1 = 25 \<longrightarrow> v_cx s1 = 0) \<and> v_color s1 = v_color s \<and>
    (v_cells s1, nat (v_cx s1), nat (v_cy s1)) = (let (cs, x, y) = screen s in
       if ch = 10 then (cs, 0, y + 1) else if ch = 13 then (cs, 0, y) else if ch = 9 then (cs, 4 * (x div 4 + 1), y)
       else (cs[80 * y + x := cell_of (v_color s) ch], x + 1, y))"
proof -
  have b: "length (v_cells s) = 2000" "0 \<le> v_cx s" "v_cx s < 80" "0 \<le> v_cy s" "v_cy s < 25" using ok by (simp_all add: vga_ok_def WIDTH_def HEIGHT_def)
  consider "ch = 10" | "ch = 13" | "ch = 9" | "ch \<notin> {9, 10, 13}" by blast
  then show ?thesis
  proof cases
    case 1
    then show ?thesis using b by (simp add: vga_advance_def screen_def nat_add_distrib)
  next
    case 2
    then show ?thesis using b by (simp add: vga_advance_def screen_def)
  next
    case 3
    have "v_cx s div 4 < 20" using b(3) by simp
    then show ?thesis using 3 b tab_stop [OF b(2)] by (simp add: vga_advance_def screen_def nat_mult_distrib nat_add_distrib nat_div_distrib)
  next
    case 4
    have p: "0 \<le> v_cy s * 80 + v_cx s" "v_cy s * 80 + v_cx s < 2000" "nat (v_cy s * 80 + v_cx s) = 80 * nat (v_cy s) + nat (v_cx s)"
      using b by (simp_all add: nat_add_distrib nat_mult_distrib)
    then have "vga_putc ch (v_cx s) (v_cy s) s = Ok (s\<lparr>v_cells := (v_cells s)[80 * nat (v_cy s) + nat (v_cx s) := cell_of (v_color s) ch]\<rparr>)"
      using b(1) by (simp add: vga_putc_def cell_of_signed Let_def cell_set_def WIDTH_def HEIGHT_def)
    then show ?thesis using 4 b by (simp add: vga_advance_def screen_def nat_add_distrib)
  qed
qed

lemma early_vga_putc_spec:
  assumes ok: "vga_ok s"
  shows "\<exists>s'. early_vga_putc ch s = Ok s' \<and> vga_ok s' \<and> v_color s' = v_color s \<and> screen s' = term_step (v_color s) ch (screen s) \<and>
    hw_cursor (v_tr s') = 80 * nat (v_cy s') + nat (v_cx s')"
proof -
  obtain s1 where s1: "vga_advance ch s = Ok s1" "length (v_cells s1) = 2000" "0 \<le> v_cx s1" "v_cx s1 \<le> 80" "0 \<le> v_cy s1" "v_cy s1 \<le> 25"
    "v_cy s1 = 25 \<longrightarrow> v_cx s1 = 0" "v_color s1 = v_color s"
    "(v_cells s1, nat (v_cx s1), nat (v_cy s1)) = (let (cs, x, y) = screen s in
       if ch = 10 then (cs, 0, y + 1) else if ch = 13 then (cs, 0, y) else if ch = 9 then (cs, 4 * (x div 4 + 1), y)
       else (cs[80 * y + x := cell_of (v_color s) ch], x + 1, y))"
    using vga_advance_spec [OF ok] by blast
  define s2 where "s2 = (if v_cx s1 \<ge> WIDTH then s1\<lparr>v_cx := 0, v_cy := v_cy s1 + 1\<rparr> else s1)"
  have s2: "length (v_cells s2) = 2000" "v_cells s2 = v_cells s1" "0 \<le> v_cx s2" "v_cx s2 < 80" "0 \<le> v_cy s2" "v_cy s2 \<le> 25" "v_color s2 = v_color s"
    using s1 by (auto simp: s2_def WIDTH_def)
  have xy: "(if nat (v_cx s1) \<ge> 80 then (0, nat (v_cy s1) + 1) else (nat (v_cx s1), nat (v_cy s1))) = (nat (v_cx s2), nat (v_cy s2))"
    using s1(3-6) by (auto simp: s2_def WIDTH_def nat_add_distrib)
  define s3 where "s3 = (if v_cy s2 \<ge> HEIGHT then set_cursor (v_cx s2) (v_cy s2 - 1) (s2\<lparr>v_cells := drop 80 (v_cells s2) @ blank_line\<rparr>) else s2)"
  have "(if v_cy s2 \<ge> HEIGHT then scroll 1 s2 else Ok s2) = Ok s3" using scroll_one [OF s2(1)] by (simp add: s3_def)
  then have r: "early_vga_putc ch s = Ok (set_cursor (v_cx s3) (v_cy s3) s3)" using s1(1) unfolding early_vga_putc_def Let_def by (simp only: rbind.simps s2_def [symmetric])
  have s3: "length (v_cells s3) = 2000" "0 \<le> v_cx s3" "v_cx s3 < WIDTH" "0 \<le> v_cy s3" "v_cy s3 < HEIGHT" "v_color s3 = v_color s"
    using s2 by (auto simp: s3_def WIDTH_def HEIGHT_def blank_line_def)
  have "term_step (v_color s) ch (screen s) = (let (cs, x, y) = (v_cells s1, nat (v_cx s1), nat (v_cy s1));
      (x, y) = (if x \<ge> 80 then (0, y + 1) else (x, y)) in if y \<ge> 25 then (drop 80 cs @ blank_line, x, y - 1) else (cs, x, y))"
    unfolding s1(9) term_step_def by (simp add: Let_def split: prod.split)
  also have "\<dots> = (if nat (v_cy s2) \<ge> 25 then (drop 80 (v_cells s1) @ blank_line, nat (v_cx s2), nat (v_cy s2) - 1) else (v_cells s1, nat (v_cx s2), nat (v_cy s2)))"
    unfolding Let_def prod.case xy by simp
  also have "\<dots> = screen s3" using s2 by (auto simp: s3_def screen_def HEIGHT_def nat_diff_distrib)
  finally have "screen (set_cursor (v_cx s3) (v_cy s3) s3) = term_step (v_color s) ch (screen s)" by (simp add: screen_def)
  moreover have "nat (80 * v_cy s3 + v_cx s3) = 80 * nat (v_cy s3) + nat (v_cx s3)" using s3 by (simp add: nat_add_distrib nat_mult_distrib)
  ultimately show ?thesis using r s3 set_cursor_hw [OF s3(2-5), of s3] by (intro exI [of _ "set_cursor (v_cx s3) (v_cy s3) s3"]) (simp add: vga_ok_def)
qed

lemma early_vga_write_spec:
  assumes "vga_ok s"
  shows "\<exists>s'. early_vga_write str s = Ok s' \<and> vga_ok s' \<and> v_color s' = v_color s \<and> screen s' = fold (term_step (v_color s)) str (screen s) \<and>
    (str \<noteq> [] \<longrightarrow> hw_cursor (v_tr s') = 80 * nat (v_cy s') + nat (v_cx s'))"
  using assms unfolding early_vga_write_def
proof (induction str arbitrary: s)
  case (Cons ch str)
  obtain s1 where s1: "early_vga_putc ch s = Ok s1" "vga_ok s1" "v_color s1 = v_color s" "screen s1 = term_step (v_color s) ch (screen s)"
    "hw_cursor (v_tr s1) = 80 * nat (v_cy s1) + nat (v_cx s1)"
    using early_vga_putc_spec [OF Cons.prems] by blast
  obtain s2 where s2: "rfold early_vga_putc str s1 = Ok s2" "vga_ok s2" "v_color s2 = v_color s1" "screen s2 = fold (term_step (v_color s1)) str (screen s1)"
    "str \<noteq> [] \<longrightarrow> hw_cursor (v_tr s2) = 80 * nat (v_cy s2) + nat (v_cx s2)"
    using Cons.IH [OF s1(2)] by blast
  have "hw_cursor (v_tr s2) = 80 * nat (v_cy s2) + nat (v_cx s2)" using s1 s2 by (cases "str = []") auto
  then show ?case using s1 s2 by auto
qed simp

lemma early_vga_log_write_spec:
  assumes "vga_ok s"
  shows "\<exists>s'. early_vga_log_write level str s = Ok s' \<and> vga_ok s' \<and> v_color s' = DEFAULT_COLOR \<and>
    screen s' = fold (term_step (get_level_color level)) str (screen s) \<and>
    (str \<noteq> [] \<longrightarrow> hw_cursor (v_tr s') = 80 * nat (v_cy s') + nat (v_cx s'))"
proof -
  have "vga_ok (s\<lparr>v_color := get_level_color level\<rparr>)" using assms by (simp add: vga_ok_def)
  from early_vga_write_spec [OF this, of str] obtain s1 where "early_vga_write str (s\<lparr>v_color := get_level_color level\<rparr>) = Ok s1" "vga_ok s1"
    "screen s1 = fold (term_step (get_level_color level)) str (screen s)" "str \<noteq> [] \<longrightarrow> hw_cursor (v_tr s1) = 80 * nat (v_cy s1) + nat (v_cx s1)"
    by (auto simp: screen_def)
  then show ?thesis by (intro exI [of _ "s1\<lparr>v_color := DEFAULT_COLOR\<rparr>"]) (auto simp: early_vga_log_write_def vga_ok_def screen_def)
qed

text \<open>
  Claim C33. From every cursor inside the screen, \<^verbatim>\<open>early_vga_log_write\<close> writes any text without an access outside the 80 by 25 screen: the cells and the
  cursor develop as on the abstract terminal, which wraps long lines and scrolls by one line at the end of the screen. A character below 0x80 gets
  the colour of the level, one from 0x80 on the attribute 0xFF whatever the level. The cursor stays inside the screen, the display controller's cursor
  follows it, and the default colour is restored.
\<close>

theorem early_vga_log_write_correct:
  assumes "vga_ok s"
  shows "\<exists>s'. early_vga_log_write level str s = Ok s' \<and> vga_ok s' \<and> v_color s' = DEFAULT_COLOR \<and>
    screen s' = fold (term_step (get_level_color level)) str (screen s) \<and>
    (str \<noteq> [] \<longrightarrow> hw_cursor (v_tr s') = 80 * nat (v_cy s') + nat (v_cx s'))"
  using assms by (rule early_vga_log_write_spec)

definition blank_vga :: vga where
  "blank_vga = \<lparr>v_base = 0xB8000, v_cells = replicate 2000 DEFAULT_CHAR, v_cx = 78, v_cy = 24, v_color = DEFAULT_COLOR, v_tr = []\<rparr>"

theorem early_vga_log_write_correct_witness:
  "\<exists>s'. early_vga_log_write 3 [72, 0xE4] blank_vga = Ok s' \<and> vga_ok s' \<and> hw_cursor (v_tr s') = 80 * nat (v_cy s') + nat (v_cx s') \<and>
     v_cells s' ! 1918 = 0x0C48 \<and> v_cells s' ! 1919 = 0xFFE4"
proof -
  have ok: "vga_ok blank_vga" by (simp add: vga_ok_def blank_vga_def WIDTH_def HEIGHT_def)
  have "fst (fold (term_step (get_level_color 3)) [72, 0xE4] (screen blank_vga)) ! 1918 = 0x0C48"
    "fst (fold (term_step (get_level_color 3)) [72, 0xE4] (screen blank_vga)) ! 1919 = 0xFFE4"
    by (simp_all add: screen_def blank_vga_def term_step_def Let_def cell_of_def attribute_def get_level_color_def nth_append blank_line_def)
  moreover obtain s' where "early_vga_log_write 3 [72, 0xE4] blank_vga = Ok s'" "vga_ok s'" "hw_cursor (v_tr s') = 80 * nat (v_cy s') + nat (v_cx s')"
    "screen s' = fold (term_step (get_level_color 3)) [72, 0xE4] (screen blank_vga)"
    using early_vga_log_write_correct [OF ok, of 3 "[72, 0xE4]"] by auto
  moreover from this(4) have "v_cells s' = fst (fold (term_step (get_level_color 3)) [72, 0xE4] (screen blank_vga))"
    by (metis screen_def fst_conv)
  ultimately show ?thesis by (intro exI [of _ s']) simp
qed

section \<open>The serial driver\<close>

text \<open>The bytes sent on the line, in order.\<close>

fun sent_bytes :: "trace \<Rightarrow> u8 list" where
  "sent_bytes [] = []"
| "sent_bytes (OutB p v # tr) = (if p = UART_PORT + REG_DATA then sent_bytes tr @ [v] else sent_bytes tr)"
| "sent_bytes (_ # tr) = sent_bytes tr"

text \<open>The documented behaviour the driver relies on: from every state the transmitter becomes empty after finitely many polls.\<close>

primrec polled :: "device \<Rightarrow> nat \<Rightarrow> trace \<Rightarrow> trace" where
  "polled dev 0 tr = tr"
| "polled dev (Suc n) tr = polled dev n (io_wait (snd (inb dev (UART_PORT + REG_LSR) tr)))"

definition transmits :: "device \<Rightarrow> bool" where
  "transmits dev \<longleftrightarrow> (\<forall>tr. \<exists>n. fst (inb dev (UART_PORT + REG_LSR) (polled dev n tr)) AND BSY \<noteq> 0)"

lemma sent_wait [simp]: "sent_bytes (io_wait tr) = sent_bytes tr"
  by (simp add: io_wait_def outb_def UART_PORT_def REG_DATA_def)

lemma sent_in [simp]: "sent_bytes (snd (inb dev p tr)) = sent_bytes tr"
  by (simp add: inb_def)

lemma uart_wait_returns:
  assumes "transmits dev"
  shows "\<exists>tr'. uart_wait dev tr = Some tr' \<and> sent_bytes tr' = sent_bytes tr"
proof -
  obtain n where "fst (inb dev (UART_PORT + REG_LSR) (polled dev n tr)) AND BSY \<noteq> 0" using assms by (auto simp: transmits_def)
  then show ?thesis
  proof (induction n arbitrary: tr)
    case 0
    then show ?case by (simp add: uart_wait.simps)
  next
    case (Suc n)
    then obtain tr' where "uart_wait dev (io_wait (snd (inb dev (UART_PORT + REG_LSR) tr))) = Some tr'" "sent_bytes tr' = sent_bytes tr" by force
    then show ?case by (subst uart_wait.simps) simp
  qed
qed

lemma uart_send_all_returns:
  assumes "transmits dev"
  shows "\<exists>tr'. uart_send_all dev str tr = Some tr' \<and> sent_bytes tr' = sent_bytes tr @ str"
proof (induction str arbitrary: tr)
  case (Cons ch str)
  obtain tr1 where "uart_wait dev tr = Some tr1" "sent_bytes tr1 = sent_bytes tr" using uart_wait_returns [OF assms] by blast
  then have "uart_send dev ch tr = Some (io_wait (outb (UART_PORT + REG_DATA) ch tr1))"
    "sent_bytes (io_wait (outb (UART_PORT + REG_DATA) ch tr1)) = sent_bytes tr @ [ch]"
    by (simp_all add: uart_send_def) (simp add: outb_def)
  then show ?case using Cons.IH [of "io_wait (outb (UART_PORT + REG_DATA) ch tr1)"] by auto
qed simp

lemma uart_send_all_single: "uart_send_all dev [ch] tr = uart_send dev ch tr"
  by (simp split: option.split)

lemma with_uart_returns:
  assumes "transmits dev" "uart_present s" "\<And>tr. f tr = uart_send_all dev str tr"
  shows "\<exists>s'. with_uart s f = Some s' \<and> uart_present s' \<and> sent_bytes (u_tr s') = sent_bytes (u_tr s) @ str"
  using uart_send_all_returns [OF assms(1), of str "u_tr s"] assms(2,3) by (auto simp: with_uart_def)

text \<open>What \<^verbatim>\<open>early_uart_log_write\<close> puts on the line: colour, text, and the reset before the final newline.\<close>

definition ansi_reset :: "u8 list" where "ansi_reset = 27 # bytes ''[0m''"

definition log_line :: "int \<Rightarrow> u8 list \<Rightarrow> u8 list" where
  "log_line level str = (if str = [] then [] else get_level_ansi level @ butlast str @
     (if last str = 10 then ansi_reset @ [10] else [last str] @ ansi_reset))"

lemma no_nul:
  "takeWhile (\<lambda>ch. ch \<noteq> 0) (get_level_ansi level) = get_level_ansi level" "takeWhile (\<lambda>ch. ch \<noteq> 0) ansi_reset = ansi_reset"
  "takeWhile (\<lambda>ch. ch \<noteq> 0) (ansi_reset @ [10]) = ansi_reset @ [10]"
  by (simp_all add: get_level_ansi_def ansi_reset_def bytes_def)

lemma early_uart_log_write_spec:
  assumes "transmits dev"
  shows "\<exists>s'. early_uart_log_write dev level str (length str) s = Some s' \<and> uart_present s' = uart_present s \<and>
    sent_bytes (u_tr s') = sent_bytes (u_tr s) @ (if uart_present s then log_line level str else [])"
proof (cases "uart_present s \<and> str \<noteq> []")
  case False
  then show ?thesis by (auto simp: early_uart_log_write_def log_line_def)
next
  case True
  note W = with_uart_returns [OF assms]
  obtain s1 where s1: "early_uart_puts dev (get_level_ansi level) s = Some s1" "uart_present s1" "sent_bytes (u_tr s1) = sent_bytes (u_tr s) @ get_level_ansi level"
    using W [of s "uart_send_all dev (get_level_ansi level)" "get_level_ansi level"] True unfolding early_uart_puts_def no_nul by auto
  obtain s2 where s2: "early_uart_write dev str (length str - 1) s1 = Some s2" "uart_present s2" "sent_bytes (u_tr s2) = sent_bytes (u_tr s1) @ butlast str"
    using W [of s1 "uart_send_all dev (butlast str)" "butlast str"] s1(2) unfolding early_uart_write_def butlast_conv_take by auto
  have last: "str ! (length str - 1) = last str" using True by (simp add: last_conv_nth)
  show ?thesis
  proof (cases "last str = 10")
    case nl: True
    obtain s3 where "early_uart_puts dev (ansi_reset @ [10]) s2 = Some s3" "uart_present s3" "sent_bytes (u_tr s3) = sent_bytes (u_tr s2) @ ansi_reset @ [10]"
      using W [of s2 "uart_send_all dev (ansi_reset @ [10])" "ansi_reset @ [10]"] s2(2) unfolding early_uart_puts_def no_nul by auto
    then show ?thesis using True nl s1 s2 last by (simp add: early_uart_log_write_def log_line_def ansi_reset_def)
  next
    case no: False
    obtain s3 where s3: "early_uart_putc dev (last str) s2 = Some s3" "uart_present s3" "sent_bytes (u_tr s3) = sent_bytes (u_tr s2) @ [last str]"
      using W [of s2 "uart_send dev (last str)" "[last str]"] s2(2) unfolding early_uart_putc_def uart_send_all_single by auto
    obtain s4 where "early_uart_puts dev ansi_reset s3 = Some s4" "uart_present s4" "sent_bytes (u_tr s4) = sent_bytes (u_tr s3) @ ansi_reset"
      using W [of s3 "uart_send_all dev ansi_reset" ansi_reset] s3(2) unfolding early_uart_puts_def no_nul by auto
    then show ?thesis using True no s1 s2 s3 last by (simp add: early_uart_log_write_def log_line_def ansi_reset_def)
  qed
qed

text \<open>
  Claim C34. On a serial line whose transmitter always becomes empty again, \<^verbatim>\<open>early_uart_log_write\<close> always returns and sends exactly the escape sequence of
  the level, the text, and the reset sequence, which is moved before a final newline; without a serial port, or without a text, nothing
  is sent.
\<close>

theorem early_uart_log_write_correct:
  assumes "transmits dev"
  shows "\<exists>s'. early_uart_log_write dev level str (length str) s = Some s' \<and> uart_present s' = uart_present s \<and>
    sent_bytes (u_tr s') = sent_bytes (u_tr s) @ (if uart_present s then log_line level str else [])"
  using assms by (rule early_uart_log_write_spec)

definition fast_uart :: device where "fast_uart tr p = 0x20"

theorem early_uart_log_write_correct_witness:
  "\<exists>s'. early_uart_log_write fast_uart 3 [72, 105, 10] 3 \<lparr>uart_present = True, u_tr = []\<rparr> = Some s' \<and>
     sent_bytes (u_tr s') = bytes [CHR 0x1B] @ bytes ''[0;91m'' @ [72, 105] @ bytes [CHR 0x1B] @ bytes ''[0m'' @ [10]"
proof -
  have "transmits fast_uart" by (simp add: transmits_def fast_uart_def inb_def BSY_def)
  from early_uart_log_write_correct [OF this, of 3 "[72, 105, 10]" "\<lparr>uart_present = True, u_tr = []\<rparr>"] show ?thesis
    by (auto simp: log_line_def ansi_reset_def get_level_ansi_def bytes_def numeral_3_eq_3)
qed

end
