(* ===== verification/Printk.thy ===== *)
theory Printk
  imports Prelude
begin

text \<open>
  Kernel logging (\<^verbatim>\<open>lib/printk.c\<close>, \<^verbatim>\<open>include/printk.h\<close>): format parsing, number conversion, the output buffer and the sinks. A C string is the list of
  its characters before the terminator, so that reading at the end of the list reads the terminator. The variable arguments are a list of
  values; reading an argument of another kind or past the end is undefined, as is every overflow of a C \<^verbatim>\<open>int\<close>. The output is the
  list of calls of the sinks' \<^verbatim>\<open>write\<close> functions: the index of the sink, the level and the text.
\<close>

section \<open>State\<close>

definition PRINTK_BUFFER_SIZE :: nat where "PRINTK_BUFFER_SIZE = 64"
definition DEFAULT_LEVEL :: int where "DEFAULT_LEVEL = 6"
definition MAX_SINKS :: nat where "MAX_SINKS = 8"
definition NTOA_BUFFER_SIZE :: nat where "NTOA_BUFFER_SIZE = 24"

definition FL_LEFT_JUSTIFY :: u32 where "FL_LEFT_JUSTIFY = 1"
definition FL_ALWAYS_SIGN :: u32 where "FL_ALWAYS_SIGN = 2"
definition FL_SIGN_PAD :: u32 where "FL_SIGN_PAD = 4"
definition FL_PREFIX :: u32 where "FL_PREFIX = 8"
definition FL_ZERO_PAD :: u32 where "FL_ZERO_PAD = 16"
definition FL_UPPER :: u32 where "FL_UPPER = 32"
definition FL_NEG :: u32 where "FL_NEG = 64"

definition has_flag :: "u32 \<Rightarrow> u32 \<Rightarrow> bool" where "has_flag flags f = (flags AND f \<noteq> 0)"

datatype length_t = LEN_NONE | LEN_HH | LEN_H | LEN_L | LEN_LL | LEN_J | LEN_Z | LEN_T

text \<open>A sink is present iff the first character of its name is not zero; \<open>sink_write\<close> names the driver function behind it.\<close>

record sink =
  sink_name :: string
  sink_write :: nat

type_synonym write_call = "nat \<times> int \<times> string"

record printk_context =
  p_buffer :: string
  buf_len :: nat
  p_level :: int
  p_ntoa :: string
  p_len :: int
  p_out :: "write_call list"
  p_stores :: "(u64 \<times> length_t \<times> int) list"

datatype varg = VWord u64 | VStr "string option" | VWStr "int list option"

definition NUL :: char where "NUL = CHR 0x00"

section \<open>C integers\<close>

definition ck :: "int \<Rightarrow> int kres" where
  "ck x = (if - (2 ^ 31) \<le> x \<and> x < 2 ^ 31 then Ok x else Err Undefined)"

definition va_word :: "varg list \<Rightarrow> (u64 \<times> varg list) kres" where
  "va_word va = (case va of VWord w # rest \<Rightarrow> Ok (w, rest) | _ \<Rightarrow> Err Undefined)"

definition va_int :: "varg list \<Rightarrow> (int \<times> varg list) kres" where
  "va_int va = rbind (va_word va) (\<lambda>(w, rest). Ok (sint (ucast w :: u32), rest))"

section \<open>The output buffer\<close>

definition sink_present :: "sink \<Rightarrow> bool" where
  "sink_present s \<longleftrightarrow> sink_name s ! 0 \<noteq> NUL"

definition flush :: "sink list \<Rightarrow> printk_context \<Rightarrow> printk_context" where
  "flush sinks c =
     (if buf_len c = 0 then c
      else let n = (if buf_len c > PRINTK_BUFFER_SIZE then PRINTK_BUFFER_SIZE else buf_len c)
      in c\<lparr>p_out := p_out c @ map (\<lambda>i. (i, p_level c, take n (p_buffer c))) (filter (\<lambda>i. sink_present (sinks ! i)) [0..<MAX_SINKS]),
           buf_len := 0\<rparr>)"

definition putc :: "sink list \<Rightarrow> char \<Rightarrow> printk_context \<Rightarrow> printk_context kres" where
  "putc sinks ch c0 =
     (let c = (if buf_len c0 \<ge> PRINTK_BUFFER_SIZE then flush sinks c0 else c0)
      in if buf_len c < length (p_buffer c)
         then rbind (ck (p_len c + 1)) (\<lambda>n. Ok (c\<lparr>p_buffer := (p_buffer c)[buf_len c := ch], buf_len := buf_len c + 1, p_len := n\<rparr>))
         else Err OutOfBounds)"

text \<open>UTF-8 encoding of a wide character; a \<^verbatim>\<open>wchar_t\<close> is an \<^verbatim>\<open>int\<close>.\<close>

definition wc_bytes :: "int \<Rightarrow> int list" where
  "wc_bytes wc =
     (if wc \<le> 0x7F then [wc]
      else if wc \<le> 0x7FF then [0xC0 OR drop_bit 6 wc, 0x80 OR (wc AND 0x3F)]
      else if wc \<le> 0xFFFF then [0xE0 OR drop_bit 12 wc, 0x80 OR (drop_bit 6 wc AND 0x3F), 0x80 OR (wc AND 0x3F)]
      else if wc \<le> 0x10FFFF then
        [0xF0 OR drop_bit 18 wc, 0x80 OR (drop_bit 12 wc AND 0x3F), 0x80 OR (drop_bit 6 wc AND 0x3F), 0x80 OR (wc AND 0x3F)]
      else [])"

definition putwc :: "sink list \<Rightarrow> int \<Rightarrow> printk_context \<Rightarrow> printk_context kres" where
  "putwc sinks wc = rfold (\<lambda>b. putc sinks (char_of b)) (wc_bytes wc)"

definition pad :: "sink list \<Rightarrow> char \<Rightarrow> int \<Rightarrow> printk_context \<Rightarrow> printk_context kres" where
  "pad sinks ch n = rfold (\<lambda>_. putc sinks ch) [0..<nat n]"

definition put_str :: "sink list \<Rightarrow> string \<Rightarrow> int \<Rightarrow> printk_context \<Rightarrow> printk_context kres" where
  "put_str sinks s len = rfold (\<lambda>i c. if i < length s then putc sinks (s ! i) c else Err OutOfBounds) [0..<nat len]"

definition put_wstr :: "sink list \<Rightarrow> int list \<Rightarrow> int \<Rightarrow> printk_context \<Rightarrow> printk_context kres" where
  "put_wstr sinks s len = rfold (\<lambda>i c. if i < length s then putwc sinks (s ! i) c else Err OutOfBounds) [0..<nat len]"

section \<open>Numbers\<close>

definition digit_chars :: "bool \<Rightarrow> string" where
  "digit_chars upper = (if upper then ''0123456789ABCDEF'' else ''0123456789abcdef'')"

text \<open>The conversion loop writes digits from the end of the buffer towards its start; \<open>p\<close> is the index of the write pointer.\<close>

fun ntoa_loop :: "string \<Rightarrow> u64 \<Rightarrow> nat \<Rightarrow> u64 \<Rightarrow> string \<Rightarrow> nat \<times> u64 \<times> string" where
  "ntoa_loop d base 0 val buf = (0, val, buf)"
| "ntoa_loop d base (Suc p) val buf =
     (if val = 0 then (Suc p, val, buf) else ntoa_loop d base p (val div base) (buf[p := d ! unat (val mod base)]))"

definition ntoa :: "u64 \<Rightarrow> u64 \<Rightarrow> bool \<Rightarrow> printk_context \<Rightarrow> nat \<times> printk_context" where
  "ntoa val base upper c =
     (if val = 0 then (NTOA_BUFFER_SIZE - 1, c\<lparr>p_ntoa := (p_ntoa c)[NTOA_BUFFER_SIZE - 1 := CHR ''0'']\<rparr>)
      else let (p, rest, buf) = ntoa_loop (digit_chars upper) base NTOA_BUFFER_SIZE val (p_ntoa c)
      in (p, c\<lparr>p_ntoa := (if rest \<noteq> 0 then buf[p := CHR ''?''] else buf)\<rparr>))"

text \<open>The argument of an integer conversion as the length modifier reads it.\<close>

definition signed_arg :: "length_t \<Rightarrow> u64 \<Rightarrow> int" where
  "signed_arg len w = (case len of LEN_HH \<Rightarrow> sint (ucast w :: u8) | LEN_H \<Rightarrow> sint (ucast w :: u16) | LEN_NONE \<Rightarrow> sint (ucast w :: u32) | _ \<Rightarrow> sint w)"

definition unsigned_arg :: "length_t \<Rightarrow> u64 \<Rightarrow> u64" where
  "unsigned_arg len w = (case len of LEN_HH \<Rightarrow> ucast (ucast w :: u8) | LEN_H \<Rightarrow> ucast (ucast w :: u16) | LEN_NONE \<Rightarrow> ucast (ucast w :: u32) | _ \<Rightarrow> w)"

definition integer_value :: "bool \<Rightarrow> u32 \<Rightarrow> length_t \<Rightarrow> u64 \<Rightarrow> (u64 \<times> u32) kres" where
  "integer_value is_signed flags len w =
     (if is_signed then
        let x = signed_arg len w
        in if x < 0 then if x = - (2 ^ 63) then Err Undefined else Ok (word_of_int (- x), flags OR FL_NEG)
           else Ok (word_of_int x, flags)
      else Ok (unsigned_arg len w, flags))"

definition emit_integer :: "sink list \<Rightarrow> bool \<Rightarrow> int \<Rightarrow> char \<Rightarrow> int \<Rightarrow> bool \<Rightarrow> int \<Rightarrow> string \<Rightarrow> int \<Rightarrow> printk_context \<Rightarrow> printk_context kres" where
  "emit_integer sinks left pad_n sign prefix_type upper zeros nstr nlen c0 =
     rbind (if \<not> left then pad sinks CHR '' '' pad_n c0 else Ok c0) (\<lambda>c.
     rbind (if sign \<noteq> NUL then putc sinks sign c else Ok c) (\<lambda>c.
     rbind (if prefix_type \<noteq> 0 then putc sinks CHR ''0'' c else Ok c) (\<lambda>c.
     rbind (if prefix_type = 2 then putc sinks (if upper then CHR ''X'' else CHR ''x'') c else Ok c) (\<lambda>c.
     rbind (pad sinks CHR ''0'' zeros c) (\<lambda>c.
     rbind (put_str sinks nstr nlen c) (\<lambda>c.
     if left then pad sinks CHR '' '' pad_n c else Ok c))))))"

definition sign_char :: "bool \<Rightarrow> u32 \<Rightarrow> char" where
  "sign_char is_signed flags = (if has_flag flags FL_NEG then CHR ''-''
     else if has_flag flags FL_ALWAYS_SIGN \<and> is_signed then CHR ''+''
     else if has_flag flags FL_SIGN_PAD then CHR '' '' else NUL)"

definition prefix_kind :: "u64 \<Rightarrow> u32 \<Rightarrow> int \<Rightarrow> int \<Rightarrow> u64 \<Rightarrow> int" where
  "prefix_kind base flags prec_zeros precision uval =
     (if has_flag flags FL_PREFIX then
        if base = 8 \<and> prec_zeros = 0 \<and> (uval \<noteq> 0 \<or> precision = 0) then 1
        else if base = 16 \<and> uval \<noteq> 0 then 2 else 0
      else 0)"

definition integer :: "sink list \<Rightarrow> bool \<Rightarrow> u64 \<Rightarrow> u32 \<Rightarrow> int \<Rightarrow> int \<Rightarrow> length_t \<Rightarrow> varg list \<times> printk_context \<Rightarrow> (varg list \<times> printk_context) kres" where
  "integer sinks is_signed base flags0 width precision len = (\<lambda>(va0, c0).
     rbind (va_word va0) (\<lambda>(w, va).
     rbind (integer_value is_signed flags0 len w) (\<lambda>(uval, flags).
     let (p, c1) = ntoa uval base (has_flag flags FL_UPPER) c0;
         nlen = (if precision = 0 \<and> uval = 0 then 0 else int NTOA_BUFFER_SIZE - int p);
         prec_zeros = (if precision > nlen then precision - nlen else 0);
         sign = sign_char is_signed flags;
         prefix_type = prefix_kind base flags prec_zeros precision uval
     in rbind (ck ((if sign \<noteq> NUL then 1 else 0) + prefix_type + prec_zeros + nlen)) (\<lambda>field.
        let pad_n0 = (if width > field then width - field else 0);
            zeros = (has_flag flags FL_ZERO_PAD \<and> \<not> has_flag flags FL_LEFT_JUSTIFY \<and> precision < 0);
            zero_n = (if zeros then pad_n0 else 0);
            pad_n = (if zeros then 0 else pad_n0)
        in rbind (ck (zero_n + prec_zeros)) (\<lambda>nz.
           rbind (emit_integer sinks (has_flag flags FL_LEFT_JUSTIFY) pad_n sign prefix_type (has_flag flags FL_UPPER) nz (drop p (p_ntoa c1)) nlen c1) (\<lambda>c.
           Ok (va, c)))))))"

section \<open>The other conversions\<close>

definition print_char :: "sink list \<Rightarrow> u32 \<Rightarrow> int \<Rightarrow> length_t \<Rightarrow> varg list \<times> printk_context \<Rightarrow> (varg list \<times> printk_context) kres" where
  "print_char sinks flags width len = (\<lambda>(va0, c0).
     rbind (va_int va0) (\<lambda>(ch, va).
     rbind (ck (width - 1)) (\<lambda>n.
     rbind (if \<not> has_flag flags FL_LEFT_JUSTIFY \<and> n > 0 then pad sinks CHR '' '' n c0 else Ok c0) (\<lambda>c.
     rbind (if len = LEN_L then putwc sinks ch c else putc sinks (char_of ch) c) (\<lambda>c.
     rbind (if has_flag flags FL_LEFT_JUSTIFY \<and> n > 0 then pad sinks CHR '' '' n c else Ok c) (\<lambda>c.
     Ok (va, c)))))))"

definition null_text :: string where "null_text = ''(null)''"

definition print_string :: "sink list \<Rightarrow> u32 \<Rightarrow> int \<Rightarrow> int \<Rightarrow> length_t \<Rightarrow> varg list \<times> printk_context \<Rightarrow> (varg list \<times> printk_context) kres" where
  "print_string sinks flags width precision len = (\<lambda>(va0, c0).
     rbind (if len = LEN_L
            then (case va0 of VWStr s # va \<Rightarrow> let t = (case s of None \<Rightarrow> map of_char null_text | Some t \<Rightarrow> t) in Ok (va, int (length t), put_wstr sinks t)
                  | _ \<Rightarrow> Err Undefined)
            else (case va0 of VStr s # va \<Rightarrow> let t = (case s of None \<Rightarrow> null_text | Some t \<Rightarrow> t) in Ok (va, int (length t), put_str sinks t)
                  | _ \<Rightarrow> Err Undefined)) (\<lambda>(va, slen, put).
     rbind (ck slen) (\<lambda>slen.
     let str_len = (if precision \<ge> 0 \<and> slen > precision then precision else slen)
     in rbind (ck (width - str_len)) (\<lambda>n.
        rbind (if \<not> has_flag flags FL_LEFT_JUSTIFY \<and> n > 0 then pad sinks CHR '' '' n c0 else Ok c0) (\<lambda>c.
        rbind (put str_len c) (\<lambda>c.
        rbind (if has_flag flags FL_LEFT_JUSTIFY \<and> n > 0 then pad sinks CHR '' '' n c else Ok c) (\<lambda>c.
        Ok (va, c))))))))"

definition print_pointer :: "sink list \<Rightarrow> u32 \<Rightarrow> int \<Rightarrow> varg list \<times> printk_context \<Rightarrow> (varg list \<times> printk_context) kres" where
  "print_pointer sinks flags width = (\<lambda>(va0, c0).
     rbind (va_word va0) (\<lambda>(ptr, va).
     let (p, c1) = ntoa ptr 16 False c0;
         nstr = drop p (p_ntoa c1);
         nlen = int NTOA_BUFFER_SIZE - int p;
         zero_n = (if nlen < 16 then 16 - nlen else 0)
     in rbind (ck (width - (2 + zero_n + nlen))) (\<lambda>n.
        rbind (if \<not> has_flag flags FL_LEFT_JUSTIFY \<and> n > 0 then pad sinks CHR '' '' n c1 else Ok c1) (\<lambda>c.
        rbind (put_str sinks ''0x'' 2 c) (\<lambda>c.
        rbind (pad sinks CHR ''0'' zero_n c) (\<lambda>c.
        rbind (put_str sinks nstr nlen c) (\<lambda>c.
        rbind (if has_flag flags FL_LEFT_JUSTIFY \<and> n > 0 then pad sinks CHR '' '' n c else Ok c) (\<lambda>c.
        Ok (va, c)))))))))"

text \<open>\<^verbatim>\<open>%n\<close> stores the number of characters so far through a pointer, converted to the type of the length modifier.\<close>

definition store_len :: "length_t \<Rightarrow> int \<Rightarrow> int" where
  "store_len len n = (case len of LEN_HH \<Rightarrow> sint (word_of_int n :: u8) | LEN_H \<Rightarrow> sint (word_of_int n :: u16) | _ \<Rightarrow> n)"

definition print_count :: "length_t \<Rightarrow> varg list \<times> printk_context \<Rightarrow> (varg list \<times> printk_context) kres" where
  "print_count len = (\<lambda>(va0, c).
     rbind (va_word va0) (\<lambda>(ptr, va).
       if ptr = 0 then Ok (va, c) else Ok (va, c\<lparr>p_stores := p_stores c @ [(ptr, len, store_len len (p_len c))]\<rparr>)))"

section \<open>Formats\<close>

fun parse_flags :: "u32 \<Rightarrow> string \<Rightarrow> u32 \<times> string" where
  "parse_flags flags [] = (flags, [])"
| "parse_flags flags (ch # s) =
     (if ch = CHR ''-'' then parse_flags (flags OR FL_LEFT_JUSTIFY) s
      else if ch = CHR ''+'' then parse_flags (flags OR FL_ALWAYS_SIGN) s
      else if ch = CHR '' '' then parse_flags (flags OR FL_SIGN_PAD) s
      else if ch = CHR ''#'' then parse_flags (flags OR FL_PREFIX) s
      else if ch = CHR ''0'' then parse_flags (flags OR FL_ZERO_PAD) s
      else (flags, ch # s))"

definition is_digit :: "char \<Rightarrow> bool" where
  "is_digit ch \<longleftrightarrow> (48 :: nat) \<le> of_char ch \<and> of_char ch \<le> (57 :: nat)"

fun parse_num :: "int \<Rightarrow> string \<Rightarrow> (int \<times> string) kres" where
  "parse_num n [] = Ok (n, [])"
| "parse_num n (ch # s) = (if is_digit ch then rbind (ck (n * 10 + (of_char ch - 48))) (\<lambda>n. parse_num n s) else Ok (n, ch # s))"

definition parse_width :: "u32 \<Rightarrow> string \<Rightarrow> varg list \<Rightarrow> (u32 \<times> int \<times> string \<times> varg list) kres" where
  "parse_width flags fmt va =
     (if fmt \<noteq> [] \<and> hd fmt = CHR ''*'' then
        rbind (va_int va) (\<lambda>(width, va).
          if width < 0 then rbind (ck (- width)) (\<lambda>width. Ok (flags OR FL_LEFT_JUSTIFY, width, tl fmt, va))
          else Ok (flags, width, tl fmt, va))
      else rbind (parse_num 0 fmt) (\<lambda>(width, fmt). Ok (flags, width, fmt, va)))"

definition parse_precision :: "string \<Rightarrow> varg list \<Rightarrow> (int \<times> string \<times> varg list) kres" where
  "parse_precision fmt va =
     (if fmt \<noteq> [] \<and> hd fmt = CHR ''.'' then
        if tl fmt \<noteq> [] \<and> hd (tl fmt) = CHR ''*'' then
          rbind (va_int va) (\<lambda>(precision, va). Ok (if precision < 0 then -1 else precision, tl (tl fmt), va))
        else rbind (parse_num 0 (tl fmt)) (\<lambda>(precision, fmt). Ok (precision, fmt, va))
      else Ok (-1, fmt, va))"

definition parse_length :: "string \<Rightarrow> length_t \<times> string" where
  "parse_length fmt = (case fmt of [] \<Rightarrow> (LEN_NONE, [])
     | ch # s \<Rightarrow>
        if ch = CHR ''h'' then if s \<noteq> [] \<and> hd s = CHR ''h'' then (LEN_HH, tl s) else (LEN_H, s)
        else if ch = CHR ''l'' then if s \<noteq> [] \<and> hd s = CHR ''l'' then (LEN_LL, tl s) else (LEN_L, s)
        else if ch = CHR ''j'' then (LEN_J, s)
        else if ch = CHR ''z'' then (LEN_Z, s)
        else if ch = CHR ''t'' then (LEN_T, s)
        else (LEN_NONE, fmt))"

definition print_spec :: "sink list \<Rightarrow> char \<Rightarrow> u32 \<Rightarrow> int \<Rightarrow> int \<Rightarrow> length_t \<Rightarrow> string \<Rightarrow> varg list \<times> printk_context \<Rightarrow> (varg list \<times> printk_context) kres" where
  "print_spec sinks spec flags width precision len raw vc =
     (if spec = CHR ''d'' \<or> spec = CHR ''i'' then integer sinks True 10 flags width precision len vc
      else if spec = CHR ''u'' then integer sinks False 10 flags width precision len vc
      else if spec = CHR ''o'' then integer sinks False 8 flags width precision len vc
      else if spec = CHR ''x'' then integer sinks False 16 flags width precision len vc
      else if spec = CHR ''X'' then integer sinks False 16 (flags OR FL_UPPER) width precision len vc
      else if spec = CHR ''c'' then print_char sinks flags width len vc
      else if spec = CHR ''s'' then print_string sinks flags width precision len vc
      else if spec = CHR ''p'' then print_pointer sinks flags width vc
      else if spec = CHR ''n'' then print_count len vc
      else rbind (put_str sinks raw (int (length raw)) (snd vc)) (\<lambda>c. Ok (fst vc, c)))"

text \<open>One conversion specification; \<open>None\<close> when the format ends before its conversion character.\<close>

definition convert :: "sink list \<Rightarrow> string \<Rightarrow> varg list \<times> printk_context \<Rightarrow> (string \<times> varg list \<times> printk_context) option kres" where
  "convert sinks spec_start = (\<lambda>(va0, c).
     let (flags0, fmt0) = parse_flags 0 (tl spec_start)
     in rbind (parse_width flags0 fmt0 va0) (\<lambda>(flags, width, fmt1, va1).
        rbind (parse_precision fmt1 va1) (\<lambda>(precision, fmt2, va2).
        let (len, fmt3) = parse_length fmt2
        in case fmt3 of [] \<Rightarrow> Ok None
           | spec # fmt \<Rightarrow>
               rbind (print_spec sinks spec flags width precision len (take (length spec_start - length fmt) spec_start) (va2, c)) (\<lambda>(va, c).
                 Ok (Some (fmt, va, c))))))"

lemma parse_flags_length: "parse_flags flags s = (f, r) \<Longrightarrow> length r \<le> length s"
  by (induction flags s arbitrary: f r rule: parse_flags.induct) (fastforce split: if_splits)+

lemma parse_num_length: "parse_num n s = Ok (m, r) \<Longrightarrow> length r \<le> length s"
  by (induction n s arbitrary: m r rule: parse_num.induct) (fastforce split: if_splits)+

lemma convert_length:
  assumes "convert sinks s vc = Ok (Some (fmt, vc'))" and "s \<noteq> []"
  shows "length fmt < length s"
proof -
  obtain va0 c where vc: "vc = (va0, c)" by (cases vc)
  obtain flags0 fmt0 where f: "parse_flags 0 (tl s) = (flags0, fmt0)" by (metis surj_pair)
  obtain flags width fmt1 va1 where w: "parse_width flags0 fmt0 va0 = Ok (flags, width, fmt1, va1)"
    using assms(1) f vc by (auto simp: convert_def)
  obtain precision fmt2 va2 where p: "parse_precision fmt1 va1 = Ok (precision, fmt2, va2)"
    using assms(1) f w vc by (auto simp: convert_def)
  obtain len fmt3 where l: "parse_length fmt2 = (len, fmt3)" by (metis surj_pair)
  have "fmt3 \<noteq> [] \<and> fmt = tl fmt3" using assms(1) f w p l vc by (auto simp: convert_def split: list.splits)
  moreover have "length fmt3 \<le> length fmt2" using l by (auto simp: parse_length_def split: list.splits if_splits)
  moreover have "length fmt2 \<le> length fmt1" using p parse_num_length by (fastforce simp: parse_precision_def split: if_splits)
  moreover have "length fmt1 \<le> length fmt0" using w parse_num_length by (fastforce simp: parse_width_def split: if_splits)
  moreover have "length fmt0 \<le> length s - 1" using parse_flags_length [OF f] by simp
  ultimately show ?thesis using assms(2) by (cases fmt3; cases s) auto
qed

lemma rbind_fundef_cong [fundef_cong]: "m = m' \<Longrightarrow> (\<And>x. m' = Ok x \<Longrightarrow> f x = g x) \<Longrightarrow> rbind m f = rbind m' g"
  by (cases m') simp_all

function vprintkl_loop :: "sink list \<Rightarrow> string \<Rightarrow> varg list \<Rightarrow> printk_context \<Rightarrow> printk_context kres" where
  "vprintkl_loop sinks [] va c = Ok c"
| "vprintkl_loop sinks (ch # s) va c =
     (if ch \<noteq> CHR ''%'' then rbind (putc sinks ch c) (\<lambda>c. vprintkl_loop sinks s va c)
      else if s \<noteq> [] \<and> hd s = CHR ''%'' then rbind (putc sinks CHR ''%'' c) (\<lambda>c. vprintkl_loop sinks (tl s) va c)
      else rbind (convert sinks (ch # s) (va, c)) (\<lambda>r.
        case r of None \<Rightarrow> Ok c | Some (fmt, va, c) \<Rightarrow> vprintkl_loop sinks fmt va c))"
  by pat_completeness auto
termination
  by (relation "measure (\<lambda>(sinks, s, va, c). length s)") (auto dest: convert_length)

definition vprintkl :: "sink list \<Rightarrow> int \<Rightarrow> string option \<Rightarrow> varg list \<Rightarrow> (int \<times> write_call list \<times> (u64 \<times> length_t \<times> int) list) kres" where
  "vprintkl sinks level fmt va =
     (case fmt of None \<Rightarrow> Ok (0, [], [])
      | Some s \<Rightarrow>
          rbind (vprintkl_loop sinks s va
            \<lparr>p_buffer = replicate PRINTK_BUFFER_SIZE NUL, buf_len = 0, p_level = level, p_ntoa = replicate NTOA_BUFFER_SIZE NUL,
             p_len = 0, p_out = [], p_stores = []\<rparr>) (\<lambda>c0.
          let c = flush sinks c0 in Ok (p_len c, p_out c, p_stores c)))"

definition vprintk :: "sink list \<Rightarrow> string option \<Rightarrow> varg list \<Rightarrow> (int \<times> write_call list \<times> (u64 \<times> length_t \<times> int) list) kres" where
  "vprintk sinks fmt va =
     (case fmt of None \<Rightarrow> Ok (0, [], [])
      | Some s \<Rightarrow>
          if length s \<ge> 2 \<and> s ! 0 = CHR 0x01 \<and> is_digit (s ! 1)
          then vprintkl sinks (of_char (s ! 1) - 48) (Some (drop 2 s)) va
          else vprintkl sinks DEFAULT_LEVEL fmt va)"

section \<open>Sinks\<close>

definition printk_sink_register :: "sink \<Rightarrow> sink list \<Rightarrow> nat option \<times> sink list" where
  "printk_sink_register s sinks =
     (if sink_name s ! 0 = NUL then (None, sinks)
      else case find (\<lambda>i. \<not> sink_present (sinks ! i)) [0..<MAX_SINKS] of None \<Rightarrow> (None, sinks) | Some i \<Rightarrow> (Some i, sinks[i := s]))"

definition printk_sink_unregister :: "nat option \<Rightarrow> sink list \<Rightarrow> int \<times> sink list" where
  "printk_sink_unregister p sinks =
     (case p of None \<Rightarrow> (-1, sinks)
      | Some i \<Rightarrow> if i \<ge> MAX_SINKS then (-1, sinks)
          else (0, sinks[i := (sinks ! i)\<lparr>sink_name := (sink_name (sinks ! i))[0 := NUL]\<rparr>]))"

end
