(* ===== verification/Printk_Correct.thy ===== *)
theory Printk_Correct
  imports Printk
begin

text \<open>
  Correctness of kernel logging: no format and no argument list makes \<^verbatim>\<open>printk\<close> leave its buffers, every sink receives the whole text in
  order, and printed numbers can be read back. The interface between the formatting code and the output buffer is the locale
  \<open>writer\<close>: a stream of characters that one operation extends by the encoding of one item.
\<close>

section \<open>Results\<close>

text \<open>The only failure is undefined behaviour: a missing argument or an overflow of an \<^verbatim>\<open>int\<close>, never an access outside a buffer.\<close>

definition safe :: "'a kres \<Rightarrow> ('a \<Rightarrow> bool) \<Rightarrow> bool" where
  "safe r P = (case r of Ok x \<Rightarrow> P x | Err e \<Rightarrow> e = Undefined)"

lemma safe_Ok [simp]: "safe (Ok x) P = P x"
  by (simp add: safe_def)

lemma safe_Undefined [simp]: "safe (Err Undefined) P"
  by (simp add: safe_def)

lemma safe_bind: "safe m P \<Longrightarrow> (\<And>x. P x \<Longrightarrow> safe (f x) Q) \<Longrightarrow> safe (rbind m f) Q"
  by (cases m) (simp_all add: safe_def)

lemma safe_mono: "safe m P \<Longrightarrow> (\<And>x. P x \<Longrightarrow> Q x) \<Longrightarrow> safe m Q"
  by (cases m) (simp_all add: safe_def)

lemma safe_ck: "safe (ck x) (\<lambda>y. y = x)"
  by (simp add: ck_def)

lemma safe_va_word: "safe (va_word va) (\<lambda>(w, rest). va = VWord w # rest)"
  by (simp add: va_word_def split: list.split varg.split)

lemma safe_va_int: "safe (va_int va) (\<lambda>_. True)"
  unfolding va_int_def by (rule safe_bind [OF safe_va_word]) auto

section \<open>Writers\<close>

text \<open>A step that extends the text \<open>t\<close> of a state by \<open>u\<close>; it may fail only when the text becomes too long for the length count.\<close>

definition emits :: "('s \<Rightarrow> string \<Rightarrow> bool) \<Rightarrow> 's kres \<Rightarrow> string \<Rightarrow> string \<Rightarrow> bool" where
  "emits rel r t u = (case r of Ok s \<Rightarrow> rel s (t @ u) | Err e \<Rightarrow> e = Undefined \<and> 2 ^ 31 \<le> length (t @ u))"

lemma emits_skip: "rel s t \<Longrightarrow> emits rel (Ok s) t []"
  by (simp add: emits_def)

lemma emits_bind:
  assumes "emits rel m t u" and "\<And>s. rel s (t @ u) \<Longrightarrow> emits rel (f s) (t @ u) v"
  shows "emits rel (rbind m f) t (u @ v)"
proof (cases m)
  case (Ok s)
  then show ?thesis using assms(1) assms(2) [of s] by (auto simp: emits_def split: kres.splits)
qed (use assms(1) in \<open>simp add: emits_def\<close>)

lemma emits_if: "rel s t \<Longrightarrow> (b \<Longrightarrow> emits rel m t u) \<Longrightarrow> emits rel (if b then m else Ok s) t (if b then u else [])"
  by (simp add: emits_skip)

lemma emits_safe: "emits rel r t u \<Longrightarrow> safe r (\<lambda>s. rel s (t @ u))"
  by (auto simp: emits_def safe_def split: kres.splits)

locale writer =
  fixes emit :: "'a \<Rightarrow> 's \<Rightarrow> 's kres"
    and enc :: "'a \<Rightarrow> string"
    and rel :: "'s \<Rightarrow> string \<Rightarrow> bool"
  assumes emit: "rel s t \<Longrightarrow> emits rel (emit x s) t (enc x)"
begin

lemma emit_all: "rel s t \<Longrightarrow> emits rel (rfold emit u s) t (concat (map enc u))"
  by (induction u arbitrary: s t) (simp_all add: emits_skip emits_bind emit)

lemma emit_repeat: "rel s t \<Longrightarrow> emits rel (rfold (\<lambda>_. emit x) ys s) t (concat (replicate (length ys) (enc x)))"
  by (induction ys arbitrary: s t) (simp_all add: emits_skip emits_bind emit)

lemma emit_index:
  assumes "rel s t" "n \<le> length u"
  shows "emits rel (rfold (\<lambda>i s. if i < length u then emit (u ! i) s else Err OutOfBounds) [0..<n] s) t (concat (map enc (take n u)))"
  using assms(2)
proof (induction n)
  case 0
  then show ?case using assms(1) by (simp add: emits_skip)
next
  case (Suc n)
  let ?f = "\<lambda>i s. if i < length u then emit (u ! i) s else Err OutOfBounds"
  have "emits rel (rbind (rfold ?f [0..<n] s) (?f n)) t (concat (map enc (take n u)) @ enc (u ! n))"
    using Suc by (intro emits_bind) (auto intro: emit)
  moreover have "rbind (rfold ?f [0..<n] s) (?f n) = rfold ?f [0..<Suc n] s"
    unfolding upt_Suc_append [OF le0] by (rule rfold_snoc [symmetric])
  ultimately show ?case using Suc.prems by (simp add: take_Suc_conv_app_nth)
qed

end

section \<open>The output buffer is a writer\<close>

definition sent :: "nat \<Rightarrow> write_call list \<Rightarrow> string" where
  "sent i out = concat (map (\<lambda>(j, l, x). if j = i then x else []) out)"

text \<open>The context holds the text \<open>t\<close>: what a present sink has received, followed by the buffer, is \<open>t\<close>.\<close>

definition holds_text :: "sink list \<Rightarrow> int \<Rightarrow> printk_context \<Rightarrow> string \<Rightarrow> bool" where
  "holds_text sinks level c t \<longleftrightarrow> length (p_buffer c) = PRINTK_BUFFER_SIZE \<and> buf_len c \<le> PRINTK_BUFFER_SIZE \<and>
     length (p_ntoa c) = NTOA_BUFFER_SIZE \<and> p_level c = level \<and> p_len c = int (length t) \<and>
     (\<forall>(i, l, x) \<in> set (p_out c). i < MAX_SINKS \<and> sink_present (sinks ! i) \<and> l = level \<and> x \<noteq> [] \<and> length x \<le> PRINTK_BUFFER_SIZE) \<and>
     (\<forall>i < MAX_SINKS. sink_present (sinks ! i) \<longrightarrow> sent i (p_out c) @ take (buf_len c) (p_buffer c) = t)"

lemma sent_broadcast: "distinct js \<Longrightarrow> sent i (map (\<lambda>j. (j, l, x)) js) = (if i \<in> set js then x else [])"
  by (induction js) (auto simp: sent_def)

lemma sent_append: "sent i (xs @ ys) = sent i xs @ sent i ys"
  by (simp add: sent_def)

lemma flush_holds:
  assumes "holds_text sinks level c t"
  shows "holds_text sinks level (flush sinks c) t" and "buf_len (flush sinks c) = 0"
proof -
  show "buf_len (flush sinks c) = 0" by (simp add: flush_def Let_def)
  show "holds_text sinks level (flush sinks c) t"
  proof (cases "buf_len c = 0")
    case True
    then show ?thesis using assms by (simp add: flush_def)
  next
    case False
    have b: "buf_len c \<le> PRINTK_BUFFER_SIZE" "length (p_buffer c) = PRINTK_BUFFER_SIZE" using assms by (simp_all add: holds_text_def)
    let ?js = "filter (\<lambda>i. sink_present (sinks ! i)) [0..<MAX_SINKS]"
    have f: "flush sinks c = c\<lparr>p_out := p_out c @ map (\<lambda>i. (i, p_level c, take (buf_len c) (p_buffer c))) ?js, buf_len := 0\<rparr>"
      using False b by (simp add: flush_def Let_def)
    have "sent i (map (\<lambda>i. (i, p_level c, take (buf_len c) (p_buffer c))) ?js) = take (buf_len c) (p_buffer c)"
      if "i < MAX_SINKS" "sink_present (sinks ! i)" for i
      using that by (subst sent_broadcast) auto
    then show ?thesis using assms False b unfolding f holds_text_def by (auto simp: sent_append)
  qed
qed

lemma putc_emits:
  assumes "holds_text sinks level c t"
  shows "emits (holds_text sinks level) (putc sinks ch c) t [ch]"
proof -
  define c1 where "c1 = (if buf_len c \<ge> PRINTK_BUFFER_SIZE then flush sinks c else c)"
  have h: "holds_text sinks level c1 t" and b: "buf_len c1 < PRINTK_BUFFER_SIZE"
    using flush_holds [OF assms] assms by (auto simp: c1_def PRINTK_BUFFER_SIZE_def)
  have lt: "buf_len c1 < length (p_buffer c1)" using h b by (simp add: holds_text_def)
  have len: "p_len c1 = int (length t)" using h by (simp add: holds_text_def)
  have "take (Suc (buf_len c1)) ((p_buffer c1)[buf_len c1 := ch]) = take (buf_len c1) (p_buffer c1) @ [ch]"
    using lt by (simp add: take_Suc_conv_app_nth)
  then have "holds_text sinks level (c1\<lparr>p_buffer := (p_buffer c1)[buf_len c1 := ch], buf_len := buf_len c1 + 1, p_len := p_len c1 + 1\<rparr>) (t @ [ch])"
    using h b unfolding holds_text_def by auto
  then show ?thesis using lt len unfolding putc_def c1_def [symmetric] Let_def by (simp add: ck_def emits_def)
qed

interpretation pk: writer "putc sinks" "\<lambda>ch. [ch]" "holds_text sinks level" for sinks level
  by unfold_locales (rule putc_emits)

lemma pad_emits: "holds_text sinks level c t \<Longrightarrow> emits (holds_text sinks level) (pad sinks ch n c) t (replicate (nat n) ch)"
  unfolding pad_def using pk.emit_repeat [of sinks level c t ch "[0..<nat n]"] by (simp add: concat_replicate_single)

lemma put_str_emits:
  assumes "holds_text sinks level c t" "nat n \<le> length u"
  shows "emits (holds_text sinks level) (put_str sinks u n c) t (take (nat n) u)"
  unfolding put_str_def using pk.emit_index [OF assms] by simp

lemma putwc_emits:
  assumes "holds_text sinks level c t"
  shows "emits (holds_text sinks level) (putwc sinks wc c) t (map char_of (wc_bytes wc))"
proof -
  have "rfold (\<lambda>b. putc sinks (char_of b)) bs c = rfold (putc sinks) (map char_of bs) c" for bs :: "int list" and c
    by (induction bs arbitrary: c) (simp_all add: fun_eq_iff cong: rbind_fundef_cong)
  then show ?thesis unfolding putwc_def using pk.emit_all [OF assms] by simp
qed

interpretation pw: writer "putwc sinks" "\<lambda>wc. map char_of (wc_bytes wc)" "holds_text sinks level" for sinks level
  by unfold_locales (rule putwc_emits)

lemma put_wstr_emits:
  assumes "holds_text sinks level c t" "nat n \<le> length u"
  shows "emits (holds_text sinks level) (put_wstr sinks u n c) t (concat (map (\<lambda>wc. map char_of (wc_bytes wc)) (take (nat n) u)))"
  unfolding put_wstr_def by (rule pw.emit_index [OF assms])

section \<open>Digits\<close>

fun digs :: "nat \<Rightarrow> nat \<Rightarrow> nat list" where
  "digs b n = (if n = 0 \<or> b < 2 then [] else digs b (n div b) @ [n mod b])"

declare digs.simps [simp del]

definition dval :: "nat \<Rightarrow> nat list \<Rightarrow> nat" where
  "dval b ds = foldl (\<lambda>n d. b * n + d) 0 ds"

lemma digs_0 [simp]: "digs b 0 = []"
  by (simp add: digs.simps)

lemma digs_step: "2 \<le> b \<Longrightarrow> 0 < n \<Longrightarrow> digs b n = digs b (n div b) @ [n mod b]"
  by (subst digs.simps) simp

lemma dval_digs: "2 \<le> b \<Longrightarrow> dval b (digs b n) = n"
proof (induction b n rule: digs.induct)
  case (1 b n)
  then show ?case by (cases "n = 0") (simp_all add: dval_def digs_step)
qed

lemma digs_less: "2 \<le> b \<Longrightarrow> d \<in> set (digs b n) \<Longrightarrow> d < b"
proof (induction b n rule: digs.induct)
  case (1 b n)
  then show ?case by (cases "n = 0") (auto simp: digs_step)
qed

lemma digs_length: "2 \<le> b \<Longrightarrow> n < b ^ k \<Longrightarrow> length (digs b n) \<le> k"
proof (induction k arbitrary: n)
  case (Suc k)
  have "n div b < b ^ k" using Suc.prems by (simp add: less_mult_imp_div_less mult.commute)
  then show ?case using Suc by (cases "n = 0") (simp_all add: digs_step)
qed simp

lemma digs_nonempty: "2 \<le> b \<Longrightarrow> n \<noteq> 0 \<Longrightarrow> digs b n \<noteq> []"
  by (simp add: digs_step)

lemma ntoa_loop_digs:
  assumes "2 \<le> unat base" and "length (digs (unat base) (unat val)) \<le> p" and "p \<le> length buf"
  shows "ntoa_loop d base p val buf =
    (let ds = digs (unat base) (unat val) in (p - length ds, 0, take (p - length ds) buf @ map ((!) d) ds @ drop p buf))"
  using assms
proof (induction p arbitrary: val buf)
  case 0
  then have "val = 0" using digs_nonempty [of "unat base" "unat val"] by (auto simp: unat_eq_zero)
  then show ?case by simp
next
  case (Suc p)
  show ?case
  proof (cases "val = 0")
    case False
    then have nz: "0 < unat val" by (simp add: unat_gt_0)
    have q: "unat (val div base) = unat val div unat base" "unat (val mod base) = unat val mod unat base" by (simp_all add: unat_div unat_mod)
    let ?ds = "digs (unat base) (unat val div unat base)"
    have ds: "digs (unat base) (unat val) = ?ds @ [unat val mod unat base]" using digs_step [OF Suc.prems(1) nz] .
    have "length ?ds \<le> p" "p \<le> length (buf[p := x])" for x using Suc.prems(2,3) ds by simp_all
    from Suc.IH [OF Suc.prems(1), of "val div base" "buf[p := d ! (unat val mod unat base)]"] this
    have "ntoa_loop d base (Suc p) val buf =
      (p - length ?ds, 0, take (p - length ?ds) buf @ map ((!) d) ?ds @ drop p (buf[p := d ! (unat val mod unat base)]))"
      using False by (simp add: q Let_def)
    moreover have "drop p (buf[p := d ! (unat val mod unat base)]) = d ! (unat val mod unat base) # drop (Suc p) buf"
      using Suc.prems(3) by (simp add: drop_update_swap Cons_nth_drop_Suc [symmetric])
    ultimately show ?thesis by (simp add: ds Let_def)
  qed simp
qed

definition num_text :: "bool \<Rightarrow> nat \<Rightarrow> nat \<Rightarrow> string" where
  "num_text upper b n = (if n = 0 then ''0'' else map ((!) (digit_chars upper)) (digs b n))"

lemma u64_digits: "8 \<le> b \<Longrightarrow> length (digs b (unat (val :: u64))) \<le> 22"
proof (rule digs_length)
  assume b: "8 \<le> b"
  have "unat val < 2 ^ 64" using unsigned_less [of val, where ?'a = nat] by simp
  also have "(2 :: nat) ^ 64 \<le> 8 ^ 22" by simp
  also have "(8 :: nat) ^ 22 \<le> b ^ 22" using b by (rule power_mono) simp
  finally show "unat val < b ^ 22" .
qed simp

lemma ntoa_spec:
  assumes "8 \<le> unat base" and len: "length (p_ntoa c) = NTOA_BUFFER_SIZE" and r: "ntoa val base upper c = (p, c')"
  shows "drop p (p_ntoa c') = num_text upper (unat base) (unat val)" and "int NTOA_BUFFER_SIZE - int p = int (length (num_text upper (unat base) (unat val)))"
    and "length (num_text upper (unat base) (unat val)) \<le> 22" and "\<exists>x. c' = c\<lparr>p_ntoa := x\<rparr> \<and> length x = NTOA_BUFFER_SIZE"
proof -
  let ?ds = "digs (unat base) (unat val)"
  have l: "length ?ds \<le> 22" by (rule u64_digits [OF assms(1)])
  have "drop p (p_ntoa c') = num_text upper (unat base) (unat val) \<and> int NTOA_BUFFER_SIZE - int p = int (length (num_text upper (unat base) (unat val))) \<and>
    length (num_text upper (unat base) (unat val)) \<le> 22 \<and> (\<exists>x. c' = c\<lparr>p_ntoa := x\<rparr> \<and> length x = NTOA_BUFFER_SIZE)"
  proof (cases "val = 0")
    case True
    have "drop 23 ((p_ntoa c)[23 := CHR ''0'']) = ''0''" using len by (simp add: drop_update_swap NTOA_BUFFER_SIZE_def Cons_nth_drop_Suc [symmetric])
    then show ?thesis using r True len by (auto simp: ntoa_def num_text_def NTOA_BUFFER_SIZE_def)
  next
    case False
    then have nz: "unat val \<noteq> 0" by (simp add: unat_eq_zero)
    have "length ?ds \<le> NTOA_BUFFER_SIZE" using l by (simp add: NTOA_BUFFER_SIZE_def)
    from ntoa_loop_digs [OF _ this, of "p_ntoa c" "digit_chars upper"] r False assms(1) len
    have "p = NTOA_BUFFER_SIZE - length ?ds" "c' = c\<lparr>p_ntoa := take (NTOA_BUFFER_SIZE - length ?ds) (p_ntoa c) @ map ((!) (digit_chars upper)) ?ds\<rparr>"
      by (auto simp: ntoa_def Let_def)
    then show ?thesis using nz l len by (auto simp: num_text_def NTOA_BUFFER_SIZE_def)
  qed
  then show "drop p (p_ntoa c') = num_text upper (unat base) (unat val)" and "int NTOA_BUFFER_SIZE - int p = int (length (num_text upper (unat base) (unat val)))"
    and "length (num_text upper (unat base) (unat val)) \<le> 22" and "\<exists>x. c' = c\<lparr>p_ntoa := x\<rparr> \<and> length x = NTOA_BUFFER_SIZE" by blast+
qed

section \<open>Conversions\<close>

lemma holds_ntoaI: "holds_text sinks level c t \<Longrightarrow> length x = NTOA_BUFFER_SIZE \<Longrightarrow> holds_text sinks level (c\<lparr>p_ntoa := x\<rparr>) t"
  by (simp add: holds_text_def)

text \<open>The text of an integer conversion, put together from its parts.\<close>

definition int_digits :: "u64 \<Rightarrow> u32 \<Rightarrow> int \<Rightarrow> u64 \<Rightarrow> string" where
  "int_digits base flags precision uval =
     (if precision = 0 \<and> uval = 0 then [] else num_text (has_flag flags FL_UPPER) (unat base) (unat uval))"

definition int_sign :: "bool \<Rightarrow> u32 \<Rightarrow> string" where
  "int_sign is_signed flags = (if has_flag flags FL_NEG then ''-'' else if has_flag flags FL_ALWAYS_SIGN \<and> is_signed then ''+''
     else if has_flag flags FL_SIGN_PAD then '' '' else [])"

definition int_zeros :: "u64 \<Rightarrow> u32 \<Rightarrow> int \<Rightarrow> u64 \<Rightarrow> nat" where
  "int_zeros base flags precision uval = nat (precision - int (length (int_digits base flags precision uval)))"

definition int_prefix :: "u64 \<Rightarrow> u32 \<Rightarrow> int \<Rightarrow> u64 \<Rightarrow> string" where
  "int_prefix base flags precision uval =
     (if has_flag flags FL_PREFIX then
        if base = 8 \<and> int_zeros base flags precision uval = 0 \<and> (uval \<noteq> 0 \<or> precision = 0) then ''0''
        else if base = 16 \<and> uval \<noteq> 0 then [CHR ''0'', if has_flag flags FL_UPPER then CHR ''X'' else CHR ''x''] else []
      else [])"

definition int_field :: "bool \<Rightarrow> u64 \<Rightarrow> u32 \<Rightarrow> int \<Rightarrow> int \<Rightarrow> u64 \<Rightarrow> string" where
  "int_field is_signed base flags width precision uval =
     (let front = int_sign is_signed flags @ int_prefix base flags precision uval;
          back = replicate (int_zeros base flags precision uval) CHR ''0'' @ int_digits base flags precision uval;
          n = nat (width - int (length front + length back))
      in if has_flag flags FL_LEFT_JUSTIFY then front @ back @ replicate n CHR '' ''
         else if has_flag flags FL_ZERO_PAD \<and> precision < 0 then front @ replicate n CHR ''0'' @ back
         else replicate n CHR '' '' @ front @ back)"

lemma emit_integer_emits:
  assumes "holds_text sinks level c t" "nat nlen \<le> length nstr"
  shows "emits (holds_text sinks level) (emit_integer sinks left pad_n sign pt up zeros nstr nlen c) t
    ((if \<not> left then replicate (nat pad_n) CHR '' '' else []) @ (if sign \<noteq> NUL then [sign] else []) @ (if pt \<noteq> 0 then ''0'' else []) @
    (if pt = 2 then [if up then CHR ''X'' else CHR ''x''] else []) @ replicate (nat zeros) CHR ''0'' @ take (nat nlen) nstr @
    (if left then replicate (nat pad_n) CHR '' '' else []))"
  unfolding emit_integer_def
  by (intro emits_bind emits_if pad_emits putc_emits put_str_emits assms; assumption)

lemma int_sign_char: "int_sign is_signed flags = (if sign_char is_signed flags \<noteq> NUL then [sign_char is_signed flags] else [])"
  by (simp add: int_sign_def sign_char_def NUL_def)

lemma int_prefix_kind:
  assumes "pz = int (int_zeros base flags precision uval)"
  defines "pt \<equiv> prefix_kind base flags pz precision uval"
  shows "int_prefix base flags precision uval =
      (if pt \<noteq> 0 then ''0'' else []) @ (if pt = 2 then [if has_flag flags FL_UPPER then CHR ''X'' else CHR ''x''] else [])"
    and "int (length (int_prefix base flags precision uval)) = pt"
  unfolding int_prefix_def pt_def prefix_kind_def assms(1) by auto

text \<open>The layout the code computes is that of \<open>int_field\<close>.\<close>

lemma int_layout:
  fixes flags :: u32 and precision width pz nlen :: int and is_signed :: bool and base uval :: u64
  assumes ds: "int_digits base flags precision uval = take (nat nlen) nstr" and nlen: "nlen = int (length (int_digits base flags precision uval))"
    and pz: "pz = int (int_zeros base flags precision uval)"
  defines "sign \<equiv> sign_char is_signed flags" and "pt \<equiv> prefix_kind base flags pz precision uval" and "left \<equiv> has_flag flags FL_LEFT_JUSTIFY"
  defines "zf \<equiv> has_flag flags FL_ZERO_PAD \<and> \<not> left \<and> precision < 0"
  defines "field \<equiv> (if sign \<noteq> NUL then 1 else 0) + pt + pz + nlen"
  defines "pn \<equiv> if width > field then width - field else 0"
  shows "(if \<not> left then replicate (nat (if zf then 0 else pn)) CHR '' '' else []) @ (if sign \<noteq> NUL then [sign] else []) @ (if pt \<noteq> 0 then ''0'' else []) @
    (if pt = 2 then [if has_flag flags FL_UPPER then CHR ''X'' else CHR ''x''] else []) @ replicate (nat ((if zf then pn else 0) + pz)) CHR ''0'' @
    take (nat nlen) nstr @ (if left then replicate (nat (if zf then 0 else pn)) CHR '' '' else [])
    = int_field is_signed base flags width precision uval"
proof -
  note P = int_prefix_kind [OF pz, folded pt_def]
  define F where "F = int_sign is_signed flags @ int_prefix base flags precision uval"
  define B where "B = replicate (int_zeros base flags precision uval) CHR ''0'' @ int_digits base flags precision uval"
  have "field = int (length F + length B)"
    unfolding field_def sign_def int_sign_char F_def B_def using P(2) nlen pz by simp
  then have n: "nat (width - int (length F + length B)) = nat pn" by (simp add: pn_def)
  have "int_field is_signed base flags width precision uval = (if left then F @ B @ replicate (nat pn) CHR '' ''
      else if zf then F @ replicate (nat pn) CHR ''0'' @ B else replicate (nat pn) CHR '' '' @ F @ B)"
    unfolding int_field_def F_def [symmetric] B_def [symmetric] Let_def n left_def [symmetric] by (simp add: zf_def)
  moreover have "nat (pn + pz) = nat pn + int_zeros base flags precision uval" using pz by (simp add: pn_def nat_add_distrib)
  moreover have "F = (if sign \<noteq> NUL then [sign] else []) @ (if pt \<noteq> 0 then ''0'' else []) @ (if pt = 2 then [if has_flag flags FL_UPPER then CHR ''X'' else CHR ''x''] else [])"
    unfolding F_def int_sign_char sign_def P(1) by simp
  ultimately show ?thesis using pz unfolding B_def ds by (auto simp: zf_def replicate_add)
qed

lemma integer_value_safe: "safe (integer_value is_signed flags0 len w) (\<lambda>(uval, flags). integer_value is_signed flags0 len w = Ok (uval, flags))"
  by (auto simp: integer_value_def Let_def)

lemma int_field_length:
  "int (length (int_field s base flags width precision uval)) = max width (int (length (int_sign s flags @ int_prefix base flags precision uval) +
    (int_zeros base flags precision uval + length (int_digits base flags precision uval))))"
  unfolding int_field_def Let_def by (auto simp: max_def)

lemma int_body_bound:
  assumes "8 \<le> unat base"
  shows "int (length (int_sign s flags @ int_prefix base flags precision uval) + (int_zeros base flags precision uval + length (int_digits base flags precision uval))) \<le> 3 + max precision 22"
proof -
  have "length (int_sign s flags) \<le> 1" "length (int_prefix base flags precision uval) \<le> 2" by (simp_all add: int_sign_def int_prefix_def)
  moreover have "length (int_digits base flags precision uval) \<le> 22"
    using u64_digits [OF assms, of uval] by (auto simp: int_digits_def num_text_def)
  then have "int (int_zeros base flags precision uval + length (int_digits base flags precision uval)) \<le> max precision 22"
    by (auto simp: int_zeros_def)
  ultimately show ?thesis by simp
qed

lemma ck_bind: "rbind (ck x) g = rbind (ck x) (\<lambda>_. g x)"
  by (simp add: ck_def)

text \<open>An integer conversion is two overflow checks followed by the output of \<open>int_field\<close>.\<close>

lemma integer_emits:
  assumes h: "holds_text sinks level c t" and base: "base = 8 \<or> base = 10 \<or> base = 16"
    and iv: "integer_value is_signed flags0 len w = Ok (uval, flags)"
  shows "\<exists>m f z. integer sinks is_signed base flags0 width precision len (VWord w # va, c) =
      rbind (ck f) (\<lambda>_. rbind (ck z) (\<lambda>_. rbind m (\<lambda>c. Ok (va, c)))) \<and>
    emits (holds_text sinks level) m t (int_field is_signed base flags width precision uval) \<and>
    0 \<le> f \<and> f \<le> 3 + max precision 22 \<and> 0 \<le> z \<and> z \<le> max width 0 + max precision 0"
proof -
  have b8: "8 \<le> unat base" using base by auto
  obtain p c1 where n: "ntoa uval base (has_flag flags FL_UPPER) c = (p, c1)" by (metis surj_pair)
  have "length (p_ntoa c) = NTOA_BUFFER_SIZE" using h by (simp add: holds_text_def)
  note N = ntoa_spec [OF b8 this n]
  have h1: "holds_text sinks level c1 t" using N(4) holds_ntoaI [OF h] by auto
  define nlen where "nlen = (if precision = 0 \<and> uval = 0 then 0 else int NTOA_BUFFER_SIZE - int p)"
  define pz where "pz = (if precision > nlen then precision - nlen else 0)"
  define pt where "pt = prefix_kind base flags pz precision uval"
  define f where "f = (if sign_char is_signed flags \<noteq> NUL then 1 else 0) + pt + pz + nlen"
  define pn where "pn = (if width > f then width - f else 0)"
  define zf where "zf = (has_flag flags FL_ZERO_PAD \<and> \<not> has_flag flags FL_LEFT_JUSTIFY \<and> precision < 0)"
  let ?nstr = "drop p (p_ntoa c1)"
  have dg: "int_digits base flags precision uval = take (nat nlen) ?nstr" "nlen = int (length (int_digits base flags precision uval))" "nat nlen \<le> length ?nstr"
    unfolding N(1) using N(2) by (auto simp: int_digits_def nlen_def)
  have z: "pz = int (int_zeros base flags precision uval)" unfolding int_zeros_def pz_def dg(2) [symmetric] by simp
  note L = int_layout [OF dg(1,2) z, of is_signed width, folded pt_def, folded f_def, folded pn_def zf_def]
  let ?m = "emit_integer sinks (has_flag flags FL_LEFT_JUSTIFY) (if zf then 0 else pn) (sign_char is_signed flags) pt (has_flag flags FL_UPPER)
    ((if zf then pn else 0) + pz) ?nstr nlen c1"
  have "integer sinks is_signed base flags0 width precision len (VWord w # va, c) = rbind (ck f) (\<lambda>_. rbind (ck ((if zf then pn else 0) + pz)) (\<lambda>_. rbind ?m (\<lambda>c. Ok (va, c))))"
    unfolding integer_def prod.case Let_def va_word_def list.case varg.case rbind.simps iv n nlen_def [symmetric] pz_def [symmetric] pt_def [symmetric]
      f_def [symmetric]
    by (subst ck_bind, subst ck_bind) (simp only: pn_def [symmetric] zf_def [symmetric])
  moreover have "emits (holds_text sinks level) ?m t (int_field is_signed base flags width precision uval)"
    using emit_integer_emits [OF h1 dg(3)] unfolding L [symmetric] .
  moreover have "0 \<le> f" "f \<le> 3 + max precision 22"
    using int_body_bound [OF b8, of is_signed flags precision uval] int_prefix_kind(2) [OF z, folded pt_def] z dg(2)
    by (auto simp: f_def int_sign_char)
  moreover have "0 \<le> (if zf then pn else 0) + pz" "(if zf then pn else 0) + pz \<le> max width 0 + max precision 0"
  proof -
    have "0 \<le> pz" "pz \<le> max precision 0" using dg(2) by (auto simp: pz_def)
    moreover have "0 \<le> pn" "pn \<le> max width 0" using \<open>0 \<le> f\<close> by (auto simp: pn_def)
    ultimately show "0 \<le> (if zf then pn else 0) + pz" "(if zf then pn else 0) + pz \<le> max width 0 + max precision 0" by (auto simp del: max.bounded_iff)
  qed
  ultimately show ?thesis by blast
qed

text \<open>The text so far is extended by something.\<close>

definition ext :: "sink list \<Rightarrow> int \<Rightarrow> string \<Rightarrow> printk_context \<Rightarrow> bool" where
  "ext sinks level t c \<longleftrightarrow> (\<exists>u. holds_text sinks level c (t @ u))"

lemma integer_holds:
  assumes "holds_text sinks level c t" and "base = 8 \<or> base = 10 \<or> base = 16"
  shows "safe (integer sinks is_signed base flags0 width precision len (va0, c)) (\<lambda>(va, c'). ext sinks level t c')"
proof (cases "\<exists>w va uval flags. va0 = VWord w # va \<and> integer_value is_signed flags0 len w = Ok (uval, flags)")
  case True
  then obtain w va uval flags where v: "va0 = VWord w # va" and iv: "integer_value is_signed flags0 len w = Ok (uval, flags)" by blast
  obtain m f z where e: "integer sinks is_signed base flags0 width precision len (VWord w # va, c) = rbind (ck f) (\<lambda>_. rbind (ck z) (\<lambda>_. rbind m (\<lambda>c. Ok (va, c))))"
    and m: "emits (holds_text sinks level) m t (int_field is_signed base flags width precision uval)"
    using integer_emits [OF assms iv] by blast
  show ?thesis unfolding v e
    by (intro safe_bind [OF safe_ck] safe_bind [OF emits_safe [OF m]]) (auto simp: ext_def)
next
  case False
  then show ?thesis
    by (auto simp: integer_def va_word_def integer_value_def Let_def split: list.split varg.split if_splits)
qed

lemma integer_total:
  assumes h: "holds_text sinks level c t" and base: "base = 8 \<or> base = 10 \<or> base = 16"
    and iv: "integer_value is_signed flags0 len w = Ok (uval, flags)"
    and b: "width \<le> 2 ^ 30" "precision \<le> 2 ^ 29" "length t \<le> 2 ^ 29"
  shows "\<exists>c'. integer sinks is_signed base flags0 width precision len (VWord w # va, c) = Ok (va, c') \<and>
    holds_text sinks level c' (t @ int_field is_signed base flags width precision uval)"
proof -
  obtain m f z where e: "integer sinks is_signed base flags0 width precision len (VWord w # va, c) = rbind (ck f) (\<lambda>_. rbind (ck z) (\<lambda>_. rbind m (\<lambda>c. Ok (va, c))))"
    and m: "emits (holds_text sinks level) m t (int_field is_signed base flags width precision uval)"
    and r: "0 \<le> f" "f \<le> 3 + max precision 22" "0 \<le> z" "z \<le> max width 0 + max precision 0"
    using integer_emits [OF h base iv] by blast
  have ck: "ck f = Ok f" "ck z = Ok z" using r b by (auto simp: ck_def)
  have b8: "8 \<le> unat base" using base by auto
  have "\<not> 2 ^ 31 \<le> length (t @ int_field is_signed base flags width precision uval)"
    using int_field_length [of is_signed base flags width precision uval] int_body_bound [OF b8, of is_signed flags precision uval] b by auto
  then show ?thesis using m unfolding e ck by (cases m) (auto simp: emits_def)
qed

text \<open>The other conversions extend the text by something; what they cannot do is fail in another way than by undefined behaviour.\<close>

lemma ext_start: "holds_text sinks level c t \<Longrightarrow> ext sinks level t c"
  unfolding ext_def by (metis append_Nil2)

lemma ext_lift:
  assumes "ext sinks level t c" and "\<And>u. holds_text sinks level c u \<Longrightarrow> safe m (\<lambda>c'. holds_text sinks level c' (u @ f u))"
  shows "safe m (ext sinks level t)"
proof -
  obtain u where "holds_text sinks level c (t @ u)" using assms(1) by (auto simp: ext_def)
  then show ?thesis by (rule safe_mono [OF assms(2)]) (auto simp: ext_def)
qed

lemma ext_emits:
  "ext sinks level t c \<Longrightarrow> (\<And>u. holds_text sinks level c u \<Longrightarrow> emits (holds_text sinks level) m u (f u)) \<Longrightarrow> safe m (ext sinks level t)"
  by (rule ext_lift, assumption, rule emits_safe)

lemma ext_pad: "ext sinks level t c \<Longrightarrow> safe (pad sinks ch n c) (ext sinks level t)"
  by (rule ext_emits, assumption, rule pad_emits)

lemma ext_pad_if: "ext sinks level t c \<Longrightarrow> safe (if b then pad sinks ch n c else Ok c) (ext sinks level t)"
  by (simp add: ext_pad)

lemma ext_putc: "ext sinks level t c \<Longrightarrow> safe (putc sinks ch c) (ext sinks level t)"
  by (rule ext_emits, assumption, rule putc_emits)

lemma ext_putwc: "ext sinks level t c \<Longrightarrow> safe (putwc sinks ch c) (ext sinks level t)"
  by (rule ext_emits, assumption, rule putwc_emits)

lemma ext_str: "nat n \<le> length u \<Longrightarrow> ext sinks level t c \<Longrightarrow> safe (put_str sinks u n c) (ext sinks level t)"
  by (rule ext_emits, assumption, rule put_str_emits)

lemma ext_wstr: "nat n \<le> length u \<Longrightarrow> ext sinks level t c \<Longrightarrow> safe (put_wstr sinks u n c) (ext sinks level t)"
  by (rule ext_emits, assumption, rule put_wstr_emits)

definition grows :: "sink list \<Rightarrow> int \<Rightarrow> string \<Rightarrow> varg list \<times> printk_context \<Rightarrow> bool" where
  "grows sinks level t vc = ext sinks level t (snd vc)"

lemma grows_return: "ext sinks level t c \<Longrightarrow> safe (Ok (va, c)) (grows sinks level t)"
  by (simp add: grows_def)

lemma print_char_grows:
  assumes "ext sinks level t c"
  shows "safe (print_char sinks flags width len (va, c)) (grows sinks level t)"
proof -
  have put: "safe (if b then putwc sinks ch c else putc sinks (char_of ch) c) (ext sinks level t)"
    if "ext sinks level t c" for c b and ch :: int using ext_putwc [OF that] ext_putc [OF that] by simp
  show ?thesis unfolding print_char_def prod.case
    by (rule safe_bind [OF safe_va_int], clarify, rule safe_bind [OF safe_ck], rule safe_bind [OF ext_pad_if [OF assms]], rule safe_bind, erule put,
        rule safe_bind, erule ext_pad_if, erule grows_return)
qed

lemma print_string_grows:
  assumes "ext sinks level t c"
  shows "safe (print_string sinks flags width precision len (va, c)) (grows sinks level t)"
proof -
  define put_ok :: "varg list \<times> int \<times> (int \<Rightarrow> printk_context \<Rightarrow> printk_context kres) \<Rightarrow> bool"
    where "put_ok = (\<lambda>(va', n, put). 0 \<le> n \<and> (\<forall>c m. ext sinks level t c \<and> m \<le> n \<longrightarrow> safe (put m c) (ext sinks level t)))"
  have w: "put_ok (va', int (length x), put_wstr sinks x)" for va' and x :: "int list"
    unfolding put_ok_def by (auto intro!: ext_wstr simp: nat_le_iff)
  have n: "put_ok (va', int (length x), put_str sinks x)" for va' and x :: string
    unfolding put_ok_def by (auto intro!: ext_str simp: nat_le_iff)
  have first: "safe (if len = LEN_L
      then (case va of VWStr s # va' \<Rightarrow> let x = (case s of None \<Rightarrow> map of_char null_text | Some x \<Rightarrow> x) in Ok (va', int (length x), put_wstr sinks x) | _ \<Rightarrow> Err Undefined)
      else (case va of VStr s # va' \<Rightarrow> let x = (case s of None \<Rightarrow> null_text | Some x \<Rightarrow> x) in Ok (va', int (length x), put_str sinks x) | _ \<Rightarrow> Err Undefined)) put_ok"
    using w n by (simp add: Let_def split: list.split varg.split)
  have put: "safe (put (if precision \<ge> 0 \<and> slen > precision then precision else slen) c) (ext sinks level t)"
    if "put_ok (va', slen, put)" "ext sinks level t c" for va' slen put c using that by (auto simp: put_ok_def)
  show ?thesis unfolding print_string_def prod.case
    by (rule safe_bind [OF first], clarify, rule safe_bind [OF safe_ck], hypsubst, unfold Let_def, rule safe_bind [OF safe_ck],
        rule safe_bind [OF ext_pad_if [OF assms]], rule safe_bind, erule (1) put, rule safe_bind, erule ext_pad_if, erule grows_return)
qed

lemma print_pointer_grows:
  assumes h: "holds_text sinks level c t"
  shows "safe (print_pointer sinks flags width (va, c)) (grows sinks level t)"
  unfolding print_pointer_def prod.case
proof (rule safe_bind [OF safe_va_word], clarify)
  fix ptr va'
  obtain p c1 where n: "ntoa ptr 16 False c = (p, c1)" by (metis surj_pair)
  have b: "8 \<le> unat (16 :: u64)" and l: "length (p_ntoa c) = NTOA_BUFFER_SIZE" using h by (simp_all add: holds_text_def)
  note N = ntoa_spec [OF b l n]
  have h1: "ext sinks level t c1" using N(4) holds_ntoaI [OF h] by (auto intro: ext_start)
  have len: "nat (int NTOA_BUFFER_SIZE - int p) \<le> length (drop p (p_ntoa c1))" unfolding N(1) using N(2) by simp
  have two: "nat 2 \<le> length ''0x''" by simp
  show "safe (let (p, c1) = ntoa ptr 16 False c; nstr = drop p (p_ntoa c1); nlen = int NTOA_BUFFER_SIZE - int p; zero_n = (if nlen < 16 then 16 - nlen else 0)
     in rbind (ck (width - (2 + zero_n + nlen))) (\<lambda>n.
        rbind (if \<not> has_flag flags FL_LEFT_JUSTIFY \<and> n > 0 then pad sinks CHR '' '' n c1 else Ok c1) (\<lambda>c.
        rbind (put_str sinks ''0x'' 2 c) (\<lambda>c.
        rbind (pad sinks CHR ''0'' zero_n c) (\<lambda>c.
        rbind (put_str sinks nstr nlen c) (\<lambda>c.
        rbind (if has_flag flags FL_LEFT_JUSTIFY \<and> n > 0 then pad sinks CHR '' '' n c else Ok c) (\<lambda>c.
        Ok (va', c)))))))) (grows sinks level t)"
    unfolding n Let_def prod.case
    by (rule safe_bind [OF safe_ck], rule safe_bind [OF ext_pad_if [OF h1]], rule safe_bind, erule ext_str [OF two], rule safe_bind, erule ext_pad,
        rule safe_bind, erule ext_str [OF len], rule safe_bind, erule ext_pad_if, erule grows_return)
qed

lemma print_count_grows:
  assumes "holds_text sinks level c t"
  shows "safe (print_count len (va, c)) (grows sinks level t)"
proof -
  have "holds_text sinks level (c\<lparr>p_stores := x\<rparr>) t" for x using assms by (simp add: holds_text_def)
  then show ?thesis unfolding print_count_def prod.case
    by (intro safe_bind [OF safe_va_word]) (use assms in \<open>auto simp: grows_def intro!: ext_start\<close>)
qed

lemma integer_grows:
  assumes "holds_text sinks level c t" "base = 8 \<or> base = 10 \<or> base = 16"
  shows "safe (integer sinks is_signed base flags width precision len (va, c)) (grows sinks level t)"
  by (rule safe_mono [OF integer_holds [OF assms]]) (auto simp: grows_def)

lemma safe_if: "(b \<Longrightarrow> safe m P) \<Longrightarrow> (\<not> b \<Longrightarrow> safe n P) \<Longrightarrow> safe (if b then m else n) P"
  by simp

lemma print_spec_grows:
  assumes "holds_text sinks level c t"
  shows "safe (print_spec sinks spec flags width precision len raw (va, c)) (grows sinks level t)"
proof -
  note E = ext_start [OF assms]
  have raw: "safe (rbind (put_str sinks raw (int (length raw)) c) (\<lambda>c. Ok (va, c))) (grows sinks level t)"
    by (rule safe_bind [OF ext_str [OF _ E]]) (simp, erule grows_return)
  show ?thesis unfolding print_spec_def fst_conv snd_conv
    by (intro safe_if integer_grows [OF assms] print_char_grows [OF E] print_string_grows [OF E] print_pointer_grows [OF assms]
        print_count_grows [OF assms] raw) simp_all
qed

section \<open>Whole formats\<close>

lemma parse_num_safe: "safe (parse_num n s) (\<lambda>_. True)"
proof (induction n s rule: parse_num.induct)
  case (2 n ch s)
  show ?case
  proof (cases "is_digit ch")
    case True
    have "safe (rbind (ck (n * 10 + (of_char ch - 48))) (\<lambda>n. parse_num n s)) (\<lambda>_. True)"
      by (rule safe_bind [OF safe_ck]) (use 2 True in blast)
    then show ?thesis using True by simp
  qed simp
qed simp

lemma parse_width_safe: "safe (parse_width flags fmt va) (\<lambda>_. True)"
  unfolding parse_width_def
proof (rule safe_if)
  show "safe (rbind (va_int va) (\<lambda>(width, va). if width < 0 then rbind (ck (- width)) (\<lambda>width. Ok (flags OR FL_LEFT_JUSTIFY, width, tl fmt, va))
      else Ok (flags, width, tl fmt, va))) (\<lambda>_. True)"
    by (rule safe_bind [OF safe_va_int], clarify) (intro safe_if safe_bind [OF safe_ck], simp_all)
  show "safe (rbind (parse_num 0 fmt) (\<lambda>(width, fmt). Ok (flags, width, fmt, va))) (\<lambda>_. True)"
    by (rule safe_bind [OF parse_num_safe]) auto
qed

lemma parse_precision_safe: "safe (parse_precision fmt va) (\<lambda>_. True)"
  unfolding parse_precision_def
proof (intro safe_if)
  show "safe (rbind (va_int va) (\<lambda>(precision, va). Ok (if precision < 0 then - 1 else precision, tl (tl fmt), va))) (\<lambda>_. True)"
    by (rule safe_bind [OF safe_va_int]) auto
  show "safe (rbind (parse_num 0 (tl fmt)) (\<lambda>(precision, fmt). Ok (precision, fmt, va))) (\<lambda>_. True)"
    by (rule safe_bind [OF parse_num_safe]) auto
qed simp

lemma convert_safe:
  assumes "holds_text sinks level c t"
  shows "safe (convert sinks s (va, c)) (\<lambda>r. case r of None \<Rightarrow> True | Some (fmt, vc) \<Rightarrow> grows sinks level t vc)"
proof -
  obtain flags0 fmt0 where f: "parse_flags 0 (tl s) = (flags0, fmt0)" by (metis surj_pair)
  show ?thesis unfolding convert_def Let_def prod.case f
  proof (rule safe_bind [OF parse_width_safe], clarify, rule safe_bind [OF parse_precision_safe], clarify)
    fix flags width fmt1 va1 precision fmt2 va2
    obtain len fmt3 where l: "parse_length fmt2 = (len, fmt3)" by (metis surj_pair)
    show "safe (case parse_length fmt2 of (len, fmt3) \<Rightarrow> case fmt3 of [] \<Rightarrow> Ok None
        | spec # fmt \<Rightarrow> rbind (print_spec sinks spec flags width precision len (take (length s - length fmt) s) (va2, c)) (\<lambda>(va, c). Ok (Some (fmt, va, c))))
      (\<lambda>r. case r of None \<Rightarrow> True | Some (fmt, vc) \<Rightarrow> grows sinks level t vc)"
    proof (cases fmt3)
      case (Cons spec fmt)
      have "safe (rbind (print_spec sinks spec flags width precision len (take (length s - length fmt) s) (va2, c)) (\<lambda>(va, c). Ok (Some (fmt, va, c))))
        (\<lambda>r. case r of None \<Rightarrow> True | Some (fmt, vc) \<Rightarrow> grows sinks level t vc)"
        by (rule safe_bind [OF print_spec_grows [OF assms]]) auto
      then show ?thesis using l Cons by simp
    qed (use l in simp)
  qed
qed

lemma vprintkl_loop_holds:
  assumes "holds_text sinks level c t"
  shows "safe (vprintkl_loop sinks s va c) (ext sinks level t)"
  using assms
proof (induction sinks s va c arbitrary: t rule: vprintkl_loop.induct)
  case (1 sinks va c)
  then show ?case by (simp add: ext_start)
next
  case (2 sinks ch s va c)
  have cont: "safe (vprintkl_loop sinks r va' c') (ext sinks level t)"
    if ih: "\<And>u. holds_text sinks level c' u \<Longrightarrow> safe (vprintkl_loop sinks r va' c') (ext sinks level u)" and e: "ext sinks level t c'" for r va' c'
  proof -
    obtain u where "holds_text sinks level c' (t @ u)" using e by (auto simp: ext_def)
    from ih [OF this] show ?thesis by (rule safe_mono) (auto simp: ext_def)
  qed
  note E = ext_start [OF "2.prems"]
  consider (plain) "ch \<noteq> CHR ''%''" | (percent) "ch = CHR ''%''" "s \<noteq> [] \<and> hd s = CHR ''%''" | (spec) "ch = CHR ''%''" "\<not> (s \<noteq> [] \<and> hd s = CHR ''%'')" by blast
  then show ?case
  proof cases
    case plain
    have "safe (rbind (putc sinks ch c) (vprintkl_loop sinks s va)) (ext sinks level t)"
    proof (cases "putc sinks ch c")
      case (Ok c')
      then show ?thesis using cont [of c' s va] "2.IH"(1) [OF plain Ok] ext_putc [OF E, of ch] by simp
    qed (use ext_putc [OF E, of ch] in \<open>simp add: safe_def\<close>)
    then show ?thesis using plain by simp
  next
    case percent
    have "safe (rbind (putc sinks CHR ''%'' c) (vprintkl_loop sinks (tl s) va)) (ext sinks level t)"
    proof (cases "putc sinks CHR ''%'' c")
      case (Ok c')
      then show ?thesis using cont [of c' "tl s" va] "2.IH"(2) [OF _ percent(2) Ok] percent(1) ext_putc [OF E, of "CHR ''%''"] by simp
    qed (use ext_putc [OF E, of "CHR ''%''"] in \<open>simp add: safe_def\<close>)
    then show ?thesis using percent by simp
  next
    case spec
    show ?thesis
    proof (cases "convert sinks (ch # s) (va, c)")
      case (Ok r)
      show ?thesis
      proof (cases r)
        case None
        then show ?thesis using spec Ok E by auto
      next
        case (Some x)
        obtain fmt va' c' where x: "x = (fmt, va', c')" by (cases x)
        have "ext sinks level t c'" using convert_safe [OF "2.prems", of "ch # s" va] Ok Some x by (simp add: grows_def)
        then have "safe (vprintkl_loop sinks fmt va' c') (ext sinks level t)"
          using cont [of c' fmt va'] "2.IH"(3) [OF _ spec(2) Ok Some [unfolded x] refl refl] spec(1) by auto
        then show ?thesis using spec Ok Some x by auto
      qed
    next
      case (Err e)
      then show ?thesis using spec convert_safe [OF "2.prems", of "ch # s" va] by (auto simp: safe_def)
    qed
  qed
qed

definition start_context :: "int \<Rightarrow> printk_context" where
  "start_context level = \<lparr>p_buffer = replicate PRINTK_BUFFER_SIZE NUL, buf_len = 0, p_level = level, p_ntoa = replicate NTOA_BUFFER_SIZE NUL,
     p_len = 0, p_out = [], p_stores = []\<rparr>"

lemma start_holds: "holds_text sinks level (start_context level) []"
  by (simp add: holds_text_def start_context_def sent_def)

lemma vprintkl_start:
  "vprintkl sinks level (Some s) va = rbind (vprintkl_loop sinks s va (start_context level)) (\<lambda>c. let c = flush sinks c in Ok (p_len c, p_out c, p_stores c))"
  by (simp add: vprintkl_def start_context_def)

lemma vprintkl_spec:
  "case vprintkl sinks level fmt va of Err e \<Rightarrow> e = Undefined
   | Ok (n, out, stores) \<Rightarrow> \<exists>msg. n = int (length msg) \<and> (\<forall>i < MAX_SINKS. sink_present (sinks ! i) \<longrightarrow> sent i out = msg) \<and>
       (\<forall>(i, l, x) \<in> set out. i < MAX_SINKS \<and> sink_present (sinks ! i) \<and> l = level \<and> 1 \<le> length x \<and> length x \<le> PRINTK_BUFFER_SIZE)"
proof (cases fmt)
  case None
  then show ?thesis by (simp add: vprintkl_def sent_def)
next
  case (Some s)
  have "safe (vprintkl sinks level (Some s) va) (\<lambda>(n, out, stores). \<exists>msg. n = int (length msg) \<and>
       (\<forall>i < MAX_SINKS. sink_present (sinks ! i) \<longrightarrow> sent i out = msg) \<and>
       (\<forall>(i, l, x) \<in> set out. i < MAX_SINKS \<and> sink_present (sinks ! i) \<and> l = level \<and> 1 \<le> length x \<and> length x \<le> PRINTK_BUFFER_SIZE))"
    unfolding vprintkl_start
  proof (rule safe_bind [OF vprintkl_loop_holds [OF start_holds]])
    fix c assume "ext sinks level [] c"
    then obtain u where "holds_text sinks level c u" by (auto simp: ext_def)
    from flush_holds [OF this] show "safe (let c = flush sinks c in Ok (p_len c, p_out c, p_stores c)) (\<lambda>(n, out, stores). \<exists>msg. n = int (length msg) \<and>
       (\<forall>i < MAX_SINKS. sink_present (sinks ! i) \<longrightarrow> sent i out = msg) \<and>
       (\<forall>(i, l, x) \<in> set out. i < MAX_SINKS \<and> sink_present (sinks ! i) \<and> l = level \<and> 1 \<le> length x \<and> length x \<le> PRINTK_BUFFER_SIZE))"
      by (auto simp: Let_def holds_text_def Suc_le_eq)
  qed
  then show ?thesis unfolding Some safe_def by (auto split: kres.splits)
qed

text \<open>
  Claim C31. Whatever the format and the arguments, \<^verbatim>\<open>vprintkl\<close> ends, never accesses its buffers or a string out of bounds, and fails only by the undefined
  behaviour of the C language (an argument of the wrong kind, an overflow of an \<^verbatim>\<open>int\<close>). If it returns \<open>n\<close> then all present sinks
  received the same text of length \<open>n\<close>, in pieces of 1 to 64 characters with the level of the message, and no other sink was called.
\<close>

theorem vprintkl_correct:
  "case vprintkl sinks level fmt va of Err e \<Rightarrow> e = Undefined
   | Ok (n, out, stores) \<Rightarrow> \<exists>msg. n = int (length msg) \<and> (\<forall>i < MAX_SINKS. sink_present (sinks ! i) \<longrightarrow> sent i out = msg) \<and>
       (\<forall>(i, l, x) \<in> set out. i < MAX_SINKS \<and> sink_present (sinks ! i) \<and> l = level \<and> 1 \<le> length x \<and> length x \<le> PRINTK_BUFFER_SIZE)"
  by (rule vprintkl_spec)

section \<open>Reading a number back\<close>

definition dec_value :: "string \<Rightarrow> nat" where
  "dec_value ds = foldl (\<lambda>n d. 10 * n + (of_char d - 48)) 0 ds"

text \<open>A reader of decimal numbers: blanks, an optional sign, digits, blanks.\<close>

definition parse_dec :: "string \<Rightarrow> int option" where
  "parse_dec s =
     (let s1 = dropWhile ((=) CHR '' '') s;
          s2 = (if s1 \<noteq> [] \<and> (hd s1 = CHR ''-'' \<or> hd s1 = CHR ''+'') then tl s1 else s1);
          ds = takeWhile is_digit s2
      in if ds = [] \<or> \<not> list_all ((=) CHR '' '') (dropWhile is_digit s2) then None
         else Some ((if s1 \<noteq> [] \<and> hd s1 = CHR ''-'' then -1 else 1) * int (dec_value ds)))"

lemma digit_char:
  assumes "d < 10"
  shows "is_digit (digit_chars up ! d) \<and> of_char (digit_chars up ! d) - 48 = d"
proof -
  have "\<forall>d \<in> set [0..<10]. is_digit (digit_chars up ! d) \<and> of_char (digit_chars up ! d) - 48 = d"
    by (cases up) (simp_all add: upt_rec digit_chars_def is_digit_def)
  then show ?thesis using assms by auto
qed

lemma dec_value_digs: "(\<And>d. d \<in> set ds \<Longrightarrow> d < 10) \<Longrightarrow> dec_value (map ((!) (digit_chars up)) ds) = dval 10 ds"
  by (induction ds rule: rev_induct) (simp_all add: dec_value_def dval_def digit_char)

lemma dec_value_zeros: "dec_value (replicate k CHR ''0'' @ ds) = dec_value ds"
  by (induction k) (simp_all add: dec_value_def)

lemma num_text_digits: "list_all is_digit (num_text up 10 n)" "num_text up 10 n \<noteq> []" "dec_value (num_text up 10 n) = n"
proof -
  have d: "d < 10" if "d \<in> set (digs 10 n)" for d using digs_less [OF _ that] by simp
  show "list_all is_digit (num_text up 10 n)" using d digit_char by (auto simp: num_text_def list_all_iff is_digit_def)
  show "num_text up 10 n \<noteq> []" using digs_nonempty [of 10 n] by (simp add: num_text_def)
  show "dec_value (num_text up 10 n) = n"
    using dec_value_digs [of "digs 10 n" up] d dval_digs [of 10 n] by (auto simp: num_text_def) (simp add: dec_value_def)
qed

lemma parse_dec_shape:
  assumes ds: "list_all is_digit ds" "ds \<noteq> []" and sg: "sg = ''-'' \<or> sg = ''+'' \<or> sg = '' '' \<or> sg = []"
  shows "parse_dec (replicate a CHR '' '' @ sg @ ds @ replicate b CHR '' '') = Some ((if sg = ''-'' then -1 else 1) * int (dec_value ds))"
proof -
  have blank: "\<not> is_digit CHR '' ''" "\<not> is_digit CHR ''-''" "\<not> is_digit CHR ''+''" by (simp_all add: is_digit_def)
  have h: "hd ds \<noteq> CHR '' ''" "hd ds \<noteq> CHR ''-''" "hd ds \<noteq> CHR ''+''" using ds blank by (cases ds; auto)+
  have tail: "takeWhile is_digit (ds @ replicate b CHR '' '') = ds" "dropWhile is_digit (ds @ replicate b CHR '' '') = replicate b CHR '' ''"
    using ds(1) blank by (cases b; auto simp: list_all_iff takeWhile_append2 dropWhile_append2)+
  have blanks: "dropWhile ((=) CHR '' '') (replicate a CHR '' '' @ r) = dropWhile ((=) CHR '' '') r" for r by (induction a) simp_all
  define r where "r = ds @ replicate b CHR '' ''"
  have r: "r \<noteq> []" "hd r \<noteq> CHR '' ''" "hd r \<noteq> CHR ''-''" "hd r \<noteq> CHR ''+''" "takeWhile is_digit r = ds" "dropWhile is_digit r = replicate b CHR '' ''"
    using h tail ds(2) by (simp_all add: r_def)
  have stop: "dropWhile ((=) CHR '' '') r = r" using r(1,2) by (cases r) auto
  have all: "list_all ((=) CHR '' '') (replicate b CHR '' '')" by (simp add: list_all_iff)
  consider "sg = ''-''" | "sg = ''+''" | "sg = '' ''" | "sg = []" using sg by blast
  then show ?thesis unfolding parse_dec_def Let_def blanks r_def [symmetric]
    by cases (simp_all add: stop r all ds(2))
qed

lemma has_flag_or [simp]: "f \<noteq> 0 \<Longrightarrow> has_flag (flags OR f) f"
proof -
  have "(flags OR f) AND f = f" by (rule bit_word_eqI) (auto simp: bit_or_iff bit_and_iff)
  then show "f \<noteq> 0 \<Longrightarrow> has_flag (flags OR f) f" by (simp add: has_flag_def)
qed

lemma unat_of_int64: "0 \<le> x \<Longrightarrow> x < 2 ^ 64 \<Longrightarrow> unat (word_of_int x :: u64) = nat x"
  by (simp add: unsigned_of_int take_bit_eq_mod)

lemma sint_range: "- (2 ^ 63) \<le> signed_arg len w \<and> signed_arg len w < 2 ^ 63"
  using sint_ge [of "ucast w :: u8"] sint_lt [of "ucast w :: u8"] sint_ge [of "ucast w :: u16"] sint_lt [of "ucast w :: u16"]
    sint_ge [of "ucast w :: u32"] sint_lt [of "ucast w :: u32"] sint_ge [of w] sint_lt [of w]
  by (cases len) (auto simp: signed_arg_def)

lemma signed_value:
  assumes "\<not> has_flag flags0 FL_NEG" and "signed_arg len w \<noteq> - (2 ^ 63)"
  shows "\<exists>uval flags. integer_value True flags0 len w = Ok (uval, flags) \<and>
    signed_arg len w = (if has_flag flags FL_NEG then -1 else 1) * int (unat uval) \<and> (flags = flags0 \<or> flags = flags0 OR FL_NEG)"
proof -
  define x where "x = signed_arg len w"
  have r: "- (2 ^ 63) < x" "x < 2 ^ 63" using sint_range [of len w] assms(2) by (auto simp: x_def)
  show ?thesis
  proof (cases "x < 0")
    case True
    define u where "u = (word_of_int (- x) :: u64)"
    have "unat u = nat (- x)" using r True unfolding u_def by (intro unat_of_int64) auto
    then have "int (unat u) = - x" using True by linarith
    moreover have "integer_value True flags0 len w = Ok (u, flags0 OR FL_NEG)" using True assms(2) by (simp add: integer_value_def x_def u_def)
    moreover have "has_flag (flags0 OR FL_NEG) FL_NEG" by (rule has_flag_or) (simp add: FL_NEG_def)
    ultimately show ?thesis using True by (auto simp: x_def)
  next
    case False
    then have "unat (word_of_int x :: u64) = nat x" using r by (intro unat_of_int64) auto
    then have "int (unat (word_of_int x :: u64)) = x" using False by linarith
    moreover have "integer_value True flags0 len w = Ok (word_of_int x, flags0)" using False by (simp add: integer_value_def x_def)
    ultimately show ?thesis using assms(1) by (auto simp: x_def)
  qed
qed

lemma decimal_field:
  assumes "precision \<noteq> 0 \<or> uval \<noteq> 0"
  shows "\<exists>a k b. int_field True 10 flags width precision uval =
    replicate a CHR '' '' @ int_sign True flags @ (replicate k CHR ''0'' @ num_text (has_flag flags FL_UPPER) 10 (unat uval)) @ replicate b CHR '' ''"
proof -
  have d: "int_digits 10 flags precision uval = num_text (has_flag flags FL_UPPER) 10 (unat uval)" using assms by (auto simp: int_digits_def)
  have p: "int_prefix 10 flags precision uval = []" by (simp add: int_prefix_def)
  define z where "z = int_zeros 10 flags precision uval"
  define n where "n = nat (width - int (length (int_sign True flags) + (z + length (num_text (has_flag flags FL_UPPER) 10 (unat uval)))))"
  have e: "int_field True 10 flags width precision uval = (let ds = num_text (has_flag flags FL_UPPER) 10 (unat uval); sg = int_sign True flags in
    if has_flag flags FL_LEFT_JUSTIFY then sg @ (replicate z CHR ''0'' @ ds) @ replicate n CHR '' ''
    else if has_flag flags FL_ZERO_PAD \<and> precision < 0 then sg @ (replicate n CHR ''0'' @ replicate z CHR ''0'' @ ds)
    else replicate n CHR '' '' @ sg @ (replicate z CHR ''0'' @ ds))"
    unfolding int_field_def d p z_def [symmetric] Let_def by (simp add: n_def)
  show ?thesis
  proof (cases "has_flag flags FL_LEFT_JUSTIFY")
    case True
    then show ?thesis unfolding e Let_def by (intro exI [of _ 0] exI [of _ z] exI [of _ n]) simp
  next
    case False
    show ?thesis
    proof (cases "has_flag flags FL_ZERO_PAD \<and> precision < 0")
      case True
      then show ?thesis using False unfolding e Let_def by (intro exI [of _ 0] exI [of _ "n + z"] exI [of _ 0]) (simp add: replicate_add)
    next
      case no: False
      then show ?thesis using False unfolding e Let_def by (intro exI [of _ n] exI [of _ z] exI [of _ 0]) auto
    qed
  qed
qed

text \<open>
  Claim C32. With a width of at most 2^30, a precision of at most 2^29 and at most 2^29 characters before it, a signed decimal conversion returns and what it
  prints can be read back: with any flags the printed field, which is at least \<open>width\<close> characters long, is a decimal numeral of the
  argument. Excluded are the zero that precision 0 leaves blank and the least 64-bit integer, whose negation overflows.
\<close>

theorem printk_decimal_roundtrip:
  assumes "holds_text sinks level c t" and "\<not> has_flag flags FL_NEG" and "width \<le> 2 ^ 30" "precision \<le> 2 ^ 29" "length t \<le> 2 ^ 29"
    and "signed_arg len w \<noteq> - (2 ^ 63)" and "precision \<noteq> 0 \<or> signed_arg len w \<noteq> 0"
  shows "\<exists>c' u. integer sinks True 10 flags width precision len (VWord w # va, c) = Ok (va, c') \<and> holds_text sinks level c' (t @ u) \<and>
    parse_dec u = Some (signed_arg len w) \<and> width \<le> int (length u)"
proof -
  obtain uval fl where iv: "integer_value True flags len w = Ok (uval, fl)" and x: "signed_arg len w = (if has_flag fl FL_NEG then -1 else 1) * int (unat uval)"
    using signed_value [OF assms(2,6)] by blast
  obtain c' where c': "integer sinks True 10 flags width precision len (VWord w # va, c) = Ok (va, c')"
    "holds_text sinks level c' (t @ int_field True 10 fl width precision uval)"
    using integer_total [OF assms(1) _ iv assms(3-5), of 10] by auto
  have "precision \<noteq> 0 \<or> uval \<noteq> 0" using assms(7) x by (auto simp: unat_eq_zero)
  from decimal_field [OF this, of fl width] obtain a k b where f: "int_field True 10 fl width precision uval =
    replicate a CHR '' '' @ int_sign True fl @ (replicate k CHR ''0'' @ num_text (has_flag fl FL_UPPER) 10 (unat uval)) @ replicate b CHR '' ''" by blast
  let ?ds = "replicate k CHR ''0'' @ num_text (has_flag fl FL_UPPER) 10 (unat uval)"
  have ds: "list_all is_digit ?ds" "?ds \<noteq> []" "dec_value ?ds = unat uval"
    using num_text_digits [of "has_flag fl FL_UPPER" "unat uval"] by (auto simp: list_all_iff dec_value_zeros is_digit_def)
  have sg: "int_sign True fl = ''-'' \<or> int_sign True fl = ''+'' \<or> int_sign True fl = '' '' \<or> int_sign True fl = []"
    "(int_sign True fl = ''-'') = has_flag fl FL_NEG" by (simp_all add: int_sign_def)
  have "parse_dec (int_field True 10 fl width precision uval) = Some (signed_arg len w)"
    unfolding f parse_dec_shape [OF ds(1,2) sg(1)] ds(3) sg(2) x by simp
  then show ?thesis using c' int_field_length [of True 10 fl width precision uval] by (intro exI [of _ c'] exI) auto
qed

definition one_sink :: "sink list" where
  "one_sink = \<lparr>sink_name = ''UART    '', sink_write = 0\<rparr> # replicate 7 \<lparr>sink_name = replicate 8 NUL, sink_write = 0\<rparr>"

theorem printk_decimal_roundtrip_witness:
  "\<exists>c' u. integer one_sink True 10 (FL_ZERO_PAD OR FL_ALWAYS_SIGN) 8 (-1) LEN_LL ([VWord (- 1234)], start_context 6) = Ok ([], c') \<and>
     holds_text one_sink 6 c' u \<and> parse_dec u = Some (- 1234) \<and> 8 \<le> length u"
proof -
  have f: "\<not> has_flag (FL_ZERO_PAD OR FL_ALWAYS_SIGN) FL_NEG" by (simp add: has_flag_def FL_ZERO_PAD_def FL_ALWAYS_SIGN_def FL_NEG_def)
  have w: "signed_arg LEN_LL (- 1234) = - 1234" by (simp add: signed_arg_def)
  from printk_decimal_roundtrip [OF start_holds [of one_sink 6] f, of 8 "-1" LEN_LL "- 1234" "[]"] show ?thesis by (simp add: w)
qed

theorem vprintkl_correct_witness:
  "case vprintkl one_sink 6 (Some ''tick %u\<newline>'') [VWord 7] of Err e \<Rightarrow> e = Undefined | Ok (n, out, stores) \<Rightarrow> n = int (length (sent 0 out))"
proof -
  have "sink_present (one_sink ! 0)" "0 < MAX_SINKS" by (simp_all add: sink_present_def one_sink_def NUL_def MAX_SINKS_def)
  then show ?thesis using vprintkl_correct [of one_sink 6 "Some ''tick %u\<newline>''" "[VWord 7]"] by (auto split: kres.splits)
qed

end
