(* ===== verification/Klog.thy ===== *)
theory Klog
  imports Console_Correct Printk_Correct
begin

text \<open>
  A message on its way from \<^verbatim>\<open>printk\<close> (\<^verbatim>\<open>lib/printk.c\<close>) to the two log drivers: each call of a sink runs the \<^verbatim>\<open>write\<close> function registered for it, on the port trace
  that both drivers share. Polling the serial line may run for ever, so a message is a computation that may not end; on a line whose transmitter
  drains every message ends.
\<close>

section \<open>Operations\<close>

definition early_uart_sink :: nat where "early_uart_sink = 0"
definition early_vga_sink :: nat where "early_vga_sink = 1"

definition sink_call :: "device \<Rightarrow> sink list \<Rightarrow> write_call \<Rightarrow> uart \<times> vga \<Rightarrow> (uart \<times> vga) kres option" where
  "sink_call dev sinks = (\<lambda>(i, level, str) (u, v).
     if sink_write (sinks ! i) = early_uart_sink then
       (case early_uart_log_write dev level (bytes str) (length str) (u\<lparr>u_tr := v_tr v\<rparr>) of
          None \<Rightarrow> None
        | Some u' \<Rightarrow> Some (Ok (u', v\<lparr>v_tr := u_tr u'\<rparr>)))
     else if sink_write (sinks ! i) = early_vga_sink then
       Some (rbind (early_vga_log_write level (bytes str) v) (\<lambda>v'. Ok (u\<lparr>u_tr := v_tr v'\<rparr>, v')))
     else Some (Err Undefined))"

fun sink_calls :: "device \<Rightarrow> sink list \<Rightarrow> write_call list \<Rightarrow> uart \<times> vga \<Rightarrow> (uart \<times> vga) kres option" where
  "sink_calls dev sinks [] s = Some (Ok s)"
| "sink_calls dev sinks (c # cs) s = tbind (sink_call dev sinks c s) (sink_calls dev sinks cs)"

definition printk :: "device \<Rightarrow> sink list \<Rightarrow> string \<Rightarrow> varg list \<Rightarrow> uart \<times> vga \<Rightarrow> (uart \<times> vga) kres option" where
  "printk dev sinks fmt va s =
     tbind (Some (vprintk sinks (Some fmt) va)) (\<lambda>(n, out, stores). sink_calls dev sinks out s)"

text \<open>The two registrations of \<^verbatim>\<open>entry\<close> (\<^verbatim>\<open>kernel/entry.c\<close>) on the cleared array.\<close>

definition register_sinks :: "sink list" where
  "register_sinks =
     (let sinks = replicate MAX_SINKS \<lparr>sink_name = replicate 8 NUL, sink_write = 0\<rparr>;
          sinks = snd (printk_sink_register \<lparr>sink_name = ''UART    '', sink_write = early_uart_sink\<rparr> sinks)
      in snd (printk_sink_register \<lparr>sink_name = ''VGA     '', sink_write = early_vga_sink\<rparr> sinks))"

section \<open>Every message ends\<close>

definition known_sinks :: "sink list \<Rightarrow> bool" where
  "known_sinks sinks \<longleftrightarrow> (\<forall>i < MAX_SINKS. sink_present (sinks ! i) \<longrightarrow> sink_write (sinks ! i) \<in> {early_uart_sink, early_vga_sink})"

lemma register_sinks_eq:
  "register_sinks = \<lparr>sink_name = ''UART    '', sink_write = early_uart_sink\<rparr> # \<lparr>sink_name = ''VGA     '', sink_write = early_vga_sink\<rparr> #
     replicate 6 \<lparr>sink_name = replicate 8 NUL, sink_write = 0\<rparr>"
  by (simp add: register_sinks_def Let_def printk_sink_register_def MAX_SINKS_def sink_present_def NUL_def upt_rec numeral_eq_Suc)

lemma register_sinks_known: "known_sinks register_sinks"
proof -
  have "\<forall>i < 8. sink_present (register_sinks ! i) \<longrightarrow> sink_write (register_sinks ! i) \<in> {early_uart_sink, early_vga_sink}"
    by (simp add: register_sinks_eq sink_present_def NUL_def numeral_eq_Suc All_less_Suc)
  then show ?thesis by (simp add: known_sinks_def MAX_SINKS_def)
qed

lemma length_bytes [simp]: "length (bytes str) = length str"
  by (simp add: bytes_def)

lemma sink_call_ends:
  assumes dev: "transmits dev" and v: "vga_ok v" and i: "sink_write (sinks ! i) \<in> {early_uart_sink, early_vga_sink}"
  shows "\<exists>u' v'. sink_call dev sinks (i, level, str) (u, v) = Some (Ok (u', v')) \<and> vga_ok v' \<and> uart_present u' = uart_present u"
proof (cases "sink_write (sinks ! i) = early_uart_sink")
  case True
  obtain u' where "early_uart_log_write dev level (bytes str) (length (bytes str)) (u\<lparr>u_tr := v_tr v\<rparr>) = Some u'" "uart_present u' = uart_present u"
    using early_uart_log_write_spec [OF dev, of level "bytes str" "u\<lparr>u_tr := v_tr v\<rparr>"] by auto
  then show ?thesis using True v by (simp add: sink_call_def vga_ok_def)
next
  case False
  obtain v' where "early_vga_log_write level (bytes str) v = Ok v'" "vga_ok v'" using early_vga_log_write_spec [OF v] by blast
  then show ?thesis using False i by (simp add: sink_call_def)
qed

lemma sink_calls_end:
  assumes dev: "transmits dev" and v: "vga_ok v" and out: "\<forall>(i, l, x) \<in> set out. sink_write (sinks ! i) \<in> {early_uart_sink, early_vga_sink}"
  shows "\<exists>u' v'. sink_calls dev sinks out (u, v) = Some (Ok (u', v')) \<and> vga_ok v' \<and> uart_present u' = uart_present u"
  using v out
proof (induction out arbitrary: u v)
  case (Cons c out)
  obtain i l x where c: "c = (i, l, x)" by (cases c)
  obtain u1 v1 where "sink_call dev sinks c (u, v) = Some (Ok (u1, v1))" "vga_ok v1" "uart_present u1 = uart_present u"
    using sink_call_ends [OF dev Cons.prems(1), of sinks i l x u] Cons.prems(2) c by auto
  then show ?case using Cons.IH [of v1 u1] Cons.prems(2) by auto
qed simp

lemma vprintk_spec:
  "case vprintk sinks fmt va of Err e \<Rightarrow> e = Undefined
   | Ok (n, out, stores) \<Rightarrow> \<forall>(i, l, x) \<in> set out. i < MAX_SINKS \<and> sink_present (sinks ! i)"
proof -
  have "case vprintkl sinks level f va of Err e \<Rightarrow> e = Undefined
     | Ok (n, out, stores) \<Rightarrow> \<forall>(i, l, x) \<in> set out. i < MAX_SINKS \<and> sink_present (sinks ! i)" for level f
    using vprintkl_spec [of sinks level f va] by (auto split: kres.splits)
  then show ?thesis by (auto simp: vprintk_def split: option.split)
qed

text \<open>A message fails only by undefined behaviour of its arguments, and it always ends.\<close>

lemma printk_ends:
  assumes "transmits dev" "known_sinks sinks" "vga_ok v"
  shows "\<exists>r. printk dev sinks fmt va (u, v) = Some r \<and>
    (case r of Err e \<Rightarrow> e = Undefined | Ok (u', v') \<Rightarrow> vga_ok v' \<and> uart_present u' = uart_present u)"
proof (cases "vprintk sinks (Some fmt) va")
  case (Err e)
  then show ?thesis using vprintk_spec [of sinks "Some fmt" va] by (simp add: printk_def)
next
  case (Ok p)
  then obtain n out stores where p: "vprintk sinks (Some fmt) va = Ok (n, out, stores)" by (cases p) auto
  have "\<forall>(i, l, x) \<in> set out. sink_write (sinks ! i) \<in> {early_uart_sink, early_vga_sink}"
    using vprintk_spec [of sinks "Some fmt" va] assms(2) by (auto simp: p known_sinks_def)
  then show ?thesis using sink_calls_end [OF assms(1,3), of out sinks u] p by (auto simp: printk_def)
qed

section \<open>Messages without undefined behaviour\<close>

text \<open>Plain characters are copied; a pointer is printed with all 16 digits.\<close>

lemma loop_plain:
  assumes "CHR ''%'' \<notin> set s"
  shows "vprintkl_loop sinks (s @ r) va c = rbind (rfold (putc sinks) s c) (vprintkl_loop sinks r va)"
  using assms
proof (induction s arbitrary: c)
  case (Cons ch s)
  then show ?case by (cases "putc sinks ch c") auto
qed simp

lemma loop_all_plain: "CHR ''%'' \<notin> set s \<Longrightarrow> vprintkl_loop sinks s va c = rfold (putc sinks) s c"
proof (induction s arbitrary: c)
  case (Cons ch s)
  then show ?case by (cases "putc sinks ch c") auto
qed simp

definition ptr_text :: "u64 \<Rightarrow> string" where
  "ptr_text a = ''0x'' @ replicate (16 - length (num_text False 16 (unat a))) CHR ''0'' @ num_text False 16 (unat a)"

lemma pointer_emits:
  assumes h: "holds_text sinks level c t"
  shows "\<exists>m. print_pointer sinks flags 0 (VWord a # va, c) = rbind m (\<lambda>c. Ok (va, c)) \<and> emits (holds_text sinks level) m t (ptr_text a)"
proof -
  obtain p c1 where n: "ntoa a 16 False c = (p, c1)" by (metis surj_pair)
  have b: "8 \<le> unat (16 :: u64)" and l: "length (p_ntoa c) = NTOA_BUFFER_SIZE" using h by (simp_all add: holds_text_def)
  note N = ntoa_spec [OF b l n]
  let ?ds = "num_text False 16 (unat a)"
  have h1: "holds_text sinks level c1 t" using N(4) holds_ntoaI [OF h] by auto
  have N': "drop p (p_ntoa c1) = ?ds" "int NTOA_BUFFER_SIZE - int p = int (length ?ds)" "length ?ds \<le> 22" using N(1-3) by simp_all
  define zn where "zn = (if int (length ?ds) < 16 then 16 - int (length ?ds) else 0)"
  have zn: "nat zn = 16 - length ?ds" "0 \<le> zn" "zn \<le> 16" by (auto simp: zn_def)
  define m where "m = rbind (put_str sinks ''0x'' 2 c1) (\<lambda>c. rbind (pad sinks CHR ''0'' zn c) (put_str sinks ?ds (int (length ?ds))))"
  have ck: "ck (0 - (2 + zn + int (length ?ds))) = Ok (0 - (2 + zn + int (length ?ds)))" "\<not> 0 < 0 - (2 + zn + int (length ?ds))"
    using zn N'(3) by (auto simp: ck_def)
  have "print_pointer sinks flags 0 (VWord a # va, c) = rbind m (\<lambda>c. Ok (va, c))"
    unfolding print_pointer_def prod.case va_word_def list.case varg.case rbind.simps n Let_def N' zn_def [symmetric] ck(1)
    using ck(2) by (simp add: m_def rbind_assoc)
  moreover have "emits (holds_text sinks level) m t (''0x'' @ replicate (nat zn) CHR ''0'' @ take (nat (int (length ?ds))) ?ds)"
    unfolding m_def
  proof (rule emits_bind)
    show "emits (holds_text sinks level) (put_str sinks ''0x'' 2 c1) t ''0x''" using put_str_emits [OF h1, of 2 "''0x''"] by simp
  qed (intro emits_bind pad_emits put_str_emits; simp)
  ultimately show ?thesis using zn(1) by (auto simp: ptr_text_def)
qed

lemma plain_emits: "holds_text sinks level c t \<Longrightarrow> emits (holds_text sinks level) (rfold (putc sinks) s c) t s"
  using pk.emit_all [of sinks level c t s] by simp

lemma convert_pointer:
  "convert sinks (CHR ''%'' # CHR ''#'' # CHR ''p'' # s) (va, c) =
   rbind (print_pointer sinks FL_PREFIX 0 (va, c)) (\<lambda>(va, c). Ok (Some (s, va, c)))"
  by (simp add: convert_def parse_width_def parse_precision_def parse_length_def print_spec_def is_digit_def Let_def)

lemma loop_pointer:
  assumes "CHR ''%'' \<notin> set s1" "CHR ''%'' \<notin> set s2" and h: "holds_text sinks level c t"
  shows "emits (holds_text sinks level) (vprintkl_loop sinks (s1 @ CHR ''%'' # CHR ''#'' # CHR ''p'' # s2) [VWord a] c) t (s1 @ ptr_text a @ s2)"
  unfolding loop_plain [OF assms(1)]
proof (rule emits_bind [OF plain_emits [OF h]])
  fix c1 assume h1: "holds_text sinks level c1 (t @ s1)"
  obtain m where m: "print_pointer sinks FL_PREFIX 0 ([VWord a], c1) = rbind m (\<lambda>c. Ok ([], c))"
    "emits (holds_text sinks level) m (t @ s1) (ptr_text a)"
    using pointer_emits [OF h1, of FL_PREFIX a "[]"] by blast
  have "vprintkl_loop sinks (CHR ''%'' # CHR ''#'' # CHR ''p'' # s2) [VWord a] c1 = rbind m (vprintkl_loop sinks s2 [])"
    by (cases m) (simp_all add: convert_pointer m(1))
  moreover have "emits (holds_text sinks level) (rbind m (vprintkl_loop sinks s2 [])) (t @ s1) (ptr_text a @ s2)"
  proof (rule emits_bind [OF m(2)])
    fix c2 assume h2: "holds_text sinks level c2 ((t @ s1) @ ptr_text a)"
    show "emits (holds_text sinks level) (vprintkl_loop sinks s2 [] c2) ((t @ s1) @ ptr_text a) s2"
      unfolding loop_all_plain [OF assms(2)] by (rule plain_emits [OF h2])
  qed
  ultimately show "emits (holds_text sinks level) (vprintkl_loop sinks (CHR ''%'' # CHR ''#'' # CHR ''p'' # s2) [VWord a] c1) (t @ s1) (ptr_text a @ s2)"
    by simp
qed

lemma loop_defined:
  assumes "emits (holds_text sinks level) (vprintkl_loop sinks s va (start_context level)) [] u" "length u < 2 ^ 31"
  shows "\<exists>r. vprintkl sinks level (Some s) va = Ok r"
  using assms unfolding vprintkl_start
  by (cases "vprintkl_loop sinks s va (start_context level)") (auto simp: emits_def Let_def)

lemma ptr_text_length: "length (ptr_text a) \<le> 24"
proof -
  have "length (num_text False 16 (unat a)) \<le> 22" using u64_digits [of 16 a] by (simp add: num_text_def)
  then show ?thesis by (simp add: ptr_text_def)
qed

text \<open>The two messages of \<^verbatim>\<open>entry\<close>.\<close>

lemma loaded_message: "\<exists>r. vprintk sinks (Some ''Kernel loaded at %#p\<newline>'') [VWord a] = Ok r"
proof -
  have "emits (holds_text sinks 6) (vprintkl_loop sinks (''Kernel loaded at '' @ CHR ''%'' # CHR ''#'' # CHR ''p'' # ''\<newline>'') [VWord a] (start_context 6)) []
      (''Kernel loaded at '' @ ptr_text a @ ''\<newline>'')"
    by (rule loop_pointer [OF _ _ start_holds]) simp_all
  from loop_defined [OF this] show ?thesis using ptr_text_length [of a] by (simp add: vprintk_def DEFAULT_LEVEL_def)
qed

lemma active_message: "\<exists>r. vprintk sinks (Some ''[OK] printk() active\<newline>'') [] = Ok r"
proof -
  let ?s = "''[OK] printk() active\<newline>''"
  have "vprintkl_loop sinks ?s [] (start_context 6) = rfold (putc sinks) ?s (start_context 6)" by (rule loop_all_plain) simp
  then have "emits (holds_text sinks 6) (vprintkl_loop sinks ?s [] (start_context 6)) [] ?s"
    using plain_emits [OF start_holds, of sinks 6 ?s] by (simp only:)
  from loop_defined [OF this] show ?thesis by (simp add: vprintk_def DEFAULT_LEVEL_def)
qed

lemma printk_defined:
  assumes "transmits dev" "known_sinks sinks" "vga_ok v" "\<exists>r. vprintk sinks (Some fmt) va = Ok r"
  shows "\<exists>u' v'. printk dev sinks fmt va (u, v) = Some (Ok (u', v')) \<and> vga_ok v' \<and> uart_present u' = uart_present u"
proof -
  obtain n out stores where p: "vprintk sinks (Some fmt) va = Ok (n, out, stores)" using assms(4) by auto
  have "\<forall>(i, l, x) \<in> set out. sink_write (sinks ! i) \<in> {early_uart_sink, early_vga_sink}"
    using vprintk_spec [of sinks "Some fmt" va] assms(2) by (auto simp: p known_sinks_def)
  then show ?thesis using sink_calls_end [OF assms(1,3), of out sinks u] p by (auto simp: printk_def)
qed

end
