(* ===== verification/Kernel_Entry.thy ===== *)
theory Kernel_Entry
  imports Sched Klog
begin

text \<open>
  The kernel's entry point (\<^verbatim>\<open>kernel/entry.c\<close>): the making of user tasks, the switch to the first one, and the order of the start-up; with it the
  marking of the boot stack (\<^verbatim>\<open>mm/stack.h\<close>) and the end of a panic (\<^verbatim>\<open>lib/panic.c\<close>). The two messages of \<^verbatim>\<open>entry\<close> itself go through the sinks to the drivers; those that the
  called functions print are output only and are left out with them, as is the one of a debug build. The machine code of
  the test program is a parameter, 512 words, the page that is copied to the task.
\<close>

section \<open>Stores through the current address space\<close>

text \<open>
  A store by the kernel to a virtual address goes through the tables in CR3. A page fault is an exception, on which the kernel panics. Flags do not
  matter here: the kernel maps the page writable just before.
\<close>

definition user_store :: "u64 \<Rightarrow> u64 \<Rightarrow> kmem \<Rightarrow> kmem kres" where
  "user_store v x st =
     (case translate (pmem st) (get_cr3 st) v of
        None \<Rightarrow> Err page_fault
      | Some (pa, e) \<Rightarrow> Ok (st\<lparr>pmem := (pmem st)(pa := x)\<rparr>))"

definition copy_code :: "u64 \<Rightarrow> u64 list \<Rightarrow> kmem \<Rightarrow> kmem kres" where
  "copy_code dest code = rfold (\<lambda>j. user_store (dest + 8 * of_nat j) (code ! j)) [0..<512]"

section \<open>Tasks\<close>

definition user_virt :: u64 where "user_virt = 0x100000"

definition make_task :: "tables \<Rightarrow> e820_entry list \<Rightarrow> u64 list \<Rightarrow> u32 \<Rightarrow> sched \<Rightarrow> (nat option \<times> sched) kres" where
  "make_task ts es code prio s0 =
     rbind (create_task ts es prio s0) (\<lambda>(t, s1).
       case t of None \<Rightarrow> Ok (None, s1)
       | Some i \<Rightarrow>
           let s2 = s1\<lparr>s_mem := vmm_set_table (vmem (tasks s1 ! i)) (s_mem s1)\<rparr>
           in rbind (task_alloc_pages i 1 s2) (\<lambda>(task_pages, s3).
             case task_pages of None \<Rightarrow> Ok (None, s3)
             | Some p \<Rightarrow>
                 rbind (page_to_hhdm (Some p)) (\<lambda>hhdm.
                 rbind (vmm_map ts es (vmem (tasks s3 ! i)) user_virt (hhdm_to_phys hhdm) (2 * PAGE_SIZE)
                          (PT_PRESENT OR PT_WRITABLE OR PT_USER) (s_mem s3)) (\<lambda>(_, st).
                 rbind (copy_code (user_virt + 0x1000) code st) (\<lambda>st.
                   Ok (Some i, run_task i (user_virt + 0x1000) (user_virt + 0x1000) (s3\<lparr>s_mem := st\<rparr>)))))))"

text \<open>The frame \<^verbatim>\<open>iretq\<close> pops; a null pointer has no context.\<close>

record iret_frame =
  f_rip :: u64
  f_cs :: u64
  f_rflags :: u64
  f_rsp :: u64
  f_ss :: u64

definition enter_task :: "nat option \<Rightarrow> sched \<Rightarrow> iret_frame kres" where
  "enter_task t s =
     (case t of None \<Rightarrow> Err NullDeref
      | Some i \<Rightarrow>
          let c = ctx (tasks s ! i)
          in Ok \<lparr>f_rip = reg_rip c, f_cs = reg_cs c, f_rflags = reg_rflags c, f_rsp = reg_rsp c, f_ss = reg_ss c\<rparr>)"

text \<open>The last part of \<^verbatim>\<open>entry\<close>: four tasks, then the first one is entered.\<close>

definition start_tasks :: "tables \<Rightarrow> e820_entry list \<Rightarrow> u64 list \<Rightarrow> sched \<Rightarrow> (iret_frame \<times> sched) kres" where
  "start_tasks ts es code s =
     rbind (make_task ts es code 1024 s) (\<lambda>(A, s).
     rbind (make_task ts es code 1024 s) (\<lambda>(B, s).
     rbind (make_task ts es code 100 s) (\<lambda>(C, s).
     rbind (make_task ts es code 10000 s) (\<lambda>(D, s).
     rbind (enter_task A s) (\<lambda>f. Ok (f, s))))))"

section \<open>The start-up\<close>

definition VGA_FRAMEBUFFER :: u64 where "VGA_FRAMEBUFFER = 0xB8000"
definition VGA_FRAMEBUFFER_HHDM :: u64 where "VGA_FRAMEBUFFER_HHDM = 0xFFFF8880000B8000"

text \<open>
  What the entry point sets up before the tasks: drivers, sinks, tables, memory and timer. The cleared \<^verbatim>\<open>.bss\<close> is the initial value of every variable.
  \<^verbatim>\<open>early_vga_init\<close> stores a pointer that no function of the memory management reads, so its second call is written after \<^verbatim>\<open>boot_memory\<close>, inside of
  which it stands.
\<close>

record machine =
  m_uart :: uart
  m_vga :: vga
  m_sinks :: "sink list"
  m_cpu :: cpu_tables
  m_idtr :: "u16 \<times> u64"
  m_gates :: "idt_gate list"
  m_trace :: trace
  m_map :: "e820_entry list"
  m_mem :: kmem

record image_layout =
  i_gdt :: u64
  i_tss :: u64
  i_kern_stack :: u64
  i_emergency_stack :: u64
  i_gates :: u64
  i_tables :: tables
  i_end :: u64
  i_entry :: u64

definition start_machine ::
    "device \<Rightarrow> (nat \<Rightarrow> u64) \<Rightarrow> image_layout \<Rightarrow> e820_entry list \<Rightarrow> u16 list \<Rightarrow> kmem \<Rightarrow> trace \<Rightarrow> machine kres option" where
  "start_machine dev isr_table l raw cells st tr =
     (let u = snd (early_uart_init dev \<lparr>uart_present = False, u_tr = cli tr\<rparr>);
          v = early_vga_init VGA_FRAMEBUFFER \<lparr>v_base = 0, v_cells = cells, v_cx = 0, v_cy = 0, v_color = DEFAULT_COLOR, v_tr = u_tr u\<rparr>
      in tbind (Some (early_vga_clrscr v)) (\<lambda>v.
         let sinks = register_sinks
         in tbind (printk dev sinks ''Kernel loaded at %#p\<newline>'' [VWord (i_entry l)] (u, v)) (\<lambda>s.
            tbind (printk dev sinks ''[OK] printk() active\<newline>'' [] s) (\<lambda>(u, v).
            tbind (Some (gdt_init (i_gdt l) (i_tss l) (i_kern_stack l) (i_emergency_stack l))) (\<lambda>cpu.
            tbind (Some (isr_init isr_table gates_boot)) (\<lambda>gates.
            tbind (Some (irq_init dev isr_table (v_tr v, gates))) (\<lambda>(tr, gates).
            tbind (boot_memory (i_tables l) raw (i_end l) st) (\<lambda>(es, st).
              let v = early_vga_init VGA_FRAMEBUFFER_HHDM v
              in tbind (Some (pit_set_freq 1024 tr)) (\<lambda>tr.
                 Some (Ok \<lparr>m_uart = u\<lparr>u_tr := tr\<rparr>, m_vga = v\<lparr>v_tr := tr\<rparr>, m_sinks = sinks, m_cpu = cpu, m_idtr = idt_init (i_gates l), m_gates = gates,
                           m_trace = tr, m_map = es, m_mem = st\<rparr>))))))))))"

definition kernel_entry ::
    "device \<Rightarrow> (nat \<Rightarrow> u64) \<Rightarrow> image_layout \<Rightarrow> e820_entry list \<Rightarrow> u16 list \<Rightarrow> u64 list \<Rightarrow> kmem \<Rightarrow> trace \<Rightarrow> (machine \<times> iret_frame \<times> sched) kres option" where
  "kernel_entry dev isr_table l raw cells code st tr =
     tbind (start_machine dev isr_table l raw cells st tr) (\<lambda>m.
     tbind (Some (start_tasks (i_tables l) (m_map m) code (sched_boot (m_mem m)))) (\<lambda>(f, s).
       Some (Ok (m, f, s))))"

section \<open>The boot stack\<close>

definition MARK :: u8 where "MARK = 0xDF"

definition mark_stack :: "nat \<Rightarrow> u8 list \<Rightarrow> u8 list" where
  "mark_stack off s = fold (\<lambda>i s. s[i := MARK]) [0..<length s - off] s"

fun count_marks :: "u8 list \<Rightarrow> nat \<Rightarrow> nat" where
  "count_marks [] used = used"
| "count_marks (b # s) used = (if b \<noteq> MARK then used else count_marks s (Suc used))"

definition stack_used :: "u8 list \<Rightarrow> nat" where
  "stack_used s = length s - count_marks s 0"

lemma mark_prefix: "n \<le> length s \<Longrightarrow> fold (\<lambda>i s. s[i := MARK]) [0..<n] s = replicate n MARK @ drop n s"
  by (induction n) (simp_all add: list_update_append Cons_nth_drop_Suc [symmetric] replicate_append_same [symmetric])

lemma count_marks_add: "count_marks s used = used + length (takeWhile (\<lambda>b. b = MARK) s)"
  by (induction s arbitrary: used) auto

text \<open>A stack that was painted and then used down to a byte that is not the mark: the estimate is exact.\<close>

lemma stack_used_exact:
  assumes "take n s = take n (mark_stack 0 s0)" "length s = length s0" "n < length s" "s ! n \<noteq> MARK"
  shows "stack_used s = length s - n"
proof -
  have "take n s = replicate n MARK" using assms(1-3) by (simp add: mark_stack_def mark_prefix take_replicate)
  then have "s = replicate n MARK @ s ! n # drop (Suc n) s" using assms(3) id_take_nth_drop [of n s] by simp
  moreover have "takeWhile (\<lambda>b. b = MARK) (replicate n MARK @ s ! n # drop (Suc n) s) = replicate n MARK" using assms(4) by (simp add: takeWhile_append)
  ultimately have "takeWhile (\<lambda>b. b = MARK) s = replicate n MARK" by simp
  then show ?thesis by (simp add: stack_used_def count_marks_add)
qed

section \<open>Panic\<close>

text \<open>What the sinks receive, and the instructions before the machine halts for ever.\<close>

definition vpanic :: "sink list \<Rightarrow> string option \<Rightarrow> varg list \<Rightarrow> trace \<Rightarrow> (write_call list \<times> trace) kres" where
  "vpanic sinks format args tr =
     rbind (if format \<noteq> None \<and> the format \<noteq> [] \<and> hd (the format) \<noteq> NUL then
              rbind (vprintkl sinks 0 (Some ''KERNEL PANIC: '') []) (\<lambda>(_, out1, _).
              rbind (vprintkl sinks 0 format args) (\<lambda>(_, out2, _). Ok (out1 @ out2)))
            else rbind (vprintkl sinks 0 (Some ''KERNEL PANIC!\<newline>'') []) (\<lambda>(_, out, _). Ok out))
       (\<lambda>out. Ok (out, halt (cli tr)))"

end
