(* ===== verification/Task_Space.thy ===== *)
theory Task_Space
  imports Kernel_Entry Sched_Correct
begin

text \<open>
  The memory of a task that \<^verbatim>\<open>make_task\<close> of \<^verbatim>\<open>kernel/entry.c\<close> makes: what the running kernel writes while it builds the address space goes to frames nobody owned
  before, the two pages of the task are fresh, and its code lies where its first instruction is fetched from.
\<close>

section \<open>Free frames\<close>

lemma block_split: "y \<in> block p k \<Longrightarrow> ord \<le> k \<Longrightarrow> y \<in> block p ord \<or> (\<exists>j. ord \<le> j \<and> j < k \<and> y \<in> block (p + 2 ^ j) j)"
proof (induction k)
  case (Suc k)
  show ?case
  proof (cases "ord = Suc k")
    case False
    then have "ord \<le> k" using Suc.prems(2) by simp
    show ?thesis
    proof (cases "y \<in> block p k")
      case True
      then show ?thesis using Suc.IH \<open>ord \<le> k\<close> by (meson less_SucI)
    next
      case False
      then have "y \<in> block (p + 2 ^ k) k" using Suc.prems(1) by auto
      then show ?thesis using \<open>ord \<le> k\<close> by blast
    qed
  qed (use Suc.prems in simp)
qed simp

text \<open>Free memory is counted in the frames of the blocks of at least 16 pages: an allocation of order at most 4 takes at most 16 of them.\<close>

definition big_frames :: "buddy \<Rightarrow> nat set" where
  "big_frames bd = {y. \<exists>x k. (x, k) \<in> free_blocks bd \<and> 4 \<le> k \<and> y \<in> block x k}"

lemma alloc_pages_leaves:
  assumes "buddy_inv bd" "alloc_pages bd ord = Ok (Some p, bd')" "ord \<le> 4"
  shows "big_frames bd \<subseteq> big_frames bd' \<union> block p 4"
proof
  fix y assume "y \<in> big_frames bd"
  then obtain x j where x: "(x, j) \<in> free_blocks bd" "4 \<le> j" "y \<in> block x j" by (auto simp: big_frames_def)
  have o: "ord \<le> PAGE_MAX_ORDER" using assms(3) by (simp add: PAGE_MAX_ORDER_def)
  obtain k where k: "ord \<le> k" "free_blocks bd' = free_blocks bd - {(p, k)} \<union> {(p + 2 ^ j, j) |j. ord \<le> j \<and> j < k}"
    using alloc_pages_spec [OF assms(1) o] assms(2) by auto
  show "y \<in> big_frames bd' \<union> block p 4"
  proof (cases "(x, j) = (p, k)")
    case True
    then have "y \<in> block p 4 \<or> (\<exists>j. 4 \<le> j \<and> j < k \<and> y \<in> block (p + 2 ^ j) j)" using block_split [of y p k 4] x(2, 3) by blast
    moreover have "(p + 2 ^ j, j) \<in> free_blocks bd'" if "4 \<le> j" "j < k" for j using assms(3) that unfolding k(2) by auto
    ultimately show ?thesis unfolding big_frames_def by blast
  next
    case False
    then have "(x, j) \<in> free_blocks bd'" using x(1) unfolding k(2) by blast
    then show ?thesis using x(2, 3) unfolding big_frames_def by blast
  qed
qed

definition nr_big :: "kmem \<Rightarrow> nat" where
  "nr_big st = card (big_frames (k_bd st))"

lemma nr_big_alloc:
  assumes "buddy_inv (k_bd st)" "alloc_pages (k_bd st) ord = Ok (Some p, bd)" "ord \<le> 4"
  shows "nr_big st \<le> nr_big (st\<lparr>k_bd := bd\<rparr>) + 16"
proof -
  have o: "ord \<le> PAGE_MAX_ORDER" using assms(3) by (simp add: PAGE_MAX_ORDER_def)
  note F = alloc_pages_frames [OF assms(1, 2) o]
  have "big_frames bd \<subseteq> free_frames bd" by (auto simp: big_frames_def free_frames_def)
  then have fin: "finite (big_frames bd)" using finite_subset [OF subset_trans [OF _ subset_trans [OF F(3, 7)]]] by simp
  have "card (big_frames (k_bd st)) \<le> card (big_frames bd \<union> block p 4)"
    using alloc_pages_leaves [OF assms] fin by (intro card_mono) (simp_all add: block_def)
  also have "\<dots> \<le> card (big_frames bd) + card (block p 4)" by (rule card_Un_le)
  finally show ?thesis by (simp add: nr_big_def block_def)
qed

lemma nr_big_pos: "0 < nr_big st \<Longrightarrow> \<exists>x k. (x, k) \<in> free_blocks (k_bd st) \<and> 4 \<le> k"
proof (rule ccontr)
  assume "0 < nr_big st" "\<not> (\<exists>x k. (x, k) \<in> free_blocks (k_bd st) \<and> 4 \<le> k)"
  moreover from this(2) have "big_frames (k_bd st) = {}" by (auto simp: big_frames_def)
  ultimately show False by (simp add: nr_big_def)
qed

text \<open>The running kernel with room for at least \<open>n\<close> allocations.\<close>

definition enough :: "e820_entry list \<Rightarrow> nat set \<Rightarrow> nat \<Rightarrow> kmem \<Rightarrow> bool" where
  "enough es K n st \<longleftrightarrow> kinv es K st \<and> vstate st = VMM_READY \<and> 16 * n \<le> nr_big st"

lemma enough_alloc_table:
  assumes "enough es K (Suc n) st"
  shows "\<exists>a st'. alloc_table es st = Ok (a, st') \<and> a \<noteq> 0 \<and> enough es K n st'"
proof -
  have k: "kinv es K st" "vstate st = VMM_READY" "16 * Suc n \<le> nr_big st" using assms by (simp_all add: enough_def)
  have b: "buddy_inv (k_bd st)" using k by (simp add: kinv_def)
  obtain a st' where a: "alloc_table es st = Ok (a, st')" "a \<noteq> 0" using alloc_table_ready(2) [OF k(1, 2)] nr_big_pos [of st] k(3) by auto
  then obtain p bd where p: "alloc_pages (k_bd st) 0 = Ok (Some p, bd)" "st' = st\<lparr>k_bd := bd\<rparr>"
    using k(2) by (auto simp: alloc_table_def page_to_hhdm_def split: option.splits)
  have "nr_big st \<le> nr_big st' + 16" using nr_big_alloc [OF b p(1)] by (simp add: p(2))
  then have "enough es K n st'" using alloc_table_spec(1) [OF k(1) a(1)] k(2, 3) p(2) by (simp add: enough_def)
  then show ?thesis using a by blast
qed

lemma enough_pmem [simp]: "enough es K n (st\<lparr>pmem := m\<rparr>) = enough es K n st" "enough es K n (tstore t i v st) = enough es K n st"
  "enough es K n (tzero t st) = enough es K n st"
  by (simp_all add: enough_def nr_big_def tstore_def tzero_def)

lemma enough_mono: "enough es K n st \<Longrightarrow> m \<le> n \<Longrightarrow> enough es K m st"
  by (simp add: enough_def)

section \<open>Writes to fresh frames only\<close>

text \<open>
  One step of building an address space with root \<open>root\<close>: the tree grows, words in the frames of \<open>X\<close> are kept, and every table of the new tree
  is a table of the old one or lies in a frame that was not owned.
\<close>

definition grows :: "e820_entry list \<Rightarrow> nat set \<Rightarrow> nat set \<Rightarrow> u64 \<Rightarrow> kmem \<Rightarrow> kmem \<Rightarrow> bool" where
  "grows es K X root st st' \<longleftrightarrow> tree_ok es K root st' \<and> cr3 st' = cr3 st \<and> kowned es K st \<subseteq> kowned es K st' \<and>
     (\<forall>a. unat a div 4096 \<in> X \<longrightarrow> pmem st' a = pmem st a) \<and>
     (\<forall>q t. path_ok q \<longrightarrow> tbl_at (pmem st') root q = Some t \<longrightarrow> tbl_at (pmem st) root q = Some t \<or> unat t div 4096 \<notin> kowned es K st)"

lemma grows_refl: "tree_ok es K root st \<Longrightarrow> grows es K X root st st"
  by (simp add: grows_def)

lemma grows_trans:
  assumes "grows es K X root st st1" "grows es K X root st1 st2"
  shows "grows es K X root st st2"
proof -
  have "tbl_at (pmem st) root q = Some t \<or> unat t div 4096 \<notin> kowned es K st" if "path_ok q" "tbl_at (pmem st2) root q = Some t" for q t
  proof -
    have "tbl_at (pmem st1) root q = Some t \<or> unat t div 4096 \<notin> kowned es K st1" using assms(2) that by (simp add: grows_def)
    then show ?thesis using assms(1) that(1) by (auto simp: grows_def)
  qed
  then show ?thesis using assms by (auto simp: grows_def)
qed

text \<open>The tables of the user half lie outside of \<open>X\<close>.\<close>

definition unshared :: "nat set \<Rightarrow> u64 \<Rightarrow> kmem \<Rightarrow> bool" where
  "unshared X root st \<longleftrightarrow> (\<forall>q t. path_ok q \<and> (\<forall>i r. q = i # r \<longrightarrow> i < 256) \<and> tbl_at (pmem st) root q = Some t \<longrightarrow> unat t div 4096 \<notin> X)"

lemma unshared_grows: "unshared X root st \<Longrightarrow> grows es K X root st st' \<Longrightarrow> X \<subseteq> kowned es K st \<Longrightarrow> unshared X root st'"
  unfolding unshared_def grows_def by (metis subset_iff)

lemma goc_there:
  assumes ok: "tree_ok es K root st" and p: "path_ok (p @ [i])" "tbl_at (pmem st) root p = Some (mmu T)" "tbl_at (pmem st) root (p @ [i]) = Some t"
    and v: "vstate st = VMM_READY"
  shows "\<exists>s. get_or_create_table es T i st = Ok (s, st) \<and> s \<noteq> 0 \<and> mmu s = t"
proof -
  have i: "\<not> 512 \<le> i" using p(1) by (simp add: path_ok_snoc not_le)
  have c: "present (tload st T i)" "\<not> pse (tload st T i)" "t = addr_of (tload st T i)" using p(2, 3) by (auto simp: tbl_at_snoc tload_def split: if_splits)
  then have "get_or_create_table es T i st = Ok (phys_to_virt st t, st)" using v i by (simp add: get_or_create_table_def Let_def less_vmm_state_def)
  moreover have "phys_to_virt st t \<noteq> 0" "mmu (phys_to_virt st t) = t" using tree_table(4, 5) [OF ok p(1, 3)] v by (simp_all add: less_eq_vmm_state_def)
  ultimately show ?thesis by blast
qed

lemma goc_ready:
  assumes ok: "tree_ok es K root st" and p: "path_ok (p @ [i])" "tbl_at (pmem st) root p = Some (mmu T)"
    and en: "enough es K (Suc n) st" and X: "X \<subseteq> kowned es K st" "unat (mmu T) div 4096 \<notin> X"
    and np: "\<not> (present (tload st T i) \<and> pse (tload st T i))"
  shows "\<exists>s st'. get_or_create_table es T i st = Ok (s, st') \<and> s \<noteq> 0 \<and> enough es K n st' \<and>
    tree_step es K root st st' \<and> grows es K X root st st' \<and> tbl_at (pmem st') root (p @ [i]) = Some (mmu s)"
proof -
  have i: "i < 512" "path_ok p" "\<not> 512 \<le> i" using p(1) by (simp_all add: path_ok_snoc not_le)
  have v: "vstate st = VMM_READY" using en by (simp add: enough_def)
  show ?thesis
  proof (cases "present (tload st T i)")
    case True
    then have t: "tbl_at (pmem st) root (p @ [i]) = Some (addr_of (tload st T i))" using np p(2) by (simp add: tbl_at_snoc tload_def)
    then obtain s where "get_or_create_table es T i st = Ok (s, st)" "s \<noteq> 0" "mmu s = addr_of (tload st T i)"
      using goc_there [OF ok p t v] by blast
    then show ?thesis using t enough_mono [OF en] tree_step_refl [OF ok] grows_refl [OF ok] by fastforce
  next
    case False
    obtain s st1 where a: "alloc_table es st = Ok (s, st1)" "s \<noteq> 0" "enough es K n st1" using enough_alloc_table [OF en] by blast
    define st' where "st' = tstore T i (virt_to_phys s OR PT_PRESENT OR PT_WRITABLE OR PT_USER) (tzero s st1)"
    have r: "get_or_create_table es T i st = Ok (s, st')"
      using False a(1, 2) v i(3) by (simp add: get_or_create_table_def Let_def st'_def less_vmm_state_def)
    have k: "kinv es K st" using ok by (simp add: tree_ok_def)
    note A = alloc_table_spec [OF k a(1)] and F = alloc_table_spec(3) [OF k a(1, 2), unfolded new_frame_def]
    have m1: "pmem st1 = pmem st" using A(4) by (metis kmem.select_convs(1) kmem.surjective kmem.update_convs(7,8))
    note L = link_table [OF ok p False a(1, 2) st'_def]
    have own: "kowned es K st' = insert (unat (mmu s) div 4096) (kowned es K st)" using F by (simp add: st'_def tstore_def tzero_def)
    have al: "page_aligned (mmu T)" by (rule tree_table(1) [OF ok i(2) p(2)])
    have keep: "pmem st' a = pmem st a" if "unat a div 4096 \<in> X" for a
    proof -
      have "a \<noteq> mmu T + 8 * i" using cell_frame [OF al i(1)] X(2) that by auto
      moreover have "\<not> (mmu s \<le> a \<and> a < mmu s + PAGE_SIZE)"
        using tzero_cells [of "mmu s" a] F X(1) that by auto
      ultimately show ?thesis by (auto simp: st'_def tstore_def tzero_def m1)
    qed
    have new: "tbl_at (pmem st) root q = Some t \<or> unat t div 4096 \<notin> kowned es K st"
      if "path_ok q" "tbl_at (pmem st') root q = Some t" for q t
      using L(3) [OF that] F by auto
    have "cr3 st' = cr3 st" using arg_cong [OF A(4), of cr3] by (simp add: st'_def tstore_def tzero_def)
    then have "grows es K X root st st'" unfolding grows_def using tree_step_ok [OF L(1)] own keep new by auto
    then show ?thesis using r a(2, 3) L by (auto simp: st'_def)
  qed
qed

lemma no_huge_cell:
  assumes "tree_ok es K root st" "length p \<le> 1" "path_ok (p @ [i])" "tbl_at (pmem st) root p = Some (mmu T)"
  shows "\<not> (present (tload st T i) \<and> pse (tload st T i))"
  using assms pt_ok_huge [of "pmem st" root] unfolding tree_ok_def no_huge_def tload_def by metis

text \<open>Filling a cell of an existing last-level table.\<close>

lemma leaf_ready:
  assumes ok: "tree_ok es K root st" and t: "tbl_at (pmem st) root (vpath virt) = Some (mmu pt)" and X: "unshared X root st" and v: "pt_index 39 virt < 256"
  shows "grows es K X root st (tstore pt (pt_index 12 virt) e st)" and "tbl_at (pmem (tstore pt (pt_index 12 virt) e st)) root (vpath virt) = Some (mmu pt)"
    and "translate (pmem st) root virt = None \<Longrightarrow> \<not> present (tload st pt (pt_index 12 virt))"
proof -
  let ?st = "tstore pt (pt_index 12 virt) e st"
  have p: "pt_ok (pmem st) root (kowned es K st)" using ok by (simp add: tree_ok_def)
  note L = leaf_store [OF p t refl, where e = e]
  have "unat (mmu pt) div 4096 \<notin> X" using X t v unfolding unshared_def by (metis list.inject path_ok_v(1))
  then have fr: "unat (mmu pt + 8 * pt_index 12 virt) div 4096 \<notin> X" using cell_frame [OF pt_okD(1) [OF p _ t]] by simp
  have m: "pmem ?st = (pmem st)(mmu pt + 8 * pt_index 12 virt := e)" "cr3 ?st = cr3 st" by (simp_all add: tstore_def)
  show "grows es K X root st ?st" using ok L fr unfolding grows_def tree_ok_def by (auto simp: m)
  show "tbl_at (pmem ?st) root (vpath virt) = Some (mmu pt)" unfolding m(1) using L(2) t by simp
  show "\<not> present (tload st pt (pt_index 12 virt))" if "translate (pmem st) root virt = None"
    using that t unfolding tbl_at_vpath by (auto simp: translate_def tload_def Let_def split: option.splits if_splits)
qed

lemma set_page_there:
  assumes ok: "tree_ok es K root st" "mmu pml4 = root" and v: "vstate st = VMM_READY" "pt_index 39 virt < 256" "translate (pmem st) root virt = None"
    and t: "tbl_at (pmem st) root (vpath virt) \<noteq> None" and X: "unshared X root st"
    and al: "virt AND (PAGE_SIZE - 1) = 0" "phys AND (PAGE_SIZE - 1) = 0"
  shows "\<exists>pt e. set_page es pml4 virt phys flags False st = Ok (0, tstore pt (pt_index 12 virt) e st) \<and> grows es K X root st (tstore pt (pt_index 12 virt) e st)"
proof -
  have p0: "path_ok ([] @ [pt_index 39 virt])" "path_ok ([pt_index 39 virt] @ [pt_index 30 virt])"
    "path_ok ([pt_index 39 virt, pt_index 30 virt] @ [pt_index 21 virt])" by (simp_all add: path_ok_def)
  have t0: "tbl_at (pmem st) root [] = Some (mmu pml4)" by (simp add: ok(2) tbl_at.simps(1))
  obtain a3 where t3: "tbl_at (pmem st) root (vpath virt) = Some a3" using t by blast
  then obtain a2 where t2: "tbl_at (pmem st) root [pt_index 39 virt, pt_index 30 virt] = Some a2" by (auto simp: tbl_at_vpath split: option.splits)
  then obtain a1 where t1: "tbl_at (pmem st) root [pt_index 39 virt] = Some a1"
    using tbl_at_snoc [of "pmem st" root "[pt_index 39 virt]" "pt_index 30 virt"] by (auto split: option.splits)
  obtain pdpt where s1: "get_or_create_table es pml4 (pt_index 39 virt) st = Ok (pdpt, st)" "pdpt \<noteq> 0" "mmu pdpt = a1"
    using goc_there [OF ok(1) p0(1) t0 _ v(1), of a1] t1 by auto
  obtain pd where s2: "get_or_create_table es pdpt (pt_index 30 virt) st = Ok (pd, st)" "pd \<noteq> 0" "mmu pd = a2"
    using goc_there [OF ok(1) p0(2) _ _ v(1), of pdpt a2] t1 t2 s1(3) by auto
  obtain pt where s3: "get_or_create_table es pd (pt_index 21 virt) st = Ok (pt, st)" "pt \<noteq> 0" "mmu pt = a3"
    using goc_there [OF ok(1) p0(3) _ _ v(1), of pd a3] t2 t3 s2(3) by auto
  have "tbl_at (pmem st) root (vpath virt) = Some (mmu pt)" using t3 s3(3) by simp
  note L = leaf_ready [OF ok(1) this X v(2)]
  have "set_page es pml4 virt phys flags False st = Ok (0, tstore pt (pt_index 12 virt) (addr_of phys OR flags) st)"
    using al s1(1, 2) s2(1, 2) s3(1, 2) L(3) [OF v(3)] by (simp add: set_page_def get_or_create_pt_def Let_def)
  then show ?thesis using L(1) by blast
qed

lemma set_page_ready:
  assumes ok: "tree_ok es K root st" "mmu pml4 = root" and en: "enough es K (n + 3) st" and X: "X \<subseteq> kowned es K st" "unshared X root st"
    and v: "pt_index 39 virt < 256" "translate (pmem st) root virt = None"
    and al: "virt AND (PAGE_SIZE - 1) = 0" "phys AND (PAGE_SIZE - 1) = 0"
  shows "\<exists>st'. set_page es pml4 virt phys flags False st = Ok (0, st') \<and> enough es K n st' \<and> grows es K X root st st' \<and> tbl_at (pmem st') root (vpath virt) \<noteq> None"
proof -
  have p0: "path_ok ([] @ [pt_index 39 virt])" "path_ok ([pt_index 39 virt] @ [pt_index 30 virt])"
    "path_ok ([pt_index 39 virt, pt_index 30 virt] @ [pt_index 21 virt])" "path_ok []" by (simp_all add: path_ok_def)
  have t0: "tbl_at (pmem st) root [] = Some (mmu pml4)" by (simp add: ok(2) tbl_at.simps(1))
  have low: "unat t div 4096 \<notin> X" if "unshared X root s" "path_ok q" "tbl_at (pmem s) root q = Some t" "\<And>i r. q = i # r \<Longrightarrow> i < 256" for s q t
    using that unfolding unshared_def by blast
  have "enough es K (Suc (Suc (Suc n))) st" using en by (simp add: numeral_3_eq_3)
  from goc_ready [OF ok(1) p0(1) t0 this X(1) low [OF X(2) p0(4) t0] no_huge_cell [OF ok(1) _ p0(1) t0]]
  obtain pdpt st1 where s1: "get_or_create_table es pml4 (pt_index 39 virt) st = Ok (pdpt, st1)" "pdpt \<noteq> 0" "enough es K (Suc (Suc n)) st1"
    "tree_step es K root st st1" "grows es K X root st st1" and t1: "tbl_at (pmem st1) root [pt_index 39 virt] = Some (mmu pdpt)" by auto
  have X1: "X \<subseteq> kowned es K st1" "unshared X root st1" using X s1(5) unshared_grows [OF X(2) s1(5) X(1)] by (auto simp: grows_def)
  note ok1 = tree_step_ok [OF s1(4)]
  have p1: "path_ok [pt_index 39 virt]" by (simp add: path_ok_def)
  from goc_ready [OF ok1 p0(2) t1 s1(3) X1(1) low [OF X1(2) p1 t1] no_huge_cell [OF ok1 _ p0(2) t1]] v(1)
  obtain pd st2 where s2: "get_or_create_table es pdpt (pt_index 30 virt) st1 = Ok (pd, st2)" "pd \<noteq> 0" "enough es K (Suc n) st2"
    "tree_step es K root st1 st2" "grows es K X root st1 st2" and t2: "tbl_at (pmem st2) root [pt_index 39 virt, pt_index 30 virt] = Some (mmu pd)" by auto
  have X2: "X \<subseteq> kowned es K st2" "unshared X root st2" using X1 s2(5) unshared_grows [OF X1(2) s2(5) X1(1)] by (auto simp: grows_def)
  note ok2 = tree_step_ok [OF s2(4)]
  have n2: "translate (pmem st2) root virt = None" using v(2) s1(4) s2(4) by (simp add: tree_step_def)
  have p2: "path_ok [pt_index 39 virt, pt_index 30 virt]" by (simp add: path_ok_def)
  have "\<not> (present (tload st2 pd (pt_index 21 virt)) \<and> pse (tload st2 pd (pt_index 21 virt)))"
    using n2 t2 by (auto simp: translate_def tload_def Let_def split: if_splits)
  from goc_ready [OF ok2 p0(3) t2 s2(3) X2(1) low [OF X2(2) p2 t2] this] v(1)
  obtain pt st3 where s3: "get_or_create_table es pd (pt_index 21 virt) st2 = Ok (pt, st3)" "pt \<noteq> 0" "enough es K n st3"
    "tree_step es K root st2 st3" "grows es K X root st2 st3" and t3: "tbl_at (pmem st3) root (vpath virt) = Some (mmu pt)" by auto
  have X3: "unshared X root st3" using unshared_grows [OF X2(2) s3(5) X2(1)] .
  note ok3 = tree_step_ok [OF s3(4)]
  have n3: "translate (pmem st3) root virt = None" using n2 s3(4) by (simp add: tree_step_def)
  note L = leaf_ready [OF ok3 t3 X3 v(1)]
  define st' where "st' = tstore pt (pt_index 12 virt) (addr_of phys OR flags) st3"
  have r: "set_page es pml4 virt phys flags False st = Ok (0, st')"
    using al s1(1, 2) s2(1, 2) s3(1, 2) L(3) [OF n3] by (simp add: set_page_def get_or_create_pt_def st'_def Let_def)
  have "grows es K X root st st'" unfolding st'_def by (rule grows_trans [OF s1(5) grows_trans [OF s2(5) grows_trans [OF s3(5) L(1)]]])
  moreover have "enough es K n st'" "tbl_at (pmem st') root (vpath virt) \<noteq> None" using s3(3) L(2) by (simp_all add: st'_def)
  ultimately show ?thesis using r by blast
qed

section \<open>Mapping the two pages of a task\<close>

lemma rbind_Ok_id: "rbind m (\<lambda>(x, y). Ok (x, y)) = m" "rbind m Ok = m"
  by (cases m; auto)+

lemma user_map_eq:
  assumes "pml4 \<noteq> 0" "pml4 mod 0x1000 = 0" "pml4 \<noteq> KERN_PML4" "phys AND (PAGE_SIZE - 1) = 0"
  shows "vmm_map ts es pml4 user_virt phys (2 * PAGE_SIZE) flags st =
    set_pages_loop (\<lambda>i. set_page es pml4 (user_virt + i) (phys + i) flags False) PAGE_SIZE 2 0 0 st"
proof -
  have c: "trim_range user_virt (user_virt + 2 * PAGE_SIZE) = (user_virt, 0, user_virt + 2 * PAGE_SIZE, 0)"
    by (simp add: trim_range_def user_virt_def PAGE_SIZE_def)
  have sp: "set_pages es pml4 user_virt phys (2 * PAGE_SIZE) flags False st =
      set_pages_loop (\<lambda>i. set_page es pml4 (user_virt + i) (phys + i) flags False) PAGE_SIZE 2 0 0 st"
    using assms(4) by (simp add: set_pages_def user_virt_def PAGE_SIZE_def)
  have a: "user_virt AND (PAGE_SIZE - 1) = 0" by (simp add: user_virt_def PAGE_SIZE_def)
  have r: "ROUND_UP user_virt LARGE_PAGE_SIZE = 0x200000" "ROUND_DOWN 0x102000 LARGE_PAGE_SIZE = 0"
    "user_virt < user_virt + 2 * PAGE_SIZE" "user_virt + 2 * PAGE_SIZE = 0x102000"
    by (simp_all add: ROUND_UP_def ROUND_DOWN_def user_virt_def PAGE_SIZE_def LARGE_PAGE_SIZE_def)
  have z: "2 * PAGE_SIZE \<noteq> (0 :: u64)" "0x102000 - user_virt = 2 * PAGE_SIZE" "\<not> 0x102000 \<le> user_virt" "user_virt < 0x102000"
    by (simp_all add: PAGE_SIZE_def user_virt_def)
  show ?thesis
  proof (cases "user_virt AND (LARGE_PAGE_SIZE - 1) = phys AND (LARGE_PAGE_SIZE - 1)")
    case True
    have "set_range es pml4 user_virt phys (2 * PAGE_SIZE) flags False st = set_pages es pml4 user_virt phys (2 * PAGE_SIZE) flags False st"
      using True unfolding set_range_def c by (simp add: r z Let_def split_def rbind_Ok_id)
    then show ?thesis using assms(1-3) True sp by (simp add: vmm_map_def Let_def)
  next
    case False
    then show ?thesis using assms sp a unfolding vmm_map_def c by (simp add: r z Let_def rbind_Ok_id)
  qed
qed

lemma user_map_ready:
  assumes ok: "tree_ok es K root st" "mmu pml4 = root" and en: "enough es K (n + 3) st" and X: "X \<subseteq> kowned es K st" "unshared X root st"
    and p: "pml4 \<noteq> 0" "pml4 mod 0x1000 = 0" "pml4 \<noteq> KERN_PML4" and ph: "phys AND (PAGE_SIZE - 1) = 0" "unat phys < PHYS_LIMIT"
    and none: "\<And>v. pt_index 39 v < 256 \<Longrightarrow> translate (pmem st) root v = None"
  shows "\<exists>st'. vmm_map ts es pml4 user_virt phys (2 * PAGE_SIZE) flags st = Ok (0, st') \<and> enough es K n st' \<and> grows es K X root st st'"
proof -
  have i: "pt_index 39 user_virt < 256" "pt_index 39 (user_virt + 0x1000) < 256" "user_virt AND (PAGE_SIZE - 1) = 0" "(user_virt + 0x1000) AND (PAGE_SIZE - 1) = 0"
    by (simp_all add: pt_index_def user_virt_def PAGE_SIZE_def)
  have "page_aligned phys" using ph(1) by (simp add: aligned_and)
  then have ph1: "(phys + 0x1000) AND (PAGE_SIZE - 1) = 0"
    unfolding aligned_and page_aligned_def using ph(2) by (subst unat_add_lt) (simp_all add: PHYS_LIMIT_def)
  from set_page_ready [OF ok en X i(1) none [OF i(1)] i(3) ph(1), of flags]
  obtain st1 where s1: "set_page es pml4 user_virt phys flags False st = Ok (0, st1)" "enough es K n st1" "grows es K X root st st1"
    "tbl_at (pmem st1) root (vpath user_virt) \<noteq> None" by blast
  note M = set_page_spec [OF ok s1(1)]
  have "\<not> same_page user_virt (user_virt + 0x1000)" by (simp add: same_page_def pt_index_def user_virt_def)
  then have none1: "translate (pmem st1) root (user_virt + 0x1000) = None"
    using M(2) none [OF i(2)] by (simp add: maps_only_def)
  have X1: "X \<subseteq> kowned es K st1" "unshared X root st1" "tree_ok es K root st1"
    using X s1(3) unshared_grows [OF X(2) s1(3) X(1)] by (auto simp: grows_def)
  have "vpath (user_virt + 0x1000) = vpath user_virt" by (simp add: pt_index_def user_virt_def)
  then have t1: "tbl_at (pmem st1) root (vpath (user_virt + 0x1000)) \<noteq> None" using s1(4) by (simp only:) simp
  have r1: "vstate st1 = VMM_READY" using s1(2) by (simp add: enough_def)
  from set_page_there [OF X1(3) ok(2) r1 i(2) none1 t1 X1(2) i(4) ph1, of flags]
  obtain st2 where s2: "set_page es pml4 (user_virt + 0x1000) (phys + 0x1000) flags False st1 = Ok (0, st2)" "enough es K n st2" "grows es K X root st1 st2"
    using s1(2) by fastforce
  have "vmm_map ts es pml4 user_virt phys (2 * PAGE_SIZE) flags st = Ok (0, st2)"
    unfolding user_map_eq [OF p ph(1)] using s1(1) s2(1) by (simp add: numeral_2_eq_2 PAGE_SIZE_def)
  then show ?thesis using s2(2) grows_trans [OF s1(3) s2(3)] by blast
qed

section \<open>Address spaces whose tables are not written\<close>

lemma tbl_at_keep:
  assumes ok: "pt_ok m root R" and same: "\<And>a. unat a div 4096 \<in> R \<Longrightarrow> m' a = m a" and q: "path_ok q"
  shows "tbl_at m' root q = tbl_at m root q"
  using q
proof (induction q rule: rev_induct)
  case (snoc i q)
  then have p: "path_ok q" "i < 512" by (simp_all add: path_ok_snoc)
  show ?case
  proof (cases "tbl_at m root q")
    case (Some t)
    note T = pt_okD(1, 2) [OF ok p(1) Some]
    have "m' (t + 8 * i) = m (t + 8 * i)" using cell_frame [OF T(1) p(2)] T(2) by (intro same) simp
    then show ?thesis using snoc.IH p(1) Some by (simp add: tbl_at_snoc)
  qed (use snoc.IH p(1) in \<open>simp add: tbl_at_snoc\<close>)
qed (simp add: tbl_at.simps(1))

lemma space_keep:
  assumes ok: "pt_ok m root R" and same: "\<And>a. unat a div 4096 \<in> R \<Longrightarrow> m' a = m a"
  shows "pt_ok m' root R" and "translate m' root v = translate m root v"
proof -
  have cell: "m' (t + 8 * i) = m (t + 8 * i)" if "path_ok q" "tbl_at m root q = Some t" "i < 512" for q t i
    using cell_frame [OF pt_okD(1) [OF ok that(1, 2)] that(3)] pt_okD(2) [OF ok that(1, 2)] by (intro same) simp
  show "pt_ok m' root R" by (rule pt_ok_cong [OF ok tbl_at_keep [OF ok same]]) (use cell in blast)+
  show "translate m' root v = translate m root v"
  proof (rule translate_cong)
    show "m' (pd + 8 * pt_index 21 v) = m (pd + 8 * pt_index 21 v)" if "tbl_at m root [pt_index 39 v, pt_index 30 v] = Some pd" for pd
      using cell [OF _ that] by simp
    show "m' (pt + 8 * pt_index 12 v) = m (pt + 8 * pt_index 12 v)" if "tbl_at m root (vpath v) = Some pt" for pt
      using cell [OF _ that] by simp
  qed (simp add: tbl_at_keep [OF ok same])
qed

lemma tree_keep:
  assumes "tree_ok es K r st" "kinv es K st'" "kowned es K st \<subseteq> kowned es K st'" "\<And>a. unat a div 4096 \<in> kowned es K st \<Longrightarrow> pmem st' a = pmem st a"
  shows "tree_ok es K r st'" and "translate (pmem st') r v = translate (pmem st) r v"
proof -
  have ok: "pt_ok (pmem st) r (kowned es K st)" using assms(1) by (simp add: tree_ok_def)
  show "tree_ok es K r st'" using pt_ok_mono [OF space_keep(1) [OF ok assms(4)] assms(3)] assms(2) by (simp add: tree_ok_def)
  show "translate (pmem st') r v = translate (pmem st) r v" by (rule space_keep(2) [OF ok assms(4)])
qed

section \<open>Copying the code\<close>

lemma copy_code_spec:
  assumes ok: "pt_ok (pmem st) root R" and f: "unat base div 4096 \<notin> R" "page_aligned base" and cr: "cr3 st = root"
    and tr: "\<And>j. j < 512 \<Longrightarrow> \<exists>e. translate (pmem st) root (dest + 8 * of_nat j) = Some (base + 8 * of_nat j, e)"
  shows "\<exists>m. copy_code dest code st = Ok (st\<lparr>pmem := m\<rparr>) \<and> (\<forall>a. unat a div 4096 \<noteq> unat base div 4096 \<longrightarrow> m a = pmem st a) \<and>
    (\<forall>j<512. m (base + 8 * of_nat j) = code ! j)"
proof -
  have idx: "of_nat j < (512 :: u64)" if "j < 512" for j using that by (simp add: word_less_nat_alt unsigned_of_nat take_bit_nat_eq_self)
  have ne: "base + 8 * of_nat j \<noteq> base + 8 * of_nat k" if "j < k" "k < 512" for j k :: nat
  proof -
    have "(of_nat j :: u64) \<noteq> of_nat k" using that by (simp add: word_unat_eq_iff unsigned_of_nat take_bit_nat_eq_self)
    then show ?thesis using cell_eq [OF f(2) idx f(2) idx] that by simp
  qed
  have "\<exists>m. rfold (\<lambda>j. user_store (dest + 8 * of_nat j) (code ! j)) [0..<n] st = Ok (st\<lparr>pmem := m\<rparr>) \<and>
      (\<forall>a. unat a div 4096 \<noteq> unat base div 4096 \<longrightarrow> m a = pmem st a) \<and> (\<forall>j<n. m (base + 8 * of_nat j) = code ! j)" if "n \<le> 512" for n
    using that
  proof (induction n)
    case 0
    show ?case by (rule exI [of _ "pmem st"]) simp
  next
    case (Suc n)
    then obtain m where m: "rfold (\<lambda>j. user_store (dest + 8 * of_nat j) (code ! j)) [0..<n] st = Ok (st\<lparr>pmem := m\<rparr>)"
      "\<forall>a. unat a div 4096 \<noteq> unat base div 4096 \<longrightarrow> m a = pmem st a" "\<forall>j<n. m (base + 8 * of_nat j) = code ! j" by auto
    have n: "n < 512" using Suc.prems by simp
    have "translate m root (dest + 8 * of_nat n) = translate (pmem st) root (dest + 8 * of_nat n)"
      using m(2) f(1) by (intro space_keep(2) [OF ok]) metis
    then obtain e where "translate m root (dest + 8 * of_nat n) = Some (base + 8 * of_nat n, e)" using tr [OF n] by auto
    then have "rfold (\<lambda>j. user_store (dest + 8 * of_nat j) (code ! j)) [0..<Suc n] st = Ok (st\<lparr>pmem := m(base + 8 * of_nat n := code ! n)\<rparr>)"
      using m(1) by (simp add: rfold_snoc user_store_def get_cr3_def cr)
    moreover have "unat (base + 8 * of_nat n) div 4096 = unat base div 4096" by (rule cell_frame [OF f(2) idx [OF n]])
    then have "\<forall>a. unat a div 4096 \<noteq> unat base div 4096 \<longrightarrow> (m(base + 8 * of_nat n := code ! n)) a = pmem st a" using m(2) by auto
    moreover have "\<forall>j<Suc n. (m(base + 8 * of_nat n := code ! n)) (base + 8 * of_nat j) = code ! j" using m(3) ne n by (auto simp: less_Suc_eq)
    ultimately show ?case by blast
  qed
  from this [of 512] show ?thesis unfolding copy_code_def by simp
qed

section \<open>The pages of a task\<close>

lemma core_frames:
  assumes "core bd' = core bd"
  shows "free_frames bd' = free_frames bd" "allocated_frames bd' = allocated_frames bd" "mem_nr_pages bd' = mem_nr_pages bd" "big_frames bd' = big_frames bd"
  using assms mem_nr_pages_core [OF assms] by (simp_all add: free_frames_def big_frames_def allocated_frames_def free_blocks_core alloc_blocks_core)

text \<open>The links of an allocated page belong to the task that owns it.\<close>

lemma link_allocated:
  fixes a b :: "nat option"
  assumes inv: "buddy_inv bd" and p: "p < mem_nr_pages bd" "st_of bd p = PG_ALLOCATED"
  defines "bd' \<equiv> page_upd p (\<lambda>q. q\<lparr>pg_next := a, pg_prev := b\<rparr>) bd"
  shows "buddy_inv bd'" and "core bd' = core bd"
proof -
  show core: "core bd' = core bd"
    using p(1) by (simp add: bd'_def core_def page_upd_def map_update list_update_same_conv)
  obtain fl where ok: "blocks_ok bd" and fl: "lists_ok {} bd fl" using inv by (auto simp: buddy_inv_def inv_except_def)
  have "lists_ok {} bd' fl"
  proof (rule lists_ok_frame [OF fl])
    show "mem_map bd' ! x = mem_map bd ! x" if "k \<le> PAGE_MAX_ORDER" "x \<in> set (fl k)" for k x
      using lists_ok_member(2) [OF fl that] p(2) by (auto simp: bd'_def page_upd_def nth_upd_if)
    show "free_set bd' k - {} = free_set bd k - {}" for k using core by (simp add: free_set_core)
  qed (simp_all add: bd'_def page_upd_def)
  then show "buddy_inv bd'" using blocks_ok_cong [OF core ok] by (auto simp: buddy_inv_def inv_except_def)
qed

lemma task_alloc_ready:
  assumes k: "kinv es K (s_mem s)" "vstate (s_mem s) = VMM_READY" and t: "t_pages (tasks s ! i) = None"
    and b: "(x, j) \<in> free_blocks (k_bd (s_mem s))" "1 \<le> j"
  shows "\<exists>p bd. task_alloc_pages i 1 s = Ok (Some p, task_upd i (\<lambda>t. t\<lparr>t_pages := Some p\<rparr>) (s\<lparr>s_mem := (s_mem s)\<lparr>k_bd := bd\<rparr>\<rparr>)) \<and>
    kinv es K ((s_mem s)\<lparr>k_bd := bd\<rparr>) \<and> kowned es K ((s_mem s)\<lparr>k_bd := bd\<rparr>) = kowned es K (s_mem s) \<union> {p, p + 1} \<and>
    {p, p + 1} \<inter> kowned es K (s_mem s) = {} \<and> nr_big (s_mem s) \<le> nr_big ((s_mem s)\<lparr>k_bd := bd\<rparr>) + 16 \<and> 4096 * (p + 2) \<le> PHYS_LIMIT"
proof -
  let ?st = "s_mem s"
  have inv: "buddy_inv (k_bd ?st)" and n: "4096 * mem_nr_pages (k_bd ?st) \<le> PHYS_LIMIT"
    and fr: "free_frames (k_bd ?st) \<inter> (K \<union> bm_owned es (k_bm ?st)) = {}" using k by (auto simp: kinv_def)
  have o: "(1 :: nat) \<le> PAGE_MAX_ORDER" by (simp add: PAGE_MAX_ORDER_def)
  obtain p bd where a: "alloc_pages (k_bd ?st) 1 = Ok (Some p, bd)" and al: "(p, 1) \<in> alloc_blocks bd"
    using alloc_pages_spec [OF inv o] b by fastforce
  note F = alloc_pages_frames [OF inv a o]
  define bd' where "bd' = page_upd p (\<lambda>q. q\<lparr>pg_next := None, pg_prev := None\<rparr>) bd"
  have p: "p < mem_nr_pages bd" "st_of bd p = PG_ALLOCATED" using al by (auto simp: alloc_blocks_def)
  note L = link_allocated [OF F(1) p, of None None, folded bd'_def] and C = core_frames [OF link_allocated(2) [OF F(1) p, of None None, folded bd'_def]]
  have blk: "block p 1 = {p, p + 1}" by (auto simp: block_def)
  have r: "task_alloc_pages i 1 s = Ok (Some p, task_upd i (\<lambda>t. t\<lparr>t_pages := Some p\<rparr>) (s\<lparr>s_mem := ?st\<lparr>k_bd := bd'\<rparr>\<rparr>))"
    using a t p(1) by (simp add: task_alloc_pages_def bd'_def Let_def)
  have sub: "{p, p + 1} \<subseteq> free_frames (k_bd ?st)" using F(2) blk by simp
  have kin: "kinv es K (?st\<lparr>k_bd := bd'\<rparr>)" using k L(1) C F(3, 6) n fr by (auto simp: kinv_def)
  have own: "kowned es K (?st\<lparr>k_bd := bd'\<rparr>) = kowned es K ?st \<union> {p, p + 1}" "{p, p + 1} \<inter> kowned es K ?st = {}"
    using C(2) F(4, 5) blk fr sub k(2) by (auto simp: kowned_def)
  have "nr_big ?st \<le> nr_big (?st\<lparr>k_bd := bd'\<rparr>) + 16" using nr_big_alloc [OF inv a] C(4) by (simp add: nr_big_def)
  moreover have "p + 2 \<le> mem_nr_pages (k_bd ?st)" using sub F(7) by auto
  ultimately show ?thesis using r kin own n by (intro exI [of _ p] exI [of _ bd']) auto
qed

section \<open>The address space of a new task\<close>

lemma kinv_cr3 [simp]: "kinv es K (st\<lparr>cr3 := c\<rparr>) = kinv es K st" "kowned es K (st\<lparr>cr3 := c\<rparr>) = kowned es K st" "nr_big (st\<lparr>cr3 := c\<rparr>) = nr_big st"
  by (simp_all add: kinv_def kowned_def nr_big_def split: vmm_state.split)

lemma user_root_unshared:
  assumes u: "user_root (pmem st) kroot root" and f: "unat root div 4096 \<notin> X"
  shows "unshared X root st"
  unfolding unshared_def
proof (intro allI impI; elim conjE)
  fix q t assume q: "path_ok q" "\<forall>i r. q = i # r \<longrightarrow> i < 256" "tbl_at (pmem st) root q = Some t"
  show "unat t div 4096 \<notin> X"
  proof (cases q)
    case Nil
    then show ?thesis using q(3) f by (simp add: tbl_at.simps(1))
  next
    case (Cons i r)
    then have "i < 512" "i < 256" using q(1, 2) by (auto simp: path_ok_def)
    then show ?thesis using q(3) user_root_path [OF u] Cons by simp
  qed
qed

text \<open>
  The memory of a task with tables at \<open>root\<close> and the frames \<open>p\<close> and \<open>p + 1\<close>: the two frames are mapped for the user at the fixed address, nothing else is
  mapped in the lower half, and the upper half translates as the kernel's tables did in \<open>st\<close>.
\<close>

definition task_memory :: "e820_entry list \<Rightarrow> nat set \<Rightarrow> u64 \<Rightarrow> kmem \<Rightarrow> kmem \<Rightarrow> u64 \<Rightarrow> nat \<Rightarrow> bool" where
  "task_memory es K kroot st st' root p \<longleftrightarrow> tree_ok es K root st' \<and> {p, p + 1} \<subseteq> kowned es K st' \<and>
     (\<forall>w. unat user_virt \<le> unat w \<and> unat w < unat user_virt + 0x2000 \<longrightarrow>
        maps_to st' root w (of_nat p * PAGE_SIZE + (w - user_virt)) (PT_PRESENT OR PT_WRITABLE OR PT_USER)) \<and>
     (\<forall>w. w \<notin> region (unat user_virt) (unat user_virt + 0x2000) \<longrightarrow>
        translate (pmem st') root w = (if pt_index 39 w < 256 then None else translate (pmem st) kroot w))"

text \<open>What happens to the rest of the memory: owned frames stay owned and their words are kept.\<close>

definition undisturbed :: "e820_entry list \<Rightarrow> nat set \<Rightarrow> kmem \<Rightarrow> kmem \<Rightarrow> bool" where
  "undisturbed es K st st' \<longleftrightarrow> vstate st' = VMM_READY \<and> kinv es K st' \<and> kowned es K st \<subseteq> kowned es K st' \<and>
     (\<forall>a. unat a div 4096 \<in> kowned es K st \<longrightarrow> pmem st' a = pmem st a)"

lemma undisturbed_tree:
  assumes "undisturbed es K st st'" "tree_ok es K r st"
  shows "tree_ok es K r st'" and "translate (pmem st') r v = translate (pmem st) r v"
  using assms(1) by (auto simp: undisturbed_def intro: tree_keep [OF assms(2)])

lemma undisturbed_task:
  assumes "undisturbed es K st1 st2" "task_memory es K kroot st st1 root p"
  shows "task_memory es K kroot st st2 root p"
proof -
  have ok: "tree_ok es K root st1" using assms(2) by (simp add: task_memory_def)
  show ?thesis using assms undisturbed_tree [OF assms(1) ok] by (auto simp: task_memory_def undisturbed_def maps_to_def)
qed

lemma user_flags: "flags_ok (PT_PRESENT OR PT_WRITABLE OR PT_USER)" "present (PT_PRESENT OR PT_WRITABLE OR PT_USER)"
  by (simp_all add: flags_ok_def PT_PRESENT_def PT_WRITABLE_def PT_USER_def FLAGS_MASK_def PT_PSE_def)

lemma map_task_pages:
  assumes ok0: "tree_ok es K kroot st" and ok: "tree_ok es K root st1" and u: "user_root (pmem st1) kroot root"
    and kt: "\<And>v. translate (pmem st1) kroot v = translate (pmem st) kroot v"
    and root: "mmu a = root" "a \<noteq> 0" "a mod 0x1000 = 0" "a \<noteq> KERN_PML4" "unat root div 4096 \<notin> kowned es K st"
    and own: "kowned es K st \<subseteq> kowned es K st1"
    and st3: "pmem st3 = pmem st1" "kinv es K st3" "vstate st3 = VMM_READY" "kowned es K st3 = kowned es K st1 \<union> {p, p + 1}" "16 * (n + 3) \<le> nr_big st3"
    and p: "{p, p + 1} \<inter> kowned es K st1 = {}" "4096 * (p + 2) \<le> PHYS_LIMIT"
    and keep: "\<And>a. unat a div 4096 \<in> kowned es K st \<Longrightarrow> pmem st1 a = pmem st a"
  shows "\<exists>st4. vmm_map ts es a user_virt (of_nat p * PAGE_SIZE) (2 * PAGE_SIZE) (PT_PRESENT OR PT_WRITABLE OR PT_USER) st3 = Ok (0, st4) \<and>
    undisturbed es K st st4 \<and> task_memory es K kroot st st4 root p \<and> cr3 st4 = cr3 st3 \<and> 16 * n \<le> nr_big st4 \<and>
    pt_ok (pmem st4) root (kowned es K st4 - {p + 1})"
proof -
  define phys :: u64 where "phys = of_nat p * PAGE_SIZE"
  have up: "unat phys = 4096 * p"
  proof -
    have "unat (of_nat p :: u64) = p" using p(2) by (simp add: unat_of_nat PHYS_LIMIT_def)
    then show ?thesis unfolding phys_def using p(2) by (subst unat_mult_lt) (simp_all add: PHYS_LIMIT_def)
  qed
  have al: "phys AND (PAGE_SIZE - 1) = 0" by (simp add: aligned_and page_aligned_def up)
  have lim: "unat phys < PHYS_LIMIT" "unat user_virt + unat (2 * PAGE_SIZE) + 0x200000 \<le> 2 ^ 64" "unat phys + unat (2 * PAGE_SIZE) + 0x200000 \<le> 2 ^ 63"
    using p(2) by (simp_all add: up PHYS_LIMIT_def user_virt_def PAGE_SIZE_def)
  have ok3: "tree_ok es K root st3" using tree_keep(1) [OF ok st3(2)] st3(1, 4) by auto
  have none: "translate (pmem st3) root v = None" if "pt_index 39 v < 256" for v using user_root_translate [OF u] that st3(1) by simp
  have un: "unshared (kowned es K st) root st3" by (rule user_root_unshared) (use u st3(1) root(5) in simp_all)
  have en: "enough es K (n + 3) st3" using st3 by (simp add: enough_def)
  have X: "kowned es K st \<subseteq> kowned es K st3" using own st3(4) by auto
  obtain st4 where m: "vmm_map ts es a user_virt phys (2 * PAGE_SIZE) (PT_PRESENT OR PT_WRITABLE OR PT_USER) st3 = Ok (0, st4)"
    and e4: "enough es K n st4" and g: "grows es K (kowned es K st) root st3 st4"
    using user_map_ready [OF ok3 root(1) en X un root(2-4) al lim(1) none] by blast
  have pr: "a = (if a = KERN_PML4 then kern_pml4 ts else a)" using root(4) by simp
  have ok3': "tree_ok es K (mmu a) st3" using ok3 root(1) by simp
  have ff: "flags_fit (PT_PRESENT OR PT_WRITABLE OR PT_USER)" using user_flags by (simp add: flags_fit_def)
  note R = vmm_map_spec [OF pr root(2, 3) ok3' ff lim(2, 3) m, unfolded root(1) range_result_def touched_def]
  have sz: "unat (2 * PAGE_SIZE) = 0x2000" by (simp add: PAGE_SIZE_def)
  have out: "translate (pmem st4) root w = translate (pmem st3) root w" if "w \<notin> region (unat user_virt) (unat user_virt + 0x2000)" for w
    using R user_flags(2) that unfolding extends_def sz by auto
  have "undisturbed es K st st4"
    unfolding undisturbed_def using e4 g X keep st3(1) by (auto simp: enough_def grows_def)
  moreover have "task_memory es K kroot st st4 root p"
    unfolding task_memory_def
    using g R user_flags(2) st3(1, 4) out user_root_translate [OF u] kt by (auto simp: grows_def sz phys_def)
  moreover have "pt_ok (pmem st4) root (kowned es K st4 - {p + 1})"
  proof -
    have "unat t div 4096 \<noteq> p + 1" if "path_ok q" "tbl_at (pmem st4) root q = Some t" for q t
    proof -
      have "tbl_at (pmem st1) root q = Some t \<or> unat t div 4096 \<notin> kowned es K st3" using g that st3(1) by (auto simp: grows_def)
      then show ?thesis using pt_okD(2) [of "pmem st1" root "kowned es K st1" q t] ok that(1) p(1) st3(4) by (auto simp: tree_ok_def)
    qed
    then show ?thesis using g by (auto simp: grows_def tree_ok_def pt_ok_def)
  qed
  moreover have "cr3 st4 = cr3 st3" "16 * n \<le> nr_big st4" using g e4 by (simp_all add: grows_def enough_def)
  ultimately show ?thesis using m by (auto simp: phys_def)
qed

lemma copy_task_code:
  assumes u: "undisturbed es K st st4" and n: "task_memory es K kroot st st4 root p" and fr: "{p, p + 1} \<inter> kowned es K st = {}" and cr: "cr3 st4 = root" and ok: "pt_ok (pmem st4) root (kowned es K st4 - {p + 1})"
    and p: "4096 * (p + 2) \<le> PHYS_LIMIT"
  shows "\<exists>m. copy_code (user_virt + 0x1000) code st4 = Ok (st4\<lparr>pmem := m\<rparr>) \<and> undisturbed es K st (st4\<lparr>pmem := m\<rparr>) \<and> task_memory es K kroot st (st4\<lparr>pmem := m\<rparr>) root p \<and>
    (\<forall>j<512. m (of_nat p * PAGE_SIZE + 0x1000 + 8 * of_nat j) = code ! j)"
proof -
  define base :: u64 where "base = of_nat p * PAGE_SIZE + 0x1000"
  have ub: "unat base = 4096 * (p + 1)"
  proof -
    have "unat (of_nat p :: u64) = p" using p by (simp add: unat_of_nat PHYS_LIMIT_def)
    then have "unat (of_nat p * PAGE_SIZE) = 4096 * p" using p by (subst unat_mult_lt) (simp_all add: PHYS_LIMIT_def)
    then show ?thesis unfolding base_def using p by (subst unat_add_lt) (simp_all add: PHYS_LIMIT_def)
  qed
  have b: "unat base div 4096 = p + 1" "page_aligned base" by (simp_all add: ub page_aligned_def)
  have tr: "\<exists>e. translate (pmem st4) root (user_virt + 0x1000 + 8 * of_nat j) = Some (base + 8 * of_nat j, e)" if j: "j < 512" for j
  proof -
    let ?w = "user_virt + 0x1000 + 8 * of_nat j"
    have "unat (8 * of_nat j :: u64) = 8 * j" using j by (subst unat_mult_lt) (simp_all add: unat_of_nat)
    then have "unat ?w = unat user_virt + 0x1000 + 8 * j" using j by (subst unat_add_lt) (simp_all add: user_virt_def)
    then have "unat user_virt \<le> unat ?w \<and> unat ?w < unat user_virt + 0x2000" using j by simp
    then have "maps_to st4 root ?w (of_nat p * PAGE_SIZE + (?w - user_virt)) (PT_PRESENT OR PT_WRITABLE OR PT_USER)"
      using n unfolding task_memory_def by blast
    then show ?thesis by (auto simp: maps_to_def base_def add.assoc)
  qed
  obtain m where m: "copy_code (user_virt + 0x1000) code st4 = Ok (st4\<lparr>pmem := m\<rparr>)" "\<forall>a. unat a div 4096 \<noteq> p + 1 \<longrightarrow> m a = pmem st4 a"
    "\<forall>j<512. m (base + 8 * of_nat j) = code ! j"
    using copy_code_spec [OF ok _ b(2) cr tr, of code] b(1) by auto
  have same: "translate m root v = translate (pmem st4) root v" for v
    using m(2) by (intro space_keep(2) [OF ok]) auto
  have "m a = pmem st a" if "unat a div 4096 \<in> kowned es K st" for a
  proof -
    have "unat a div 4096 \<noteq> p + 1" "pmem st4 a = pmem st a" using u fr that unfolding undisturbed_def by auto
    then show ?thesis using m(2) by simp
  qed
  then have "undisturbed es K st (st4\<lparr>pmem := m\<rparr>)" using u by (simp add: undisturbed_def)
  moreover have "pt_ok m root (kowned es K st4)"
    by (rule pt_ok_mono [OF space_keep(1) [OF ok]]) (use m(2) in auto)
  then have "task_memory es K kroot st (st4\<lparr>pmem := m\<rparr>) root p"
    using n unfolding task_memory_def maps_to_def tree_ok_def by (auto simp: same)
  ultimately show ?thesis using m(1, 3) by (auto simp: base_def)
qed

section \<open>Making a task\<close>

lemma new_table_address:
  assumes "new_frame es K st a st1" "alloc_table es st = Ok (a, st')" "vstate st = VMM_READY"
  shows "a mod 0x1000 = 0" "a \<noteq> KERN_PML4" "virt_to_phys a = mmu a"
proof -
  obtain q bd where q: "alloc_pages (k_bd st) 0 = Ok (Some q, bd)" "a = of_nat q * PAGE_SIZE + HHDM_BASE"
    using assms(2, 3) by (auto simp: alloc_table_def page_to_hhdm_def split: option.splits)
  have "a = push_bit 12 (of_nat q + 0xFFFF888000000)" by (simp add: q(2) PAGE_SIZE_def HHDM_BASE_def push_bit_eq_mult algebra_simps)
  then have "take_bit 12 a = 0" by (simp add: take_bit_push_bit)
  then show z: "a mod 0x1000 = 0" by (simp add: take_bit_eq_mod)
  have "KERN_PML4 mod 0x1000 \<noteq> 0" by (simp add: KERN_PML4_def take_bit_eq_mod [of 12, symmetric, simplified])
  then show "a \<noteq> KERN_PML4" using z by metis
  show "virt_to_phys a = mmu a" using assms(1) by (simp add: new_frame_def)
qed


lemma create_task_ready:
  assumes inv: "sched_inv s" and ok: "tree_ok es K (mmu (kern_pml4 ts)) (s_mem s)" and rdy: "vstate (s_mem s) = VMM_READY"
    and slot: "get_free_slot s = Some i" and free: "free_blocks (k_bd (s_mem s)) \<noteq> {}"
  shows "\<exists>a st1 s1. vmm_create_user_pml4 ts es (s_mem s) = Ok (a, st1) \<and> a \<noteq> 0 \<and> create_task ts es prio s = Ok (Some i, s1) \<and> s_mem s1 = st1 \<and>
    vmem (tasks s1 ! i) = a \<and> t_state (tasks s1 ! i) = TASK_INIT \<and> t_pages (tasks s1 ! i) = t_pages (tasks s ! i) \<and> sched_inv s1 \<and>
    priority (tasks s1 ! i) = prio \<and> current s1 = current s \<and> (\<forall>j < TASK_SLOTS. j \<noteq> i \<longrightarrow> tasks s1 ! j = tasks s ! j)"
proof -
  have k: "kinv es K (s_mem s)" using ok by (simp add: tree_ok_def)
  obtain a st0 where al: "alloc_table es (s_mem s) = Ok (a, st0)" "a \<noteq> 0" using alloc_table_ready(2) [OF k rdy free] by blast
  then obtain st1 where v: "vmm_create_user_pml4 ts es (s_mem s) = Ok (a, st1)" by (simp add: vmm_create_user_pml4_def del: upt_rec_numeral)
  have len: "length (tasks s) = TASK_SLOTS" using inv by (simp add: sched_inv_def)
  have c: "\<exists>s1. create_task ts es prio s = Ok (Some i, s1) \<and> s_mem s1 = st1 \<and> vmem (tasks s1 ! i) = a \<and> t_state (tasks s1 ! i) = TASK_INIT \<and>
      t_pages (tasks s1 ! i) = t_pages (tasks s ! i) \<and> priority (tasks s1 ! i) = prio \<and> current s1 = current s \<and>
      (\<forall>j < TASK_SLOTS. j \<noteq> i \<longrightarrow> tasks s1 ! j = tasks s ! j)"
    using slot v al(2) free_slotD(1) [OF slot] len by (simp add: create_task_def task_upd_def nth_list_update)
  then show ?thesis using v al(2) create_task_inv [OF inv] by blast
qed

text \<open>What \<^verbatim>\<open>make_task\<close> promises of slot \<open>i\<close>, with \<open>p\<close> the first of its two frames.\<close>

definition task_made :: "tables \<Rightarrow> e820_entry list \<Rightarrow> nat set \<Rightarrow> u64 list \<Rightarrow> kmem \<Rightarrow> sched \<Rightarrow> nat \<Rightarrow> nat \<Rightarrow> bool" where
  "task_made ts es K code st s i p \<longleftrightarrow>
     t_state (tasks s ! i) = TASK_RUNNING \<and> user_mode (ctx (tasks s ! i)) \<and> reg_rip (ctx (tasks s ! i)) = user_virt + 0x1000 \<and>
     reg_rsp (ctx (tasks s ! i)) = user_virt + 0x1000 \<and>
     task_memory es K (mmu (kern_pml4 ts)) st (s_mem s) (mmu (vmem (tasks s ! i))) p \<and>
     (\<forall>j < 512. pmem (s_mem s) (of_nat p * PAGE_SIZE + 0x1000 + 8 * of_nat j) = code ! j)"

text \<open>The first half of \<^verbatim>\<open>make_task\<close>: a new address space \<open>a\<close> that is switched to, and two fresh pages.\<close>

lemma task_prepared:
  assumes inv: "sched_inv s" and ok: "tree_ok es K (mmu (kern_pml4 ts)) (s_mem s)" and rdy: "vstate (s_mem s) = VMM_READY"
    and slot: "get_free_slot s = Some i" "t_pages (tasks s ! i) = None" and big: "16 * (n + 5) \<le> nr_big (s_mem s)"
  obtains a st1 s1 p s3 where "vmm_create_user_pml4 ts es (s_mem s) = Ok (a, st1)" "a \<noteq> 0" "a mod 0x1000 = 0" "a \<noteq> KERN_PML4"
    and "create_task ts es prio s = Ok (Some i, s1)" "vmem (tasks s1 ! i) = a"
    and "task_alloc_pages i 1 (s1\<lparr>s_mem := vmm_set_table a (s_mem s1)\<rparr>) = Ok (Some p, s3)"
    and "pmem (s_mem s3) = pmem st1" "kinv es K (s_mem s3)" "vstate (s_mem s3) = VMM_READY"
      "kowned es K (s_mem s3) = kowned es K st1 \<union> {p, p + 1}" "16 * (n + 3) \<le> nr_big (s_mem s3)" "cr3 (s_mem s3) = mmu a"
    and "{p, p + 1} \<inter> kowned es K st1 = {}" "4096 * (p + 2) \<le> PHYS_LIMIT"
    and "sched_inv s3" "t_state (tasks s3 ! i) = TASK_INIT" "vmem (tasks s3 ! i) = a" "priority (tasks s3 ! i) = prio" "current s3 = current s"
      "\<forall>j < TASK_SLOTS. j \<noteq> i \<longrightarrow> tasks s3 ! j = tasks s ! j"
proof -
  let ?st = "s_mem s"
  have k: "kinv es K ?st" and bi: "buddy_inv (k_bd ?st)" using ok rdy by (simp_all add: tree_ok_def kinv_def)
  have "0 < nr_big ?st" using big by simp
  then have "free_blocks (k_bd ?st) \<noteq> {}" using nr_big_pos by blast
  from create_task_ready [OF inv ok rdy slot(1) this, of prio]
  obtain a st1 s1 where c: "vmm_create_user_pml4 ts es ?st = Ok (a, st1)" "a \<noteq> 0" "create_task ts es prio s = Ok (Some i, s1)" "s_mem s1 = st1"
    "vmem (tasks s1 ! i) = a" "t_state (tasks s1 ! i) = TASK_INIT" "t_pages (tasks s1 ! i) = None" "sched_inv s1"
    and c': "priority (tasks s1 ! i) = prio" "current s1 = current s" "\<forall>j < TASK_SLOTS. j \<noteq> i \<longrightarrow> tasks s1 ! j = tasks s ! j"
    using slot(2) by auto
  note C = create_user_spec [OF ok c(1, 2)]
  obtain st0 m0 where st0: "alloc_table es ?st = Ok (a, st0)" "st1 = st0\<lparr>pmem := m0\<rparr>" using C(8) by blast
  obtain q bd0 where q: "alloc_pages (k_bd ?st) 0 = Ok (Some q, bd0)" "k_bd st1 = bd0"
    using st0 rdy by (auto simp: alloc_table_def page_to_hhdm_def split: option.splits)
  note A = new_table_address [OF C(1) st0(1) rdy]
  have nr1: "16 * (n + 4) \<le> nr_big st1" using nr_big_alloc [OF bi q(1)] q(2) big by (simp add: nr_big_def)
  define s2 where "s2 = s1\<lparr>s_mem := vmm_set_table a st1\<rparr>"
  have m2: "s_mem s2 = st1\<lparr>cr3 := mmu a\<rparr>" using A(3) by (simp add: s2_def vmm_set_table_def set_cr3_def)
  obtain y j where yj: "(y, j) \<in> free_blocks (k_bd (s_mem s2))" "1 \<le> j" using nr_big_pos [of st1] nr1 m2 by fastforce
  have "kinv es K (s_mem s2)" "vstate (s_mem s2) = VMM_READY" "t_pages (tasks s2 ! i) = None"
    using C(3, 6) rdy c(7) by (simp_all add: m2 tree_ok_def) (simp add: s2_def)
  from task_alloc_ready [OF this yj]
  obtain p bd where t: "task_alloc_pages i 1 s2 = Ok (Some p, task_upd i (\<lambda>t. t\<lparr>t_pages := Some p\<rparr>) (s2\<lparr>s_mem := (s_mem s2)\<lparr>k_bd := bd\<rparr>\<rparr>))"
    and P: "kinv es K ((s_mem s2)\<lparr>k_bd := bd\<rparr>)" "kowned es K ((s_mem s2)\<lparr>k_bd := bd\<rparr>) = kowned es K (s_mem s2) \<union> {p, p + 1}"
      "{p, p + 1} \<inter> kowned es K (s_mem s2) = {}" "nr_big (s_mem s2) \<le> nr_big ((s_mem s2)\<lparr>k_bd := bd\<rparr>) + 16" "4096 * (p + 2) \<le> PHYS_LIMIT" by blast
  define s3 where "s3 = task_upd i (\<lambda>t. t\<lparr>t_pages := Some p\<rparr>) (s2\<lparr>s_mem := (s_mem s2)\<lparr>k_bd := bd\<rparr>\<rparr>)"
  have m3: "s_mem s3 = (s_mem s2)\<lparr>k_bd := bd\<rparr>" by (simp add: s3_def)
  have i: "i < TASK_SLOTS" "length (tasks s1) = TASK_SLOTS" using free_slotD(1) [OF slot(1)] c(8) by (simp_all add: sched_inv_def)
  have inv3: "sched_inv s3" using task_alloc_pages_inv [OF _ i(1) t] c(8) by (simp add: s3_def s2_def)
  show thesis
    by (rule that [OF c(1, 2) A(1, 2) c(3, 5), of p s3])
      (use t P C(6) rdy m2 m3 nr1 inv3 i c(4-6) c' in \<open>simp_all add: s3_def [symmetric] s2_def [symmetric]\<close>,
       simp_all add: s3_def s2_def task_upd_def)
qed

lemma make_task_ready:
  assumes inv: "sched_inv s" and ok: "tree_ok es K (mmu (kern_pml4 ts)) (s_mem s)" and rdy: "vstate (s_mem s) = VMM_READY"
    and slot: "get_free_slot s = Some i" "t_pages (tasks s ! i) = None" and big: "16 * (n + 5) \<le> nr_big (s_mem s)"
  shows "\<exists>s' p. make_task ts es code prio s = Ok (Some i, s') \<and> sched_inv s' \<and> current s' = current s \<and> 16 * n \<le> nr_big (s_mem s') \<and>
    (\<forall>j < TASK_SLOTS. j \<noteq> i \<longrightarrow> tasks s' ! j = tasks s ! j) \<and> priority (tasks s' ! i) = prio \<and>
    task_made ts es K code (s_mem s) s' i p \<and> cr3 (s_mem s') = mmu (vmem (tasks s' ! i)) \<and>
    undisturbed es K (s_mem s) (s_mem s') \<and> {p, p + 1, unat (mmu (vmem (tasks s' ! i))) div 4096} \<inter> kowned es K (s_mem s) = {}"
proof -
  let ?st = "s_mem s" and ?root = "mmu (kern_pml4 ts)" and ?fl = "PT_PRESENT OR PT_WRITABLE OR PT_USER"
  from task_prepared [OF assms, of prio]
  obtain a st1 s1 p s3 where c: "vmm_create_user_pml4 ts es ?st = Ok (a, st1)" "a \<noteq> 0" "a mod 0x1000 = 0" "a \<noteq> KERN_PML4"
      "create_task ts es prio s = Ok (Some i, s1)" "vmem (tasks s1 ! i) = a"
      "task_alloc_pages i 1 (s1\<lparr>s_mem := vmm_set_table a (s_mem s1)\<rparr>) = Ok (Some p, s3)"
    and st3: "pmem (s_mem s3) = pmem st1" "kinv es K (s_mem s3)" "vstate (s_mem s3) = VMM_READY"
      "kowned es K (s_mem s3) = kowned es K st1 \<union> {p, p + 1}" "16 * (n + 3) \<le> nr_big (s_mem s3)" "cr3 (s_mem s3) = mmu a"
    and p: "{p, p + 1} \<inter> kowned es K st1 = {}" "4096 * (p + 2) \<le> PHYS_LIMIT"
    and s3: "sched_inv s3" "t_state (tasks s3 ! i) = TASK_INIT" "vmem (tasks s3 ! i) = a" "priority (tasks s3 ! i) = prio" "current s3 = current s"
      "\<forall>j < TASK_SLOTS. j \<noteq> i \<longrightarrow> tasks s3 ! j = tasks s ! j" .
  note C = create_user_spec [OF ok c(1, 2)]
  have F: "unat (mmu a) div 4096 \<notin> kowned es K ?st" "kowned es K ?st \<subseteq> kowned es K st1" using C(1) by (auto simp: new_frame_def)
  have keep: "pmem st1 b = pmem ?st b" if "unat b div 4096 \<in> kowned es K ?st" for b using C(7) F(1) that by metis
  have fr: "{p, p + 1} \<inter> kowned es K ?st = {}" using p(1) F(2) by blast
  obtain st4 where st4: "vmm_map ts es a user_virt (of_nat p * PAGE_SIZE) (2 * PAGE_SIZE) ?fl (s_mem s3) = Ok (0, st4)"
    "undisturbed es K ?st st4" "task_memory es K ?root ?st st4 (mmu a) p" "cr3 st4 = cr3 (s_mem s3)" "16 * n \<le> nr_big st4"
    "pt_ok (pmem st4) (mmu a) (kowned es K st4 - {p + 1})"
    using map_task_pages [OF ok C(3) C(4) C(5) refl c(2-4) F st3(1-5) p keep] by blast
  have cr4: "cr3 st4 = mmu a" using st4(4) st3(6) by simp
  from copy_task_code [OF st4(2, 3) fr cr4 st4(6) p(2)] obtain m where m: "copy_code (user_virt + 0x1000) code st4 = Ok (st4\<lparr>pmem := m\<rparr>)"
    "undisturbed es K ?st (st4\<lparr>pmem := m\<rparr>)" "task_memory es K ?root ?st (st4\<lparr>pmem := m\<rparr>) (mmu a) p"
    "\<forall>j<512. m (of_nat p * PAGE_SIZE + 0x1000 + 8 * of_nat j) = code ! j" by blast
  define s' where "s' = run_task i (user_virt + 0x1000) (user_virt + 0x1000) (s3\<lparr>s_mem := st4\<lparr>pmem := m\<rparr>\<rparr>)"
  have i: "i < TASK_SLOTS" "length (tasks s3) = TASK_SLOTS" using free_slotD(1) [OF slot(1)] s3(1) by (simp_all add: sched_inv_def)
  have r: "make_task ts es code prio s = Ok (Some i, s')"
    using c(5-7) st4(1) m(1) s3(3) by (simp add: make_task_def s'_def page_to_hhdm_def hhdm_to_phys_def)
  have inv': "sched_inv s'" using run_task_inv [of "s3\<lparr>s_mem := st4\<lparr>pmem := m\<rparr>\<rparr>" i] i(1) s3(1, 2) by (simp add: s'_def)
  have "\<forall>j < TASK_SLOTS. j \<noteq> i \<longrightarrow> tasks s' ! j = tasks s ! j" "priority (tasks s' ! i) = prio" "current s' = current s" "vmem (tasks s' ! i) = a"
    "t_state (tasks s' ! i) = TASK_RUNNING" "reg_rip (ctx (tasks s' ! i)) = user_virt + 0x1000" "reg_rsp (ctx (tasks s' ! i)) = user_virt + 0x1000"
    using i s3(3-6) by (simp_all add: s'_def run_task_def task_upd_def)
  moreover have "user_mode (ctx (tasks s' ! i))" using inv' i(1) calculation(5) by (auto simp: sched_inv_def task_ok_def)
  moreover have "s_mem s' = st4\<lparr>pmem := m\<rparr>" by (simp add: s'_def run_task_def)
  ultimately show ?thesis using r inv' m(2-4) cr4 fr F(1) st4(5) by (intro exI [of _ s'] exI [of _ p]) (auto simp: task_made_def nr_big_def)
qed

end
