(* ===== verification/Task_Start.thy ===== *)
theory Task_Start
  imports Task_Space
begin

text \<open>
  The last part of \<^verbatim>\<open>entry\<close> in \<^verbatim>\<open>kernel/entry.c\<close>: the four calls of \<^verbatim>\<open>make_task\<close> and \<^verbatim>\<open>enter_task\<close>. Every call keeps what the calls before it have
  built; the tasks end in four address spaces that share no frame below the kernel half.
\<close>

section \<open>Tasks made so far\<close>

text \<open>After \<open>length P\<close> calls: \<open>P\<close> holds the first frame of every task and \<open>Q\<close> their priorities. The slots that follow are still as they were at boot.\<close>

definition tasks_made :: "tables \<Rightarrow> e820_entry list \<Rightarrow> nat set \<Rightarrow> u64 list \<Rightarrow> kmem \<Rightarrow> nat list \<Rightarrow> u32 list \<Rightarrow> sched \<Rightarrow> bool" where
  "tasks_made ts es K code st P Q s \<longleftrightarrow> sched_inv s \<and> current s = None \<and> length Q = length P \<and>
     undisturbed es K st (s_mem s) \<and> tree_ok es K (mmu (kern_pml4 ts)) st \<and>
     (\<forall>i < length P. task_made ts es K code st s i (P ! i) \<and> priority (tasks s ! i) = Q ! i) \<and>
     (\<forall>i < TASK_SLOTS. length P \<le> i \<longrightarrow> tasks s ! i = zero_task) \<and>
     (\<forall>p \<in> set P. {p, p + 1} \<inter> kowned es K st = {}) \<and>
     distinct (concat (map (\<lambda>p. [p, p + 1]) P)) \<and> distinct (map (\<lambda>i. vmem (tasks s ! i)) [0..<length P])"

lemma undisturbed_refl: "tree_ok es K r st \<Longrightarrow> vstate st = VMM_READY \<Longrightarrow> undisturbed es K st st"
  by (simp add: undisturbed_def tree_ok_def)

lemma undisturbed_trans: "undisturbed es K st st1 \<Longrightarrow> undisturbed es K st1 st2 \<Longrightarrow> undisturbed es K st st2"
  unfolding undisturbed_def by (metis subset_iff)

lemma tasks_made_boot:
  assumes "tree_ok es K (mmu (kern_pml4 ts)) st" "vstate st = VMM_READY"
  shows "tasks_made ts es K code st [] [] (sched_boot st)"
  using assms sched_boot_inv [of st] undisturbed_refl [OF assms] by (simp add: tasks_made_def) (simp add: sched_boot_def)

lemma boot_slot:
  assumes "\<forall>i < n. t_state (tasks s ! i) = TASK_RUNNING" "\<forall>i < TASK_SLOTS. n \<le> i \<longrightarrow> tasks s ! i = zero_task" "n < TASK_SLOTS"
  shows "get_free_slot s = Some n" "t_pages (tasks s ! n) = None"
  using assms unfolding get_free_slot_def find_Some_iff
  by (auto simp: zero_task_def TASK_SLOTS_def intro!: exI [of _ n])

lemma code_cell:
  assumes "4096 * (p + 2) \<le> PHYS_LIMIT" "j < 512"
  shows "unat (of_nat p * PAGE_SIZE + 0x1000 + 8 * of_nat j :: u64) div 4096 = p + 1"
proof -
  have j: "unat (8 * of_nat j :: u64) = 8 * j" using assms(2) by (subst unat_mult_lt) (simp_all add: unat_of_nat)
  have "unat (of_nat p :: u64) = p" using assms(1) by (simp add: unat_of_nat PHYS_LIMIT_def)
  then have "unat (of_nat p * PAGE_SIZE) = 4096 * p" using assms(1) by (subst unat_mult_lt) (simp_all add: PHYS_LIMIT_def)
  then have "unat (of_nat p * PAGE_SIZE + 0x1000 :: u64) = 4096 * p + 4096" using assms(1) by (subst unat_add_lt) (simp_all add: PHYS_LIMIT_def)
  then have "unat (of_nat p * PAGE_SIZE + 0x1000 + 8 * of_nat j :: u64) = 4096 * p + 4096 + 8 * j"
    using assms j by (subst unat_add_lt) (simp_all add: PHYS_LIMIT_def)
  then show ?thesis using assms(2) by simp
qed

lemma task_made_keep:
  assumes k: "undisturbed es K (s_mem s) (s_mem s')" "kinv es K (s_mem s)" and t: "tasks s' ! i = tasks s ! i" and m: "task_made ts es K code st s i p"
  shows "task_made ts es K code st s' i p"
proof -
  have tm: "task_memory es K (mmu (kern_pml4 ts)) st (s_mem s) (mmu (vmem (tasks s ! i))) p" using m by (simp add: task_made_def)
  then have o: "p + 1 \<in> kowned es K (s_mem s)" by (simp add: task_memory_def)
  then have "4096 * (p + 2) \<le> PHYS_LIMIT" using kowned_bound(1) [OF k(2) o] by simp
  then have "pmem (s_mem s') (of_nat p * PAGE_SIZE + 0x1000 + 8 * of_nat j) = pmem (s_mem s) (of_nat p * PAGE_SIZE + 0x1000 + 8 * of_nat j)"
    if "j < 512" for j using code_cell that o k(1) by (simp add: undisturbed_def)
  then show ?thesis using m t undisturbed_task [OF k(1) tm] by (simp add: task_made_def)
qed

text \<open>The kernel's half of a task's tables, read against a later state in which the kernel's translations are the same.\<close>

lemma task_made_since:
  assumes "\<And>v. translate (pmem st1) (mmu (kern_pml4 ts)) v = translate (pmem st) (mmu (kern_pml4 ts)) v" "task_made ts es K code st1 s i p"
  shows "task_made ts es K code st s i p"
  using assms by (simp add: task_made_def task_memory_def)

lemma tasks_made_step:
  assumes T: "tasks_made ts es K code st P Q s" and n: "length P < TASK_SLOTS" and big: "16 * (n + 5) \<le> nr_big (s_mem s)"
  shows "\<exists>s' p. make_task ts es code prio s = Ok (Some (length P), s') \<and> tasks_made ts es K code st (P @ [p]) (Q @ [prio]) s' \<and>
    16 * n \<le> nr_big (s_mem s') \<and> cr3 (s_mem s') = mmu (vmem (tasks s' ! length P))"
proof -
  let ?i = "length P" and ?r = "mmu (kern_pml4 ts)"
  have t: "sched_inv s" "current s = None" "length Q = length P" "undisturbed es K st (s_mem s)" "tree_ok es K ?r st"
    "\<forall>i < ?i. task_made ts es K code st s i (P ! i) \<and> priority (tasks s ! i) = Q ! i" "\<forall>i < TASK_SLOTS. ?i \<le> i \<longrightarrow> tasks s ! i = zero_task"
    "distinct (concat (map (\<lambda>p. [p, p + 1]) P))" "distinct (map (\<lambda>i. vmem (tasks s ! i)) [0..<?i])"
    "\<forall>p \<in> set P. {p, p + 1} \<inter> kowned es K st = {}"
    using T unfolding tasks_made_def by blast+
  have ok: "tree_ok es K ?r (s_mem s)" and k: "kinv es K (s_mem s)" and v: "vstate (s_mem s) = VMM_READY"
    using undisturbed_tree(1) [OF t(4, 5)] t(4) by (auto simp: undisturbed_def)
  have run: "\<forall>i < ?i. t_state (tasks s ! i) = TASK_RUNNING" using t(6) by (simp add: task_made_def)
  from make_task_ready [OF t(1) ok v boot_slot [OF run t(7) n] big, of code prio]
  obtain s' p where s': "make_task ts es code prio s = Ok (Some ?i, s')" "sched_inv s'" "current s' = current s" "16 * n \<le> nr_big (s_mem s')"
    "\<forall>j < TASK_SLOTS. j \<noteq> ?i \<longrightarrow> tasks s' ! j = tasks s ! j" "priority (tasks s' ! ?i) = prio" "task_made ts es K code (s_mem s) s' ?i p"
    "cr3 (s_mem s') = mmu (vmem (tasks s' ! ?i))" "undisturbed es K (s_mem s) (s_mem s')"
    "{p, p + 1, unat (mmu (vmem (tasks s' ! ?i))) div 4096} \<inter> kowned es K (s_mem s) = {}" by blast
  have old: "tasks s' ! j = tasks s ! j" if "j < ?i" for j using s'(5) that n by simp
  have new: "task_made ts es K code st s' ?i p" by (rule task_made_since [OF undisturbed_tree(2) [OF t(4, 5)] s'(7)])
  have own: "{P ! j, P ! j + 1, unat (mmu (vmem (tasks s ! j))) div 4096} \<subseteq> kowned es K (s_mem s)" if "j < ?i" for j
    using t(6) that pt_okD(2) [of "pmem (s_mem s)" "mmu (vmem (tasks s ! j))" "kowned es K (s_mem s)" "[]"]
    by (auto simp: task_made_def task_memory_def tree_ok_def tbl_at.simps(1))
  have "distinct (concat (map (\<lambda>p. [p, p + 1]) (P @ [p])))"
    using t(8) own s'(10) by (auto simp: in_set_conv_nth) (metis)+
  moreover have "vmem (tasks s ! j) \<noteq> vmem (tasks s' ! ?i)" if "j < ?i" for j using own [OF that] s'(10) by auto
  then have "distinct (map (\<lambda>i. vmem (tasks s' ! i)) [0..<Suc ?i])" using t(9) old by (auto simp: distinct_map inj_on_def) metis
  moreover have "{p, p + 1} \<inter> kowned es K st = {}" using s'(10) t(4) by (auto simp: undisturbed_def)
  ultimately have "tasks_made ts es K code st (P @ [p]) (Q @ [prio]) s'"
    unfolding tasks_made_def using s' t new old task_made_keep [OF s'(9) k old] undisturbed_trans [OF t(4) s'(9)]
    by (auto simp: less_Suc_eq nth_append)
  then show ?thesis using s'(1, 4, 8) by blast
qed

section \<open>Entering the first task\<close>

text \<open>The four tasks as they are when the first one is entered with the frame \<open>f\<close>; \<open>st\<close> is the memory before them.\<close>

definition tasks_started :: "tables \<Rightarrow> e820_entry list \<Rightarrow> nat set \<Rightarrow> u64 list \<Rightarrow> kmem \<Rightarrow> iret_frame \<Rightarrow> sched \<Rightarrow> bool" where
  "tasks_started ts es K code st f s' \<longleftrightarrow> (\<exists>P. sched_inv s' \<and> current s' = None \<and>
     f_rip f = user_virt + 0x1000 \<and> f_rsp f = user_virt + 0x1000 \<and> f_cs f = 0x2B \<and> f_ss f = 0x33 \<and> bit (f_rflags f) 9 \<and>
     length P = 4 \<and> (\<forall>i < 4. task_made ts es K code st s' i (P ! i)) \<and> map (\<lambda>i. priority (tasks s' ! i)) [0..<4] = [1024, 1024, 100, 10000] \<and>
     (\<forall>i. 4 \<le> i \<and> i < TASK_SLOTS \<longrightarrow> t_state (tasks s' ! i) = TASK_FREE) \<and>
     distinct (concat (map (\<lambda>p. [p, p + 1]) P)) \<and> distinct (map (\<lambda>i. vmem (tasks s' ! i)) [0..<4]) \<and>
     (\<forall>p \<in> set P. {p, p + 1} \<inter> kowned es K st = {}) \<and>
     undisturbed es K st (s_mem s') \<and> cr3 (s_mem s') = mmu (vmem (tasks s' ! 3)))"

lemma start_tasks_ready:
  assumes ok: "tree_ok es K (mmu (kern_pml4 ts)) st" and rdy: "vstate st = VMM_READY" and big: "320 \<le> nr_big st"
  shows "\<exists>f s'. start_tasks ts es code (sched_boot st) = Ok (f, s') \<and> tasks_started ts es K code st f s'"
proof -
  have sl: "(0 :: nat) < TASK_SLOTS" "1 < TASK_SLOTS" "2 < TASK_SLOTS" "3 < TASK_SLOTS" by (simp_all add: TASK_SLOTS_def)
  have "16 * (15 + 5) \<le> nr_big (s_mem (sched_boot st))" using big by (simp add: sched_boot_def)
  from tasks_made_step [OF tasks_made_boot [OF ok rdy] _ this, of code 1024] sl(1)
  obtain s1 p1 where s1: "make_task ts es code 1024 (sched_boot st) = Ok (Some 0, s1)" "tasks_made ts es K code st [p1] [1024] s1"
    "16 * (10 + 5) \<le> nr_big (s_mem s1)" by auto
  from tasks_made_step [OF s1(2) _ s1(3), of 1024] sl(2)
  obtain s2 p2 where s2: "make_task ts es code 1024 s1 = Ok (Some 1, s2)" "tasks_made ts es K code st [p1, p2] [1024, 1024] s2"
    "16 * (5 + 5) \<le> nr_big (s_mem s2)" by auto
  from tasks_made_step [OF s2(2) _ s2(3), of 100] sl(3)
  obtain s3 p3 where s3: "make_task ts es code 100 s2 = Ok (Some 2, s3)" "tasks_made ts es K code st [p1, p2, p3] [1024, 1024, 100] s3"
    "16 * (0 + 5) \<le> nr_big (s_mem s3)" by (auto simp: numeral_2_eq_2)
  from tasks_made_step [OF s3(2) _ s3(3), of 10000] sl(4)
  obtain s4 p4 where s4: "make_task ts es code 10000 s3 = Ok (Some 3, s4)" "cr3 (s_mem s4) = mmu (vmem (tasks s4 ! 3))"
    and T: "tasks_made ts es K code st [p1, p2, p3, p4] [1024, 1024, 100, 10000] s4" by (auto simp: numeral_3_eq_3)
  let ?P = "[p1, p2, p3, p4]"
  have t: "sched_inv s4" "current s4 = None" "undisturbed es K st (s_mem s4)"
    "\<forall>i < 4. task_made ts es K code st s4 i (?P ! i) \<and> priority (tasks s4 ! i) = [1024, 1024, 100, 10000] ! i"
    "\<forall>i < TASK_SLOTS. 4 \<le> i \<longrightarrow> tasks s4 ! i = zero_task"
    "distinct (concat (map (\<lambda>p. [p, p + 1]) ?P))" "distinct (map (\<lambda>i. vmem (tasks s4 ! i)) [0..<4])" "\<forall>p \<in> set ?P. {p, p + 1} \<inter> kowned es K st = {}"
    using T unfolding tasks_made_def by (simp_all only: list.size) (simp_all add: numeral_eq_Suc)
  have A: "task_made ts es K code st s4 0 p1" using t(4) by (metis nth_Cons_0 zero_less_numeral)
  have pr: "map (\<lambda>i. priority (tasks s4 ! i)) [0..<4] = [1024, 1024, 100, 10000]" using t(4) by (simp add: list_eq_iff_nth_eq)
  have fr: "\<forall>i. 4 \<le> i \<and> i < TASK_SLOTS \<longrightarrow> t_state (tasks s4 ! i) = TASK_FREE" using t(5) by (simp add: zero_task_def)
  obtain f where f: "enter_task (Some 0) s4 = Ok f" "f_rip f = user_virt + 0x1000" "f_rsp f = user_virt + 0x1000" "f_cs f = 0x2B" "f_ss f = 0x33" "bit (f_rflags f) 9"
    using A by (auto simp: enter_task_def Let_def task_made_def user_mode_def GDT_USER_CODE_SEGMENT_def GDT_USER_DATA_SEGMENT_def)
  have r: "start_tasks ts es code (sched_boot st) = Ok (f, s4)" using s1(1) s2(1) s3(1) s4(1) f(1) by (simp add: start_tasks_def)
  have "tasks_started ts es K code st f s4" unfolding tasks_started_def
    by (intro exI [of _ ?P] conjI) (use t f pr fr s4(2) in \<open>simp_all del: upt_rec_numeral\<close>)
  then show ?thesis using r by blast
qed

text \<open>
  Claim C40. In the running kernel with 320 frames in free blocks of at least 16 pages, the last part of \<^verbatim>\<open>entry\<close> succeeds and enters user mode, with
  interrupts enabled, at the first instruction of a task. Four tasks are runnable, with the priorities 1024, 1024, 100 and 10000. Each has its own
  tables and its own two frames, which nobody owned before; the lower half of its address space maps these two for user access and nothing else, and the
  second one holds the code. The upper half translates as the kernel's tables do, and no word of a frame that was owned before is changed. Yet the
  processor still uses the tables of the fourth task: \<^verbatim>\<open>enter_task\<close> takes the registers of the first task and does not switch to its tables.
\<close>

theorem start_tasks_correct:
  assumes ok: "tree_ok es K (mmu (kern_pml4 ts)) st" and rdy: "vstate st = VMM_READY" and big: "320 \<le> nr_big st"
  shows "\<exists>f s' P. start_tasks ts es code (sched_boot st) = Ok (f, s') \<and> sched_inv s' \<and> current s' = None \<and>
    f_rip f = user_virt + 0x1000 \<and> f_rsp f = user_virt + 0x1000 \<and> f_cs f = 0x2B \<and> f_ss f = 0x33 \<and> bit (f_rflags f) 9 \<and>
    length P = 4 \<and> (\<forall>i < 4. task_made ts es K code st s' i (P ! i)) \<and> map (\<lambda>i. priority (tasks s' ! i)) [0..<4] = [1024, 1024, 100, 10000] \<and>
    (\<forall>i. 4 \<le> i \<and> i < TASK_SLOTS \<longrightarrow> t_state (tasks s' ! i) = TASK_FREE) \<and>
    distinct (concat (map (\<lambda>p. [p, p + 1]) P)) \<and> distinct (map (\<lambda>i. vmem (tasks s' ! i)) [0..<4]) \<and>
    (\<forall>p \<in> set P. {p, p + 1} \<inter> kowned es K st = {}) \<and>
    undisturbed es K st (s_mem s') \<and> cr3 (s_mem s') = mmu (vmem (tasks s' ! 3))"
proof -
  obtain f s' where r: "start_tasks ts es code (sched_boot st) = Ok (f, s')" and t: "tasks_started ts es K code st f s'"
    using start_tasks_ready [OF assms, of code] by blast
  show ?thesis
    by (rule exI [of _ f], rule exI [of _ s'], rule exE [OF t [unfolded tasks_started_def]], rule exI, rule conjI [OF r])
qed

section \<open>A concrete instance\<close>

text \<open>A page descriptor array of a single free block, and the running kernel with a free block of 512 pages.\<close>

definition one_block :: "nat \<Rightarrow> buddy" where
  "one_block k =
     \<lparr>mem_map = \<lparr>pg_state = PG_BUDDY, pg_order = k, pg_prev = None, pg_next = None\<rparr> #
        replicate (2 ^ k - 1) \<lparr>pg_state = PG_TAIL, pg_order = 0, pg_prev = None, pg_next = None\<rparr>,
      free_matrix = map (\<lambda>j. if j = k then Some 0 else None) [0..<Suc PAGE_MAX_ORDER],
      managed_mem = of_nat (4096 * 2 ^ k)\<rparr>"

lemma one_block_nr: "mem_nr_pages (one_block k) = 2 ^ k"
  by (simp add: one_block_def)

lemma one_block_nth:
  assumes "x < 2 ^ k"
  shows "st_of (one_block k) x = (if x = 0 then PG_BUDDY else PG_TAIL)" "ord_of (one_block k) x = (if x = 0 then k else 0)"
proof -
  have "x - 1 < 2 ^ k - 1" if "x \<noteq> 0" using assms that by linarith
  then show "st_of (one_block k) x = (if x = 0 then PG_BUDDY else PG_TAIL)" "ord_of (one_block k) x = (if x = 0 then k else 0)"
    by (auto simp: one_block_def nth_Cons')
qed

lemma one_block_sets: "free_set (one_block k) j = (if j = k then {0} else {})" "alloc_blocks (one_block k) = {}"
  using one_block_nth [of _ k] by (auto simp: free_set_def alloc_blocks_def one_block_nr split: if_splits)

lemma one_block_inv:
  assumes "k \<le> PAGE_MAX_ORDER"
  shows "buddy_inv (one_block k)"
proof -
  have h: "is_head (one_block k) x \<longleftrightarrow> x = 0" for x
    using one_block_nth(1) [of x k] by (auto simp: is_head_def one_block_nr split: if_splits)
  have "blocks_ok (one_block k)"
    using assms one_block_nth [of _ k] by (auto simp: blocks_ok_def block_ok_def h one_block_nr)
  moreover have "lists_ok {} (one_block k) (\<lambda>j. if j = k then [0] else [])"
    using assms by (auto simp: lists_ok_def one_block_sets) (simp_all add: one_block_def del: upt_Suc)
  ultimately show ?thesis by (auto simp: buddy_inv_def inv_except_def)
qed

definition roomy_kmem :: kmem where
  "roomy_kmem = empty_kmem\<lparr>vstate := VMM_READY, k_bd := one_block 9\<rparr>"

lemma roomy_kmem:
  "tree_ok boot_map {0x200} (mmu (kern_pml4 boot_tables)) roomy_kmem" "vstate roomy_kmem = VMM_READY" "320 \<le> nr_big roomy_kmem"
proof -
  have o: "bm_owned boot_map boot_pool = {}" by (auto simp: bm_owned_def boot_pool_def usable_def)
  have b: "free_blocks (one_block 9) = {(0, 9)}" by (auto simp: free_blocks_def one_block_sets split: if_splits)
  then have "free_frames (one_block 9) = block 0 9" by (simp add: free_frames_def)
  then have f: "free_frames (one_block 9) \<inter> {0x200} = {}" by (simp add: block_def)
  have "kinv boot_map {0x200} roomy_kmem"
    using boot_map_ok one_block_inv [of 9] o f by (simp add: kinv_def roomy_kmem_def empty_kmem_def PHYS_LIMIT_def one_block_nr PAGE_MAX_ORDER_def) (simp add: boot_pool_def)
  moreover have "pt_ok (pmem roomy_kmem) 0x200000 (kowned boot_map {0x200} roomy_kmem)"
    by (auto simp: pt_ok_def no_huge_def roomy_kmem_def empty_kmem_def tbl_at_empty kowned_def page_aligned_def split: if_splits)
  ultimately show "tree_ok boot_map {0x200} (mmu (kern_pml4 boot_tables)) roomy_kmem" by (simp add: tree_ok_def)
  show "vstate roomy_kmem = VMM_READY" by (simp add: roomy_kmem_def)
  have "big_frames (one_block 9) = block 0 9" by (simp add: big_frames_def b block_def atLeast0LessThan lessThan_def)
  moreover have "card (block 0 9) = 512" by (simp add: block_def)
  ultimately show "320 \<le> nr_big roomy_kmem" by (simp add: nr_big_def roomy_kmem_def)
qed

theorem start_tasks_correct_witness:
  "\<exists>f s. start_tasks boot_tables boot_map (replicate 512 0x90) (sched_boot roomy_kmem) = Ok (f, s) \<and> f_rip f = 0x101000 \<and>
     t_state (tasks s ! 0) = TASK_RUNNING \<and> vmem (tasks s ! 0) \<noteq> vmem (tasks s ! 3) \<and> cr3 (s_mem s) = mmu (vmem (tasks s ! 3))"
proof -
  from start_tasks_correct [OF roomy_kmem, of "replicate 512 0x90"]
  obtain f s P where s: "start_tasks boot_tables boot_map (replicate 512 0x90) (sched_boot roomy_kmem) = Ok (f, s)" "f_rip f = user_virt + 0x1000"
    "\<forall>i < 4. task_made boot_tables boot_map {0x200} (replicate 512 0x90) roomy_kmem s i (P ! i)"
    "distinct (map (\<lambda>i. vmem (tasks s ! i)) [0..<4])" "cr3 (s_mem s) = mmu (vmem (tasks s ! 3))" by blast
  have "vmem (tasks s ! 0) \<noteq> vmem (tasks s ! 3)" using s(4) unfolding distinct_map inj_on_def by fastforce
  moreover have "t_state (tasks s ! 0) = TASK_RUNNING" using s(3) by (auto simp: task_made_def)
  ultimately show ?thesis using s(1, 2, 5) by (auto simp: user_virt_def)
qed

end
