(* ===== verification/Entry_Correct.thy ===== *)
theory Entry_Correct
  imports Task_Start
begin

text \<open>
  The start-up of the kernel as a whole (\<^verbatim>\<open>entry\<close> of \<^verbatim>\<open>kernel/entry.c\<close>): its drivers and tables cannot fail, and RAM below the kernel image is enough
  for the four tasks, because the buddy allocator groups free pages into maximal blocks.
\<close>

section \<open>Drivers and tables\<close>

lemma clrscr_ok:
  assumes "length (v_cells v) = 2000"
  shows "\<exists>v'. early_vga_clrscr v = Ok v' \<and> vga_ok v'"
proof -
  have "\<forall>i \<in> set [0..WIDTH * HEIGHT - 1]. 0 \<le> i \<and> i < int (length (v_cells v))" using assms by (simp add: WIDTH_def HEIGHT_def)
  then obtain cs where "rfold (\<lambda>i. cell_set i DEFAULT_CHAR) [0..WIDTH * HEIGHT - 1] (v_cells v) = Ok cs" "length cs = 2000"
    using fill_cells [of "[0..WIDTH * HEIGHT - 1]" "v_cells v" DEFAULT_CHAR] assms by metis
  then show ?thesis by (simp add: early_vga_clrscr_def vga_ok_def set_cursor_def Let_def WIDTH_def HEIGHT_def)
qed

lemma gdt_ok: "\<exists>c. gdt_init g t k e = Ok c"
  by (simp add: gdt_init_def tss_set_def gdt_def GDT_TSS_SEGMENT_def Let_def)

lemma pit_lines:
  "\<exists>tr'. pit_set_freq 1024 tr = Ok tr' \<and> pic1 tr' = pic1 tr \<and> pic2 tr' = pic2 tr"
  by (simp add: pit_set_freq_def Let_def) (simp add: outb_def io_wait_def PIT_COMMAND_def PIT_CHANNEL0_def pic_ports)

text \<open>Everything before the memory: the timer and the keyboard reach their stubs, the other lines but the cascade are masked.\<close>

definition interrupts_ready :: "(nat \<Rightarrow> u64) \<Rightarrow> trace \<Rightarrow> idt_gate list \<Rightarrow> bool" where
  "interrupts_ready isr_table tr gates \<longleftrightarrow> pics_ready tr \<and> (\<forall>n < 16. line_vector tr n = 32 + n \<and> (line_masked tr n \<longleftrightarrow> 2 < n)) \<and>
     length gates = 256 \<and> (\<forall>i < 256. gate_offset (gates ! i) = isr_table i \<and> gate_present (gates ! i) \<and> gate_dpl (gates ! i) = 0)"

lemma gates_ok:
  assumes dev: "reads_masks dev" and stubs: "\<And>i. i < 256 \<Longrightarrow> isr_table i \<noteq> 0"
  shows "\<exists>gates0 tr' gates. isr_init isr_table gates_boot = Ok gates0 \<and> irq_init dev isr_table (tr, gates0) = Ok (tr', gates) \<and>
    interrupts_ready isr_table tr' gates"
proof -
  have "length gates_boot = 256" by (simp add: gates_boot_def)
  then obtain g where g: "isr_init isr_table gates_boot = Ok g" "length g = 256"
    "\<forall>i < 256. gate_for (g ! i) (isr_table i) GDT_KERNEL_CODE_SEGMENT (fst (spec_gate i)) (snd (spec_gate i)) 0 True"
    using isr_init_steps [of isr_table 256 gates_boot] stubs unfolding isr_init_def isr_calls_eq by auto
  obtain tr' g1 g2 where i: "irq_init dev isr_table (tr, g) = Ok (tr', g[32 := g1, 33 := g2])" "pics_ready tr'"
    "\<forall>n < 16. line_vector tr' n = 32 + n \<and> (line_masked tr' n \<longleftrightarrow> 2 < n)"
    "gate_for g1 (isr_table 32) GDT_KERNEL_CODE_SEGMENT NO_IST IDT_INTERRUPT_GATE 0 True"
    "gate_for g2 (isr_table 33) GDT_KERNEL_CODE_SEGMENT NO_IST IDT_INTERRUPT_GATE 0 True"
    using irq_init_spec [of dev g isr_table tr, OF dev g(2)] stubs by auto
  have "interrupts_ready isr_table tr' (g[32 := g1, 33 := g2])"
    unfolding interrupts_ready_def using i(2-5) g(2, 3) by (auto simp: gate_for_def nth_list_update)
  then show ?thesis using g(1) i(1) by blast
qed

section \<open>Room for the tasks\<close>

text \<open>The 64 KiB chunks below the kernel image that are RAM and in which no firmware entry begins or ends.\<close>

definition ram_chunks :: "e820_entry list \<Rightarrow> nat set" where
  "ram_chunks raw = {c. c < 32 \<and> (\<forall>a. 65536 * c \<le> a \<and> a < 65536 * c + 65536 \<longrightarrow> type_spec raw a = E820_TYPE_RAM) \<and>
     bounds raw \<inter> {65536 * c<..<65536 * c + 65536} = {}}"

lemma chunk_usable:
  assumes t: "\<forall>a. types_at es a = {type_spec raw a} - {0}" and b: "bounds es \<subseteq> bounds raw" and c: "c \<in> ram_chunks raw"
  shows "{16 * c..<16 * c + 16} \<subseteq> usable es 0"
proof -
  have ram: "type_spec raw (65536 * c) = E820_TYPE_RAM" and no: "bounds raw \<inter> {65536 * c<..<65536 * c + 65536} = {}"
    using c by (simp_all add: ram_chunks_def)
  have "E820_TYPE_RAM \<in> types_at es (65536 * c)" using t ram by (simp add: E820_TYPE_RAM_def)
  then obtain e where e: "e \<in> set es" "e_type e = E820_TYPE_RAM" "e_lo e \<le> 65536 * c" "65536 * c < e_hi e" by (auto simp: types_at_def covers_def)
  have "e_hi e \<in> bounds raw" using b e(1) by (auto simp: bounds_def)
  then have "65536 * c + 65536 \<le> e_hi e" using no e(4) by (meson disjoint_iff greaterThanLessThan_iff not_le)
  then have "f \<in> entry_frames e" if "16 * c \<le> f" "f < 16 * c + 16" for f using that e(2, 3) by (auto simp: entry_frames_def)
  then show ?thesis using e(1) by (fastforce simp: usable_def)
qed

text \<open>In maximal blocks, an aligned group of 16 free pages lies in a block of at least 16.\<close>

lemma chunk_big:
  assumes inv: "buddy_inv bd" and mx: "\<forall>(x, k) \<in> free_blocks bd. maximal (free_frames bd) x k" and c: "{16 * c..<16 * c + 16} \<subseteq> free_frames bd"
  shows "{16 * c..<16 * c + 16} \<subseteq> big_frames bd"
proof -
  have "16 * c \<in> free_frames bd" using c by auto
  then obtain x k where x: "(x, k) \<in> free_blocks bd" "x \<le> 16 * c" "16 * c < x + 2 ^ k" by (auto simp: free_frames_def)
  have B: "blocks_ok bd" using inv by (simp add: buddy_inv_def inv_except_def)
  have "is_head bd x" "ord_of bd x = k" using x(1) by (auto simp: free_blocks_def free_set_def is_head_def)
  then have al: "2 ^ k dvd x" using blocks_okD(2) [OF B] by blast
  have k: "4 \<le> k"
  proof (rule ccontr)
    assume "\<not> 4 \<le> k"
    then have lt: "Suc k \<le> 4" by simp
    have "(2 :: nat) ^ Suc k dvd 2 ^ 4" by (rule le_imp_power_dvd [OF lt])
    then have d: "2 ^ Suc k dvd 16 * c" using dvd_mult2 [of "2 ^ Suc k" "2 ^ 4" c] by simp
    have l: "(2 :: nat) ^ Suc k \<le> 16" using power_increasing [OF lt, of "2 :: nat"] by simp
    have "2 ^ k dvd 16 * c" by (rule dvd_trans [OF _ d]) simp
    then have "2 ^ k dvd 16 * c - x" using al by (intro dvd_diff_nat)
    then have "16 * c - x = 0" using x(2, 3) dvd_imp_le [of "2 ^ k" "16 * c - x"] by linarith
    then have "x = 16 * c" using x(2) by simp
    moreover have "{16 * c..<16 * c + 2 ^ Suc k} \<subseteq> free_frames bd" using c l by auto
    ultimately have "\<not> maximal (free_frames bd) x k" using d lt by (auto simp: maximal_def PAGE_MAX_ORDER_def)
    then show False using mx x(1) by blast
  qed
  then have "(2 :: nat) ^ 4 dvd 2 ^ k" by (rule le_imp_power_dvd)
  then have "16 dvd x + 2 ^ k" using dvd_trans [OF _ al, of 16] by simp
  then obtain m where m: "x + 2 ^ k = 16 * m" by (elim dvdE)
  then have "16 * c + 16 \<le> x + 2 ^ k" using x(3) by simp
  then have "{16 * c..<16 * c + 16} \<subseteq> block x k" using x(2) by (auto simp: block_def)
  then show ?thesis using x(1) k unfolding big_frames_def by blast
qed

lemma boot_room:
  assumes t: "\<forall>a. types_at es a = {type_spec raw a} - {0}" and b: "bounds es \<subseteq> bounds raw"
    and last: "\<forall>a. type_spec raw a = E820_TYPE_RAM \<longrightarrow> Suc a div 4096 \<le> mem_nr_pages (k_bd st)" and inv: "buddy_inv (k_bd st)"
    and mx: "\<forall>(x, k) \<in> free_blocks (k_bd st). maximal (free_frames (k_bd st)) x k"
    and fr: "free_frames (k_bd st) = {f \<in> usable es 0. f < mem_nr_pages (k_bd st) \<and> \<not> (unat KERNEL_PHYS div 4096 \<le> f \<and> 4096 * f < lim)}"
    and n: "n \<le> card (ram_chunks raw)"
  shows "16 * n \<le> nr_big st"
proof -
  have chunk: "{16 * c..<16 * c + 16} \<subseteq> big_frames (k_bd st)" if c: "c \<in> ram_chunks raw" for c
  proof (rule chunk_big [OF inv mx], rule subsetI)
    fix f assume f: "f \<in> {16 * c..<16 * c + 16}"
    have "type_spec raw (65536 * c + 65535) = E820_TYPE_RAM" "c < 32" using c by (simp_all add: ram_chunks_def)
    then have "Suc (65536 * c + 65535) div 4096 \<le> mem_nr_pages (k_bd st)" using last by blast
    moreover have "Suc (65536 * c + 65535) div 4096 = 16 * c + 16" by simp
    moreover have "\<not> unat KERNEL_PHYS div 4096 \<le> f" using f \<open>c < 32\<close> by (simp add: KERNEL_PHYS_def)
    ultimately show "f \<in> free_frames (k_bd st)" unfolding fr using f chunk_usable [OF t b c] by auto
  qed
  have fin: "finite (big_frames (k_bd st))"
  proof (rule finite_subset)
    show "big_frames (k_bd st) \<subseteq> {..<mem_nr_pages (k_bd st)}" using fr by (fastforce simp: big_frames_def free_frames_def)
  qed simp
  have "finite (ram_chunks raw)" by (rule finite_subset [of _ "{..<32}"]) (auto simp: ram_chunks_def)
  then have "card (\<Union>c \<in> ram_chunks raw. {16 * c..<16 * c + 16}) = (\<Sum>c \<in> ram_chunks raw. card {16 * c..<16 * c + 16})"
    by (intro card_UN_disjoint) auto
  then have "card (\<Union>c \<in> ram_chunks raw. {16 * c..<16 * c + 16}) = 16 * card (ram_chunks raw)" by simp
  moreover have "card (\<Union>c \<in> ram_chunks raw. {16 * c..<16 * c + 16}) \<le> nr_big st"
    unfolding nr_big_def using chunk fin by (intro card_mono) auto
  ultimately show ?thesis using n by linarith
qed

section \<open>The whole start-up\<close>

lemma start_machine_eq:
  assumes dev: "reads_masks dev" "transmits dev" and stubs: "\<And>i. i < 256 \<Longrightarrow> isr_table i \<noteq> 0" and scr: "length cells = 2000"
    and r: "boot_memory (i_tables l) raw (i_end l) st = Some r"
  shows "\<exists>m. start_machine dev isr_table l raw cells st tr = Some (rbind r (\<lambda>(es, st). Ok (m\<lparr>m_map := es, m_mem := st\<rparr>))) \<and>
    interrupts_ready isr_table (m_trace m) (m_gates m) \<and> v_base (m_vga m) = VGA_FRAMEBUFFER_HHDM \<and> m_sinks m = register_sinks \<and> vga_ok (m_vga m)"
proof -
  define u where "u = snd (early_uart_init dev \<lparr>uart_present = False, u_tr = cli tr\<rparr>)"
  define v where "v = early_vga_init VGA_FRAMEBUFFER \<lparr>v_base = 0, v_cells = cells, v_cx = 0, v_cy = 0, v_color = DEFAULT_COLOR, v_tr = u_tr u\<rparr>"
  obtain v1 where v1: "early_vga_clrscr v = Ok v1" "vga_ok v1" using clrscr_ok [of v] scr by (auto simp: v_def early_vga_init_def)
  obtain u2 v2 where p1: "printk dev register_sinks ''Kernel loaded at %#p\<newline>'' [VWord (i_entry l)] (u, v1) = Some (Ok (u2, v2))" "vga_ok v2"
    using printk_defined [OF dev(2) register_sinks_known v1(2) loaded_message] by blast
  obtain u3 v3 where p2: "printk dev register_sinks ''[OK] printk() active\<newline>'' [] (u2, v2) = Some (Ok (u3, v3))" "vga_ok v3"
    using printk_defined [OF dev(2) register_sinks_known p1(2) active_message] by blast
  obtain c where c: "gdt_init (i_gdt l) (i_tss l) (i_kern_stack l) (i_emergency_stack l) = Ok c" using gdt_ok by blast
  obtain g0 tr1 g where g: "isr_init isr_table gates_boot = Ok g0" "irq_init dev isr_table (v_tr v3, g0) = Ok (tr1, g)" "interrupts_ready isr_table tr1 g"
    using gates_ok [where isr_table = isr_table, OF dev(1) stubs] by blast
  obtain tr2 where p: "pit_set_freq 1024 tr1 = Ok tr2" "pic1 tr2 = pic1 tr1" "pic2 tr2 = pic2 tr1" using pit_lines by blast
  have "line_vector tr2 n = line_vector tr1 n" "line_masked tr2 n = line_masked tr1 n" "pics_ready tr2 = pics_ready tr1" for n
    using p(2, 3) by (simp_all add: line_vector_def line_masked_def pics_ready_def)
  then have i: "interrupts_ready isr_table tr2 g" using g(3) by (simp add: interrupts_ready_def)
  define m where "m = \<lparr>m_uart = u3\<lparr>u_tr := tr2\<rparr>, m_vga = (early_vga_init VGA_FRAMEBUFFER_HHDM v3)\<lparr>v_tr := tr2\<rparr>, m_sinks = register_sinks,
    m_cpu = c, m_idtr = idt_init (i_gates l), m_gates = g, m_trace = tr2, m_map = [], m_mem = st\<rparr>"
  have "start_machine dev isr_table l raw cells st tr = Some (rbind r (\<lambda>(es, st). Ok (m\<lparr>m_map := es, m_mem := st\<rparr>)))"
    unfolding start_machine_def u_def [symmetric] Let_def v_def [symmetric]
    by (cases r) (auto simp: v1 p1 p2 c g(1, 2) r p(1) m_def)
  then show ?thesis using i p2(2) by (intro exI [of _ m]) (simp add: m_def early_vga_init_def vga_ok_def)
qed

text \<open>
  Claim C1. The kernel from its entry point to user mode, on a firmware map with 20 chunks of 64 KiB of RAM below the kernel image and with a serial
  line whose transmitter drains: \<^verbatim>\<open>entry\<close>, with its own messages, comes to an end, either in a panic (a page fault of the kernel is one of them) or by entering
  user mode, never in an access outside an array, through a null pointer or in other undefined behaviour. When user mode is entered the
  timer and the keyboard raise the vectors 32 and 33 and every vector leads to its stub, every further message ends, too, the page tables of the
  kernel are well formed, and the four tasks are ready as \<^verbatim>\<open>make_task\<close> promises.
\<close>

theorem kernel_entry_correct:
  assumes tab: "static_tables (i_tables l) K" "static_zero (i_tables l) (pmem st)"
    and K: "\<forall>f \<in> K. unat KERNEL_PHYS \<le> 4096 * f \<and> 4096 * f < unat (i_end l)" and ke: "unat (i_end l) \<le> PHYS_LIMIT"
    and raw: "2 \<le> length raw" "length raw \<le> 128" "no_wrap raw" "\<forall>e \<in> set raw. e_hi e \<le> PHYS_LIMIT" "20 \<le> card (ram_chunks raw)"
    and init: "bm_state (k_bm st) = DISABLED" "free_matrix (k_bd st) = replicate (Suc PAGE_MAX_ORDER) None"
    and dev: "reads_masks dev" "transmits dev" and stubs: "\<And>i. i < 256 \<Longrightarrow> isr_table i \<noteq> 0" and scr: "length cells = 2000"
  shows "\<exists>r. kernel_entry dev isr_table l raw cells code st tr = Some r \<and>
    (case r of Err e \<Rightarrow> \<exists>msg. e = Panic msg
     | Ok (m, f, s) \<Rightarrow> interrupts_ready isr_table (m_trace m) (m_gates m) \<and> v_base (m_vga m) = VGA_FRAMEBUFFER_HHDM \<and>
         (\<forall>fmt va. \<exists>q. printk dev (m_sinks m) fmt va (m_uart m, m_vga m) = Some q \<and> (\<forall>e. q = Err e \<longrightarrow> e = Undefined)) \<and>
         tree_ok (m_map m) K (mmu (kern_pml4 (i_tables l))) (m_mem m) \<and>
         tasks_started (i_tables l) (m_map m) K code (m_mem m) f s)"
proof -
  let ?root = "mmu (kern_pml4 (i_tables l))"
  have "ram_chunks raw \<noteq> {}" using raw(5) by auto
  then obtain c where "c \<in> ram_chunks raw" by blast
  then have b: "type_spec raw (65536 * c) = E820_TYPE_RAM" by (simp add: ram_chunks_def)
  obtain r where r: "boot_memory (i_tables l) raw (i_end l) st = Some r" and R: "case r of Err e \<Rightarrow> \<exists>m. e = Panic m
      | Ok (es, st') \<Rightarrow> memory_started (i_tables l) K raw es st'"
    using boot_memory_spec [OF tab K ke raw(1-3) b raw(4) init] by blast
  obtain m where m: "start_machine dev isr_table l raw cells st tr = Some (rbind r (\<lambda>(es, st). Ok (m\<lparr>m_map := es, m_mem := st\<rparr>)))"
    "interrupts_ready isr_table (m_trace m) (m_gates m)" "v_base (m_vga m) = VGA_FRAMEBUFFER_HHDM" "m_sinks m = register_sinks" "vga_ok (m_vga m)"
    using start_machine_eq [where isr_table = isr_table, OF dev stubs scr r] by blast
  have say: "\<exists>q. printk dev (m_sinks m) fmt va (m_uart m, m_vga m) = Some q \<and> (\<forall>e. q = Err e \<longrightarrow> e = Undefined)" for fmt va
    using printk_ends [OF dev(2) register_sinks_known m(5), of fmt va "m_uart m"] unfolding m(4) by (elim exE conjE) (intro exI conjI, assumption, auto)
  show ?thesis
  proof (cases r)
    case (Err e)
    then show ?thesis using R m(1) by (simp add: kernel_entry_def)
  next
    case (Ok q)
    then obtain es st' where q: "r = Ok (es, st')" by (cases q) auto
    note R' = R [unfolded q kres.case prod.case memory_started_def]
    have "vstate st' = VMM_READY" "tree_ok es K ?root st'" using R' by blast+
    then have "buddy_inv (k_bd st')" by (simp add: tree_ok_def kinv_def)
    then have "16 * 20 \<le> nr_big st'" using boot_room [of es raw st' "unat (pool_end (k_bm st'))" 20] R' raw(5) by blast
    then obtain f s where s: "start_tasks (i_tables l) es code (sched_boot st') = Ok (f, s)" "tasks_started (i_tables l) es K code st' f s"
      using start_tasks_ready [of es K "i_tables l" st' code] R' by auto
    then have "kernel_entry dev isr_table l raw cells code st tr = Some (Ok (m\<lparr>m_map := es, m_mem := st'\<rparr>, f, s))"
      using m(1) q by (simp add: kernel_entry_def)
    then show ?thesis using s(2) m(2, 3) say R' by simp
  qed
qed

section \<open>A concrete instance\<close>

definition boot_image :: image_layout where
  "boot_image = \<lparr>i_gdt = 0xFFFFFFFF80020000, i_tss = 0xFFFFFFFF80021000, i_kern_stack = 0xFFFFFFFF80022000, i_emergency_stack = 0xFFFFFFFF80023000,
     i_gates = 0xFFFFFFFF80024000, i_tables = boot_tables, i_end = 0x240000, i_entry = 0xFFFFFFFF80000000\<rparr>"

text \<open>The data-sheet interrupt controllers together with a serial line that is always ready.\<close>

definition boot_device :: device where
  "boot_device tr p = (if p = UART_PORT + REG_LSR then 0x20 else data_sheet tr p)"

lemma boot_device_ok: "reads_masks boot_device" "transmits boot_device"
proof -
  show "reads_masks boot_device"
    using data_sheet_reads by (simp add: reads_masks_def boot_device_def UART_PORT_def REG_LSR_def PIC1_DATA_def PIC2_DATA_def)
  show "transmits boot_device" by (simp add: transmits_def boot_device_def inb_def BSY_def)
qed

lemma boot_map_type:
  assumes "a < 0x9FC00 \<or> 0x100000 \<le> a \<and> a < 0x280000"
  shows "type_spec boot_map a = E820_TYPE_RAM"
proof -
  have "{e \<in> set boot_map. covers e a} = {if a < 0x9FC00 then \<lparr>e_addr = 0, e_size = 0x9FC00, e_type = E820_TYPE_RAM\<rparr>
      else \<lparr>e_addr = 0x100000, e_size = 0x180000, e_type = E820_TYPE_RAM\<rparr>}"
    using assms by (auto simp: boot_map_def covers_def e_lo_def e_hi_def)
  then show ?thesis by (simp add: type_spec_def E820_TYPE_RAM_def)
qed

lemma boot_map_chunks: "20 \<le> card (ram_chunks boot_map)"
proof -
  have b: "bounds boot_map = {0, 0xF0000, 0x100000, 0x9FC00, 0x280000}" by (auto simp: bounds_def boot_map_def e_lo_def e_hi_def)
  have "c \<in> ram_chunks boot_map" if "c < 9 \<or> 16 \<le> c \<and> c < 32" for c
    using that boot_map_type unfolding ram_chunks_def b by auto
  then have "{0..<9} \<union> {16..<32} \<subseteq> ram_chunks boot_map" by auto
  moreover have "finite (ram_chunks boot_map)" by (rule finite_subset [of _ "{..<32}"]) (auto simp: ram_chunks_def)
  moreover have "card ({0..<9} \<union> {16..<32 :: nat}) = 25" by (subst card_Un_disjoint) auto
  ultimately show ?thesis using card_mono [of "ram_chunks boot_map" "{0..<9} \<union> {16..<32}"] by linarith
qed

theorem kernel_entry_correct_witness:
  "\<exists>r. kernel_entry boot_device (\<lambda>_. 0xFFFFFFFF80010000) boot_image boot_map (replicate 2000 0) (replicate 512 0x90)
       (empty_kmem\<lparr>k_bm := bootmem_boot\<rparr>) [] = Some r \<and>
     (\<forall>e. r = Err e \<longrightarrow> (\<exists>msg. e = Panic msg)) \<and> (\<forall>m f s. r = Ok (m, f, s) \<longrightarrow> f_cs f = 0x2B \<and> line_vector (m_trace m) 0 = 32)"
proof -
  let ?st = "empty_kmem\<lparr>k_bm := bootmem_boot\<rparr>"
  have t: "static_tables (i_tables boot_image) {0x200..<0x240}" "static_zero (i_tables boot_image) (pmem ?st)"
    using boot_tables_static by (simp_all add: boot_image_def static_zero_def empty_kmem_def)
  have K: "\<forall>f \<in> {0x200..<0x240}. unat KERNEL_PHYS \<le> 4096 * f \<and> 4096 * f < unat (i_end boot_image)" "unat (i_end boot_image) \<le> PHYS_LIMIT"
    by (simp_all add: KERNEL_PHYS_def PHYS_LIMIT_def boot_image_def)
  have i: "bm_state (k_bm ?st) = DISABLED" "free_matrix (k_bd ?st) = replicate (Suc PAGE_MAX_ORDER) None"
    by (simp_all add: bootmem_boot_def empty_kmem_def boot_buddy_def)
  have o: "(0xFFFFFFFF80010000 :: u64) \<noteq> 0" "length (replicate 2000 (0 :: u16)) = 2000" by simp_all
  obtain r where r: "kernel_entry boot_device (\<lambda>_. 0xFFFFFFFF80010000) boot_image boot_map (replicate 2000 0) (replicate 512 0x90) ?st [] = Some r"
    "case r of Err e \<Rightarrow> \<exists>msg. e = Panic msg
     | Ok (m, f, s) \<Rightarrow> interrupts_ready (\<lambda>_. 0xFFFFFFFF80010000) (m_trace m) (m_gates m) \<and> v_base (m_vga m) = VGA_FRAMEBUFFER_HHDM \<and>
         (\<forall>fmt va. \<exists>q. printk boot_device (m_sinks m) fmt va (m_uart m, m_vga m) = Some q \<and> (\<forall>e. q = Err e \<longrightarrow> e = Undefined)) \<and>
         tree_ok (m_map m) {0x200..<0x240} (mmu (kern_pml4 (i_tables boot_image))) (m_mem m) \<and>
         tasks_started (i_tables boot_image) (m_map m) {0x200..<0x240} (replicate 512 0x90) (m_mem m) f s"
    using kernel_entry_correct [OF t K boot_map_raw(1-4) boot_map_chunks i boot_device_ok o] by blast
  then show ?thesis by (intro exI [of _ r]) (auto simp: interrupts_ready_def tasks_started_def)
qed

end
