(* ===== verification/Strings.thy ===== *)
theory Strings
  imports Prelude
begin

text \<open>
  The memory and string routines of the kernel (\<^verbatim>\<open>lib/string.c\<close>, 64-bit pointers) and of the loader (\<^verbatim>\<open>boot/string.c\<close>, 32-bit pointers). Memory is a
  function from addresses to bytes; scanning a string for its terminator need not end, so the scans are partial functions. The loader
  passes C strings whose extent it knows: there a string is the list of its characters, and the end of the list is the terminator.
\<close>

section \<open>Byte memory\<close>

type_synonym 'a mem = "'a word \<Rightarrow> u8"

definition store_bytes :: "'a::len word \<Rightarrow> u8 list \<Rightarrow> 'a mem \<Rightarrow> 'a mem" where
  "store_bytes p bs m = fold (\<lambda>i m. m(p + of_nat i := bs ! i)) [0..<length bs] m"

definition load32 :: "'a::len word \<Rightarrow> 'a mem \<Rightarrow> u32" where
  "load32 p m = ucast (m p) OR push_bit 8 (ucast (m (p + 1))) OR push_bit 16 (ucast (m (p + 2))) OR push_bit 24 (ucast (m (p + 3)))"

definition store32 :: "'a::len word \<Rightarrow> u32 \<Rightarrow> 'a mem \<Rightarrow> 'a mem" where
  "store32 p v m = m(p := ucast v, p + 1 := ucast (drop_bit 8 v), p + 2 := ucast (drop_bit 16 v), p + 3 := ucast (drop_bit 24 v))"

section \<open>Kernel routines\<close>

definition memset_kern :: "u64 \<Rightarrow> int \<Rightarrow> u64 \<Rightarrow> 64 mem \<Rightarrow> u64 \<times> 64 mem" where
  "memset_kern ptr v num m =
     (if ptr = 0 then (0, m) else (ptr, fold (\<lambda>i m. m(ptr + of_nat i := word_of_int v)) [0..<unat num] m))"

partial_function (option) scan_bytes :: "u64 \<Rightarrow> 64 mem \<Rightarrow> u64 option" where
  "scan_bytes p m = (if m p \<noteq> 0 then scan_bytes (p + 1) m else Some p)"

definition strlen :: "u64 \<Rightarrow> 64 mem \<Rightarrow> u64 option" where
  "strlen s m = (if s = 0 then Some 0 else map_option (\<lambda>p. p - s) (scan_bytes s m))"

partial_function (option) scan_wide :: "u64 \<Rightarrow> 64 mem \<Rightarrow> u64 option" where
  "scan_wide p m = (if load32 p m \<noteq> 0 then scan_wide (p + 4) m else Some p)"

definition wcslen :: "u64 \<Rightarrow> 64 mem \<Rightarrow> u64 option" where
  "wcslen s m = (if s = 0 then Some 0 else map_option (\<lambda>p. (p - s) div 4) (scan_wide s m))"

definition memcpy :: "u64 \<Rightarrow> u64 \<Rightarrow> u64 \<Rightarrow> 64 mem \<Rightarrow> u64 \<times> 64 mem" where
  "memcpy dest src count m =
     (if dest = 0 then (0, m) else if src = 0 then (0, m)
      else (dest, fold (\<lambda>i m. m(dest + of_nat i := m (src + of_nat i))) [0..<unat count] m))"

section \<open>Loader routines\<close>

function memset_words :: "u32 \<Rightarrow> u32 \<Rightarrow> u32 \<Rightarrow> 32 mem \<Rightarrow> u32 \<times> u32 \<times> 32 mem" where
  "memset_words p32 v32 sz m =
     (if sz \<ge> 4 then memset_words (p32 + 4) v32 (sz - 4) (store32 p32 v32 m) else (p32, sz, m))"
  by pat_completeness auto
termination
proof (relation "measure (\<lambda>(p32, v32, sz, m). unat sz)")
  show "((p32 + 4, v32, sz - 4, store32 p32 v32 m), p32, v32, sz, m) \<in> measure (\<lambda>(p32, v32, sz, m). unat sz)" if "4 \<le> sz"
    for p32 v32 sz :: u32 and m :: "32 mem"
    using that by (simp add: unat_sub word_le_nat_alt)
qed simp

function memset_tail :: "u32 \<Rightarrow> u8 \<Rightarrow> u32 \<Rightarrow> 32 mem \<Rightarrow> 32 mem" where
  "memset_tail p8 v sz m = (if sz \<noteq> 0 then memset_tail (p8 + 1) v (sz - 1) (m(p8 := v)) else m)"
  by pat_completeness auto
termination
proof (relation "measure (\<lambda>(p8, v, sz, m). unat sz)")
  show "((p8 + 1, v, sz - 1, m(p8 := v)), p8, v, sz, m) \<in> measure (\<lambda>(p8, v, sz, m). unat sz)" if "sz \<noteq> 0"
    for p8 sz :: u32 and v :: u8 and m :: "32 mem"
    using that by (simp add: unat_minus_one unat_gt_0)
qed simp

declare memset_words.simps [simp del] memset_tail.simps [simp del]

definition memset_boot :: "u32 \<Rightarrow> u8 \<Rightarrow> u32 \<Rightarrow> 32 mem \<Rightarrow> u32 \<times> 32 mem" where
  "memset_boot ptr v sz m =
     (let (p8, rest, m) = memset_words ptr (ucast v * 0x01010101) sz m in (ptr, memset_tail p8 v rest m))"

text \<open>The difference of two bytes as an \<^verbatim>\<open>int\<close>; the objects compared are byte lists.\<close>

fun memcmp_from :: "nat \<Rightarrow> u8 list \<Rightarrow> u8 list \<Rightarrow> nat \<Rightarrow> int" where
  "memcmp_from i s1 s2 0 = 0"
| "memcmp_from i s1 s2 (Suc n) =
     (let ret = uint (s1 ! i) - uint (s2 ! i) in if ret \<noteq> 0 then ret else memcmp_from (Suc i) s1 s2 n)"

definition memcmp :: "u8 list \<Rightarrow> u8 list \<Rightarrow> u32 \<Rightarrow> int" where
  "memcmp s1 s2 n = memcmp_from 0 s1 s2 (unat n)"

definition toupper :: "u8 \<Rightarrow> u8" where
  "toupper ch = (if sint ch \<ge> 97 \<and> sint ch \<le> 122 then ch - 32 else ch)"

text \<open>The character a pointer into a string points to: 0 at its end.\<close>

definition deref :: "u8 list \<Rightarrow> u8" where
  "deref str = (case str of [] \<Rightarrow> 0 | ch # _ \<Rightarrow> ch)"

fun strchr :: "u8 list \<Rightarrow> u8 \<Rightarrow> u8 list option" where
  "strchr [] ch = None"
| "strchr (c # str) ch = (if c = 0 then None else if c = ch then Some (c # str) else strchr str ch)"

section \<open>Byte stores\<close>

lemma store_bytes_Nil [simp]: "store_bytes p [] m = m"
  by (simp add: store_bytes_def)

lemma store_bytes_snoc: "store_bytes p (bs @ [b]) m = (store_bytes p bs m)(p + of_nat (length bs) := b)"
proof -
  have "fold (\<lambda>i m. m(p + of_nat i := (bs @ [b]) ! i)) [0..<length bs] m = store_bytes p bs m"
    unfolding store_bytes_def by (rule fold_cong) (auto simp: nth_append)
  then show ?thesis by (simp add: store_bytes_def)
qed

lemma store_bytes_append: "store_bytes p (as @ bs) m = store_bytes (p + of_nat (length as)) bs (store_bytes p as m)"
proof (induction bs rule: rev_induct)
  case (snoc b bs)
  then show ?case by (simp add: store_bytes_snoc append_assoc [symmetric] add.assoc del: append_assoc)
qed simp

lemma store_bytes_Cons: "store_bytes p (b # bs) m = store_bytes (p + 1) bs (m(p := b))"
  using store_bytes_append [of p "[b]" bs m] store_bytes_snoc [of p "[]" b m] by simp

lemma fold_store_const: "fold (\<lambda>i m. m(p + of_nat i := v)) [0..<n] m = store_bytes p (replicate n v) m"
  unfolding store_bytes_def by (simp, rule fold_cong) auto

text \<open>Without wrap-around a store is seen exactly at the addresses it covers.\<close>

lemma store_bytes_apply:
  fixes p :: "'a::len word"
  assumes "length bs \<le> 2 ^ LENGTH('a)"
  shows "store_bytes p bs m a = (if unat (a - p) < length bs then bs ! unat (a - p) else m a)"
  using assms
proof (induction bs rule: rev_induct)
  case (snoc b bs)
  have len: "length bs < 2 ^ LENGTH('a)" using snoc.prems by simp
  have eq: "a = p + of_nat (length bs) \<longleftrightarrow> unat (a - p) = length bs"
  proof -
    have "a = p + of_nat (length bs) \<longleftrightarrow> a - p = of_nat (length bs)" by (auto simp: algebra_simps)
    also have "\<dots> \<longleftrightarrow> unat (a - p) = length bs" using len by (auto simp: word_unat_eq_iff unsigned_of_nat take_bit_nat_eq_self)
    finally show ?thesis .
  qed
  show ?case
    using snoc.IH len by (auto simp: store_bytes_snoc eq nth_append less_Suc_eq)
qed simp

section \<open>The word-wise fill\<close>

lemma splat_bytes:
  fixes v :: u8
  defines "w \<equiv> ucast v * 0x01010101 :: u32"
  shows "ucast w = v" "ucast (drop_bit 8 w) = v" "ucast (drop_bit 16 w) = v" "ucast (drop_bit 24 w) = v"
proof -
  have b: "unat v < 256" using unsigned_less [of v, where ?'a = nat] by simp
  have w: "unat w = unat v * 16843009"
    unfolding w_def using b by (subst unat_mult_lt) (simp_all add: unsigned_ucast_eq take_bit_eq_mod)
  have step: "(unat v + 256 * k) mod 256 = unat v" "(unat v + 256 * k) div 256 = k" for k using b by simp_all
  have sum: "unat v * 16843009 = unat v + 256 * (unat v + 256 * (unat v + 256 * unat v))" by simp
  have bytes: "unat v * 16843009 mod 256 = unat v" "unat v * 16843009 div 256 mod 256 = unat v"
    "unat v * 16843009 div 256 div 256 mod 256 = unat v" "unat v * 16843009 div 256 div 256 div 256 mod 256 = unat v"
    unfolding sum step using b by simp_all
  have div: "n div 65536 = n div 256 div 256" "n div 16777216 = n div 256 div 256 div 256" for n :: nat
    by (simp_all add: div_mult2_eq [symmetric])
  show "ucast w = v" "ucast (drop_bit 8 w) = v" "ucast (drop_bit 16 w) = v" "ucast (drop_bit 24 w) = v"
    by (simp_all add: word_unat_eq_iff unsigned_ucast_eq take_bit_eq_mod drop_bit_eq_div unat_div w div bytes)
qed

lemma store32_splat: "store32 p (ucast v * 0x01010101) m = store_bytes p (replicate 4 v) m"
  proof -
  have "replicate 4 v = [v, v, v, v]" by (simp add: numeral_eq_Suc)
  then show ?thesis by (simp only: store32_def splat_bytes store_bytes_Cons store_bytes_Nil add.assoc) simp
qed

lemma memset_words_fill:
  "memset_words p (ucast v * 0x01010101) sz m =
     (p + of_nat (4 * (unat sz div 4)), sz mod 4, store_bytes p (replicate (4 * (unat sz div 4)) v) m)"
proof (induction p "ucast v * 0x01010101 :: u32" sz m rule: memset_words.induct)
  case (1 p sz m)
  show ?case
  proof (cases "4 \<le> sz")
    case True
    then have le: "4 \<le> unat sz" by (simp add: word_le_nat_alt)
    have u: "unat (sz - 4) = unat sz - 4" using True by (simp add: unat_sub)
    have k: "4 * (unat sz div 4) = 4 + 4 * ((unat sz - 4) div 4)" using le by (simp add: div_if [of "unat sz"])
    have md: "(sz - 4) mod 4 = sz mod 4"
      using le by (simp add: word_unat_eq_iff unat_mod u le_mod_geq)
    show ?thesis
      using 1 [OF True] True
      by (subst memset_words.simps) (simp add: u md k store32_splat replicate_add store_bytes_append add.assoc)
  next
    case False
    then have "unat sz < 4" by (simp add: word_le_nat_alt not_le)
    then have "sz mod 4 = sz" "unat sz div 4 = 0" by (simp_all add: word_unat_eq_iff unat_mod)
    then show ?thesis using False by (subst memset_words.simps) simp
  qed
qed

lemma memset_tail_fill: "memset_tail p v sz m = store_bytes p (replicate (unat sz) v) m"
proof (induction p v sz m rule: memset_tail.induct)
  case (1 p v sz m)
  show ?case
  proof (cases "sz = 0")
    case True
    then show ?thesis by (simp add: memset_tail.simps)
  next
    case False
    then have "unat sz = Suc (unat (sz - 1))" by (simp add: unat_minus_one unat_gt_0)
    then show ?thesis using 1 [OF False] False by (subst memset_tail.simps) (simp add: store_bytes_Cons del: fun_upd_apply)
  qed
qed

lemma memset_boot_fill: "memset_boot ptr v sz m = (ptr, store_bytes ptr (replicate (unat sz) v) m)"
proof -
  have n: "4 * (unat sz div 4) + unat (sz mod 4) = unat sz" by (simp add: unat_mod)
  show ?thesis
    unfolding memset_boot_def memset_words_fill
    by (simp add: memset_tail_fill store_bytes_append [symmetric] replicate_add [symmetric] n
        store_bytes_append [of ptr "replicate (4 * (unat sz div 4)) v", simplified, symmetric])
qed

text \<open>
  Claim C35. The loader's \<^verbatim>\<open>memset\<close>, which fills four bytes at a time and the remainder one by one, writes for every address, value and size the same memory
  as the kernel's byte-wise loop, and returns its argument.
\<close>

theorem memset_boot_equiv:
  "memset_boot ptr v sz m = (ptr, fold (\<lambda>i m. m(ptr + of_nat i := v)) [0..<unat sz] m)"
  unfolding fold_store_const by (rule memset_boot_fill)

section \<open>Copying and scanning\<close>

lemma memcpy_step:
  assumes "n \<le> 2 ^ 64" and "\<And>i j. i < n \<Longrightarrow> j < n \<Longrightarrow> src + of_nat i \<noteq> dest + (of_nat j :: u64)"
  shows "fold (\<lambda>i m. m(dest + of_nat i := m (src + of_nat i))) [0..<n] m = store_bytes dest (map (\<lambda>i. m (src + of_nat i)) [0..<n]) m"
  using assms
proof (induction n)
  case (Suc n)
  have s: "store_bytes dest (map (\<lambda>i. m (src + of_nat i)) [0..<n]) m (src + of_nat n) = m (src + of_nat n)"
  proof -
    have "\<not> unat (src + of_nat n - dest) < n"
    proof
      assume "unat (src + of_nat n - dest) < n"
      moreover have "src + of_nat n = dest + of_nat (unat (src + of_nat n - dest))" by simp
      ultimately show False using Suc.prems(2) [of n "unat (src + of_nat n - dest)"] by auto
    qed
    then show ?thesis using Suc.prems(1) by (simp add: store_bytes_apply)
  qed
  show ?case using Suc by (simp add: store_bytes_snoc s del: fun_upd_apply)
qed simp

text \<open>Copying between areas that do not overlap stores the source bytes at the destination.\<close>

lemma memcpy_disjoint:
  assumes "dest \<noteq> 0" "src \<noteq> 0" "\<And>i j. i < unat count \<Longrightarrow> j < unat count \<Longrightarrow> src + of_nat i \<noteq> dest + of_nat j"
  shows "memcpy dest src count m = (dest, store_bytes dest (map (\<lambda>i. m (src + of_nat i)) [0..<unat count]) m)"
proof -
  have "unat count \<le> 2 ^ 64" using unsigned_less [of count, where ?'a = nat] by (simp add: less_imp_le)
  from memcpy_step [OF this assms(3)] assms(1, 2) show ?thesis by (simp add: memcpy_def)
qed

text \<open>A scan ends at the first terminator, and does not end without one.\<close>

lemma scan_bytes_first:
  assumes "m (s + of_nat n) = 0" "\<forall>i<n. m (s + of_nat i) \<noteq> 0"
  shows "scan_bytes s m = Some (s + of_nat n)"
  using assms
proof (induction n arbitrary: s)
  case 0
  then show ?case by (subst scan_bytes.simps) simp
next
  case (Suc n)
  have "m s \<noteq> 0" using Suc.prems(2) [rule_format, of 0] by simp
  moreover have "scan_bytes (s + 1) m = Some (s + 1 + of_nat n)"
  proof (rule Suc.IH)
    show "m (s + 1 + of_nat n) = 0" using Suc.prems(1) by (simp add: add.assoc)
    show "\<forall>i<n. m (s + 1 + of_nat i) \<noteq> 0"
    proof safe
      fix i assume "i < n" "m (s + 1 + of_nat i) = 0"
      then show False using Suc.prems(2) [rule_format, of "Suc i"] by (simp add: add.assoc)
    qed
  qed
  ultimately show ?case by (subst scan_bytes.simps) (simp add: add.assoc)
qed

lemma strlen_first:
  assumes "s \<noteq> 0" "m (s + of_nat n) = 0" "\<forall>i<n. m (s + of_nat i) \<noteq> 0"
  shows "strlen s m = Some (of_nat n)"
  using assms by (simp add: strlen_def scan_bytes_first)

section \<open>Comparison\<close>

lemma memcmp_from_zero:
  "memcmp_from i s1 s2 n = 0 \<longleftrightarrow> (\<forall>j<n. s1 ! (i + j) = s2 ! (i + j))"
proof (induction n arbitrary: i)
  case (Suc n)
  have d: "uint (s1 ! i) - uint (s2 ! i) \<noteq> 0 \<longleftrightarrow> s1 ! i \<noteq> s2 ! i" by (simp add: word_uint_eq_iff)
  show ?case
    by (simp add: d Let_def Suc.IH All_less_Suc2 del: right_minus_eq)
qed simp

lemma memcmp_zero:
  assumes "unat n = length s1" "length s2 = length s1"
  shows "memcmp s1 s2 n = 0 \<longleftrightarrow> s1 = s2"
  using assms by (auto simp: memcmp_def memcmp_from_zero list_eq_iff_nth_eq)

end
