(* ===== verification/Fat.thy ===== *)
theory Fat
  imports Strings
begin

text \<open>
  The loader's FAT32 reader (\<^verbatim>\<open>boot/fat.c\<close>, \<^verbatim>\<open>boot/fat.h\<close>). The disk driver of the boot loader is a parameter: for a controller, port, first sector
  and number of sectors it returns a status and the bytes of the buffer afterwards. The state is the cached sector of the allocation
  table. Following a cluster chain need not end, so the operations that do are partial functions.
\<close>

section \<open>Devices\<close>

type_synonym disk = "u32 \<Rightarrow> u8 \<Rightarrow> u32 \<Rightarrow> u32 \<Rightarrow> int \<times> (nat \<Rightarrow> u8)"

record fat_dev =
  dev_abar :: u32
  dev_port :: u8
  dev_lba :: u32
  dev_sectors :: u32
  dev_fat :: u32
  dev_fat_sectors :: u32
  dev_root_dir_cluster :: u32
  dev_data :: u32
  dev_sectors_per_cluster :: u8

definition le16 :: "(nat \<Rightarrow> u8) \<Rightarrow> nat \<Rightarrow> u16" where
  "le16 b i = ucast (b i) OR push_bit 8 (ucast (b (i + 1)))"

definition le32 :: "(nat \<Rightarrow> u8) \<Rightarrow> nat \<Rightarrow> u32" where
  "le32 b i = ucast (le16 b i) OR push_bit 16 (ucast (le16 b (i + 2)))"

text \<open>The fields of the BIOS parameter block that the reader uses, at their offsets in the boot sector.\<close>

record fat_bpb =
  sectors_per_cluster :: u8
  reserved_sectors :: u16
  fat_count :: u8
  sectors_per_fat :: u32
  root_dir_cluster :: u32

definition fat_header_of :: "(nat \<Rightarrow> u8) \<Rightarrow> fat_bpb" where
  "fat_header_of b =
     \<lparr>sectors_per_cluster = b 0x0D, reserved_sectors = le16 b 0x0E, fat_count = b 0x10, sectors_per_fat = le32 b 0x24, root_dir_cluster = le32 b 0x2C\<rparr>"

definition fat_read_sectors :: "disk \<Rightarrow> fat_dev \<Rightarrow> u32 \<Rightarrow> u32 \<Rightarrow> int \<times> (nat \<Rightarrow> u8) option" where
  "fat_read_sectors disk_read dev lba count =
     (if lba + count > dev_sectors dev then (-1, None)
      else case disk_read (dev_abar dev) (dev_port dev) (dev_lba dev + lba) count of (err, b) \<Rightarrow> (err, Some b))"

definition fat_dev_init :: "disk \<Rightarrow> u32 \<Rightarrow> u8 \<Rightarrow> u32 \<Rightarrow> u32 \<Rightarrow> fat_dev \<Rightarrow> int \<times> fat_dev" where
  "fat_dev_init disk_read abar port lba sectors dev0 =
     (let dev = dev0\<lparr>dev_abar := abar, dev_port := port, dev_lba := lba, dev_sectors := sectors\<rparr>
      in case fat_read_sectors disk_read dev 0 1 of
           (err, Some b) \<Rightarrow>
             if err \<noteq> 0 then (-1, dev)
             else
               let bpb = fat_header_of b;
                   fat = ucast (reserved_sectors bpb);
                   fat_sectors = ucast (fat_count bpb) * sectors_per_fat bpb
               in (0, dev\<lparr>dev_fat := fat, dev_fat_sectors := fat_sectors, dev_root_dir_cluster := root_dir_cluster bpb,
                      dev_data := fat + fat_sectors, dev_sectors_per_cluster := sectors_per_cluster bpb\<rparr>)
         | (err, None) \<Rightarrow> (-1, dev))"

section \<open>The cached sector of the allocation table\<close>

record fat_cache =
  c_valid :: bool
  c_abar :: u32
  c_port :: u8
  c_lba :: u32
  c_fat :: u32
  c_fat_sectors :: u32
  c_sector_no :: u32
  c_entry :: "nat \<Rightarrow> u32"

definition fat_cache_boot :: fat_cache where
  "fat_cache_boot = \<lparr>c_valid = False, c_abar = 0, c_port = 0, c_lba = 0, c_fat = 0, c_fat_sectors = 0, c_sector_no = 0, c_entry = \<lambda>_. 0\<rparr>"

definition fat_cache_is_stale :: "fat_dev \<Rightarrow> u32 \<Rightarrow> fat_cache \<Rightarrow> bool" where
  "fat_cache_is_stale dev sector_no c =
     (if \<not> c_valid c then True
      else if c_abar c \<noteq> dev_abar dev \<or> c_port c \<noteq> dev_port dev \<or> c_lba c \<noteq> dev_lba dev \<or> c_fat c \<noteq> dev_fat dev \<or> c_fat_sectors c \<noteq> dev_fat_sectors dev then True
      else if c_sector_no c \<noteq> sector_no then True
      else False)"

text \<open>The sector is read into the cache itself: a failing read changes the entries and leaves the description as it was.\<close>

definition fat_cache_fetch :: "disk \<Rightarrow> fat_dev \<Rightarrow> u32 \<Rightarrow> fat_cache \<Rightarrow> int \<times> fat_cache" where
  "fat_cache_fetch disk_read dev sector_no c =
     (case fat_read_sectors disk_read dev (dev_fat dev + sector_no) 1 of (err, b) \<Rightarrow>
        let c = (case b of None \<Rightarrow> c | Some b \<Rightarrow> c\<lparr>c_entry := \<lambda>i. le32 b (4 * i)\<rparr>)
        in if err \<noteq> 0 then (err, c)
           else (0, c\<lparr>c_valid := True, c_abar := dev_abar dev, c_port := dev_port dev, c_lba := dev_lba dev, c_fat := dev_fat dev,
                      c_fat_sectors := dev_fat_sectors dev, c_sector_no := sector_no\<rparr>))"

definition fat_get_next_cluster :: "disk \<Rightarrow> fat_dev \<Rightarrow> u32 \<Rightarrow> fat_cache \<Rightarrow> (int + u32) \<times> fat_cache" where
  "fat_get_next_cluster disk_read dev current_cluster_no c =
     (let sector_no = current_cluster_no div 128;
          local_offset = current_cluster_no mod 128;
          (err, c) = (if fat_cache_is_stale dev sector_no c then fat_cache_fetch disk_read dev sector_no c else (0, c))
      in if err \<noteq> 0 then (Inl err, c) else (Inr (c_entry c (unat local_offset)), c))"

section \<open>Directories\<close>

definition FAT_ATTR_DIRECTORY :: u8 where "FAT_ATTR_DIRECTORY = 0x10"

record fat_dir_entry =
  de_name :: "u8 list"
  de_ext :: "u8 list"
  de_attributes :: u8
  de_reserved :: u8
  de_creation_time_tenths :: u8
  de_creation_time :: u16
  de_creation_date :: u16
  de_last_access_date :: u16
  de_cluster_high :: u16
  de_write_time :: u16
  de_write_date :: u16
  de_cluster_low :: u16
  de_size :: u32

definition sizeof_fat_dir_entry :: nat where "sizeof_fat_dir_entry = 32"
definition FAT_DIR_ENTRIES_PER_SECTOR :: nat where "FAT_DIR_ENTRIES_PER_SECTOR = 512 div sizeof_fat_dir_entry"

definition dir_entry_at :: "(nat \<Rightarrow> u8) \<Rightarrow> nat \<Rightarrow> fat_dir_entry" where
  "dir_entry_at b i =
     (let off = sizeof_fat_dir_entry * i
      in \<lparr>de_name = map (\<lambda>j. b (off + j)) [0..<8], de_ext = map (\<lambda>j. b (off + 8 + j)) [0..<3], de_attributes = b (off + 11), de_reserved = b (off + 12),
          de_creation_time_tenths = b (off + 13), de_creation_time = le16 b (off + 14), de_creation_date = le16 b (off + 16),
          de_last_access_date = le16 b (off + 18), de_cluster_high = le16 b (off + 20), de_write_time = le16 b (off + 22),
          de_write_date = le16 b (off + 24), de_cluster_low = le16 b (off + 26), de_size = le32 b (off + 28)\<rparr>)"

definition entry_cluster :: "fat_dir_entry \<Rightarrow> u32" where
  "entry_cluster e = ucast (de_cluster_low e) OR push_bit 16 (ucast (de_cluster_high e))"

definition is_data_cluster :: "u32 \<Rightarrow> bool" where
  "is_data_cluster c = (c \<ge> 2 \<and> c < 0x0FFFFFF8)"

definition cluster_lba :: "fat_dev \<Rightarrow> u32 \<Rightarrow> u32" where
  "cluster_lba dev c = dev_data dev + (c - 2) * ucast (dev_sectors_per_cluster dev)"

text \<open>
  The scan of one sector ends with the end mark, with the entry looked for, or at the end of the sector. The first character of a name is
  a signed \<^verbatim>\<open>char\<close>, so its comparison with 0xE5 is one of integers.
\<close>

datatype scan = ScanEnd | ScanFound fat_dir_entry | ScanMore

fun scan_entries :: "fat_dir_entry list \<Rightarrow> u8 list \<Rightarrow> scan" where
  "scan_entries [] target = ScanMore"
| "scan_entries (e # es) target =
     (if sint (de_name e ! 0) = 0x00 then ScanEnd
      else if sint (de_name e ! 0) = 0xE5 then scan_entries es target
      else if de_attributes e = 0x0F then scan_entries es target
      else if memcmp (de_name e @ de_ext e) target 11 = 0 then ScanFound e
      else scan_entries es target)"

fun scan_sectors :: "disk \<Rightarrow> fat_dev \<Rightarrow> u32 \<Rightarrow> u8 list \<Rightarrow> nat list \<Rightarrow> int + scan" where
  "scan_sectors disk_read dev lba target [] = Inr ScanMore"
| "scan_sectors disk_read dev lba target (s # ss) =
     (case fat_read_sectors disk_read dev (lba + of_nat s) 1 of
        (err, None) \<Rightarrow> Inl err
      | (err, Some b) \<Rightarrow>
          if err \<noteq> 0 then Inl err
          else case scan_entries (map (dir_entry_at b) [0..<FAT_DIR_ENTRIES_PER_SECTOR]) target of
            ScanMore \<Rightarrow> scan_sectors disk_read dev lba target ss
          | r \<Rightarrow> Inr r)"

partial_function (option) lookup_chain :: "disk \<Rightarrow> fat_dev \<Rightarrow> u8 list \<Rightarrow> u32 \<Rightarrow> fat_cache \<Rightarrow> ((int + fat_dir_entry) \<times> fat_cache) option" where
  "lookup_chain disk_read dev target dir_cluster c =
     (if \<not> is_data_cluster dir_cluster then Some (Inl (-1), c)
      else case scan_sectors disk_read dev (cluster_lba dev dir_cluster) target [0..<unat (dev_sectors_per_cluster dev)] of
        Inl err \<Rightarrow> Some (Inl err, c)
      | Inr ScanEnd \<Rightarrow> Some (Inl (-1), c)
      | Inr (ScanFound e) \<Rightarrow> Some (Inr e, c)
      | Inr ScanMore \<Rightarrow>
          (case fat_get_next_cluster disk_read dev dir_cluster c of
             (Inl err, c) \<Rightarrow> Some (Inl err, c)
           | (Inr dir_cluster, c) \<Rightarrow> lookup_chain disk_read dev target dir_cluster c))"

definition fat_file_lookup :: "disk \<Rightarrow> fat_dev \<Rightarrow> fat_dir_entry \<Rightarrow> u8 list \<Rightarrow> fat_cache \<Rightarrow> ((int + fat_dir_entry) \<times> fat_cache) option" where
  "fat_file_lookup disk_read dev directory target c =
     (if de_attributes directory AND FAT_ATTR_DIRECTORY = 0 then Some (Inl (-1), c)
      else lookup_chain disk_read dev target (entry_cluster directory) c)"

section \<open>Names and paths\<close>

definition fill :: "nat \<Rightarrow> nat \<Rightarrow> u8 \<Rightarrow> u8 list \<Rightarrow> u8 list" where
  "fill i n v xs = fold (\<lambda>k xs. xs[k := v]) [i..<i + n] xs"

function short_name_loop :: "u8 list \<Rightarrow> nat \<Rightarrow> u8 list \<Rightarrow> nat \<times> u8 list" where
  "short_name_loop short_name i name_ext =
     (if \<not> i < 11 then (i, name_ext)
      else if deref short_name = 0x2F \<or> deref short_name = 0 then (i, name_ext)
      else if deref short_name = 0x2E then
        short_name_loop (tl short_name) 8 (if i < 8 then fill i (8 - i) 0x20 name_ext else name_ext)
      else short_name_loop (tl short_name) (Suc i) (name_ext[i := toupper (deref short_name)]))"
  by pat_completeness auto
termination
proof (relation "measure (\<lambda>(short_name, i, name_ext). length short_name)")
  have "length (tl short_name) < length short_name" if "deref short_name \<noteq> 0" for short_name
    using that by (cases short_name) (auto simp: deref_def)
  then show "((tl short_name, 8 :: nat, if i < 8 then fill i (8 - i) 0x20 name_ext else name_ext), short_name, i, name_ext)
      \<in> measure (\<lambda>(short_name, i, name_ext). length short_name)"
    and "((tl short_name, Suc i, name_ext[i := toupper (deref short_name)]), short_name, i, name_ext)
      \<in> measure (\<lambda>(short_name, i, name_ext). length short_name)"
    if "\<not> (deref short_name = 0x2F \<or> deref short_name = 0)" for short_name i name_ext
    using that by auto
qed simp_all

declare short_name_loop.simps [simp del]

text \<open>\<open>name_ext\<close> is the uninitialised array the caller passes.\<close>

definition fat_short_name_to_name_ext :: "u8 list \<Rightarrow> u8 list \<Rightarrow> u8 list" where
  "fat_short_name_to_name_ext short_name name_ext =
     (let short_name = (if deref short_name = 0x2F then tl short_name else short_name);
          (i, name_ext) = short_name_loop short_name 0 name_ext
      in fill i (11 - i) 0x20 name_ext)"

text \<open>A path is \<^const>\<open>None\<close> once the search for the next separator has returned a null pointer.\<close>

partial_function (option) path_loop ::
    "disk \<Rightarrow> fat_dev \<Rightarrow> u8 list option \<Rightarrow> u8 list \<Rightarrow> fat_dir_entry \<Rightarrow> fat_cache \<Rightarrow> ((int + fat_dir_entry) \<times> fat_cache) option" where
  "path_loop disk_read dev path target current_entry c =
     (case path of
        None \<Rightarrow> Some (Inr current_entry, c)
      | Some path \<Rightarrow>
          if deref path = 0 then Some (Inr current_entry, c)
          else
            let target = fat_short_name_to_name_ext path target
            in case fat_file_lookup disk_read dev current_entry target c of
                 None \<Rightarrow> None
               | Some (Inl err, c) \<Rightarrow> Some (Inl err, c)
               | Some (Inr e, c) \<Rightarrow> path_loop disk_read dev (map_option tl (strchr path 0x2F)) target e c)"

definition fat_path_lookup :: "disk \<Rightarrow> fat_dev \<Rightarrow> fat_dir_entry \<Rightarrow> u8 list \<Rightarrow> fat_cache \<Rightarrow> ((int + fat_dir_entry) \<times> fat_cache) option" where
  "fat_path_lookup disk_read dev directory path c = path_loop disk_read dev (Some path) (replicate 11 0) directory c"

section \<open>Reading a file\<close>

definition root_entry :: "fat_dev \<Rightarrow> fat_dir_entry" where
  "root_entry dev =
     \<lparr>de_name = [0x52, 0x4F, 0x4F, 0x54, 0x20, 0x20, 0x20, 0x20], de_ext = [0x20, 0x20, 0x20], de_attributes = FAT_ATTR_DIRECTORY,
      de_reserved = 0, de_creation_time_tenths = 0, de_creation_time = 0, de_creation_date = 0, de_last_access_date = 0,
      de_cluster_high = ucast (drop_bit 16 (dev_root_dir_cluster dev)), de_write_time = 0, de_write_date = 0,
      de_cluster_low = ucast (dev_root_dir_cluster dev AND 0xFFFF), de_size = 0\<rparr>"

text \<open>The driver stores the sectors it reads at the destination, also when it fails.\<close>

partial_function (option) read_chain :: "disk \<Rightarrow> fat_dev \<Rightarrow> u32 \<Rightarrow> u32 \<Rightarrow> fat_cache \<Rightarrow> 32 mem \<Rightarrow> (int \<times> fat_cache \<times> 32 mem) option" where
  "read_chain disk_read dev current_cluster buffer c m =
     (if \<not> is_data_cluster current_cluster then Some (0, c, m)
      else case fat_read_sectors disk_read dev (cluster_lba dev current_cluster) (ucast (dev_sectors_per_cluster dev)) of (err, b) \<Rightarrow>
        let m = (case b of None \<Rightarrow> m | Some b \<Rightarrow> store_bytes buffer (map b [0..<512 * unat (dev_sectors_per_cluster dev)]) m)
        in if err \<noteq> 0 then Some (err, c, m)
           else case fat_get_next_cluster disk_read dev current_cluster c of
             (Inl err, c) \<Rightarrow> Some (err, c, m)
           | (Inr current_cluster, c) \<Rightarrow>
               read_chain disk_read dev current_cluster (buffer + ucast (dev_sectors_per_cluster dev) * 512) c m)"

definition fat_read :: "disk \<Rightarrow> fat_dev \<Rightarrow> u8 list \<Rightarrow> u32 \<Rightarrow> fat_cache \<Rightarrow> 32 mem \<Rightarrow> (int \<times> fat_cache \<times> 32 mem) option" where
  "fat_read disk_read dev path buffer c m =
     (case fat_path_lookup disk_read dev (root_entry dev) path c of
        None \<Rightarrow> None
      | Some (Inl err, c) \<Rightarrow> Some (err, c, m)
      | Some (Inr file, c) \<Rightarrow> read_chain disk_read dev (entry_cluster file) buffer c m)"

end
