(* ===== verification/Fat_Correct.thy ===== *)
theory Fat_Correct
  imports Fat
begin

text \<open>
  Correctness of the loader's file reader against a volume image: the cached sector of the allocation table is transparent, directories
  are searched in order up to the end mark, path components are translated to the padded upper-case names of directory entries, and the
  clusters of a file arrive in memory in the order of its chain. A chain that closes into a cycle is followed for ever.
\<close>

section \<open>Volume images\<close>

type_synonym image = "u32 \<Rightarrow> nat \<Rightarrow> u8"

text \<open>
  The driver's promise: a request whose sectors all lie inside the partition succeeds and delivers the sectors of the image. Nothing is
  promised for other requests, also not for those whose last sector number wraps around.
\<close>

definition serves :: "disk \<Rightarrow> fat_dev \<Rightarrow> image \<Rightarrow> bool" where
  "serves disk dev img \<longleftrightarrow> (\<forall>lba count. unat lba + unat count \<le> unat (dev_sectors dev) \<longrightarrow>
     disk (dev_abar dev) (dev_port dev) (dev_lba dev + lba) count = (0, \<lambda>i. img (lba + of_nat (i div 512)) (i mod 512)))"

definition fat_next :: "fat_dev \<Rightarrow> image \<Rightarrow> u32 \<Rightarrow> u32" where
  "fat_next dev img c = le32 (img (dev_fat dev + c div 128)) (4 * unat (c mod 128))"

text \<open>The cluster and the table entry of a cluster lie inside the partition.\<close>

definition readable :: "fat_dev \<Rightarrow> u32 \<Rightarrow> bool" where
  "readable dev c \<longleftrightarrow> unat (cluster_lba dev c) + unat (dev_sectors_per_cluster dev) \<le> unat (dev_sectors dev) \<and>
     dev_fat dev + c div 128 < dev_sectors dev"

fun chain :: "fat_dev \<Rightarrow> image \<Rightarrow> u32 \<Rightarrow> u32 list \<Rightarrow> bool" where
  "chain dev img c [] \<longleftrightarrow> \<not> is_data_cluster c"
| "chain dev img c (d # ds) \<longleftrightarrow> d = c \<and> is_data_cluster c \<and> readable dev c \<and> chain dev img (fat_next dev img c) ds"

definition cluster_entries :: "fat_dev \<Rightarrow> image \<Rightarrow> u32 \<Rightarrow> fat_dir_entry list" where
  "cluster_entries dev img c = concat (map (\<lambda>s. map (dir_entry_at (img (cluster_lba dev c + of_nat s))) [0..<16]) [0..<unat (dev_sectors_per_cluster dev)])"

definition cluster_data :: "fat_dev \<Rightarrow> image \<Rightarrow> u32 \<Rightarrow> u8 list" where
  "cluster_data dev img c = map (\<lambda>i. img (cluster_lba dev c + of_nat (i div 512)) (i mod 512)) [0..<512 * unat (dev_sectors_per_cluster dev)]"

definition dir_lookup :: "fat_dir_entry list \<Rightarrow> u8 list \<Rightarrow> fat_dir_entry option" where
  "dir_lookup es target =
     find (\<lambda>e. de_attributes e \<noteq> 0x0F \<and> de_name e @ de_ext e = target) (takeWhile (\<lambda>e. de_name e ! 0 \<noteq> 0) es)"

section \<open>The cached sector\<close>

definition cache_ok :: "fat_dev \<Rightarrow> image \<Rightarrow> fat_cache \<Rightarrow> bool" where
  "cache_ok dev img c \<longleftrightarrow> (\<forall>n. \<not> fat_cache_is_stale dev n c \<longrightarrow> (\<forall>i<128. c_entry c i = le32 (img (dev_fat dev + n)) (4 * i)))"

lemma cache_ok_boot [simp]: "cache_ok dev img fat_cache_boot"
  by (simp add: cache_ok_def fat_cache_is_stale_def fat_cache_boot_def)

lemma read_inside:
  assumes "serves disk dev img" "unat lba + unat count \<le> unat (dev_sectors dev)"
  shows "fat_read_sectors disk dev lba count = (0, Some (\<lambda>i. img (lba + of_nat (i div 512)) (i mod 512)))"
proof -
  have "unat (lba + count) = unat lba + unat count"
    using assms(2) unsigned_less [of "dev_sectors dev", where ?'a = nat] by (simp add: unat_add_lt)
  then have "\<not> dev_sectors dev < lba + count" using assms(2) by (simp add: word_less_nat_alt)
  then show ?thesis using assms by (simp add: fat_read_sectors_def serves_def)
qed

lemma read_one:
  assumes "serves disk dev img" "lba < dev_sectors dev"
  shows "fat_read_sectors disk dev lba 1 = (0, Some (\<lambda>i. img (lba + of_nat (i div 512)) (i mod 512)))"
  using assms(2) by (intro read_inside [OF assms(1)]) (simp add: word_less_nat_alt)

lemma le16_sector: "i + 1 < 512 \<Longrightarrow> le16 (\<lambda>i. img (lba + of_nat (i div 512)) (i mod 512)) i = le16 (img lba) i"
  by (simp add: le16_def)

lemma le32_sector: "i + 3 < 512 \<Longrightarrow> le32 (\<lambda>i. img (lba + of_nat (i div 512)) (i mod 512)) i = le32 (img lba) i"
  by (simp add: le32_def le16_sector)

text \<open>Whether the entry comes from the cache or from the disk, the successor is the one of the allocation table.\<close>

lemma fat_get_next_cluster_image:
  assumes "serves disk dev img" "cache_ok dev img c" "dev_fat dev + cl div 128 < dev_sectors dev"
  shows "\<exists>c'. fat_get_next_cluster disk dev cl c = (Inr (fat_next dev img cl), c') \<and> cache_ok dev img c'"
proof -
  have off: "unat (cl mod 128) < 128" by (simp add: unat_mod)
  show ?thesis
  proof (cases "fat_cache_is_stale dev (cl div 128) c")
    case True
    define c' where "c' = snd (fat_cache_fetch disk dev (cl div 128) c)"
    have f: "fat_cache_fetch disk dev (cl div 128) c = (0, c')"
      unfolding c'_def fat_cache_fetch_def by (simp add: read_one [OF assms(1, 3)])
    have e: "c_entry c' i = le32 (img (dev_fat dev + cl div 128)) (4 * i)" if "i < 128" for i
      unfolding c'_def fat_cache_fetch_def using that by (simp add: read_one [OF assms(1, 3)] le32_sector)
    have n: "c_sector_no c' = cl div 128"
      unfolding c'_def fat_cache_fetch_def by (simp add: read_one [OF assms(1, 3)])
    have "cache_ok dev img c'" unfolding cache_ok_def fat_cache_is_stale_def using e n by auto
    moreover have "fat_get_next_cluster disk dev cl c = (Inr (fat_next dev img cl), c')"
      using True f off by (simp add: fat_get_next_cluster_def fat_next_def e)
    ultimately show ?thesis by blast
  next
    case False
    then have "c_entry c (unat (cl mod 128)) = fat_next dev img cl" using assms(2) off by (simp add: cache_ok_def fat_next_def)
    then show ?thesis using False assms(2) by (simp add: fat_get_next_cluster_def)
  qed
qed

section \<open>Searching a directory\<close>

lemma scan_entries_append:
  "scan_entries (as @ bs) target = (case scan_entries as target of ScanMore \<Rightarrow> scan_entries bs target | r \<Rightarrow> r)"
  by (induction as) auto

definition proper :: "fat_dir_entry \<Rightarrow> bool" where
  "proper e \<longleftrightarrow> length (de_name e) = 8 \<and> length (de_ext e) = 3"

lemma proper_dir_entry_at [simp]: "proper (dir_entry_at b i)"
  by (simp add: proper_def dir_entry_at_def Let_def)

lemma sint_u8: "sint (x :: u8) \<noteq> 0xE5" "sint x = 0 \<longleftrightarrow> x = 0"
proof -
  have "sint x < 2 ^ (LENGTH(8) - 1)" by (rule sint_lt)
  then show "sint x \<noteq> 0xE5" by simp
  show "sint x = 0 \<longleftrightarrow> x = 0" by (metis sint_0 signed_word_eqI sint_0)
qed

lemma scan_entries_lookup:
  assumes "\<forall>e\<in>set es. proper e" "length target = 11"
  shows "scan_entries es target =
    (case dir_lookup es target of Some e \<Rightarrow> ScanFound e | None \<Rightarrow> if \<exists>e\<in>set es. de_name e ! 0 = 0 then ScanEnd else ScanMore)"
  using assms(1)
proof (induction es)
  case Nil
  then show ?case by (simp add: dir_lookup_def)
next
  case (Cons e es)
  have "memcmp (de_name e @ de_ext e) target 11 = 0 \<longleftrightarrow> de_name e @ de_ext e = target"
    using Cons.prems assms(2) by (intro memcmp_zero) (auto simp: proper_def)
  then show ?case using Cons by (auto simp: dir_lookup_def sint_u8)
qed

lemma proper_cluster_entries: "\<forall>e\<in>set (cluster_entries dev img c). proper e"
  by (auto simp: cluster_entries_def)

lemma scan_sectors_image:
  assumes "serves disk dev img" "\<forall>s\<in>set ss. lba + of_nat s < dev_sectors dev"
  shows "scan_sectors disk dev lba target ss = Inr (scan_entries (concat (map (\<lambda>s. map (dir_entry_at (img (lba + of_nat s))) [0..<16]) ss)) target)"
  using assms(2)
proof (induction ss)
  case (Cons s ss)
  define b where "b = (\<lambda>i. img (lba + of_nat s + of_nat (i div 512)) (i mod 512))"
  have r: "fat_read_sectors disk dev (lba + of_nat s) 1 = (0, Some b)"
    unfolding b_def using Cons.prems by (intro read_one [OF assms(1)]) simp
  have "dir_entry_at b i = dir_entry_at (img (lba + of_nat s)) i" if "i < 16" for i
    using that by (simp add: dir_entry_at_def sizeof_fat_dir_entry_def b_def le16_sector le32_sector Let_def)
  then have e: "map (dir_entry_at b) [0..<16] = map (dir_entry_at (img (lba + of_nat s))) [0..<16]" by simp
  have per: "FAT_DIR_ENTRIES_PER_SECTOR = 16" by (simp add: FAT_DIR_ENTRIES_PER_SECTOR_def sizeof_fat_dir_entry_def)
  show ?case
    using Cons by (simp add: r per e scan_entries_append split: scan.split del: upt.simps upt_rec_numeral)
qed simp

lemma sectors_in_range:
  assumes "readable dev c" "s < unat (dev_sectors_per_cluster dev)"
  shows "cluster_lba dev c + of_nat s < dev_sectors dev"
proof -
  have "unat (cluster_lba dev c) + s < 2 ^ LENGTH(32)"
    using assms unsigned_less [of "dev_sectors dev", where ?'a = nat] by (simp add: readable_def)
  moreover have "unat (of_nat s :: u32) = s"
    using assms(2) unsigned_less [of "dev_sectors_per_cluster dev", where ?'a = nat] by (simp add: unsigned_of_nat take_bit_nat_eq_self)
  ultimately have "unat (cluster_lba dev c + of_nat s) = unat (cluster_lba dev c) + s" by (simp add: unat_add_lt)
  then show ?thesis using assms by (simp add: readable_def word_less_nat_alt)
qed

lemma scan_cluster:
  assumes "serves disk dev img" "readable dev c"
  shows "scan_sectors disk dev (cluster_lba dev c) target [0..<unat (dev_sectors_per_cluster dev)] = Inr (scan_entries (cluster_entries dev img c) target)"
  unfolding cluster_entries_def by (rule scan_sectors_image [OF assms(1)]) (auto intro: sectors_in_range [OF assms(2)])

definition dir_entries :: "fat_dev \<Rightarrow> image \<Rightarrow> u32 list \<Rightarrow> fat_dir_entry list" where
  "dir_entries dev img cs = concat (map (cluster_entries dev img) cs)"

lemma lookup_chain_image:
  assumes "serves disk dev img" "cache_ok dev img c" "chain dev img cl cs"
  shows "\<exists>c'. cache_ok dev img c' \<and> lookup_chain disk dev target cl c =
    Some (case scan_entries (dir_entries dev img cs) target of ScanFound e \<Rightarrow> Inr e | _ \<Rightarrow> Inl (-1), c')"
  using assms(2, 3)
proof (induction cs arbitrary: cl c)
  case Nil
  then show ?case by (subst lookup_chain.simps) (simp add: dir_entries_def)
next
  case (Cons d ds)
  then have cl: "is_data_cluster cl" "readable dev cl" "chain dev img (fat_next dev img cl) ds" and d: "d = cl" by auto
  note s = scan_cluster [OF assms(1) cl(2), of target]
  have de: "dir_entries dev img (d # ds) = cluster_entries dev img cl @ dir_entries dev img ds" by (simp add: dir_entries_def d)
  show ?case
  proof (cases "scan_entries (cluster_entries dev img cl) target")
    case ScanMore
    obtain c1 where c1: "fat_get_next_cluster disk dev cl c = (Inr (fat_next dev img cl), c1)" "cache_ok dev img c1"
      using fat_get_next_cluster_image [OF assms(1) Cons.prems(1), of cl] cl(2) by (auto simp: readable_def)
    have "lookup_chain disk dev target cl c = lookup_chain disk dev target (fat_next dev img cl) c1"
      by (subst lookup_chain.simps) (simp add: cl s ScanMore c1)
    then show ?thesis using Cons.IH [OF c1(2) cl(3)] by (simp add: de scan_entries_append ScanMore)
  qed (subst lookup_chain.simps, use Cons.prems(1) in \<open>simp add: cl s de scan_entries_append\<close>)+
qed

lemma lookup_chain_dir:
  assumes "serves disk dev img" "cache_ok dev img c" "chain dev img cl cs" "length target = 11"
  shows "\<exists>c'. cache_ok dev img c' \<and> lookup_chain disk dev target cl c =
    Some (case dir_lookup (dir_entries dev img cs) target of Some e \<Rightarrow> Inr e | None \<Rightarrow> Inl (-1), c')"
proof -
  have p: "\<forall>e\<in>set (dir_entries dev img cs). proper e" using proper_cluster_entries by (auto simp: dir_entries_def)
  show ?thesis
    using lookup_chain_image [OF assms(1-3), of target] unfolding scan_entries_lookup [OF p assms(4)]
    by (auto split: option.splits if_splits)
qed

section \<open>Names\<close>

text \<open>A name of up to eight and an extension of up to three characters, as a path component and as in a directory entry.\<close>

type_synonym name83 = "u8 list \<times> u8 list"

definition plain :: "u8 \<Rightarrow> bool" where
  "plain ch \<longleftrightarrow> ch \<noteq> 0 \<and> ch \<noteq> 0x2F \<and> ch \<noteq> 0x2E"

fun valid_name :: "name83 \<Rightarrow> bool" where
  "valid_name (n, x) \<longleftrightarrow> n \<noteq> [] \<and> length n \<le> 8 \<and> length x \<le> 3 \<and> (\<forall>ch\<in>set n \<union> set x. plain ch)"

fun name_text :: "name83 \<Rightarrow> u8 list" where
  "name_text (n, x) = n @ (if x = [] then [] else 0x2E # x)"

fun entry_name :: "name83 \<Rightarrow> u8 list" where
  "entry_name (n, x) = map toupper n @ replicate (8 - length n) 0x20 @ map toupper x @ replicate (3 - length x) 0x20"

fun path_text :: "name83 list \<Rightarrow> u8 list" where
  "path_text [] = []"
| "path_text [n] = name_text n"
| "path_text (n # ns) = name_text n @ 0x2F # path_text ns"

lemma fill_eq: "i + n \<le> length xs \<Longrightarrow> fill i n v xs = take i xs @ replicate n v @ drop (i + n) xs"
proof (induction n)
  case (Suc n)
  have "drop (i + n) xs = xs ! (i + n) # drop (Suc (i + n)) xs" using Suc.prems by (simp add: Cons_nth_drop_Suc)
  moreover have "fill i (Suc n) v xs = (fill i n v xs)[i + n := v]" by (simp add: fill_def)
  ultimately show ?case using Suc by (simp add: list_update_append replicate_app_Cons_same min_def)
qed (simp add: fill_def)

lemma short_name_loop_plain:
  assumes "\<forall>ch\<in>set cs. plain ch" "i + length cs \<le> 11" "length xs = 11"
  shows "short_name_loop (cs @ rest) i xs = short_name_loop rest (i + length cs) (take i xs @ map toupper cs @ drop (i + length cs) xs)"
  using assms
proof (induction cs arbitrary: i xs)
  case (Cons ch cs)
  have upd: "xs[i := v] = take i xs @ v # drop (Suc i) xs" for v using Cons.prems by (simp add: upd_conv_take_nth_drop)
  have "short_name_loop (ch # cs @ rest) i xs = short_name_loop (cs @ rest) (Suc i) (xs[i := toupper ch])"
    using Cons.prems by (subst short_name_loop.simps) (simp add: deref_def plain_def)
  also have "\<dots> = short_name_loop rest (Suc i + length cs) (take (Suc i) (xs[i := toupper ch]) @ map toupper cs @ drop (Suc i + length cs) (xs[i := toupper ch]))"
    using Cons.prems by (intro Cons.IH) simp_all
  finally show ?case using Cons.prems by (simp add: upd add.commute)
qed simp

lemma short_name_loop_stop: "deref rest = 0 \<or> deref rest = 0x2F \<Longrightarrow> short_name_loop rest i xs = (i, xs)"
  by (subst short_name_loop.simps) auto

lemma short_name_loop_dot:
  "i \<le> 8 \<Longrightarrow> length xs = 11 \<Longrightarrow> short_name_loop (0x2E # rest) i xs = short_name_loop rest 8 (take i xs @ replicate (8 - i) 0x20 @ drop 8 xs)"
  by (subst short_name_loop.simps) (auto simp: deref_def fill_eq)

lemma short_name_valid:
  assumes "valid_name nx" "deref rest = 0 \<or> deref rest = 0x2F" "length xs = 11"
  shows "fat_short_name_to_name_ext (name_text nx @ rest) xs = entry_name nx"
proof -
  obtain n x where nx: "nx = (n, x)" by (cases nx)
  with assms(1) have v: "n \<noteq> []" "length n \<le> 8" "length x \<le> 3" "\<forall>ch\<in>set n. plain ch" "\<forall>ch\<in>set x. plain ch" by auto
  define t where "t = (if x = [] then [] else 0x2E # x) @ rest"
  have spell: "name_text nx @ rest = n @ t" by (simp add: nx t_def)
  have d: "deref (n @ t) \<noteq> 0x2F" using v by (cases n) (auto simp: deref_def plain_def)
  have n: "short_name_loop (n @ t) 0 xs = short_name_loop t (length n) (map toupper n @ drop (length n) xs)"
    using short_name_loop_plain [OF v(4), of 0 xs t] v assms(3) by simp
  show ?thesis
  proof (cases "x = []")
    case True
    have "replicate (11 - length n) (0x20 :: u8) = replicate (8 - length n) 0x20 @ replicate 3 0x20"
      using v(2) by (simp add: replicate_add [symmetric])
    then show ?thesis using True v assms d n
      by (simp add: fat_short_name_to_name_ext_def spell t_def short_name_loop_stop fill_eq nx Let_def)
  next
    case False
    have "short_name_loop t (length n) (map toupper n @ drop (length n) xs) =
        short_name_loop (x @ rest) 8 (map toupper n @ replicate (8 - length n) 0x20 @ drop 8 xs)"
      using False v assms(3) by (simp add: t_def short_name_loop_dot)
    also have "\<dots> = (8 + length x, map toupper n @ replicate (8 - length n) 0x20 @ map toupper x @ drop (8 + length x) xs)"
      using v assms(2, 3) by (simp add: short_name_loop_plain short_name_loop_stop add.commute)
    finally show ?thesis using v assms(3) d n unfolding fat_short_name_to_name_ext_def spell by (simp add: fill_eq nx Let_def add.commute)
  qed
qed

lemma length_entry_name: "valid_name nx \<Longrightarrow> length (entry_name nx) = 11"
  by (cases nx) auto

section \<open>Paths\<close>

text \<open>What a path names: each component is looked up in the directory found so far.\<close>

inductive looks_up :: "fat_dev \<Rightarrow> image \<Rightarrow> fat_dir_entry \<Rightarrow> u8 list list \<Rightarrow> fat_dir_entry option \<Rightarrow> bool" for dev img where
  here: "looks_up dev img d [] (Some d)"
| no_directory: "de_attributes d AND FAT_ATTR_DIRECTORY = 0 \<Longrightarrow> looks_up dev img d (t # ts) None"
| missing: "de_attributes d AND FAT_ATTR_DIRECTORY \<noteq> 0 \<Longrightarrow> chain dev img (entry_cluster d) cs \<Longrightarrow>
    dir_lookup (dir_entries dev img cs) t = None \<Longrightarrow> looks_up dev img d (t # ts) None"
| found: "de_attributes d AND FAT_ATTR_DIRECTORY \<noteq> 0 \<Longrightarrow> chain dev img (entry_cluster d) cs \<Longrightarrow>
    dir_lookup (dir_entries dev img cs) t = Some e \<Longrightarrow> looks_up dev img e ts r \<Longrightarrow> looks_up dev img d (t # ts) r"

lemma deref_simps [simp]: "deref [] = 0" "deref (ch # str) = ch"
  by (simp_all add: deref_def)

lemma name_first: "valid_name nx \<Longrightarrow> deref (name_text nx @ rest) \<noteq> 0"
proof -
  assume v: "valid_name nx"
  obtain n x where "nx = (n, x)" by (cases nx)
  with v show ?thesis by (cases n) (auto simp: deref_def plain_def)
qed

lemma strchr_skip: "\<forall>ch\<in>set cs. ch \<noteq> 0 \<and> ch \<noteq> v \<Longrightarrow> strchr (cs @ str) v = strchr str v"
  by (induction cs) auto

lemma strchr_name: "valid_name nx \<Longrightarrow> strchr (name_text nx @ str) 0x2F = strchr str 0x2F"
  by (cases nx) (rule strchr_skip, auto simp: plain_def split: if_splits)

text \<open>One component of a path, followed by the rest of it.\<close>

lemma path_loop_name:
  assumes "valid_name nx" "length t = 11"
  shows "path_loop disk dev (Some (name_text nx @ (if ns = [] then [] else 0x2F # path_text ns))) t d c =
    (case fat_file_lookup disk dev d (entry_name nx) c of
       None \<Rightarrow> None | Some (Inl err, c) \<Rightarrow> Some (Inl err, c)
     | Some (Inr e, c) \<Rightarrow> path_loop disk dev (if ns = [] then None else Some (path_text ns)) (entry_name nx) e c)"
  by (subst path_loop.simps) (auto simp: Let_def name_first [OF assms(1)] name_first [OF assms(1), of "[]", simplified] short_name_valid [OF assms(1) _ assms(2)]
      short_name_valid [OF assms(1) _ assms(2), of "[]", simplified] strchr_name [OF assms(1)] strchr_name [OF assms(1), of "[]", simplified] split: option.split sum.split)

lemma path_text_Cons: "path_text (n # ns) = name_text n @ (if ns = [] then [] else 0x2F # path_text ns)"
  by (cases ns) auto

lemma path_loop_image:
  assumes "serves disk dev img" "looks_up dev img d ts r" "ts = map entry_name ns" "\<forall>n\<in>set ns. valid_name n" "cache_ok dev img c" "length t = 11"
  shows "\<exists>c'. cache_ok dev img c' \<and>
    path_loop disk dev (if ns = [] then None else Some (path_text ns)) t d c = Some (case r of Some e \<Rightarrow> Inr e | None \<Rightarrow> Inl (-1), c')"
  using assms(2-6)
proof (induction arbitrary: ns c t rule: looks_up.induct)
  case (here d)
  then show ?case by (subst path_loop.simps) auto
next
  case (no_directory d tt ts)
  then obtain n ns' where ns: "ns = n # ns'" "valid_name n" by auto
  show ?case unfolding ns(1) path_text_Cons
    using path_loop_name [OF ns(2) no_directory.prems(4), of disk dev ns' d c] no_directory by (auto simp: fat_file_lookup_def)
next
  case (missing d cs tt ts)
  then obtain n ns' where ns: "ns = n # ns'" "valid_name n" "tt = entry_name n" by auto
  obtain c' where "cache_ok dev img c'" "lookup_chain disk dev (entry_name n) (entry_cluster d) c = Some (Inl (-1), c')"
    using lookup_chain_dir [OF assms(1) missing.prems(3) missing.hyps(2) length_entry_name [OF ns(2)]] missing.hyps(3) ns(3) by auto
  then show ?case unfolding ns(1) path_text_Cons
    using path_loop_name [OF ns(2) missing.prems(4), of disk dev ns' d c] missing.hyps(1) by (auto simp: fat_file_lookup_def)
next
  case (found d cs tt e ts r)
  then obtain n ns' where ns: "ns = n # ns'" "valid_name n" "tt = entry_name n" "ts = map entry_name ns'" by auto
  obtain c1 where c1: "cache_ok dev img c1" "lookup_chain disk dev (entry_name n) (entry_cluster d) c = Some (Inr e, c1)"
    using lookup_chain_dir [OF assms(1) found.prems(3) found.hyps(2) length_entry_name [OF ns(2)]] found.hyps(3) ns(3) by auto
  then show ?case unfolding ns(1) path_text_Cons
    using path_loop_name [OF ns(2) found.prems(4), of disk dev ns' d c] found.hyps(1) found.prems(2) ns
      found.IH [OF ns(4) _ c1(1) length_entry_name [OF ns(2)]] by (auto simp: fat_file_lookup_def)
qed

lemma fat_path_lookup_image:
  assumes "serves disk dev img" "looks_up dev img d (map entry_name ns) r" "\<forall>n\<in>set ns. valid_name n" "cache_ok dev img c"
  shows "\<exists>c'. cache_ok dev img c' \<and> fat_path_lookup disk dev d (path_text ns) c = Some (case r of Some e \<Rightarrow> Inr e | None \<Rightarrow> Inl (-1), c')"
proof (cases "ns = []")
  case True
  then have "r = Some d" using assms(2) by (auto elim: looks_up.cases)
  then show ?thesis using True assms(4) by (auto simp: fat_path_lookup_def path_loop.simps deref_def)
next
  case False
  then show ?thesis
    using path_loop_image [OF assms(1, 2) refl assms(3, 4), of "replicate 11 0"] by (simp add: fat_path_lookup_def)
qed

section \<open>Reading a file\<close>

lemma read_cluster:
  assumes "serves disk dev img" "readable dev cl"
  shows "fat_read_sectors disk dev (cluster_lba dev cl) (ucast (dev_sectors_per_cluster dev)) = (0, Some (\<lambda>i. img (cluster_lba dev cl + of_nat (i div 512)) (i mod 512)))"
proof -
  have "unat (ucast (dev_sectors_per_cluster dev) :: u32) = unat (dev_sectors_per_cluster dev)" using unsigned_less [of "dev_sectors_per_cluster dev", where ?'a = nat] by (simp add: unsigned_ucast_eq take_bit_nat_eq_self)
  then show ?thesis using assms(2) by (intro read_inside [OF assms(1)]) (simp add: readable_def)
qed

lemma read_chain_step:
  assumes "serves disk dev img" "cache_ok dev img c" "readable dev cl" "is_data_cluster cl"
  shows "\<exists>c'. cache_ok dev img c' \<and> read_chain disk dev cl buf c m =
    read_chain disk dev (fat_next dev img cl) (buf + of_nat (length (cluster_data dev img cl))) c' (store_bytes buf (cluster_data dev img cl) m)"
proof -
  obtain c1 where c1: "fat_get_next_cluster disk dev cl c = (Inr (fat_next dev img cl), c1)" "cache_ok dev img c1"
    using fat_get_next_cluster_image [OF assms(1, 2), of cl] assms(3) by (auto simp: readable_def)
  have "ucast (dev_sectors_per_cluster dev) * 512 = (of_nat (length (cluster_data dev img cl)) :: u32)"
    by (simp add: cluster_data_def mult.commute)
  then have "read_chain disk dev cl buf c m =
      read_chain disk dev (fat_next dev img cl) (buf + of_nat (length (cluster_data dev img cl))) c1 (store_bytes buf (cluster_data dev img cl) m)"
    by (subst read_chain.simps) (simp add: assms(4) read_cluster [OF assms(1, 3)] c1(1) cluster_data_def mult.commute)
  then show ?thesis using c1(2) by blast
qed

definition chain_data :: "fat_dev \<Rightarrow> image \<Rightarrow> u32 list \<Rightarrow> u8 list" where
  "chain_data dev img cs = concat (map (cluster_data dev img) cs)"

lemma read_chain_image:
  assumes "serves disk dev img" "cache_ok dev img c" "chain dev img cl cs"
  shows "\<exists>c'. cache_ok dev img c' \<and> read_chain disk dev cl buf c m = Some (0, c', store_bytes buf (chain_data dev img cs) m)"
  using assms(2, 3)
proof (induction cs arbitrary: cl c buf m)
  case Nil
  then show ?case by (subst read_chain.simps) (simp add: chain_data_def)
next
  case (Cons d ds)
  then obtain c1 where "cache_ok dev img c1" "read_chain disk dev cl buf c m =
      read_chain disk dev (fat_next dev img cl) (buf + of_nat (length (cluster_data dev img cl))) c1 (store_bytes buf (cluster_data dev img cl) m)"
    using read_chain_step [OF assms(1) Cons.prems(1), of cl buf m] by auto
  then show ?case using Cons.IH [of c1 "fat_next dev img cl"] Cons.prems(2) by (simp add: chain_data_def store_bytes_append)
qed

lemma fat_read_image:
  assumes "serves disk dev img" "cache_ok dev img c" "\<forall>n\<in>set names. valid_name n"
    "looks_up dev img (root_entry dev) (map entry_name names) r"
    "\<And>f. r = Some f \<Longrightarrow> chain dev img (entry_cluster f) cs"
  shows "\<exists>c'. cache_ok dev img c' \<and> fat_read disk dev (path_text names) buf c m =
    Some (case r of Some f \<Rightarrow> (0, c', store_bytes buf (chain_data dev img cs) m) | None \<Rightarrow> (-1, c', m))"
proof -
  obtain c1 where c1: "cache_ok dev img c1"
    "fat_path_lookup disk dev (root_entry dev) (path_text names) c = Some (case r of Some e \<Rightarrow> Inr e | None \<Rightarrow> Inl (-1), c1)"
    using fat_path_lookup_image [OF assms(1, 4, 3, 2)] by blast
  show ?thesis
  proof (cases r)
    case None
    then show ?thesis using c1 by (simp add: fat_read_def)
  next
    case (Some f)
    from read_chain_image [OF assms(1) c1(1) assms(5) [OF this], of buf m] show ?thesis
      using c1(2) Some by (simp add: fat_read_def)
  qed
qed

text \<open>
  Claim C36. On a volume whose sectors the driver delivers, \<^verbatim>\<open>fat_read\<close> of a relative path of 8.3 names always returns when the cluster chains it follows end inside
  the partition: if every component is found in the directory before it, it returns 0 and memory holds, from the destination on, the
  clusters of the file in the order of the chain, and nothing else has changed; if a component is missing or is no directory it returns
  -1 and memory is unchanged. The cached sector stays a copy of the allocation table.
\<close>

theorem fat_read_correct:
  assumes "serves disk dev img" "cache_ok dev img c" "\<forall>n\<in>set names. valid_name n"
    "looks_up dev img (root_entry dev) (map entry_name names) r"
    "\<And>f. r = Some f \<Longrightarrow> chain dev img (entry_cluster f) cs"
  shows "\<exists>c'. cache_ok dev img c' \<and> fat_read disk dev (path_text names) buf c m =
    Some (case r of Some f \<Rightarrow> (0, c', store_bytes buf (chain_data dev img cs) m) | None \<Rightarrow> (-1, c', m))"
  using assms by (rule fat_read_image)

section \<open>Chains that do not end\<close>

text \<open>The successors of a cluster reach a mark that is no data cluster; and the clusters up to that mark, if there is one, lie in the partition.\<close>

definition ends :: "fat_dev \<Rightarrow> image \<Rightarrow> u32 \<Rightarrow> bool" where
  "ends dev img cl \<longleftrightarrow> (\<exists>k. \<not> is_data_cluster ((fat_next dev img ^^ k) cl))"

definition all_readable :: "fat_dev \<Rightarrow> image \<Rightarrow> u32 \<Rightarrow> bool" where
  "all_readable dev img cl \<longleftrightarrow>
     (\<forall>k. (\<forall>j\<le>k. is_data_cluster ((fat_next dev img ^^ j) cl)) \<longrightarrow> readable dev ((fat_next dev img ^^ k) cl))"

lemma ends_step: "\<not> is_data_cluster cl \<Longrightarrow> ends dev img cl" "ends dev img (fat_next dev img cl) \<Longrightarrow> ends dev img cl"
  unfolding ends_def by (rule exI [of _ 0], simp) (metis funpow.simps(2) funpow_swap1 o_apply)

lemma all_readable_first: "all_readable dev img cl \<Longrightarrow> is_data_cluster cl \<Longrightarrow> readable dev cl"
  unfolding all_readable_def by (drule spec [of _ 0]) simp

lemma all_readable_step:
  assumes "all_readable dev img cl" "is_data_cluster cl"
  shows "all_readable dev img (fat_next dev img cl)"
  unfolding all_readable_def
proof (intro allI impI)
  fix k
  assume "\<forall>j\<le>k. is_data_cluster ((fat_next dev img ^^ j) (fat_next dev img cl))"
  then have "is_data_cluster ((fat_next dev img ^^ j) cl)" if "j \<le> Suc k" for j
    using that assms(2) by (cases j) (simp_all add: funpow_swap1)
  then show "readable dev ((fat_next dev img ^^ k) (fat_next dev img cl))"
    using assms(1) unfolding all_readable_def by (drule_tac spec [of _ "Suc k"]) (simp add: funpow_swap1)
qed

lemma chain_of_end:
  assumes "\<not> is_data_cluster ((fat_next dev img ^^ k) cl)" "all_readable dev img cl"
  shows "\<exists>cs. chain dev img cl cs"
  using assms
proof (induction k arbitrary: cl)
  case 0
  then show ?case by (intro exI [of _ "[]"]) simp
next
  case (Suc k)
  show ?case
  proof (cases "is_data_cluster cl")
    case True
    have "\<not> is_data_cluster ((fat_next dev img ^^ k) (fat_next dev img cl))" using Suc.prems(1) by (simp add: funpow_swap1)
    then obtain cs where "chain dev img (fat_next dev img cl) cs" using Suc.IH all_readable_step [OF Suc.prems(2) True] by blast
    then show ?thesis using True all_readable_first [OF Suc.prems(2) True] by (intro exI [of _ "cl # cs"]) simp
  next
    case False
    then show ?thesis by (intro exI [of _ "[]"]) simp
  qed
qed

lemma read_chain_endless:
  assumes "read_chain disk dev cl buf c m = Some r"
  shows "serves disk dev img \<longrightarrow> cache_ok dev img c \<longrightarrow> all_readable dev img cl \<longrightarrow> ends dev img cl"
proof (rule read_chain.raw_induct
    [where P = "\<lambda>disk dev cl buf c m r. serves disk dev img \<longrightarrow> cache_ok dev img c \<longrightarrow> all_readable dev img cl \<longrightarrow> ends dev img cl", OF _ assms])
  fix f :: "disk \<Rightarrow> fat_dev \<Rightarrow> u32 \<Rightarrow> u32 \<Rightarrow> fat_cache \<Rightarrow> 32 mem \<Rightarrow> (int \<times> fat_cache \<times> 32 mem) option"
  fix disk dev cl buf c m r
  assume IH: "\<And>disk dev cl buf c m r. f disk dev cl buf c m = Some r \<Longrightarrow> serves disk dev img \<longrightarrow> cache_ok dev img c \<longrightarrow> all_readable dev img cl \<longrightarrow> ends dev img cl"
    and body: "(if \<not> is_data_cluster cl then Some (0, c, m)
      else case fat_read_sectors disk dev (cluster_lba dev cl) (ucast (dev_sectors_per_cluster dev)) of (err, b) \<Rightarrow>
        let m = (case b of None \<Rightarrow> m | Some b \<Rightarrow> store_bytes buf (map b [0..<512 * unat (dev_sectors_per_cluster dev)]) m)
        in if err \<noteq> 0 then Some (err, c, m)
           else case fat_get_next_cluster disk dev cl c of
             (Inl err, c) \<Rightarrow> Some (err, c, m)
           | (Inr cl, c) \<Rightarrow> f disk dev cl (buf + ucast (dev_sectors_per_cluster dev) * 512) c m) = Some r"
  show "serves disk dev img \<longrightarrow> cache_ok dev img c \<longrightarrow> all_readable dev img cl \<longrightarrow> ends dev img cl"
  proof (intro impI)
    assume a: "serves disk dev img" "cache_ok dev img c" "all_readable dev img cl"
    show "ends dev img cl"
    proof (cases "is_data_cluster cl")
      case True
      note rd = all_readable_first [OF a(3) True] all_readable_step [OF a(3) True]
      obtain c1 where c1: "fat_get_next_cluster disk dev cl c = (Inr (fat_next dev img cl), c1)" "cache_ok dev img c1"
        using fat_get_next_cluster_image [OF a(1, 2), of cl] rd(1) by (auto simp: readable_def)
      have "\<exists>b' m'. f disk dev (fat_next dev img cl) b' c1 m' = Some r"
        using body True by (simp add: read_cluster [OF a(1) rd(1)] c1) blast
      then show ?thesis using IH a(1) c1(2) rd(2) by (blast intro: ends_step)
    qed (rule ends_step)
  qed
qed

text \<open>
  Claim C37. When the path is resolved and the clusters reached from the file's first cluster lie in the partition (those after the end mark are never read and
  may be anything), \<^verbatim>\<open>fat_read\<close> returns if and only if the successors of that cluster reach the end of the chain: on a volume
  whose chain closes into a cycle of data clusters the loader hangs, whatever the size in the directory entry says.
\<close>

theorem fat_read_ends_iff:
  assumes "serves disk dev img" "cache_ok dev img c" "\<forall>n\<in>set names. valid_name n"
    "looks_up dev img (root_entry dev) (map entry_name names) (Some f)"
    "all_readable dev img (entry_cluster f)"
  shows "(\<exists>r. fat_read disk dev (path_text names) buf c m = Some r) \<longleftrightarrow> ends dev img (entry_cluster f)"
proof -
  obtain c1 where c1: "cache_ok dev img c1" "fat_path_lookup disk dev (root_entry dev) (path_text names) c = Some (Inr f, c1)"
    using fat_path_lookup_image [OF assms(1, 4, 3, 2)] by auto
  then have eq: "fat_read disk dev (path_text names) buf c m = read_chain disk dev (entry_cluster f) buf c1 m" by (simp add: fat_read_def)
  show ?thesis
  proof
    assume "\<exists>r. fat_read disk dev (path_text names) buf c m = Some r"
    then show "ends dev img (entry_cluster f)" using read_chain_endless assms(1, 5) c1(1) eq by metis
  next
    assume "ends dev img (entry_cluster f)"
    then obtain cs where "chain dev img (entry_cluster f) cs"
      using chain_of_end assms(5) unfolding ends_def by blast
    from read_chain_image [OF assms(1) c1(1) this, of buf m] eq show "\<exists>r. fat_read disk dev (path_text names) buf c m = Some r" by auto
  qed
qed

section \<open>A volume of four sectors\<close>

definition toy_dev :: fat_dev where
  "toy_dev = \<lparr>dev_abar = 0, dev_port = 0, dev_lba = 64, dev_sectors = 4, dev_fat = 1, dev_fat_sectors = 1, dev_root_dir_cluster = 2, dev_data = 2, dev_sectors_per_cluster = 1\<rparr>"

text \<open>Boot sector, allocation table, root directory with the one file \<^verbatim>\<open>A.TXT\<close>, and its contents; \<open>link\<close> is the successor of the file's cluster.\<close>

definition toy_image :: "u8 list \<Rightarrow> image" where
  "toy_image link s i =
     (if s = 1 then (if i < 8 then 0 else if i < 12 then [0xFF, 0xFF, 0xFF, 0x0F] ! (i - 8) else if i < 16 then link ! (i - 12) else 0)
      else if s = 2 then
        (if i < 11 then [0x41, 0x20, 0x20, 0x20, 0x20, 0x20, 0x20, 0x20, 0x54, 0x58, 0x54] ! i else if i = 26 then 3 else 0)
      else 0x2A)"

definition image_disk :: "image \<Rightarrow> disk" where
  "image_disk img abar port lba count = (0, \<lambda>i. img (lba - 64 + of_nat (i div 512)) (i mod 512))"

lemma image_disk_serves: "serves (image_disk img) toy_dev img"
  by (simp add: serves_def image_disk_def toy_dev_def)

definition toy_name :: name83 where "toy_name = ([0x61], [0x74, 0x78, 0x74])"

lemma toy_name_valid: "valid_name toy_name"
  by (simp add: toy_name_def plain_def)

definition toy_file :: "u8 list \<Rightarrow> fat_dir_entry" where
  "toy_file link = dir_entry_at (toy_image link 2) 0"

lemma toy_file_cluster: "entry_cluster (toy_file link) = 3"
  by (simp add: entry_cluster_def toy_file_def dir_entry_at_def Let_def le16_def sizeof_fat_dir_entry_def toy_image_def)

lemma toy_readable: "readable toy_dev 2" "readable toy_dev 3"
  by (simp_all add: readable_def toy_dev_def cluster_lba_def)

lemma toy_next: "fat_next toy_dev (toy_image link) 2 = 0x0FFFFFFF"
  by (simp add: fat_next_def toy_dev_def toy_image_def le32_def le16_def)

lemma toy_root: "entry_cluster (root_entry toy_dev) = 2" "de_attributes (root_entry toy_dev) AND FAT_ATTR_DIRECTORY \<noteq> 0"
  by (simp_all add: entry_cluster_def root_entry_def toy_dev_def FAT_ATTR_DIRECTORY_def)

lemma toy_lookup: "looks_up toy_dev (toy_image link) (root_entry toy_dev) (map entry_name [toy_name]) (Some (toy_file link))"
proof -
  have ch: "chain toy_dev (toy_image link) (entry_cluster (root_entry toy_dev)) [2]"
    using toy_readable by (simp add: toy_root toy_next is_data_cluster_def)
  have up: "[0..<16 :: nat] = 0 # [1..<16]" by (simp add: upt_rec)
  have lba: "cluster_lba toy_dev 2 = 2" "unat (dev_sectors_per_cluster toy_dev) = 1" by (simp_all add: cluster_lba_def toy_dev_def)
  have "dir_entries toy_dev (toy_image link) [2] = toy_file link # map (dir_entry_at (toy_image link 2)) [1..<16]"
    by (simp add: dir_entries_def cluster_entries_def lba toy_file_def up)
  moreover have "de_name (toy_file link) @ de_ext (toy_file link) = entry_name toy_name"
    by (simp add: toy_file_def dir_entry_at_def Let_def sizeof_fat_dir_entry_def toy_image_def toy_name_def toupper_def upt_rec numeral_eq_Suc)
  moreover have "de_attributes (toy_file link) \<noteq> 0x0F" "de_name (toy_file link) ! 0 \<noteq> 0"
    by (simp_all add: toy_file_def dir_entry_at_def Let_def sizeof_fat_dir_entry_def toy_image_def)
  ultimately have "dir_lookup (dir_entries toy_dev (toy_image link) [2]) (entry_name toy_name) = Some (toy_file link)"
    by (simp add: dir_lookup_def)
  from looks_up.found [OF toy_root(2) ch this looks_up.here] show ?thesis by simp
qed

lemma toy_data: "chain_data toy_dev (toy_image link) [3] = replicate 512 0x2A"
proof -
  have "map (\<lambda>i. toy_image link (3 + of_nat (i div 512)) (i mod 512)) [0..<512] = map (\<lambda>i. 0x2A) [0..<512]"
    by (rule map_cong) (auto simp: toy_image_def)
  then show ?thesis by (simp add: chain_data_def cluster_data_def cluster_lba_def toy_dev_def map_replicate_const)
qed

theorem fat_read_correct_witness:
  "\<exists>c'. fat_read (image_disk (toy_image [0xFF, 0xFF, 0xFF, 0x0F])) toy_dev [0x61, 0x2E, 0x74, 0x78, 0x74] 0x200000 fat_cache_boot (\<lambda>_. 0) =
     Some (0, c', store_bytes 0x200000 (replicate 512 0x2A) (\<lambda>_. 0))"
proof -
  let ?img = "toy_image [0xFF, 0xFF, 0xFF, 0x0F]"
  have "fat_next toy_dev ?img 3 = 0x0FFFFFFF" by (simp add: fat_next_def toy_dev_def toy_image_def le32_def le16_def)
  then have "chain toy_dev ?img (entry_cluster (toy_file [0xFF, 0xFF, 0xFF, 0x0F])) [3]"
    using toy_readable by (simp add: toy_file_cluster is_data_cluster_def)
  with fat_read_correct [where buf = "0x200000" and m = "\<lambda>_. 0" and cs = "[3]", OF image_disk_serves cache_ok_boot _ toy_lookup] toy_name_valid show ?thesis
    by (auto simp: toy_data toy_name_def)
qed

text \<open>The file that ends after its cluster is read; the one whose cluster is its own successor is read for ever.\<close>

theorem fat_read_ends_iff_witness:
  "(\<exists>r. fat_read (image_disk (toy_image [0xFF, 0xFF, 0xFF, 0x0F])) toy_dev [0x61, 0x2E, 0x74, 0x78, 0x74] 0x200000 fat_cache_boot (\<lambda>_. 0) = Some r) \<and>
   fat_read (image_disk (toy_image [3, 0, 0, 0])) toy_dev [0x61, 0x2E, 0x74, 0x78, 0x74] 0x200000 fat_cache_boot (\<lambda>_. 0) = None"
proof -
  let ?e = "toy_image [0xFF, 0xFF, 0xFF, 0x0F]" and ?c = "toy_image [3, 0, 0, 0]"
  have nx: "fat_next toy_dev ?e 3 = 0x0FFFFFFF" "fat_next toy_dev ?c 3 = 3"
    by (simp_all add: fat_next_def toy_dev_def toy_image_def le32_def le16_def)
  have stop: "\<not> is_data_cluster 0x0FFFFFFF" by (simp add: is_data_cluster_def)
  have "k = 0" if "\<forall>j\<le>k. is_data_cluster ((fat_next toy_dev ?e ^^ j) 3)" for k
    using that stop nx(1) by (cases k) (auto dest: spec [of _ 1])
  then have e: "all_readable toy_dev ?e 3" unfolding all_readable_def by (metis funpow_0 toy_readable(2))
  have ee: "ends toy_dev ?e 3" using nx(1) stop ends_step by metis
  have orbit: "(fat_next toy_dev ?c ^^ k) 3 = 3" for k by (induction k) (simp_all add: nx)
  have c: "all_readable toy_dev ?c 3" "\<not> ends toy_dev ?c 3"
    using toy_readable by (simp_all add: all_readable_def ends_def orbit is_data_cluster_def)
  note T = fat_read_ends_iff [where buf = "0x200000" and m = "\<lambda>_. 0", OF image_disk_serves cache_ok_boot _ toy_lookup, unfolded toy_file_cluster]
  have hang: "\<nexists>r. fat_read (image_disk ?c) toy_dev [0x61, 0x2E, 0x74, 0x78, 0x74] 0x200000 fat_cache_boot (\<lambda>_. 0) = Some r"
    using T [OF _ c(1)] c(2) toy_name_valid by (simp add: toy_name_def)
  show ?thesis
  proof (intro conjI)
    show "\<exists>r. fat_read (image_disk ?e) toy_dev [0x61, 0x2E, 0x74, 0x78, 0x74] 0x200000 fat_cache_boot (\<lambda>_. 0) = Some r"
      using T [OF _ e] ee toy_name_valid by (simp add: toy_name_def)
  qed (use hang not_None_eq in metis)
qed

section \<open>Paths with a leading separator, and failing reads\<close>

text \<open>
  Claim C38. A separator at the start of a path is skipped when the first name is translated but found again when the next component is searched: the first
  component of \<^verbatim>\<open>/a/b\<close> is looked up twice, so the path names what \<^verbatim>\<open>a/a/b\<close> names.
\<close>

theorem leading_separator:
  assumes "ns \<noteq> []" "\<forall>n\<in>set ns. valid_name n"
  shows "fat_path_lookup disk dev d (0x2F # path_text ns) c = fat_path_lookup disk dev d (path_text (hd ns # ns)) c"
proof -
  obtain n ns' where ns: "ns = n # ns'" "valid_name n" using assms by (cases ns) auto
  define rest where "rest = (if ns' = [] then [] else 0x2F # path_text ns')"
  have p: "path_text ns = name_text n @ rest" unfolding ns(1) path_text_Cons rest_def ..
  have sn: "fat_short_name_to_name_ext (0x2F # path_text ns) (replicate 11 0) = entry_name n"
  proof -
    have "deref (name_text n @ rest) \<noteq> 0x2F"
      using ns(2) by (cases n; cases "fst n") (auto simp: plain_def)
    then have "fat_short_name_to_name_ext (0x2F # path_text ns) (replicate 11 0) = fat_short_name_to_name_ext (name_text n @ rest) (replicate 11 0)"
      by (simp add: fat_short_name_to_name_ext_def p)
    also have "\<dots> = entry_name n" using short_name_valid [OF ns(2), of rest "replicate 11 0"] by (auto simp: rest_def)
    finally show ?thesis .
  qed
  have "fat_path_lookup disk dev d (0x2F # path_text ns) c = (case fat_file_lookup disk dev d (entry_name n) c of
       None \<Rightarrow> None | Some (Inl err, c) \<Rightarrow> Some (Inl err, c) | Some (Inr e, c) \<Rightarrow> path_loop disk dev (Some (path_text ns)) (entry_name n) e c)"
    unfolding fat_path_lookup_def by (subst path_loop.simps) (auto simp: sn Let_def split: option.split sum.split)
  also have "\<dots> = fat_path_lookup disk dev d (path_text (hd ns # ns)) c"
    unfolding fat_path_lookup_def path_text_Cons
    using path_loop_name [OF ns(2), of "replicate 11 0" disk dev ns d c] assms(1) ns(1) by simp
  finally show ?thesis .
qed

theorem leading_separator_witness:
  "fat_path_lookup (image_disk (toy_image [])) toy_dev (root_entry toy_dev) [0x2F, 0x61] fat_cache_boot = fat_path_lookup (image_disk (toy_image [])) toy_dev (root_entry toy_dev) [0x61, 0x2F, 0x61] fat_cache_boot"
  using leading_separator [of "[([0x61], [])]" "image_disk (toy_image [])" toy_dev "root_entry toy_dev" fat_cache_boot] by (simp add: plain_def)

text \<open>A failing read of another sector overwrites the cached entries but leaves their description valid: afterwards the old sector is answered from the new bytes.\<close>

lemma failed_fetch_corrupts:
  assumes "\<not> fat_cache_is_stale dev (cl div 128) c" "fat_read_sectors disk dev (dev_fat dev + n) 1 = (err, Some b)" "err \<noteq> 0"
  shows "fat_get_next_cluster disk dev cl (snd (fat_cache_fetch disk dev n c)) =
    (Inr (le32 b (4 * unat (cl mod 128))), snd (fat_cache_fetch disk dev n c))"
  using assms by (simp add: fat_get_next_cluster_def fat_cache_fetch_def fat_cache_is_stale_def split: if_splits)

end
