(* ===== verification/Boot.thy ===== *)
theory Boot
  imports Fat_Correct Vmm_Space
begin

text \<open>
  The second stage of the loader: its page tables (\<^verbatim>\<open>boot/vmm.c\<close>) and its entry point (\<^verbatim>\<open>boot/main.c\<close>), which loads the kernel file, copies the memory
  map and enters the kernel. The loader runs with 32-bit addresses and without paging, so addresses are physical. The partition and the
  blocks of the memory map come from the boot loader and are arguments, and so are the addresses that the linker chooses. The file is
  loaded into the same byte memory in which the page tables lie; the other static variables are fields of their own.
\<close>

section \<open>Page tables\<close>

text \<open>The addresses of the static tables, and the bounds of the section of zero-initialised variables in which the linker puts them.\<close>

record loader_tables =
  l_pml4 :: u32
  l_pdpt_l :: u32
  l_pdpt_h :: u32
  l_pd_l :: u32
  l_pd_h :: u32
  l_bss_start :: u32
  l_bss_end :: u32

text \<open>A store to an element of a table, as eight little-endian bytes; the processor reads the tables from the same bytes.\<close>

definition load64 :: "u32 \<Rightarrow> 32 mem \<Rightarrow> u64" where
  "load64 p m = ucast (load32 p m) OR push_bit 32 (ucast (load32 (p + 4) m))"

definition store64 :: "u32 \<Rightarrow> u64 \<Rightarrow> 32 mem \<Rightarrow> 32 mem" where
  "store64 p v m = store32 (p + 4) (ucast (drop_bit 32 v)) (store32 p (ucast v) m)"

definition table_set :: "u32 \<Rightarrow> u64 \<Rightarrow> u64 \<Rightarrow> 32 mem \<Rightarrow> 32 mem" where
  "table_set t i v m = store64 (t + 8 * ucast i) v m"

definition table_words :: "32 mem \<Rightarrow> u64 \<Rightarrow> u64" where
  "table_words m a = load64 (ucast a) m"

definition boot_vmm_init :: "loader_tables \<Rightarrow> u64 \<Rightarrow> u64 \<Rightarrow> 32 mem \<Rightarrow> int \<times> 32 mem" where
  "boot_vmm_init ts kern_phys kern_virt m =
     (if kern_virt < 0xFFFF800000000000 then (-1, m)
      else let
        m = table_set (l_pml4 ts) 0 (ucast (l_pdpt_l ts) OR PT_PRESENT OR PT_WRITABLE) m;
        m = table_set (l_pdpt_l ts) 0 (ucast (l_pd_l ts) OR PT_PRESENT OR PT_WRITABLE) m;
        m = table_set (l_pd_l ts) 0 (0 OR PT_PRESENT OR PT_WRITABLE OR PT_PSE) m;
        m = table_set (l_pml4 ts) (pt_index 39 kern_virt) (ucast (l_pdpt_h ts) OR PT_PRESENT OR PT_WRITABLE) m;
        m = table_set (l_pdpt_h ts) (pt_index 30 kern_virt) (ucast (l_pd_h ts) OR PT_PRESENT OR PT_WRITABLE) m;
        m = table_set (l_pd_h ts) (pt_index 21 kern_virt) (kern_phys OR PT_PRESENT OR PT_WRITABLE OR PT_PSE) m
      in (0, m))"

definition vmm_get_pml4 :: "loader_tables \<Rightarrow> u32" where
  "vmm_get_pml4 ts = l_pml4 ts"

section \<open>Entry point\<close>

definition KERN_PHYS :: u64 where "KERN_PHYS = 0x200000"
definition KERN_VIRT :: u64 where "KERN_VIRT = 0xFFFFFFFF80000000"

definition KERNEL_FILE :: "u8 list" where
  "KERNEL_FILE = map (\<lambda>ch. of_nat (of_char ch)) ''system/kernel.bin''"

text \<open>
  Memory and the static variables, all of which the entry point clears first; the partition is described by controller, port, first
  sector and size.
\<close>

record loader =
  ld_mem :: "32 mem"
  ld_cache :: fat_cache
  ld_entries :: "e820_entry list"
  ld_count :: nat

definition clear_bss :: "loader_tables \<Rightarrow> loader \<Rightarrow> loader" where
  "clear_bss ts s =
     s\<lparr>ld_mem := snd (memset_boot (l_bss_start ts) 0 (l_bss_end ts - l_bss_start ts) (ld_mem s)),
       ld_cache := fat_cache_boot, ld_entries := replicate 256 empty_entry, ld_count := 0\<rparr>"

text \<open>The machine is either halted after a message or left to the kernel.\<close>

datatype boot_outcome = PowerOff string loader | EnterKernel u32 u64 loader

definition copy_block :: "e820_entry list \<Rightarrow> nat \<Rightarrow> e820_entry list \<Rightarrow> e820_entry list kres" where
  "copy_block blocks i es =
     (if i < length es then Ok (es[i := \<lparr>e_addr = e_addr (blocks ! i), e_size = e_size (blocks ! i), e_type = e_type (blocks ! i)\<rparr>]) else Err OutOfBounds)"

definition undefined_dev :: fat_dev where
  "undefined_dev = \<lparr>dev_abar = 0, dev_port = 0, dev_lba = 0, dev_sectors = 0, dev_fat = 0, dev_fat_sectors = 0, dev_root_dir_cluster = 0, dev_data = 0, dev_sectors_per_cluster = 0\<rparr>"

definition boot_entry ::
    "disk \<Rightarrow> loader_tables \<Rightarrow> u32 \<Rightarrow> u8 \<Rightarrow> u32 \<Rightarrow> u32 \<Rightarrow> e820_entry list \<Rightarrow> loader \<Rightarrow> boot_outcome kres option" where
  "boot_entry disk_read ts abar port lba sectors blocks s0 =
     (let s = clear_bss ts s0;
          (err, dev) = fat_dev_init disk_read abar port lba sectors undefined_dev
      in if err \<noteq> 0 then Some (Ok (PowerOff ''Falied to initialize FAT for boot volume'' s))
         else case fat_read disk_read dev KERNEL_FILE (ucast KERN_PHYS) (ld_cache s) (ld_mem s) of
           None \<Rightarrow> None
         | Some (err, c, m) \<Rightarrow>
             let s = s\<lparr>ld_cache := c, ld_mem := m\<rparr>
             in if err \<noteq> 0 then Some (Ok (PowerOff ''Falied to read system/kernel.bin'' s))
                else
                  let (err, m) = boot_vmm_init ts KERN_PHYS KERN_VIRT (ld_mem s);
                      s = s\<lparr>ld_mem := m\<rparr>
                  in if err \<noteq> 0 then Some (Ok (PowerOff ''Falied to initialize VMM'' s))
                     else Some (rbind (rfold (copy_block blocks) [0..<length blocks] (ld_entries s)) (\<lambda>es.
                       Ok (EnterKernel (vmm_get_pml4 ts) KERN_VIRT (s\<lparr>ld_entries := es, ld_count := length blocks\<rparr>)))))"

section \<open>The loader's address space\<close>

definition loader_list :: "loader_tables \<Rightarrow> u32 list" where
  "loader_list ts = [l_pml4 ts, l_pdpt_l ts, l_pdpt_h ts, l_pd_l ts, l_pd_h ts]"

text \<open>
  The linker gives the five tables distinct aligned places among the zero-initialised variables, which end below 2 MiB: the linker script
  puts them between \<^verbatim>\<open>0x20000\<close> and \<^verbatim>\<open>0xA0000\<close>.
\<close>

definition loader_static :: "loader_tables \<Rightarrow> bool" where
  "loader_static ts \<longleftrightarrow> distinct (loader_list ts) \<and> unat (l_bss_end ts) \<le> 0x200000 \<and>
     (\<forall>t\<in>set (loader_list ts). unat t mod 4096 = 0 \<and> unat (l_bss_start ts) \<le> unat t \<and> unat t + 4096 \<le> unat (l_bss_end ts))"

definition in_bss :: "loader_tables \<Rightarrow> u32 \<Rightarrow> bool" where
  "in_bss ts a \<longleftrightarrow> l_bss_start ts \<le> a \<and> a < l_bss_end ts"

definition loader_zero :: "loader_tables \<Rightarrow> 32 mem \<Rightarrow> bool" where
  "loader_zero ts m \<longleftrightarrow> (\<forall>t\<in>set (loader_list ts). \<forall>i<512. table_words m (ucast t + 8 * i) = 0)"

lemma unat_ucast32 [simp]: "unat (ucast (t :: u32) :: u64) = unat t"
  using unsigned_less [of t, where ?'a = nat] by (simp add: unsigned_ucast_eq take_bit_nat_eq_self)

lemma loader_table: "unat (t :: u32) mod 4096 = 0 \<Longrightarrow> page_aligned (ucast t)" "unat (ucast t :: u64) < 2 ^ 63"
  using unsigned_less [of t, where ?'a = nat] by (simp_all add: page_aligned_def)

lemma ucast32_inj: "(ucast (t :: u32) :: u64) = ucast t' \<longleftrightarrow> t = t'"
  by (metis unat_ucast32 word_unat_eq_iff)

lemma load64_store64: "load64 p (store64 p v m) = v"
proof (rule bit_word_eqI)
  fix n assume "n < LENGTH(64)"
  then have n: "n < 64" by simp
  have lo: "load32 p (store32 p x m) = x" for x :: u32 and p :: u32 and m
  proof (rule bit_word_eqI)
    fix n assume "n < LENGTH(32)"
    moreover have "n < 24 \<or> 24 + (n - 24) = n" by arith
    ultimately show "bit (load32 p (store32 p x m)) n = bit x n"
      by (auto simp: load32_def store32_def bit_or_iff bit_push_bit_iff bit_ucast_iff bit_drop_bit_eq)
  qed
  have "load32 p (store32 (p + 4) x m) = load32 p m" for x m by (simp add: load32_def store32_def)
  then have "load64 p (store64 p v m) = ucast (ucast v :: u32) OR push_bit 32 (ucast (ucast (drop_bit 32 v) :: u32))"
    by (simp add: load64_def store64_def lo)
  then show "bit (load64 p (store64 p v m)) n = bit v n"
    using n by (auto simp: bit_or_iff bit_push_bit_iff bit_ucast_iff bit_drop_bit_eq)
qed

lemma store64_bytes:
  assumes "store64 p v m a \<noteq> m a"
  shows "\<exists>i<8. a = p + of_nat i"
proof -
  have "a \<in> {p + of_nat 0, p + of_nat 1, p + of_nat 2, p + of_nat 3, p + of_nat 4, p + of_nat 5, p + of_nat 6, p + of_nat 7}"
    using assms by (auto simp: store64_def store32_def add.assoc split: if_splits)
  then show ?thesis
    by (elim insertE emptyE) (rule exI [of _ 0], simp, rule exI [of _ 1], simp, rule exI [of _ 2], simp, rule exI [of _ 3], simp, rule exI [of _ 4], simp,
        rule exI [of _ 5], simp, rule exI [of _ 6], simp, rule exI [of _ 7], simp)
qed

lemma load64_cong:
  assumes "\<And>i. i < 8 \<Longrightarrow> m (p + of_nat i) = m' (p + of_nat i)"
  shows "load64 p m = load64 p m'"
  using assms [of 0] assms [of 1] assms [of 2] assms [of 3] assms [of 4] assms [of 5] assms [of 6] assms [of 7]
  by (simp add: load64_def load32_def add.assoc)

lemma unat_byte:
  assumes "unat (p :: u32) mod 8 = 0" "i < 8"
  shows "unat (p + of_nat i) = unat p + i"
proof -
  have "unat p < 2 ^ 32" using unsigned_less [of p, where ?'a = nat] by simp
  moreover have "(2 :: nat) ^ 32 mod 8 = 0" by simp
  ultimately have "unat p + i < 2 ^ 32" using assms by presburger
  then show ?thesis using assms(2) by (subst unat_add_lt) (simp_all add: unsigned_of_nat take_bit_nat_eq_self)
qed

lemma load64_other:
  assumes "unat p mod 8 = 0" "unat q mod 8 = 0" "q \<noteq> p"
  shows "load64 q (store64 p v m) = load64 q m"
proof (rule load64_cong, rule ccontr)
  fix i :: nat
  assume i: "i < 8" and "store64 p v m (q + of_nat i) \<noteq> m (q + of_nat i)"
  then obtain j where j: "j < 8" "q + of_nat i = p + of_nat j" using store64_bytes by blast
  then have "unat q + i = unat p + j" using unat_byte [OF assms(1) j(1)] unat_byte [OF assms(2) i] by simp
  then have "unat q = unat p" using assms(1, 2) i j(1) by presburger
  then show False using assms(3) by (simp add: word_unat_eq_iff)
qed

lemma aligned8:
  assumes "unat t mod 4096 = 0"
  shows "(unat t + 8 * i) mod 8 = 0"
proof -
  obtain k where "unat t = 4096 * k" using assms by (auto elim: dvdE)
  then have "unat t + 8 * i = 8 * (512 * k + i)" by simp
  then show ?thesis by (simp only: mod_mult_self1_is_0)
qed

text \<open>The address of an element of a table, in the loader's 32 bits and in the 64 bits of the processor.\<close>

lemma element_addr:
  assumes "unat (t :: u32) mod 4096 = 0" "(i :: u64) < 512"
  shows "unat (t + 8 * ucast i) = unat t + 8 * unat i" "ucast (ucast t + 8 * i :: u64) = t + 8 * ucast i"
proof -
  have i: "unat i < 512" using assms(2) by (simp add: word_less_nat_alt)
  have t: "unat t + 4096 \<le> 2 ^ 32" 
  proof -
    obtain k where k: "unat t = 4096 * k" using assms(1) by (auto elim: dvdE)
    then have "k < 0x100000" using unsigned_less [of t, where ?'a = nat] by simp
    then show ?thesis using k by simp
  qed
  have u: "unat (ucast i :: u32) = unat i" using i by (simp add: unsigned_ucast_eq take_bit_nat_eq_self)
  have e: "unat (8 * ucast i :: u32) = 8 * unat i" using i u by (subst unat_mult_lt) simp_all
  then show a: "unat (t + 8 * ucast i) = unat t + 8 * unat i" using i t by (subst unat_add_lt) simp_all
  have "unat (ucast t + 8 * i :: u64) = unat t + 8 * unat i"
    using unat_cell [OF loader_table(1) [OF assms(1)] assms(2)] by simp
  then show "ucast (ucast t + 8 * i :: u64) = t + 8 * ucast i"
    using a i t by (simp add: word_unat_eq_iff unsigned_ucast_eq take_bit_nat_eq_self)
qed

lemma table_set_cell:
  assumes "unat t mod 4096 = 0" "unat t' mod 4096 = 0" "i < 512" "j < 512"
  shows "table_words (table_set t i v m) (ucast t' + 8 * j) = (if t' = t \<and> j = i then v else table_words m (ucast t' + 8 * j))"
proof -
  let ?p = "t + 8 * ucast i" and ?q = "t' + 8 * ucast j"
  note a = element_addr [OF assms(1, 3)] element_addr [OF assms(2, 4)]
  have al: "unat ?p mod 8 = 0" "unat ?q mod 8 = 0" unfolding a by (simp_all only: aligned8 assms)
  have "?q = ?p \<longleftrightarrow> (ucast t' + 8 * j :: u64) = ucast t + 8 * i"
    using unat_cell [OF loader_table(1) [OF assms(1)] assms(3)] unat_cell [OF loader_table(1) [OF assms(2)] assms(4)]
    by (simp only: word_unat_eq_iff a unat_ucast32)
  also have "\<dots> \<longleftrightarrow> t' = t \<and> j = i"
    using cell_eq [OF loader_table(1) [OF assms(2)] assms(4) loader_table(1) [OF assms(1)] assms(3)] by (simp add: ucast32_inj)
  finally have "?q = ?p \<longleftrightarrow> t' = t \<and> j = i" .
  then show ?thesis unfolding table_words_def table_set_def a(4) using load64_store64 load64_other [OF al] by auto
qed

lemma table_set_outside:
  assumes "loader_static ts" "t \<in> set (loader_list ts)" "i < 512" "\<not> in_bss ts a"
  shows "table_set t i v m a = m a"
proof (rule ccontr)
  assume "table_set t i v m a \<noteq> m a"
  then obtain j where j: "j < 8" "a = t + 8 * ucast i + of_nat j" using store64_bytes unfolding table_set_def by blast
  have t: "unat t mod 4096 = 0" "unat (l_bss_start ts) \<le> unat t" "unat t + 4096 \<le> unat (l_bss_end ts)"
    using assms(1, 2) by (auto simp: loader_static_def)
  have i: "unat i < 512" using assms(3) by (simp add: word_less_nat_alt)
  have "unat (t + 8 * ucast i) mod 8 = 0" unfolding element_addr(1) [OF t(1) assms(3)] by (rule aligned8 [OF t(1)])
  then have "unat a = unat t + 8 * unat i + j" using unat_byte [OF _ j(1)] element_addr(1) [OF t(1) assms(3)] j(2) by simp
  then show False using assms(4) t(2, 3) i j(1) by (simp add: in_bss_def word_le_nat_alt word_less_nat_alt)
qed

lemma kern_virt_index:
  assumes "0xFFFF800000000000 \<le> kern_virt"
  shows "pt_index 39 kern_virt \<noteq> 0"
proof
  assume "pt_index 39 kern_virt = 0"
  then have "unat kern_virt div 2 ^ 39 mod 512 = 0" by (metis unat_pt_index unat_0)
  moreover have k: "0xFFFF800000000000 \<le> unat kern_virt" "unat kern_virt < 2 ^ 64"
    using assms unat_lt_u64 [of kern_virt] by (simp_all add: word_le_nat_alt)
  moreover have "0x1FFFF00 \<le> unat kern_virt div 2 ^ 39" "unat kern_virt div 2 ^ 39 < 0x2000000"
    using k by (simp_all add: less_eq_div_iff_mult_less_eq div_less_iff_less_mult)
  moreover obtain k where "unat kern_virt div 2 ^ 39 = 512 * k" using calculation(1) by (auto elim: dvdE)
  ultimately have "k < 65536" "65535 < k" by linarith+
  then show False by simp
qed

lemma boot_vmm_init_mem:
  fixes ts kern_virt kern_phys m
  defines "m' \<equiv> table_words (snd (boot_vmm_init ts kern_phys kern_virt m))"
  assumes s: "loader_static ts" and z: "loader_zero ts m" and v: "0xFFFF800000000000 \<le> kern_virt" and i: "i < 512"
  shows "m' (ucast (l_pml4 ts) + 8 * i) = (if i = pt_index 39 kern_virt then ucast (l_pdpt_h ts) OR PT_PRESENT OR PT_WRITABLE
      else if i = 0 then ucast (l_pdpt_l ts) OR PT_PRESENT OR PT_WRITABLE else 0)"
    and "m' (ucast (l_pdpt_l ts) + 8 * i) = (if i = 0 then ucast (l_pd_l ts) OR PT_PRESENT OR PT_WRITABLE else 0)"
    and "m' (ucast (l_pdpt_h ts) + 8 * i) = (if i = pt_index 30 kern_virt then ucast (l_pd_h ts) OR PT_PRESENT OR PT_WRITABLE else 0)"
    and "m' (ucast (l_pd_l ts) + 8 * i) = (if i = 0 then 0 OR PT_PRESENT OR PT_WRITABLE OR PT_PSE else 0)"
    and "m' (ucast (l_pd_h ts) + 8 * i) = (if i = pt_index 21 kern_virt then kern_phys OR PT_PRESENT OR PT_WRITABLE OR PT_PSE else 0)"
proof -
  have al: "unat t mod 4096 = 0" "table_words m (ucast t + 8 * i) = 0" if "t \<in> set (loader_list ts)" for t
    using s z i that by (simp_all add: loader_static_def loader_zero_def)
  have d: "l_pml4 ts \<noteq> l_pdpt_l ts" "l_pml4 ts \<noteq> l_pdpt_h ts" "l_pml4 ts \<noteq> l_pd_l ts" "l_pml4 ts \<noteq> l_pd_h ts" "l_pdpt_l ts \<noteq> l_pdpt_h ts"
    "l_pdpt_l ts \<noteq> l_pd_l ts" "l_pdpt_l ts \<noteq> l_pd_h ts" "l_pdpt_h ts \<noteq> l_pd_l ts" "l_pdpt_h ts \<noteq> l_pd_h ts" "l_pd_l ts \<noteq> l_pd_h ts"
    using s by (auto simp: loader_static_def loader_list_def)
  note S = table_set_cell [OF al(1) al(1)]
  have "m' (ucast t + 8 * i) =
      (if t = l_pd_h ts \<and> i = pt_index 21 kern_virt then kern_phys OR PT_PRESENT OR PT_WRITABLE OR PT_PSE
       else if t = l_pdpt_h ts \<and> i = pt_index 30 kern_virt then ucast (l_pd_h ts) OR PT_PRESENT OR PT_WRITABLE
       else if t = l_pml4 ts \<and> i = pt_index 39 kern_virt then ucast (l_pdpt_h ts) OR PT_PRESENT OR PT_WRITABLE
       else if t = l_pd_l ts \<and> i = 0 then 0 OR PT_PRESENT OR PT_WRITABLE OR PT_PSE
       else if t = l_pdpt_l ts \<and> i = 0 then ucast (l_pd_l ts) OR PT_PRESENT OR PT_WRITABLE
       else if t = l_pml4 ts \<and> i = 0 then ucast (l_pdpt_l ts) OR PT_PRESENT OR PT_WRITABLE
       else 0)" if "t \<in> set (loader_list ts)" for t
    using v that i unfolding m'_def boot_vmm_init_def
    by (simp add: S loader_list_def al(2) not_less [symmetric] split del: if_split cong: if_cong)
  from this [of "l_pml4 ts"] this [of "l_pdpt_l ts"] this [of "l_pdpt_h ts"] this [of "l_pd_l ts"] this [of "l_pd_h ts"] d
  show "m' (ucast (l_pml4 ts) + 8 * i) = (if i = pt_index 39 kern_virt then ucast (l_pdpt_h ts) OR PT_PRESENT OR PT_WRITABLE
      else if i = 0 then ucast (l_pdpt_l ts) OR PT_PRESENT OR PT_WRITABLE else 0)"
    "m' (ucast (l_pdpt_l ts) + 8 * i) = (if i = 0 then ucast (l_pd_l ts) OR PT_PRESENT OR PT_WRITABLE else 0)"
    "m' (ucast (l_pdpt_h ts) + 8 * i) = (if i = pt_index 30 kern_virt then ucast (l_pd_h ts) OR PT_PRESENT OR PT_WRITABLE else 0)"
    "m' (ucast (l_pd_l ts) + 8 * i) = (if i = 0 then 0 OR PT_PRESENT OR PT_WRITABLE OR PT_PSE else 0)"
    "m' (ucast (l_pd_h ts) + 8 * i) = (if i = pt_index 21 kern_virt then kern_phys OR PT_PRESENT OR PT_WRITABLE OR PT_PSE else 0)"
    by (simp_all add: loader_list_def)
qed

text \<open>The translation the loader sets up: the first 2 MiB one to one, and the 2 MiB of the kernel's window to its load address.\<close>

lemma boot_vmm_init_translate:
  assumes s: "loader_static ts" and z: "loader_zero ts m" and v: "0xFFFF800000000000 \<le> kern_virt"
    and p: "unat kern_phys mod 0x200000 = 0" "unat kern_phys < 2 ^ 63"
  shows "map_option fst (translate (table_words (snd (boot_vmm_init ts kern_phys kern_virt m))) (ucast (l_pml4 ts)) w) =
    (if pt_index 39 w = 0 \<and> pt_index 30 w = 0 \<and> pt_index 21 w = 0 then Some (take_bit 21 w)
     else if pt_index 39 w = pt_index 39 kern_virt \<and> pt_index 30 w = pt_index 30 kern_virt \<and> pt_index 21 w = pt_index 21 kern_virt
       then Some (kern_phys + take_bit 21 w)
     else None)"
proof -
  let ?m = "table_words (snd (boot_vmm_init ts kern_phys kern_virt m))"
  note M = boot_vmm_init_mem [OF s z v, where kern_phys = kern_phys]
  have link: "present (ucast t OR PT_PRESENT OR PT_WRITABLE)" "\<not> pse (ucast t OR PT_PRESENT OR PT_WRITABLE)"
    "addr_of (ucast t OR PT_PRESENT OR PT_WRITABLE) = ucast t" if "t \<in> set (loader_list ts)" for t
    using link_entry [of "ucast t"] loader_table [of t] s that by (auto simp: loader_static_def)
  have step: "tbl_at ?m T (i # q) = (if present (?m (T + 8 * i)) \<and> \<not> pse (?m (T + 8 * i)) then tbl_at ?m (addr_of (?m (T + 8 * i))) q else None)" for T i q
    by (simp add: tbl_at.simps Let_def)
  have i: "pt_index sh u < 512" for sh u by simp
  have low: "tbl_at ?m (ucast (l_pml4 ts)) (i # q) =
      (if i = pt_index 39 kern_virt then tbl_at ?m (ucast (l_pdpt_h ts)) q else if i = 0 then tbl_at ?m (ucast (l_pdpt_l ts)) q else None)"
    "tbl_at ?m (ucast (l_pdpt_h ts)) (i # q) = (if i = pt_index 30 kern_virt then tbl_at ?m (ucast (l_pd_h ts)) q else None)"
    "tbl_at ?m (ucast (l_pdpt_l ts)) (i # q) = (if i = 0 then tbl_at ?m (ucast (l_pd_l ts)) q else None)" if "i < 512" for i q
    unfolding step M(1-3) [OF that] using link by (simp_all add: loader_list_def)
  have path: "tbl_at ?m (ucast (l_pml4 ts)) [pt_index 39 w, pt_index 30 w] =
      (if pt_index 39 w = pt_index 39 kern_virt then if pt_index 30 w = pt_index 30 kern_virt then Some (ucast (l_pd_h ts)) else None
       else if pt_index 39 w = 0 then if pt_index 30 w = 0 then Some (ucast (l_pd_l ts)) else None else None)"
    by (simp add: low [OF i] tbl_at.simps(1))
  note L = large_entry [of 0 "PT_PRESENT OR PT_WRITABLE OR PT_PSE"] and H = large_entry [OF p, of "PT_PRESENT OR PT_WRITABLE OR PT_PSE"]
  have leafs: "leaf_of ?m (ucast (l_pd_l ts)) w = (if pt_index 21 w = 0 then Some (take_bit 21 w, ?m (ucast (l_pd_l ts) + 8 * pt_index 21 w)) else None)"
    "leaf_of ?m (ucast (l_pd_h ts)) w =
      (if pt_index 21 w = pt_index 21 kern_virt then Some (kern_phys + take_bit 21 w, ?m (ucast (l_pd_h ts) + 8 * pt_index 21 w)) else None)"
    unfolding leaf_of_def M(4) [OF i] M(5) [OF i] using L H by (simp_all add: large_off Let_def)
  show ?thesis unfolding translate_leaf path using kern_virt_index [OF v] by (auto simp: leafs)
qed

lemma boot_vmm_init_outside:
  assumes "loader_static ts" "\<not> in_bss ts a"
  shows "snd (boot_vmm_init ts kern_phys kern_virt m) a = m a"
  using table_set_outside [OF assms(1) _ _ assms(2)] by (simp add: boot_vmm_init_def Let_def loader_list_def)

section \<open>Loading and entering the kernel\<close>

text \<open>The volume that the boot sector of an image describes.\<close>

definition volume_dev :: "u32 \<Rightarrow> u8 \<Rightarrow> u32 \<Rightarrow> u32 \<Rightarrow> image \<Rightarrow> fat_dev" where
  "volume_dev abar port lba sectors img =
     (let bpb = fat_header_of (img 0); fat = ucast (reserved_sectors bpb); fat_sectors = ucast (fat_count bpb) * sectors_per_fat bpb
      in \<lparr>dev_abar = abar, dev_port = port, dev_lba = lba, dev_sectors = sectors, dev_fat = fat, dev_fat_sectors = fat_sectors,
          dev_root_dir_cluster = root_dir_cluster bpb, dev_data = fat + fat_sectors, dev_sectors_per_cluster = sectors_per_cluster bpb\<rparr>)"

lemma fat_dev_init_image:
  assumes "serves disk (volume_dev abar port lba sectors img) img" "0 < sectors"
  shows "fat_dev_init disk abar port lba sectors dev0 = (0, volume_dev abar port lba sectors img)"
proof -
  define dev where "dev = dev0\<lparr>dev_abar := abar, dev_port := port, dev_lba := lba, dev_sectors := sectors\<rparr>"
  have "serves disk dev img" using assms(1) by (simp add: serves_def volume_dev_def dev_def Let_def)
  moreover have "0 < dev_sectors dev" using assms(2) by (simp add: dev_def)
  ultimately have r: "fat_read_sectors disk dev 0 1 = (0, Some (\<lambda>i. img (0 + of_nat (i div 512)) (i mod 512)))" by (rule read_one)
  have h: "fat_header_of (\<lambda>i. img (0 + of_nat (i div 512)) (i mod 512)) = fat_header_of (img 0)"
    by (simp add: fat_header_of_def le16_def le32_def)
  show ?thesis unfolding fat_dev_init_def Let_def dev_def [symmetric] r using h by (simp add: volume_dev_def Let_def dev_def)
qed

definition kernel_path :: "name83 list" where
  "kernel_path = [([115, 121, 115, 116, 101, 109], []), ([107, 101, 114, 110, 101, 108], [98, 105, 110])]"

lemma kernel_path_text: "path_text kernel_path = KERNEL_FILE"
  by (simp add: kernel_path_def KERNEL_FILE_def)

lemma kernel_path_valid: "\<forall>n\<in>set kernel_path. valid_name n"
  by (simp add: kernel_path_def plain_def)

lemma copy_block_eq: "copy_block blocks i es = (if i < length es then Ok (es[i := blocks ! i]) else Err OutOfBounds)"
  by (cases "blocks ! i") (simp add: copy_block_def)

lemma copy_blocks:
  assumes "length blocks \<le> length es"
  shows "rfold (copy_block blocks) [0..<length blocks] es = Ok (blocks @ drop (length blocks) es)"
proof -
  have "rfold (copy_block blocks) [0..<k] es = Ok (take k blocks @ drop k es)" if "k \<le> length blocks" for k
    using that
  proof (induction k)
    case (Suc k)
    have "(take k blocks @ drop k es)[k := blocks ! k] = take (Suc k) blocks @ drop (Suc k) es"
      using Suc.prems assms by (simp add: list_update_append take_Suc_conv_app_nth drop_update_swap [symmetric] Cons_nth_drop_Suc [symmetric])
    then show ?case using Suc assms by (simp add: rfold_snoc copy_block_eq)
  qed simp
  from this [of "length blocks"] show ?thesis by simp
qed

lemma copy_blocks_overflow:
  assumes "length es < length blocks"
  shows "rfold (copy_block blocks) [0..<length blocks] es = Err OutOfBounds"
proof -
  have len: "rfold (copy_block blocks) [0..<k] es = Ok es' \<Longrightarrow> length es' = length es" for k es'
    by (induction k arbitrary: es') (auto simp: rfold_snoc copy_block_eq [of blocks] split: if_splits)
  have all: "rfold (copy_block blocks) [0..<k] es = Err OutOfBounds \<or> is_Ok (rfold (copy_block blocks) [0..<k] es)" for k
  proof (induction k)
    case (Suc k)
    then show ?case by (cases "rfold (copy_block blocks) [0..<k] es") (simp_all add: rfold_snoc copy_block_eq [of blocks k])
  qed simp
  have "\<not> is_Ok (rfold (copy_block blocks) [0..<Suc (length es)] es)"
  proof (cases "rfold (copy_block blocks) [0..<length es] es")
    case (Ok x)
    then have "length x = length es" by (rule len)
    then show ?thesis by (simp add: rfold_snoc Ok copy_block_eq [of blocks "length es"])
  qed (simp add: rfold_snoc)
  then have e: "rfold (copy_block blocks) [0..<Suc (length es)] es = Err OutOfBounds" using all by blast
  have "[0..<length blocks] = [0..<Suc (length es)] @ [Suc (length es)..<length blocks]"
    using assms by (metis Suc_leI upt_add_eq_append le_add_diff_inverse zero_le)
  then show ?thesis by (simp only: rfold_append e rbind.simps)
qed

lemma clear_bss_mem:
  assumes "loader_static ts"
  shows "ld_mem (clear_bss ts s) a = (if in_bss ts a then 0 else ld_mem s a)"
proof -
  let ?b = "l_bss_start ts" and ?e = "l_bss_end ts"
  have "?b \<le> ?e" using assms by (auto simp: loader_static_def loader_list_def word_le_nat_alt)
  then have n: "unat (?e - ?b) = unat ?e - unat ?b" by (rule unat_sub)
  have "unat (a - ?b) < unat (?e - ?b) \<longleftrightarrow> in_bss ts a"
  proof (cases "?b \<le> a")
    case True
    then show ?thesis using n by (auto simp: in_bss_def unat_sub word_le_nat_alt word_less_nat_alt)
  next
    case False
    then have "unat a < unat ?b" by (simp add: word_le_nat_alt)
    then have "unat (a - ?b) = 2 ^ 32 + unat a - unat ?b" by (simp add: unat_sub_if_size word_size)
    then show ?thesis using False n \<open>unat a < unat ?b\<close> unsigned_less [of ?e, where ?'a = nat] by (simp add: in_bss_def)
  qed
  moreover have "length (replicate (unat (?e - ?b)) (0 :: u8)) \<le> 2 ^ LENGTH(32)"
    using unsigned_less [of "?e - ?b", where ?'a = nat] by simp
  ultimately show ?thesis by (simp add: clear_bss_def memset_boot_fill store_bytes_apply)
qed

text \<open>A file of at most 4 GiB less 2 MiB is loaded above the loader's variables, so the tables are still empty afterwards.\<close>

lemma store_high_outside:
  assumes "0x200000 + length bs \<le> 2 ^ 32" "unat a < 0x200000"
  shows "store_bytes 0x200000 bs m a = m (a :: u32)"
proof -
  have "unat (a - 0x200000) = 2 ^ 32 + unat a - 0x200000" using assms(2) by (simp add: unat_sub_if_size word_size)
  then show ?thesis using assms by (simp add: store_bytes_apply)
qed

lemma loader_zero_loaded:
  assumes "loader_static ts" "0x200000 + length bs \<le> 2 ^ 32"
  shows "loader_zero ts (store_bytes 0x200000 bs (ld_mem (clear_bss ts s)))"
  unfolding loader_zero_def
proof (intro ballI allI impI)
  fix t and i :: u64
  let ?m = "store_bytes 0x200000 bs (ld_mem (clear_bss ts s))"
  assume t: "t \<in> set (loader_list ts)" and i: "i < 512"
  have st: "unat t mod 4096 = 0" "unat (l_bss_start ts) \<le> unat t" "unat t + 4096 \<le> unat (l_bss_end ts)" "unat (l_bss_end ts) \<le> 0x200000"
    using assms(1) t by (auto simp: loader_static_def)
  have iu: "unat i < 512" using i by (simp add: word_less_nat_alt)
  have "load64 (t + 8 * ucast i) ?m = load64 (t + 8 * ucast i) (\<lambda>_. 0)"
  proof (rule load64_cong)
    fix j :: nat assume j: "j < 8"
    have "unat (t + 8 * ucast i) mod 8 = 0" unfolding element_addr(1) [OF st(1) i] by (rule aligned8 [OF st(1)])
    then have a: "unat (t + 8 * ucast i + of_nat j) = unat t + 8 * unat i + j" using unat_byte [OF _ j] element_addr(1) [OF st(1) i] by simp
    then have "in_bss ts (t + 8 * ucast i + of_nat j)" "unat (t + 8 * ucast i + of_nat j) < 0x200000"
      using st iu j by (simp_all add: in_bss_def word_le_nat_alt word_less_nat_alt)
    then show "?m (t + 8 * ucast i + of_nat j) = 0"
      using store_high_outside [OF assms(2)] clear_bss_mem [OF assms(1), of s] by simp
  qed
  then show "table_words ?m (ucast t + 8 * i) = 0"
    unfolding table_words_def element_addr(2) [OF st(1) i] by (simp add: load64_def load32_def)
qed

text \<open>
  Claim C39. From a volume that the driver serves and that holds \<^verbatim>\<open>system/kernel.bin\<close> on a chain of clusters that ends and fits below 4 GiB, with a memory map of
  at most 256 blocks, the loader enters the kernel: the file lies in memory from 2 MiB on and memory outside of the loader's own
  variables is otherwise unchanged, the memory map given to the kernel is the one of the firmware, and the tables it passes, read from
  that same memory, translate the kernel's 2 MiB window to the load address and the first 2 MiB one to one. If the file is not on the
  volume it stops with a message and enters nothing. The tables lie where the linker script puts them, below 2 MiB.
\<close>

theorem boot_entry_correct:
  fixes ts abar port lba sectors img
  defines "dev \<equiv> volume_dev abar port lba sectors img"
  assumes "serves disk dev img" "0 < sectors" "loader_static ts" "length blocks \<le> 256"
    "looks_up dev img (root_entry dev) (map entry_name kernel_path) r"
    "\<And>f. r = Some f \<Longrightarrow> chain dev img (entry_cluster f) cs"
    "0x200000 + length (chain_data dev img cs) \<le> 2 ^ 32"
  shows "\<exists>s'. boot_entry disk ts abar port lba sectors blocks s =
      Some (Ok (case r of None \<Rightarrow> PowerOff ''Falied to read system/kernel.bin'' s' | Some f \<Rightarrow> EnterKernel (l_pml4 ts) KERN_VIRT s')) \<and>
    (case r of None \<Rightarrow> \<forall>a. \<not> in_bss ts a \<longrightarrow> ld_mem s' a = ld_mem s a
     | Some f \<Rightarrow> (\<forall>a. \<not> in_bss ts a \<longrightarrow> ld_mem s' a = store_bytes 0x200000 (chain_data dev img cs) (ld_mem s) a) \<and>
         take (ld_count s') (ld_entries s') = blocks \<and>
         (\<forall>w. map_option fst (translate (table_words (ld_mem s')) (ucast (l_pml4 ts)) w) =
           (if pt_index 39 w = 0 \<and> pt_index 30 w = 0 \<and> pt_index 21 w = 0 then Some (take_bit 21 w)
            else if pt_index 39 w = pt_index 39 KERN_VIRT \<and> pt_index 30 w = pt_index 30 KERN_VIRT \<and> pt_index 21 w = pt_index 21 KERN_VIRT
              then Some (0x200000 + take_bit 21 w)
            else None)))"
proof -
  let ?data = "chain_data dev img cs"
  define s1 where "s1 = clear_bss ts s"
  have s1: "ld_cache s1 = fat_cache_boot" "length (ld_entries s1) = 256" by (simp_all add: s1_def clear_bss_def)
  have m1: "ld_mem s1 a = ld_mem s a" if "\<not> in_bss ts a" for a using that by (simp add: s1_def clear_bss_mem [OF assms(4)])
  have init: "fat_dev_init disk abar port lba sectors undefined_dev = (0, dev)"
    unfolding dev_def using assms(2, 3) by (intro fat_dev_init_image) (simp_all add: dev_def)
  obtain c' where read: "fat_read disk dev KERNEL_FILE 0x200000 fat_cache_boot (ld_mem s1) =
      Some (case r of Some f \<Rightarrow> (0, c', store_bytes 0x200000 ?data (ld_mem s1)) | None \<Rightarrow> (-1, c', ld_mem s1))"
    using fat_read_image [OF assms(2) cache_ok_boot kernel_path_valid assms(6, 7), of "0x200000" "ld_mem s1"] unfolding kernel_path_text by blast
  have addr: "ucast KERN_PHYS = (0x200000 :: u32)" by (simp add: KERN_PHYS_def)
  show ?thesis
  proof (cases r)
    case None
    then show ?thesis using read m1 unfolding boot_entry_def s1_def [symmetric] Let_def addr init s1(1) by simp
  next
    case (Some f)
    define m2 where "m2 = store_bytes 0x200000 ?data (ld_mem s1)"
    define m3 where "m3 = snd (boot_vmm_init ts KERN_PHYS KERN_VIRT m2)"
    have ok: "boot_vmm_init ts KERN_PHYS KERN_VIRT m2 = (0, m3)"
      unfolding m3_def boot_vmm_init_def by (simp add: KERN_VIRT_def Let_def)
    have tr: "map_option fst (translate (table_words m3) (ucast (l_pml4 ts)) w) =
      (if pt_index 39 w = 0 \<and> pt_index 30 w = 0 \<and> pt_index 21 w = 0 then Some (take_bit 21 w)
       else if pt_index 39 w = pt_index 39 KERN_VIRT \<and> pt_index 30 w = pt_index 30 KERN_VIRT \<and> pt_index 21 w = pt_index 21 KERN_VIRT
         then Some (KERN_PHYS + take_bit 21 w) else None)" for w
      unfolding m3_def m2_def s1_def
      by (rule boot_vmm_init_translate [OF assms(4) loader_zero_loaded [OF assms(4, 8)]]) (simp_all add: KERN_VIRT_def KERN_PHYS_def)
    have out: "m3 a = store_bytes 0x200000 ?data (ld_mem s) a" if "\<not> in_bss ts a" for a
      using boot_vmm_init_outside [OF assms(4) that] m1 [OF that] assms(8) by (simp add: m3_def m2_def store_bytes_apply)
    have cp: "rfold (copy_block blocks) [0..<length blocks] (ld_entries s1) = Ok (blocks @ drop (length blocks) (ld_entries s1))"
      using s1(2) assms(5) by (intro copy_blocks) simp
    show ?thesis
      using read Some tr [unfolded KERN_PHYS_def] out unfolding boot_entry_def s1_def [symmetric] Let_def addr init s1(1)
      by (simp add: ok cp vmm_get_pml4_def m2_def [symmetric] split del: if_split)
  qed
qed

section \<open>A bootable volume\<close>

text \<open>Five sectors: boot sector, allocation table, root directory, the directory \<^verbatim>\<open>SYSTEM\<close> and a kernel of one sector.\<close>

definition dir_sector :: "u8 list \<Rightarrow> u8 \<Rightarrow> u8 \<Rightarrow> nat \<Rightarrow> u8" where
  "dir_sector name attr cl i = (if i < 11 then name ! i else if i = 11 then attr else if i = 26 then cl else 0)"

definition boot_image :: image where
  "boot_image s =
     (if s = 0 then (\<lambda>i. if i \<in> {0x0D, 0x0E, 0x10, 0x24} then 1 else if i = 0x2C then 2 else 0)
      else if s = 1 then (\<lambda>i. if i mod 4 = 3 then 0x0F else 0xFF)
      else if s = 2 then dir_sector (entry_name ([115, 121, 115, 116, 101, 109], [])) 0x10 3
      else if s = 3 then dir_sector (entry_name ([107, 101, 114, 110, 101, 108], [98, 105, 110])) 0x20 4
      else (\<lambda>i. 0x90))"

definition boot_dev :: fat_dev where
  "boot_dev = \<lparr>dev_abar = 0, dev_port = 0, dev_lba = 64, dev_sectors = 5, dev_fat = 1, dev_fat_sectors = 1, dev_root_dir_cluster = 2, dev_data = 2, dev_sectors_per_cluster = 1\<rparr>"

lemma boot_dev_volume: "volume_dev 0 0 64 5 boot_image = boot_dev"
  by (simp add: volume_dev_def boot_dev_def fat_header_of_def boot_image_def le16_def le32_def Let_def)

lemma boot_serves: "serves (image_disk boot_image) boot_dev boot_image"
  by (simp add: serves_def image_disk_def boot_dev_def)

lemma boot_chain:
  assumes "c \<in> {2, 3, 4}"
  shows "chain boot_dev boot_image c [c]"
proof -
  have "fat_next boot_dev boot_image c = 0x0FFFFFFF"
    using assms by (auto simp: fat_next_def boot_dev_def boot_image_def le32_def le16_def)
  moreover have "readable boot_dev c" using assms by (auto simp: readable_def boot_dev_def cluster_lba_def)
  ultimately show ?thesis using assms by (auto simp: is_data_cluster_def)
qed

lemma dir_sector_lookup:
  assumes "length name = 11" "name ! 0 \<noteq> 0" "attr \<noteq> 0x0F" "img (cluster_lba dev c) = dir_sector name attr cl" "dev_sectors_per_cluster dev = 1"
  shows "dir_lookup (dir_entries dev img [c]) name = Some (dir_entry_at (dir_sector name attr cl) 0)"
proof -
  let ?e = "dir_entry_at (dir_sector name attr cl) 0"
  have up: "[0..<16 :: nat] = 0 # [1..<16]" by (simp add: upt_rec)
  have "map (dir_sector name attr cl) [0..<8] @ map (\<lambda>j. dir_sector name attr cl (8 + j)) [0..<3] = map (dir_sector name attr cl) [0..<11]"
    by (simp add: upt_rec numeral_eq_Suc)
  also have "\<dots> = map ((!) name) [0..<11]" by (rule map_cong) (auto simp: dir_sector_def)
  also have "\<dots> = name" using map_nth [of name] assms(1) by simp
  finally have nm: "de_name ?e @ de_ext ?e = name" by (simp add: dir_entry_at_def Let_def)
  moreover have "de_attributes ?e \<noteq> 0x0F" using assms(3) by (simp add: dir_entry_at_def Let_def dir_sector_def)
  moreover have "de_name ?e ! 0 \<noteq> 0" using assms(2) by (simp add: dir_entry_at_def Let_def dir_sector_def)
  ultimately show ?thesis using assms(4, 5) by (simp add: dir_entries_def cluster_entries_def up dir_lookup_def)
qed

lemma ucast_u8_u16: "ucast (ucast (x :: u8) :: u16) = (ucast x :: u32)"
  by (rule bit_word_eqI) (auto simp: bit_ucast_iff dest: bit_imp_le_length)

lemma dir_sector_entry:
  "entry_cluster (dir_entry_at (dir_sector name attr cl) 0) = ucast cl" "de_attributes (dir_entry_at (dir_sector name attr cl) 0) = attr"
  by (simp_all add: entry_cluster_def dir_entry_at_def Let_def dir_sector_def le16_def sizeof_fat_dir_entry_def ucast_u8_u16)

lemma boot_looks_up:
  "looks_up boot_dev boot_image (root_entry boot_dev) (map entry_name kernel_path)
     (Some (dir_entry_at (dir_sector (entry_name ([107, 101, 114, 110, 101, 108], [98, 105, 110])) 0x20 4) 0))"
proof -
  have img: "boot_image (cluster_lba boot_dev 2) = dir_sector (entry_name ([115, 121, 115, 116, 101, 109], [])) 0x10 3"
    "boot_image (cluster_lba boot_dev 3) = dir_sector (entry_name ([107, 101, 114, 110, 101, 108], [98, 105, 110])) 0x20 4"
    by (simp_all add: cluster_lba_def boot_dev_def boot_image_def)
  have nz: "entry_name ([115, 121, 115, 116, 101, 109], []) ! 0 \<noteq> 0" "entry_name ([107, 101, 114, 110, 101, 108], [98, 105, 110]) ! 0 \<noteq> 0"
    by (simp_all add: toupper_def)
  have len: "length (entry_name ([115, 121, 115, 116, 101, 109], [])) = 11" "length (entry_name ([107, 101, 114, 110, 101, 108], [98, 105, 110])) = 11"
    by simp_all
  have root: "entry_cluster (root_entry boot_dev) = 2" "de_attributes (root_entry boot_dev) AND FAT_ATTR_DIRECTORY \<noteq> 0"
    by (simp_all add: entry_cluster_def root_entry_def boot_dev_def FAT_ATTR_DIRECTORY_def)
  have spc: "dev_sectors_per_cluster boot_dev = 1" by (simp add: boot_dev_def)
  have c: "chain boot_dev boot_image (entry_cluster (root_entry boot_dev)) [2]"
    "chain boot_dev boot_image (entry_cluster (dir_entry_at (dir_sector (entry_name ([115, 121, 115, 116, 101, 109], [])) 0x10 3) 0)) [3]"
    using boot_chain [of 2] boot_chain [of 3] by (simp_all add: root dir_sector_entry del: chain.simps)
  have attr: "de_attributes (dir_entry_at (dir_sector (entry_name ([115, 121, 115, 116, 101, 109], [])) 0x10 3) 0) AND FAT_ATTR_DIRECTORY \<noteq> 0"
    unfolding dir_sector_entry by (simp add: FAT_ATTR_DIRECTORY_def)
  show ?thesis unfolding kernel_path_def list.map
    by (rule looks_up.found [OF root(2) c(1) dir_sector_lookup [where img = boot_image, OF len(1) nz(1) _ img(1) spc]], simp,
        rule looks_up.found [OF attr c(2) dir_sector_lookup [where img = boot_image, OF len(2) nz(2) _ img(2) spc]], simp, rule looks_up.here)
qed

definition boot_tables :: loader_tables where
  "boot_tables = \<lparr>l_pml4 = 0x21000, l_pdpt_l = 0x22000, l_pdpt_h = 0x23000, l_pd_l = 0x24000, l_pd_h = 0x25000, l_bss_start = 0x20400, l_bss_end = 0x26000\<rparr>"

theorem boot_entry_correct_witness:
  "\<exists>s'. boot_entry (image_disk boot_image) boot_tables 0 0 64 5 [\<lparr>e_addr = 0, e_size = 0x9F000, e_type = 1\<rparr>]
       \<lparr>ld_mem = \<lambda>_. 0xCC, ld_cache = fat_cache_boot, ld_entries = [], ld_count = 0\<rparr> = Some (Ok (EnterKernel 0x21000 KERN_VIRT s')) \<and>
     ld_mem s' 0x200000 = 0x90 \<and> ld_mem s' 0x200200 = 0xCC \<and>
     map_option fst (translate (table_words (ld_mem s')) 0x21000 KERN_VIRT) = Some 0x200000"
proof -
  have st: "loader_static boot_tables" by (simp add: loader_static_def loader_list_def boot_tables_def)
  have ch: "chain boot_dev boot_image (entry_cluster (dir_entry_at (dir_sector (entry_name ([107, 101, 114, 110, 101, 108], [98, 105, 110])) 0x20 4) 0)) [4]"
    using boot_chain [of 4] by (simp add: dir_sector_entry del: chain.simps)
  have lba: "cluster_lba boot_dev 4 = 4" "unat (dev_sectors_per_cluster boot_dev) = 1" by (simp_all add: cluster_lba_def boot_dev_def)
  have len: "length (chain_data boot_dev boot_image [4]) = 512" by (simp add: chain_data_def cluster_data_def lba)
  have nt: "\<not> in_bss boot_tables 0x200000" "\<not> in_bss boot_tables 0x200200" by (simp_all add: in_bss_def boot_tables_def)
  have "chain_data boot_dev boot_image [4] ! 0 = 0x90" by (simp add: chain_data_def cluster_data_def lba boot_image_def)
  then have bytes: "store_bytes (0x200000 :: u32) (chain_data boot_dev boot_image [4]) (\<lambda>_. 0xCC) 0x200000 = 0x90"
    "store_bytes (0x200000 :: u32) (chain_data boot_dev boot_image [4]) (\<lambda>_. 0xCC) 0x200200 = 0xCC"
    by (simp_all add: store_bytes_apply len)
  have ix: "pt_index 39 KERN_VIRT \<noteq> 0" "take_bit 21 KERN_VIRT = 0" by (simp_all add: pt_index_def KERN_VIRT_def)
  note T = boot_entry_correct [where abar = 0 and port = 0 and lba = 64 and sectors = 5 and img = boot_image, unfolded boot_dev_volume, OF boot_serves _ st _ boot_looks_up,
      where blocks = "[\<lparr>e_addr = 0, e_size = 0x9F000, e_type = 1\<rparr>]" and cs = "[4]" and
      s = "\<lparr>ld_mem = \<lambda>_. 0xCC, ld_cache = fat_cache_boot, ld_entries = [], ld_count = 0\<rparr>"]
  from T len ch obtain s' where s': "boot_entry (image_disk boot_image) boot_tables 0 0 64 5 [\<lparr>e_addr = 0, e_size = 0x9F000, e_type = 1\<rparr>]
       \<lparr>ld_mem = \<lambda>_. 0xCC, ld_cache = fat_cache_boot, ld_entries = [], ld_count = 0\<rparr> = Some (Ok (EnterKernel (l_pml4 boot_tables) KERN_VIRT s'))"
    "\<And>a. \<not> in_bss boot_tables a \<Longrightarrow> ld_mem s' a = store_bytes 0x200000 (chain_data boot_dev boot_image [4]) (\<lambda>_. 0xCC) a"
    "\<And>w. map_option fst (translate (table_words (ld_mem s')) (ucast (l_pml4 boot_tables)) w) =
           (if pt_index 39 w = 0 \<and> pt_index 30 w = 0 \<and> pt_index 21 w = 0 then Some (take_bit 21 w)
            else if pt_index 39 w = pt_index 39 KERN_VIRT \<and> pt_index 30 w = pt_index 30 KERN_VIRT \<and> pt_index 21 w = pt_index 21 KERN_VIRT
              then Some (0x200000 + take_bit 21 w)
            else None)" by auto
  have root: "l_pml4 boot_tables = 0x21000" by (simp add: boot_tables_def)
  show ?thesis
    using s'(1) s'(2) [OF nt(1)] s'(2) [OF nt(2)] s'(3) [of KERN_VIRT] by (intro exI [of _ s']) (simp add: root bytes ix)
qed

end
