(* ===== verification/Spec2Isabelle.thy ===== *)
theory Spec2Isabelle
  imports Prelude E820 E820_Correct Frame_Source Bootmem Bootmem_Correct Buddy Buddy_Inv Buddy_Alloc
    Buddy_Init Mem Vmm Vmm_Walk Vmm_Tables Vmm_Map Vmm_Correct Vmm_Space Vmm_User Vmm_Order Vmm_Hhdm Mem_Init
    Desc_Tables Port_Io Sched Sched_Correct Klog Kernel_Entry Task_Space Task_Start Entry_Correct Printk Printk_Correct Console Console_Correct Strings Fat Fat_Correct Boot
begin

text \<open>
  Verification of devOS, a small 64-bit kernel for the PC and the second stage of its loader.

  \<^bold>\<open>The program.\<close> The boot loader, which is another project, starts the second stage (\<^verbatim>\<open>boot/\<close>). It reads \<^verbatim>\<open>system/kernel.bin\<close> from
  a FAT32 volume to 2 MiB, builds page tables for the low 2 MiB and the kernel window, copies the firmware's memory map and jumps into the
  kernel. The kernel (\<^verbatim>\<open>kernel/entry.c\<close>) starts its two log drivers, its descriptor tables and interrupt controller, then its memory: its own
  tables (\<^verbatim>\<open>vmm_init\<close>), the cleaned memory map (\<^verbatim>\<open>e820_init\<close>), the boot-time allocator behind the kernel image (\<^verbatim>\<open>bootmem_init\<close>), the direct map of all
  memory, the array of page descriptors (\<^verbatim>\<open>mem_init\<close>) and the buddy allocator over it (\<^verbatim>\<open>buddy_init\<close>), from which the page tables are taken from then on. Then it
  makes four user tasks, each with an address space of its own, and enters the first one. Every timer tick goes through
  \<^verbatim>\<open>__isr_dispatch\<close> and \<^verbatim>\<open>irq_dispatch\<close> to \<^verbatim>\<open>schedule\<close>, which picks the running task with the least virtual time.

  \<^bold>\<open>Conventions.\<close> Machine integers are words of their width, C \<^verbatim>\<open>int\<close>s that cannot overflow are integers, pointers to objects of an
  array are indices or addresses. Fallible code returns \<open>kres\<close>: \<open>Panic\<close> is a call of \<^verbatim>\<open>panic\<close>, \<open>OutOfBounds\<close>, \<open>NullDeref\<close> and \<open>Undefined\<close> are
  undefined behaviour of C, so ``does not panic'' and ``stays inside its arrays'' are theorems. A loop that need not end is a partial
  function into \<open>option\<close>, and that it ends is proved. Loops over lists use \<open>rfold\<close>. There is no fuel anywhere. A page fault of the kernel is
  the panic \<open>page_fault\<close>, the one its exception handler raises.

  \<^bold>\<open>Pointers and mappings.\<close> A pointer into a page table is turned into a physical address by \<open>mmu\<close>, which inverts the identity map and the
  direct map without looking at the tables. Where the source can use such a pointer before it is mapped the model checks it: a table
  that \<^verbatim>\<open>vmm_map_hhdm\<close> takes from the boot pool must lie below the end of the identity map, and the array of page descriptors must be mapped when
  \<^verbatim>\<open>mem_init\<close> clears it; otherwise the result is a page fault. The stores of \<^verbatim>\<open>make_task\<close> through user addresses go through \<open>translate\<close>.

  \<^bold>\<open>Theories and sources.\<close>
  \<^item> \<open>Prelude\<close>: word types, results, \<^verbatim>\<open>include/math.h\<close>, \<^verbatim>\<open>page.h\<close>, \<^verbatim>\<open>addr.h\<close>, shared lemmas. \<open>Frame_Source\<close>: the contract of an allocator of
    frames, as a locale: a frame handed out was free, belongs to the owner afterwards and is not handed out again. Both allocators
    are interpretations of it, and the page-table proofs use the contract.
  \<^item> \<open>E820\<close>, \<open>E820_Correct\<close>: \<^verbatim>\<open>arch/x86/e820.c\<close>. The sweep over the sorted change points yields a sorted disjoint table that gives every address
    the highest type of the entries covering it, inside its static arrays, the one of the change points included; short maps are lost.
  \<^item> \<open>Bootmem\<close>, \<open>Bootmem_Correct\<close>: \<^verbatim>\<open>arch/x86/bootmem.c\<close>. Pages and segments are the lowest usable frames above the pool, never handed out twice.
  \<^item> \<open>Buddy\<close>, \<open>Buddy_Inv\<close>, \<open>Buddy_Alloc\<close>, \<open>Buddy_Init\<close>: \<^verbatim>\<open>mm/buddy.c\<close>. The invariant (doubly linked free lists, aligned disjoint blocks), what
    allocation and freeing do to the sets of free and allocated blocks, and that start-up frees exactly the usable frames. The merge with a
    free left buddy breaks the invariant in every state in which it happens; the block is then in two lists and can be allocated twice.
  \<^item> \<open>Mem\<close>, \<open>Mem_Init\<close>: \<^verbatim>\<open>mm/mem.c\<close>, \<^verbatim>\<open>bootmem_alloc_mapped\<close> and the memory part of \<^verbatim>\<open>kernel/entry.c\<close>: the whole start-up either panics or ends with a
    well-formed address space and a buddy allocator over exactly the unused frames.
  \<^item> \<open>Vmm\<close> and \<open>Vmm_Walk\<close>, \<open>Vmm_Tables\<close>, \<open>Vmm_Map\<close>, \<open>Vmm_Correct\<close>, \<open>Vmm_Space\<close>, \<open>Vmm_User\<close>, \<open>Vmm_Order\<close>, \<open>Vmm_Hhdm\<close>: \<^verbatim>\<open>arch/x86/vmm.c\<close>. Physical memory is a store of
    words, \<open>translate\<close> is the walk of the hardware. Tables form a tree of distinct owned frames; mapping changes exactly the translations of
    its range; scanning for mappings is exact and ends away from the end of the address space; user address spaces share the kernel half. The
    locale \<open>table_client\<close> is the contract of a property that all clients of the allocation of tables keep; the order of the states follows from two
    interpretations of it. The direct map is complete or ends in a page fault, the latter only when the boot pool reaches behind the identity map.
  \<^item> \<open>Desc_Tables\<close>: \<^verbatim>\<open>gdt.c\<close>, \<^verbatim>\<open>tss.c\<close>, \<^verbatim>\<open>idt.c\<close>, \<^verbatim>\<open>isr_init\<close>: what the processor reads back from the tables. \<open>Port_Io\<close>: \<^verbatim>\<open>io.h\<close>, \<^verbatim>\<open>pic.c\<close>, \<^verbatim>\<open>pit.c\<close>, \<^verbatim>\<open>irq_init\<close> as traces of
    port instructions; the answers of the devices are a parameter.
  \<^item> \<open>Sched\<close>, \<open>Sched_Correct\<close>: \<^verbatim>\<open>sched/sched.c\<close>, \<^verbatim>\<open>irq_dispatch\<close>, \<^verbatim>\<open>__isr_dispatch\<close>: the invariant under any sequence of operations, the choice of
    the task, return to user mode, and no starvation.
  \<^item> \<open>Klog\<close>: \<^verbatim>\<open>printk\<close> with the \<^verbatim>\<open>write\<close> functions of the two drivers behind it, on the port trace they share: a message ends when the serial line
    drains, and the two messages of \<^verbatim>\<open>entry\<close> are free of undefined behaviour.
  \<^item> \<open>Kernel_Entry\<close>: \<^verbatim>\<open>kernel/entry.c\<close>, \<^verbatim>\<open>mm/stack.h\<close>, \<^verbatim>\<open>lib/panic.c\<close>. \<open>Task_Space\<close>, \<open>Task_Start\<close>: \<^verbatim>\<open>make_task\<close> writes to fresh frames only and builds an address space with the
    task's code at its first instruction; after four of them the first task is entered, in the tables of the last one. \<open>Entry_Correct\<close>: the whole of \<^verbatim>\<open>entry\<close>, composed
    of the results on its parts: on a serial line that drains it ends in a panic or in user mode, never in undefined behaviour.
  \<^item> \<open>Printk\<close>, \<open>Printk_Correct\<close>: \<^verbatim>\<open>lib/printk.c\<close>: formatting ends, stays inside its buffers and gives all sinks the same text; the locale \<open>writer\<close>
    is the contract of the output routines; decimal output reads back as its argument.
  \<^item> \<open>Console\<close>, \<open>Console_Correct\<close>: the sinks \<^verbatim>\<open>driver/vga/early_vga.c\<close>, which refines a terminal of rows and a cursor (whose
    cells carry the colour of the level below 0x80 and the attribute 0xFF from 0x80 on), and \<^verbatim>\<open>driver/uart/early_uart.c\<close>.
  \<^item> \<open>Strings\<close>: \<^verbatim>\<open>lib/string.c\<close> and \<^verbatim>\<open>boot/string.c\<close> on byte memory. \<open>Fat\<close>, \<open>Fat_Correct\<close>: \<^verbatim>\<open>boot/fat.c\<close> against a volume image: a file whose chain ends
    arrives in memory, one whose chain is cyclic is read for ever. \<open>Boot\<close>: \<^verbatim>\<open>boot/vmm.c\<close> and \<^verbatim>\<open>boot/main.c\<close>; the file is loaded into the byte memory
    that also holds the page tables, and the translation is read from it.

  \<^bold>\<open>Bounds.\<close> \<open>PHYS_LIMIT\<close> is 2 to the 46: physical memory up to it fits between the base of the direct map and the page descriptor array, and the
  theorems' memory maps stay below it. The waiting time of a task is bounded by 15 times 2 to the 32 ticks: 15 other slots, and virtual
  times below 2 to the 32. Making a task allocates at most 5 times: its root, its pages and 3 tables; each takes at
  most 16 frames out of the free blocks of 16 pages and more, so 320 such frames are enough for four tasks. Free blocks are maximal after start-up, so 20 aligned
  chunks of 64 KiB of RAM, of the 32 below the kernel image, provide them. The loader's variables end below 2 MiB, where the linker script puts them,
  and a file of at most 4 GiB less 2 MiB, loaded from there on, does not wrap around onto them.

  \<^bold>\<open>Environment.\<close> Devices are functions of the history of port instructions; the hypotheses on them are those of the data sheets: the interrupt
  controller reads back its mask, the serial transmitter becomes empty again, the disk driver delivers the sectors of a request that lies
  inside the partition and promises nothing for any other. The addresses of the interrupt stubs and the places of the static tables come from the linker and are arguments.

  \<^bold>\<open>Not modelled.\<close> The assembly stubs (\<^verbatim>\<open>isr.asm\<close>, \<^verbatim>\<open>kernel_entry.asm\<close>) and linker scripts; the boot loader's interface (\<^verbatim>\<open>bl/\<close>, not part of the repository)
  and the data of \<^verbatim>\<open>boot/vbr.c\<close> for it; the translation cache of the processor; the messages that the functions called by
  \<^verbatim>\<open>entry\<close> log and the one of a debug build, which change no state of theirs; \<^verbatim>\<open>printkl\<close> and \<^verbatim>\<open>panic\<close> as variadic wrappers of the modelled functions; headers that only declare.
\<close>

end
